(* ===== verification/Prelude.thy ===== *)
theory Prelude
  imports
    Main
    "HOL-Library.Word"
    "HOL-Library.Char_ord"
    "HOL-Library.List_Lexorder"
    "HOL-Library.Multiset"
    "HOL-Library.AList"
begin

unbundle bit_operations_syntax

text \<open>
  Shared vocabulary of the development: the machine integers of the Go sources, byte strings,
  the big-endian and varint encodings of \<^verbatim>\<open>encoding/binary\<close>, the binary search of
  \<^verbatim>\<open>sort.Search\<close>, and the generic list lemmas the component theories use. Every
  fixed-width integer of the source is a word of that width; a signed \<^verbatim>\<open>int64\<close> is a
  64-bit word read with \<^const>\<open>sint\<close>, so addition and subtraction wrap as in Go.
\<close>

section \<open>Types\<close>

type_synonym u8 = "8 word"
type_synonym u16 = "16 word"
type_synonym u32 = "32 word"
type_synonym u64 = "64 word"
type_synonym i64 = "64 word"
type_synonym float64 = "64 word"
type_synonym bytes = "8 word list"

text \<open>
  A Go \<^verbatim>\<open>float64\<close> is represented by its IEEE bit pattern
  (\<^verbatim>\<open>math.Float64bits\<close> and \<^verbatim>\<open>math.Float64frombits\<close> are then the identity). A Go
  string is a sequence of bytes; Isabelle's \<^typ>\<open>char\<close> is exactly one byte, and the order on
  \<^typ>\<open>string\<close> from \<^verbatim>\<open>Char_ord\<close> and \<^verbatim>\<open>List_Lexorder\<close> is Go's bytewise string order.
\<close>

named_theorems codec_simps \<open>decoding what the matching encoder wrote\<close>

definition str_bytes :: "string \<Rightarrow> bytes" where
  "str_bytes s = map of_char s"

definition bytes_str :: "bytes \<Rightarrow> string" where
  "bytes_str bs = map (\<lambda>b. char_of (unat b)) bs"

lemma bytes_str_bytes [simp, codec_simps]: "bytes_str (str_bytes s) = s"
proof -
  have "char_of (unat (of_char c :: u8)) = c" for c
  proof -
    have "(of_char c :: nat) < 256" by (rule nat_of_char_less_256)
    moreover have "(of_char c :: u8) = of_nat (of_char c)" by (simp only: of_nat_of_char)
    ultimately have "unat (of_char c :: u8) = of_char c"
      by (simp add: unat_of_nat take_bit_nat_eq_self)
    then show ?thesis by simp
  qed
  then show ?thesis by (simp add: bytes_str_def str_bytes_def map_idI)
qed

lemma length_str_bytes [simp]: "length (str_bytes s) = length s"
  by (simp add: str_bytes_def)

lemma str_bytes_inj: "str_bytes s = str_bytes t \<Longrightarrow> s = t"
  by (metis bytes_str_bytes)

section \<open>Big-endian integers (encoding/binary)\<close>

text \<open>
  \<^verbatim>\<open>binary.BigEndian.PutUint16/32/64\<close> write the most significant byte first;
  \<^verbatim>\<open>binary.BigEndian.Uint16/32/64\<close> read them back.
\<close>

fun put_be :: "nat \<Rightarrow> 'a::len word \<Rightarrow> bytes" where
  "put_be 0 x = []"
| "put_be (Suc n) x = ucast (drop_bit (8 * n) x) # put_be n x"

definition get_be :: "bytes \<Rightarrow> 'a::len word" where
  "get_be bs = foldl (\<lambda>acc b. push_bit 8 acc OR ucast b) 0 bs"

definition put_u16 :: "u16 \<Rightarrow> bytes" where "put_u16 = put_be 2"
definition put_u32 :: "u32 \<Rightarrow> bytes" where "put_u32 = put_be 4"
definition put_u64 :: "u64 \<Rightarrow> bytes" where "put_u64 = put_be 8"

lemma length_put_be [simp]: "length (put_be n x) = n"
  by (induction n) auto

lemma length_put_fixed [simp]:
  "length (put_u16 a) = 2" "length (put_u32 b) = 4" "length (put_u64 c) = 8"
  by (simp_all add: put_u16_def put_u32_def put_u64_def)

lemma get_be_fold:
  "foldl (\<lambda>acc b. push_bit 8 acc OR ucast b) a (put_be n x) = push_bit (8 * n) a OR take_bit (8 * n) x"
  for x a :: "'a::len word"
proof (induction n arbitrary: a)
  case 0
  show ?case by simp
next
  case (Suc n)
  show ?case
    by (simp add: Suc) (rule bit_word_eqI, auto simp add: bit_simps add.commute [of _ 8])
qed

lemma get_put_be: "get_be (put_be n x) = take_bit (8 * n) x" for x :: "'a::len word"
  unfolding get_be_def using get_be_fold [of 0 n x] by simp

lemma get_put_fixed [simp, codec_simps]:
  "get_be (put_u16 a) = a" "get_be (put_u32 b) = b" "get_be (put_u64 c) = c"
  using take_bit_word_eq_self [where ?'a = 16] take_bit_word_eq_self [where ?'a = 32]
    take_bit_word_eq_self [where ?'a = 64]
  by (simp_all add: put_u16_def put_u32_def put_u64_def get_put_be)

section \<open>Word lemmas\<close>

lemma unat_drop_bit_less: "0 < k \<Longrightarrow> x \<noteq> 0 \<Longrightarrow> unat (drop_bit k x) < unat (x::'a::len word)"
proof -
  assume "0 < k" "x \<noteq> 0"
  have "unat (drop_bit k x) = unat x div 2 ^ k"
    by (simp only: unat_drop_bit_eq) (simp add: drop_bit_eq_div)
  also have "\<dots> < unat x"
    by (rule div_less_dividend) (use \<open>0 < k\<close> \<open>x \<noteq> 0\<close> in \<open>simp_all add: unat_gt_0 one_less_power flip: One_nat_def\<close>)
  finally show ?thesis .
qed

lemma sless_0_iff: "x <s 0 \<longleftrightarrow> bit x 63" for x :: "64 word"
  using bit_last_iff [of x] by (simp add: word_sless_alt)

lemma drop_push_1: "drop_bit 1 (push_bit 1 x) = (x::64 word)" if "\<not> x <s 0"
proof (rule bit_word_eqI)
  fix n assume "n < LENGTH(64)"
  then show "bit (drop_bit 1 (push_bit 1 x)) n \<longleftrightarrow> bit x n"
    using that unfolding sless_0_iff bit_drop_bit_eq bit_push_bit_iff o_def bit_word_half_eq
    by (cases "n = 63") (auto)
qed

lemma drop_push_2: "NOT (drop_bit 1 (NOT (push_bit 1 x))) = (x::64 word)" if "x <s 0"
proof (rule bit_word_eqI)
  fix n assume "n < LENGTH(64)"
  then show "bit (NOT (drop_bit 1 (NOT (push_bit 1 x)))) n \<longleftrightarrow> bit x n"
    using that unfolding sless_0_iff bit_drop_bit_eq bit_push_bit_iff o_def bit_not_iff
    by (cases "n = 63") (auto simp: bit_simps simp del: push_bit_Suc)
qed

lemma take_bit_word_less: "unat x < 2 ^ n \<Longrightarrow> take_bit n x = (x :: 'a::len word)"
  by (simp add: word_unat_eq_iff unsigned_take_bit_eq take_bit_nat_eq_self_iff)

lemma ucast_u8_small: "x < 0x80 \<Longrightarrow> ucast (ucast x :: 8 word) = (x :: 64 word)"
proof -
  assume "x < 0x80"
  then have "take_bit 8 x = x" by (intro take_bit_word_less) (simp add: word_less_nat_alt)
  moreover have "ucast (ucast x :: 8 word) = (take_bit 8 x :: 64 word)"
    by (rule bit_word_eqI) (auto simp: bit_simps)
  ultimately show ?thesis by simp
qed

section \<open>Varints (encoding/binary)\<close>

text \<open>
  \<^verbatim>\<open>PutUvarint\<close> writes seven bits per byte, least significant group first, with the high bit
  set on every byte but the last. \<^verbatim>\<open>Uvarint\<close> returns the value and the bytes it consumed;
  its non-positive count (a short buffer, or more than 64 bits) is \<^const>\<open>None\<close>, since every
  caller treats both as an error.
\<close>

function put_uvarint :: "u64 \<Rightarrow> bytes" where
  "put_uvarint x =
     (if x \<ge> 0x80 then (ucast x OR 0x80) # put_uvarint (drop_bit 7 x) else [ucast x])"
  by pat_completeness auto
termination
proof (relation "measure unat")
  fix x :: u64
  assume "0x80 \<le> x"
  then have "x \<noteq> 0" by auto
  then show "(drop_bit 7 x, x) \<in> measure unat"
    unfolding in_measure by (intro unat_drop_bit_less) simp
qed simp

declare put_uvarint.simps [simp del]

fun uvarint_loop :: "nat \<Rightarrow> u64 \<Rightarrow> bytes \<Rightarrow> (u64 \<times> nat) option" where
  "uvarint_loop i x [] = None"
| "uvarint_loop i x (b # bs) =
     (if i = 10 then None
      else if b < 0x80 then
        (if i = 9 \<and> b > 1 then None else Some (x OR push_bit (7 * i) (ucast b), i + 1))
      else uvarint_loop (i + 1) (x OR push_bit (7 * i) (ucast (b AND 0x7f))) bs)"

lemma uvarint_cont: "\<not> (ucast x OR 0x80 :: u8) < 0x80"
proof -
  have "bit (ucast x OR 0x80 :: u8) 7" by (simp add: bit_or_iff)
  then have "\<not> take_bit 7 (ucast x OR 0x80 :: u8) = (ucast x OR 0x80 :: u8)"
    by (metis bit_take_bit_iff less_irrefl)
  then show ?thesis using take_bit_word_less [of "ucast x OR 0x80 :: u8" 7] by (auto simp: word_less_nat_alt)
qed

lemma uvarint_group: "push_bit k x = push_bit k (ucast ((ucast x OR 0x80 :: u8) AND 0x7f)) OR push_bit (k + 7) (drop_bit 7 x)" for x :: u64
proof (rule bit_word_eqI)
  fix n assume "n < LENGTH(64)"
  show "bit (push_bit k x) n = bit (push_bit k (ucast ((ucast x OR 0x80 :: u8) AND 0x7f)) OR push_bit (k + 7) (drop_bit 7 x)) n"
  proof (cases "k \<le> n")
    case False
    then show ?thesis by (simp add: bit_push_bit_iff bit_or_iff)
  next
    case True
    define m where "m = n - k"
    have n: "n = k + m" using True by (simp add: m_def)
    have "bit (0x7f :: u8) m \<longleftrightarrow> m < 7"
      using bit_mask_iff [where ?'a = u8, of 7 m] by (simp add: mask_eq_exp_minus_1) auto
    moreover have "bit (0x80 :: u8) m \<longleftrightarrow> m = 7"
      using bit_exp_iff [where ?'a = u8, of 7 m] by (auto)
    ultimately show ?thesis using \<open>n < LENGTH(64)\<close> unfolding n
      by (cases "m < 7") (auto simp add: bit_push_bit_iff bit_or_iff bit_and_iff bit_unsigned_iff bit_drop_bit_eq)
  qed
qed

lemma uvarint_loop_put:
  assumes "unat x < 2 ^ (64 - 7 * i)" and "i \<le> 9"
  shows "uvarint_loop i acc (put_uvarint x @ rest)
    = Some (acc OR push_bit (7 * i) x, i + length (put_uvarint x))"
  using assms
proof (induction x arbitrary: i acc rule: put_uvarint.induct)
  case (1 x)
  show ?case
  proof (cases "x \<ge> 0x80")
    case False
    then have small: "x < 0x80" by simp
    have ux: "unat (ucast x :: u8) = unat x"
      using small by (simp add: unsigned_ucast_eq unsigned_take_bit_eq take_bit_nat_eq_self word_less_nat_alt)
    then have b: "(ucast x :: u8) < 0x80" using small by (simp add: word_less_nat_alt)
    have "\<not> (i = 9 \<and> (ucast x :: u8) > 1)" using 1(2) ux by (auto simp: word_less_nat_alt)
    then show ?thesis using False b small 1(3)
      by (simp add: put_uvarint.simps [of x] ucast_u8_small)
  next
    case True
    then have "128 \<le> unat x" by (simp add: word_le_nat_alt)
    then have i: "i \<le> 8" using 1(2,3) by (cases "i = 9") auto
    have lt: "unat (drop_bit 7 x) < 2 ^ (64 - 7 * (i + 1))"
    proof -
      have "unat (drop_bit 7 x) = unat x div 2 ^ 7"
        by (simp only: unat_drop_bit_eq) (simp add: drop_bit_eq_div)
      moreover have "(2::nat) ^ (64 - 7 * i) = 2 ^ (64 - 7 * (i + 1)) * 2 ^ 7"
        using i by (subst power_add [symmetric]) (rule arg_cong [where f = "power 2"], simp)
      ultimately show ?thesis using 1(2) by (simp add: less_mult_imp_div_less)
    qed
    define y where "y = drop_bit 7 x"
    show ?thesis
      using 1(1) [OF True lt] i True uvarint_cont [of x] uvarint_group [of "7 * i" x]
      unfolding y_def [symmetric]
      by (simp add: put_uvarint.simps [of x] y_def [symmetric] or.assoc add.commute)
  qed
qed

definition get_uvarint :: "bytes \<Rightarrow> (u64 \<times> nat) option" where
  "get_uvarint bs = uvarint_loop 0 0 bs"

definition put_varint :: "i64 \<Rightarrow> bytes" where
  "put_varint x = put_uvarint (if x <s 0 then NOT (push_bit 1 x) else push_bit 1 x)"

definition get_varint :: "bytes \<Rightarrow> (i64 \<times> nat) option" where
  "get_varint bs = (case get_uvarint bs of None \<Rightarrow> None
     | Some (ux, n) \<Rightarrow> Some (if ux AND 1 \<noteq> 0 then NOT (drop_bit 1 ux) else drop_bit 1 ux, n))"

lemma get_put_uvarint [simp, codec_simps]:
  "get_uvarint (put_uvarint x @ rest) = Some (x, length (put_uvarint x))"
  using uvarint_loop_put [of x 0 0 rest] unsigned_less [of x] by (simp add: get_uvarint_def)

lemma get_put_varint [simp, codec_simps]:
  "get_varint (put_varint x @ rest) = Some (x, length (put_varint x))"
proof -
  have "push_bit 1 x AND 1 = 0" and "NOT (push_bit 1 x) AND 1 \<noteq> 0"
    unfolding and_one_eq mod_2_eq_odd by (simp_all add: even_push_bit_iff)
  then show ?thesis
    unfolding get_varint_def put_varint_def get_put_uvarint
    using drop_push_1 [of x] drop_push_2 [of x] by (cases "x <s 0") (simp_all del: push_bit_Suc)
qed

section \<open>Binary search (sort.Search)\<close>

text \<open>
  \<^verbatim>\<open>sort.Search(n, f)\<close>: the loop over \<^verbatim>\<open>[i, j)\<close> that returns the smallest index
  with \<^verbatim>\<open>f\<close> true, for a predicate that is false then true. The model is the library's
  loop, one call per iteration.
\<close>

function search_loop :: "(nat \<Rightarrow> bool) \<Rightarrow> nat \<Rightarrow> nat \<Rightarrow> nat" where
  "search_loop f i j =
     (if i < j then
        (let h = (i + j) div 2 in if \<not> f h then search_loop f (h + 1) j else search_loop f i h)
      else i)"
  by pat_completeness auto
termination
  by (relation "measure (\<lambda>(f, i, j). j - i)") auto

declare search_loop.simps [simp del]

definition sort_search :: "nat \<Rightarrow> (nat \<Rightarrow> bool) \<Rightarrow> nat" where
  "sort_search n f = search_loop f 0 n"

lemma search_loop_spec:
  assumes "i \<le> j" and "\<And>a b. i \<le> a \<Longrightarrow> a \<le> b \<Longrightarrow> b < j \<Longrightarrow> f a \<Longrightarrow> f b"
  shows "i \<le> search_loop f i j \<and> search_loop f i j \<le> j
    \<and> (\<forall>k. i \<le> k \<longrightarrow> k < j \<longrightarrow> (f k \<longleftrightarrow> search_loop f i j \<le> k))"
  using assms
proof (induction f i j rule: search_loop.induct)
  case (1 f i j)
  define h where "h = (i + j) div 2"
  show ?case
  proof (cases "i < j")
    case False
    then show ?thesis using "1.prems" by (auto simp: search_loop.simps)
  next
    case True
    then have h: "i \<le> h" "h < j" by (auto simp: h_def)
    show ?thesis
    proof (cases "f h")
      case fh: True
      have "i \<le> search_loop f i h \<and> search_loop f i h \<le> h
        \<and> (\<forall>k. i \<le> k \<longrightarrow> k < h \<longrightarrow> (f k \<longleftrightarrow> search_loop f i h \<le> k))"
      proof (rule "1.IH"(2) [OF True h_def])
        show "\<not> \<not> f h" using fh by simp
        show "i \<le> h" by (rule h)
        show "f b" if "i \<le> a" "a \<le> b" "b < h" "f a" for a b
          using "1.prems"(2) [of a b] that h by simp
      qed
      moreover have "f k" if "h \<le> k" "k < j" for k
        using "1.prems"(2) [of h k] fh h that by auto
      ultimately show ?thesis
        using True fh h
        by (simp add: search_loop.simps [of f i j] flip: h_def)
          (metis le_less_trans less_imp_le linorder_not_le order_trans)
    next
      case fh: False
      have "h + 1 \<le> search_loop f (h + 1) j \<and> search_loop f (h + 1) j \<le> j
        \<and> (\<forall>k. h + 1 \<le> k \<longrightarrow> k < j \<longrightarrow> (f k \<longleftrightarrow> search_loop f (h + 1) j \<le> k))"
      proof (rule "1.IH"(1) [OF True h_def])
        show "\<not> f h" by (rule fh)
        show "h + 1 \<le> j" using h by simp
        show "f b" if "h + 1 \<le> a" "a \<le> b" "b < j" "f a" for a b
          using "1.prems"(2) [of a b] that h by simp
      qed
      moreover have "\<not> f k" if "i \<le> k" "k \<le> h" for k
        using "1.prems"(2) [of k h] fh h that by auto
      ultimately show ?thesis
        using True fh h
        by (simp add: search_loop.simps [of f i j] flip: h_def)
          (metis Suc_leI Suc_le_lessD le_trans less_imp_le linorder_not_le)
    qed
  qed
qed

lemma sort_search_spec:
  assumes "\<And>a b. a \<le> b \<Longrightarrow> b < n \<Longrightarrow> f a \<Longrightarrow> f b"
  shows "sort_search n f \<le> n" and "k < n \<Longrightarrow> f k \<longleftrightarrow> sort_search n f \<le> k"
  using search_loop_spec [of 0 n f] assms by (auto simp: sort_search_def)

text \<open>
  On an ascending list, searching for the first element that is at least \<open>x\<close> splits the list
  into the elements below \<open>x\<close> and the rest.
\<close>

lemma sort_search_sorted_key:
  fixes key :: "'b \<Rightarrow> 'a::linorder"
  assumes "sorted (map key xs)"
  shows "sort_search (length xs) (\<lambda>i. key (xs ! i) \<ge> x) = length (takeWhile (\<lambda>y. key y < x) xs)"
proof -
  let ?s = "sort_search (length xs) (\<lambda>i. key (xs ! i) \<ge> x)"
  let ?t = "length (takeWhile (\<lambda>y. key y < x) xs)"
  have mono: "key (xs ! b) \<ge> x" if "a \<le> b" "b < length xs" "key (xs ! a) \<ge> x" for a b
    using assms that by (fastforce simp: sorted_iff_nth_mono intro: order_trans)
  have spec1: "?s \<le> length xs"
    by (rule sort_search_spec(1)) (use mono in blast)
  have spec2: "key (xs ! k) \<ge> x \<longleftrightarrow> ?s \<le> k" if "k < length xs" for k
    by (rule sort_search_spec(2) [where f = "\<lambda>i. key (xs ! i) \<ge> x", OF _ that]) (use mono in blast)
  have tl: "?t \<le> length xs" by (rule length_takeWhile_le)
  have "\<not> ?s < ?t"
  proof
    assume lt: "?s < ?t"
    then have "key (xs ! ?s) < x"
      using nth_mem [of ?s "takeWhile (\<lambda>y. key y < x) xs"]
      by (auto dest!: set_takeWhileD simp: takeWhile_nth)
    moreover have "key (xs ! ?s) \<ge> x" using spec2 [of ?s] lt tl by simp
    ultimately show False by simp
  qed
  moreover have "\<not> ?t < ?s"
  proof
    assume lt: "?t < ?s"
    with spec1 have "?t < length xs" by simp
    then have "\<not> key (xs ! ?t) < x" by (rule nth_length_takeWhile)
    with spec2 [of ?t] \<open>?t < length xs\<close> lt show False by simp
  qed
  ultimately show ?thesis by simp
qed

lemmas sort_search_sorted = sort_search_sorted_key [where key = "\<lambda>y. y", simplified]

section \<open>Ascending lists\<close>

abbreviation ascending :: "'a::linorder list \<Rightarrow> bool" where "ascending \<equiv> sorted_wrt (<)"

lemma ascending_search:
  fixes s :: "'a::linorder list" and x :: 'a
  assumes "ascending s"
  defines "i \<equiv> sort_search (length s) (\<lambda>i. s ! i \<ge> x)"
  shows "take i s = filter (\<lambda>y. y < x) s" and "drop i s = filter (\<lambda>y. y \<ge> x) s"
    and "i < length s \<and> s ! i = x \<longleftrightarrow> x \<in> set s"
proof -
  have so: "sorted s" using assms(1) by (simp add: strict_sorted_iff)
  have i: "i = length (takeWhile (\<lambda>y. y < x) s)" unfolding i_def by (rule sort_search_sorted [OF so])
  have tf: "takeWhile (\<lambda>y. y < x) s = filter (\<lambda>y. y < x) s" "dropWhile (\<lambda>y. y < x) s = filter (\<lambda>y. y \<ge> x) s"
    using so
  proof (induction s)
    case (Cons a s)
    {
      case 1 then show ?case using Cons by (fastforce simp: not_less intro!: filter_False [symmetric])
    next
      case 2 then show ?case using Cons by (fastforce simp: not_less intro!: filter_True [symmetric])
    }
  qed simp_all
  show t: "take i s = filter (\<lambda>y. y < x) s" unfolding i by (metis takeWhile_eq_take tf(1))
  show d: "drop i s = filter (\<lambda>y. y \<ge> x) s" unfolding i by (metis dropWhile_eq_drop tf(2))
  show "i < length s \<and> s ! i = x \<longleftrightarrow> x \<in> set s"
  proof
    assume "x \<in> set s"
    then have x: "x \<in> set (drop i s)" by (simp add: d)
    then have l: "i < length s" by (metis drop_all empty_iff linorder_not_le set_empty)
    then have c: "drop i s = s ! i # drop (Suc i) s" by (rule Cons_nth_drop_Suc [symmetric])
    have "sorted (drop i s)" using so by (rule sorted_wrt_drop)
    then have "s ! i \<le> x" using x unfolding c by auto
    moreover have "s ! i \<ge> x" using arg_cong [OF c, of set] d by auto
    ultimately show "i < length s \<and> s ! i = x" using l by simp
  qed auto
qed

lemma ascending_unique: "ascending xs \<Longrightarrow> ascending ys \<Longrightarrow> set xs = set ys \<Longrightarrow> xs = ys"
  by (rule strict_sorted_equal)

lemma ascending_sort: "distinct xs \<Longrightarrow> ascending (sort xs)"
  by (simp add: strict_sorted_iff)

section \<open>Signed differences\<close>

lemma sint_diff_wrap:
  fixes a b :: i64
  assumes "sint a \<le> sint b"
  shows "sint (b - a) = (if sint b - sint a < 2 ^ 63 then sint b - sint a else sint b - sint a - 2 ^ 64)"
proof -
  let ?d = "sint b - sint a"
  have r: "- (2 ^ 63) \<le> sint a" "sint b < 2 ^ 63"
    using sint_range_size [of a] sint_range_size [of b] by (simp_all add: word_size)
  have e: "sint (b - a) = signed_take_bit 63 ?d" by (simp add: sint_word_ariths)
  show ?thesis
  proof (cases "?d < 2 ^ 63")
    case True
    then have "signed_take_bit 63 ?d = ?d" using assms by (intro signed_take_bit_int_eq_self) simp_all
    with True e show ?thesis by simp
  next
    case False
    have "take_bit (Suc 63) ?d = take_bit (Suc 63) (?d - 2 ^ 64)" by (simp add: take_bit_eq_mod)
    then have "signed_take_bit 63 ?d = signed_take_bit 63 (?d - 2 ^ 64)"
      by (simp only: signed_take_bit_eq_iff_take_bit_eq)
    also have "\<dots> = ?d - 2 ^ 64" using False r by (intro signed_take_bit_int_eq_self) simp_all
    finally show ?thesis using False e by simp
  qed
qed

lemma sint_add_fits:
  fixes a b :: i64
  assumes "- (2 ^ 63) \<le> sint a + sint b" "sint a + sint b < 2 ^ 63"
  shows "sint (a + b) = sint a + sint b"
proof -
  have "sint (a + b) = signed_take_bit 63 (sint a + sint b)" by (simp add: sint_word_ariths)
  also have "\<dots> = sint a + sint b" using assms by (intro signed_take_bit_int_eq_self) simp_all
  finally show ?thesis .
qed

lemma sint_sub_fits:
  fixes a b :: i64
  assumes "- (2 ^ 63) \<le> sint a - sint b" "sint a - sint b < 2 ^ 63"
  shows "sint (a - b) = sint a - sint b"
proof -
  have "sint (a - b) = signed_take_bit 63 (sint a - sint b)" by (simp add: sint_word_ariths)
  also have "\<dots> = sint a - sint b" using assms by (intro signed_take_bit_int_eq_self) simp_all
  finally show ?thesis .
qed

section \<open>Association lists\<close>

lemma alist_update_new: "map_of xs k = None \<Longrightarrow> AList.update k v xs = xs @ [(k, v)]"
  by (induction xs) (auto split: if_splits)

lemma alist_split:
  assumes "distinct (map fst xs)" "map_of xs k = Some v"
  obtains ys zs where "xs = ys @ (k, v) # zs" "map_of ys k = None" "map_of zs k = None"
    "\<And>v'. AList.update k v' xs = ys @ (k, v') # zs" "AList.delete k xs = ys @ zs"
proof -
  obtain ys zs where xs: "xs = ys @ (k, v) # zs" using assms(2) by (metis map_of_SomeD split_list)
  have n: "k \<notin> fst ` set ys" "k \<notin> fst ` set zs" using assms(1) by (auto simp: xs)
  have up: "AList.update k v' (ys @ (k, v) # zs) = ys @ (k, v') # zs" for v'
    using n(1) by (induction ys) auto
  have "filter (\<lambda>(k', _). k \<noteq> k') ws = ws" if "k \<notin> fst ` set ws" for ws :: "('a \<times> 'b) list"
    using that by (induction ws) auto
  then have "AList.delete k (ys @ (k, v) # zs) = ys @ zs" using n by (simp add: AList.delete_eq)
  then show thesis using n by (intro that [of ys zs]) (simp_all add: xs up map_of_eq_None_iff)
qed

end
