(* ===== verification/Chunk.thy ===== *)
theory Chunk
  imports Prelude
begin

text \<open>
  The metrics chunk of \<^verbatim>\<open>internal/storage/chunk/chunk.go\<close>: Gorilla/XOR encoding of samples
  into a bit stream, the per-sample write generations, the sealing rule, the serialized form
  and its validating reader. Definitions first, in the order of the source; then the bit-stream
  abstraction, the codec round trips, the append/iterate simulation, and the serialization
  round trip.
\<close>

section \<open>Constants and errors\<close>

definition maxSamples :: u16 where "maxSamples = 120"
definition maxSpanMs :: i64 where "maxSpanMs = 7200000"
definition chunkHeaderLen :: nat where "chunkHeaderLen = 26"
definition MaxGeneration :: i64 where "MaxGeneration = 0x4000000000000000"
definition chunkMagicV1 :: bytes where "chunkMagicV1 = [0x9C, 0x43, 0x48, 0x01]"

datatype chunk_error =
    ErrChunkFull
  | ErrGenerationRange
  | ErrUnrecognizedFormat
  | ErrBitstreamLength
  | ErrEmptyHeader
  | ErrEmptyPayload
  | ErrDecode
  | ErrSampleCount
  | ErrBoundsMismatch
  | ErrTrailingBytes
  | ErrGenVarint
  | ErrGenOverflow
  | ErrGenTrailing

section \<open>Bit writer and bit reader\<close>

text \<open>
  \<^verbatim>\<open>nBits\<close> is a \<^verbatim>\<open>uint8\<close> that both types keep between 0 and 8, so it is a \<^typ>\<open>nat\<close> here.
\<close>

record bitsWriter =
  bw_buf :: bytes
  bw_cur :: u8
  bw_nBits :: nat

definition writeBit :: "bitsWriter \<Rightarrow> u8 \<Rightarrow> bitsWriter" where
  "writeBit w b =
     (let cur = (if b \<noteq> 0 then bw_cur w OR push_bit (7 - bw_nBits w) 1 else bw_cur w);
          n = bw_nBits w + 1
      in if n = 8 then \<lparr>bw_buf = bw_buf w @ [cur], bw_cur = 0, bw_nBits = 0\<rparr>
         else \<lparr>bw_buf = bw_buf w, bw_cur = cur, bw_nBits = n\<rparr>)"

fun writeBits :: "bitsWriter \<Rightarrow> u64 \<Rightarrow> nat \<Rightarrow> bitsWriter" where
  "writeBits w val 0 = w"
| "writeBits w val (Suc i) = writeBits (writeBit w (ucast (drop_bit i val AND 1))) val i"

definition bw_bytes :: "bitsWriter \<Rightarrow> bytes" where
  "bw_bytes w = (if bw_nBits w = 0 then bw_buf w else bw_buf w @ [bw_cur w])"

record bitsReader =
  br_buf :: bytes
  br_pos :: nat
  br_cur :: u8
  br_nBits :: nat

definition newBitsReader :: "bytes \<Rightarrow> bitsReader" where
  "newBitsReader buf = \<lparr>br_buf = buf, br_pos = 0, br_cur = 0, br_nBits = 0\<rparr>"

text \<open>\<^const>\<open>None\<close> is \<^verbatim>\<open>io.EOF\<close>, the only error of the reader.\<close>

definition readBit :: "bitsReader \<Rightarrow> (u8 \<times> bitsReader) option" where
  "readBit r =
     (let loaded =
        (if br_nBits r = 0 then
           (if br_pos r \<ge> length (br_buf r) then None
            else Some (r\<lparr>br_cur := br_buf r ! br_pos r, br_pos := br_pos r + 1, br_nBits := 8\<rparr>))
         else Some r)
      in case loaded of None \<Rightarrow> None
         | Some r1 \<Rightarrow> Some (drop_bit 7 (br_cur r1) AND 1,
             r1\<lparr>br_cur := push_bit 1 (br_cur r1), br_nBits := br_nBits r1 - 1\<rparr>))"

fun readBits_loop :: "nat \<Rightarrow> u64 \<Rightarrow> bitsReader \<Rightarrow> (u64 \<times> bitsReader) option" where
  "readBits_loop 0 val r = Some (val, r)"
| "readBits_loop (Suc n) val r =
     (case readBit r of None \<Rightarrow> None
      | Some (b, r') \<Rightarrow> readBits_loop n (push_bit 1 val OR ucast b) r')"

definition readBits :: "bitsReader \<Rightarrow> nat \<Rightarrow> (u64 \<times> bitsReader) option" where
  "readBits r n = readBits_loop (if n > 64 then 64 else n) 0 r"

section \<open>Encoding helpers\<close>

definition zigzagEncode :: "i64 \<Rightarrow> u64" where
  "zigzagEncode v = push_bit 1 v XOR signed_drop_bit 63 v"

definition zigzagDecode :: "u64 \<Rightarrow> i64" where
  "zigzagDecode v = drop_bit 1 v XOR - (v AND 1)"

text \<open>\<^verbatim>\<open>math/bits\<close>: leading and trailing zeros of a 64-bit word (64 for zero).\<close>

definition LeadingZeros64 :: "u64 \<Rightarrow> nat" where
  "LeadingZeros64 x = length (takeWhile (\<lambda>i. \<not> bit x i) (rev [0..<64]))"

definition TrailingZeros64 :: "u64 \<Rightarrow> nat" where
  "TrailingZeros64 x = length (takeWhile (\<lambda>i. \<not> bit x i) [0..<64])"

record chunk =
  c_minTs :: i64
  c_maxTs :: i64
  c_numSamples :: u16
  c_sealed :: bool
  c_bw :: bitsWriter
  c_gens :: "i64 list"
  c_maxGen :: i64
  c_lastTs :: i64
  c_lastDelta :: i64
  c_lastVal :: u64
  c_lastLeading :: u8
  c_lastTrailing :: u8

definition NewChunk :: chunk where
  "NewChunk = \<lparr>c_minTs = 0, c_maxTs = 0, c_numSamples = 0, c_sealed = False,
     c_bw = \<lparr>bw_buf = [], bw_cur = 0, bw_nBits = 0\<rparr>, c_gens = [], c_maxGen = 0,
     c_lastTs = 0, c_lastDelta = 0, c_lastVal = 0, c_lastLeading = 0xff, c_lastTrailing = 0\<rparr>"

definition writeTimestampDod :: "chunk \<Rightarrow> i64 \<Rightarrow> chunk" where
  "writeTimestampDod c dod =
     (let bw = c_bw c in
      c\<lparr>c_bw :=
        (if dod = 0 then writeBit bw 0
         else if -64 \<le> sint dod \<and> sint dod \<le> 63
           then writeBits (writeBits bw 2 2) (zigzagEncode dod) 7
         else if -256 \<le> sint dod \<and> sint dod \<le> 255
           then writeBits (writeBits bw 6 3) (zigzagEncode dod) 9
         else if -2048 \<le> sint dod \<and> sint dod \<le> 2047
           then writeBits (writeBits bw 14 4) (zigzagEncode dod) 12
         else writeBits (writeBits bw 15 4) (zigzagEncode dod) 64)\<rparr>)"

definition writeValueXOR :: "chunk \<Rightarrow> u64 \<Rightarrow> chunk" where
  "writeValueXOR c val =
     (let xor = c_lastVal c XOR val in
      if xor = 0 then c\<lparr>c_bw := writeBit (c_bw c) 0\<rparr>
      else
        let lz0 = of_nat (LeadingZeros64 xor) :: u8;
            tz = of_nat (TrailingZeros64 xor) :: u8;
            lz = (if lz0 > 31 then 31 else lz0);
            sigBits = 64 - lz - tz;
            bw = writeBit (c_bw c) 1
        in if c_lastLeading c \<noteq> 0xff \<and> lz \<ge> c_lastLeading c \<and> tz \<ge> c_lastTrailing c
           then
             let prevSigBits = 64 - c_lastLeading c - c_lastTrailing c
             in c\<lparr>c_bw := writeBits (writeBit bw 0)
                    (drop_bit (unat (c_lastTrailing c)) xor) (unat prevSigBits)\<rparr>
           else
             c\<lparr>c_bw :=
                 writeBits (writeBits (writeBits (writeBit bw 1) (ucast lz) 5)
                   (ucast (sigBits - 1)) 6) (drop_bit (unat tz) xor) (unat sigBits),
               c_lastLeading := lz, c_lastTrailing := tz\<rparr>)"

definition Append :: "chunk \<Rightarrow> i64 \<Rightarrow> float64 \<Rightarrow> i64 \<Rightarrow> chunk_error + chunk" where
  "Append c tsMs v gen =
     (if c_sealed c then Inl ErrChunkFull
      else if gen <s 0 \<or> MaxGeneration <s gen then Inl ErrGenerationRange
      else
        let c1 = c\<lparr>c_gens := c_gens c @ [gen],
                   c_maxGen := (if c_maxGen c <s gen then gen else c_maxGen c)\<rparr>
        in if c_numSamples c1 = 0 then
             Inr (c1\<lparr>c_bw := writeBits (writeBits (c_bw c1) tsMs 64) v 64,
                     c_minTs := tsMs, c_maxTs := tsMs, c_lastTs := tsMs, c_lastVal := v,
                     c_numSamples := c_numSamples c1 + 1\<rparr>)
           else
             let delta = tsMs - c_lastTs c1;
                 dod = delta - c_lastDelta c1;
                 c2 = (writeTimestampDod c1 dod)\<lparr>c_lastDelta := delta, c_lastTs := tsMs\<rparr>;
                 c3 = (if tsMs <s c_minTs c2 then c2\<lparr>c_minTs := tsMs\<rparr> else c2);
                 c4 = (if c_maxTs c3 <s tsMs then c3\<lparr>c_maxTs := tsMs\<rparr> else c3);
                 c5 = (writeValueXOR c4 v)\<lparr>c_lastVal := v, c_numSamples := c_numSamples c4 + 1\<rparr>;
                 span = c_maxTs c5 - c_minTs c5
             in Inr (if c_numSamples c5 \<ge> maxSamples \<or> span <s 0 \<or> maxSpanMs \<le>s span
                     then c5\<lparr>c_sealed := True\<rparr> else c5))"

definition Seal :: "chunk \<Rightarrow> chunk" where
  "Seal c = c\<lparr>c_sealed := True\<rparr>"

definition Sealed :: "chunk \<Rightarrow> bool" where "Sealed c = c_sealed c"
definition NumSamples :: "chunk \<Rightarrow> nat" where "NumSamples c = unat (c_numSamples c)"

section \<open>Iterator\<close>

text \<open>
  The iterator's decode helpers return \<^const>\<open>None\<close> for \<^verbatim>\<open>io.EOF\<close>. After an error
  \<^verbatim>\<open>Next\<close> never reads again (it tests \<^verbatim>\<open>err\<close> first), so the reader position it leaves
  behind is not kept.
\<close>

record iterator =
  it_br :: bitsReader
  it_total :: nat
  it_n :: nat
  it_gens :: "i64 list"
  it_lastTs :: i64
  it_lastDelta :: i64
  it_lastVal :: u64
  it_lastLeading :: u8
  it_lastTrailing :: u8
  it_curTs :: i64
  it_curVal :: float64
  it_err :: bool

definition Iterator :: "chunk \<Rightarrow> iterator" where
  "Iterator c = \<lparr>it_br = newBitsReader (bw_bytes (c_bw c)), it_total = unat (c_numSamples c),
     it_n = 0, it_gens = c_gens c, it_lastTs = 0, it_lastDelta = 0, it_lastVal = 0,
     it_lastLeading = 0xff, it_lastTrailing = 0, it_curTs = 0, it_curVal = 0, it_err = False\<rparr>"

definition decodeTimestamp :: "bitsReader \<Rightarrow> (i64 \<times> bitsReader) option" where
  "decodeTimestamp r0 =
     (case readBit r0 of None \<Rightarrow> None | Some (b0, r1) \<Rightarrow>
      if b0 = 0 then Some (0, r1) else
      case readBit r1 of None \<Rightarrow> None | Some (b1, r2) \<Rightarrow>
      if b1 = 0 then map_option (apfst zigzagDecode) (readBits r2 7) else
      case readBit r2 of None \<Rightarrow> None | Some (b2, r3) \<Rightarrow>
      if b2 = 0 then map_option (apfst zigzagDecode) (readBits r3 9) else
      case readBit r3 of None \<Rightarrow> None | Some (b3, r4) \<Rightarrow>
      if b3 = 0 then map_option (apfst zigzagDecode) (readBits r4 12)
      else map_option (apfst zigzagDecode) (readBits r4 64))"

text \<open>
  \<^verbatim>\<open>decodeValue\<close> returns the value, the reader, and the (possibly new) leading and trailing
  counts. The shifts by a \<^verbatim>\<open>uint8\<close> amount give zero at 64 and above, as \<^const>\<open>push_bit\<close> does.
\<close>

definition decodeValue ::
  "u64 \<Rightarrow> u8 \<Rightarrow> u8 \<Rightarrow> bitsReader \<Rightarrow> (u64 \<times> u8 \<times> u8 \<times> bitsReader) option" where
  "decodeValue lastVal lastLeading lastTrailing r0 =
     (case readBit r0 of None \<Rightarrow> None | Some (b0, r1) \<Rightarrow>
      if b0 = 0 then Some (lastVal, lastLeading, lastTrailing, r1) else
      case readBit r1 of None \<Rightarrow> None | Some (b1, r2) \<Rightarrow>
      if b1 = 0 then
        (let sigBits = 64 - lastLeading - lastTrailing in
         case readBits r2 (unat sigBits) of None \<Rightarrow> None | Some (v, r3) \<Rightarrow>
         Some (lastVal XOR push_bit (unat lastTrailing) v, lastLeading, lastTrailing, r3))
      else
        case readBits r2 5 of None \<Rightarrow> None | Some (lzBits, r3) \<Rightarrow>
        case readBits r3 6 of None \<Rightarrow> None | Some (sbMinus1, r4) \<Rightarrow>
        let sigBits = ucast sbMinus1 + 1 :: u8 in
        case readBits r4 (unat sigBits) of None \<Rightarrow> None | Some (v, r5) \<Rightarrow>
        let lz = ucast lzBits :: u8; tz = 64 - lz - sigBits in
        Some (lastVal XOR push_bit (unat tz) v, lz, tz, r5))"

definition Next :: "iterator \<Rightarrow> bool \<times> iterator" where
  "Next it =
     (if it_n it \<ge> it_total it \<or> it_err it then (False, it)
      else if it_n it = 0 then
        (case readBits (it_br it) 64 of None \<Rightarrow> (False, it\<lparr>it_err := True\<rparr>)
         | Some (ts, r1) \<Rightarrow>
           (case readBits r1 64 of None \<Rightarrow> (False, it\<lparr>it_err := True\<rparr>)
            | Some (val, r2) \<Rightarrow>
              (True, it\<lparr>it_br := r2, it_lastTs := ts, it_lastVal := val, it_curTs := ts,
                        it_curVal := val, it_n := it_n it + 1\<rparr>)))
      else
        (case decodeTimestamp (it_br it) of None \<Rightarrow> (False, it\<lparr>it_err := True\<rparr>)
         | Some (dod, r1) \<Rightarrow>
           (let delta = it_lastDelta it + dod; ts = it_lastTs it + delta in
            case decodeValue (it_lastVal it) (it_lastLeading it) (it_lastTrailing it) r1 of
              None \<Rightarrow> (False, it\<lparr>it_lastDelta := delta, it_lastTs := ts, it_err := True\<rparr>)
            | Some (val, lz, tz, r2) \<Rightarrow>
              (True, it\<lparr>it_br := r2, it_lastDelta := delta, it_lastTs := ts, it_lastVal := val,
                        it_lastLeading := lz, it_lastTrailing := tz, it_curTs := ts,
                        it_curVal := val, it_n := it_n it + 1\<rparr>))))"

definition At :: "iterator \<Rightarrow> i64 \<times> float64" where
  "At it = (it_curTs it, it_curVal it)"

definition Gen :: "iterator \<Rightarrow> i64" where
  "Gen it = (if it_n it = 0 \<or> it_n it - 1 \<ge> length (it_gens it) then 0
             else it_gens it ! (it_n it - 1))"

lemma Next_progress: "Next it = (True, it') \<Longrightarrow> it_n it' = it_n it + 1 \<and> it_total it' = it_total it
    \<and> it_n it < it_total it \<and> it_gens it' = it_gens it"
  by (auto simp: Next_def Let_def split: if_splits option.splits prod.splits)

text \<open>
  The loop \<^verbatim>\<open>for it.Next() { ... it.At() ... it.Gen() ... }\<close> every reader of a chunk runs:
  the samples it sees and the iterator it ends with.
\<close>

type_synonym csample = "i64 \<times> float64 \<times> i64"

function drain :: "iterator \<Rightarrow> csample list \<times> iterator" where
  "drain it = (case Next it of
      (True, it') \<Rightarrow> (let (ss, it'') = drain it' in ((fst (At it'), snd (At it'), Gen it') # ss, it''))
    | (False, it') \<Rightarrow> ([], it'))"
  by pat_completeness auto
termination
  by (relation "measure (\<lambda>it. it_total it - it_n it)") (auto dest!: Next_progress [OF sym])

declare drain.simps [simp del]

section \<open>Serialization\<close>

fun putGens :: "i64 \<Rightarrow> i64 list \<Rightarrow> bytes" where
  "putGens prev [] = []"
| "putGens prev (g # gs) = put_varint (g - prev) @ putGens g gs"

definition genSection :: "i64 list \<Rightarrow> bytes" where
  "genSection gs = (case gs of [] \<Rightarrow> [] | g # rest \<Rightarrow> put_uvarint g @ putGens g rest)"

definition Bytes :: "chunk \<Rightarrow> bytes" where
  "Bytes c =
     (let bitstream = bw_bytes (c_bw c) in
      chunkMagicV1 @ put_u64 (c_minTs c) @ put_u64 (c_maxTs c) @ put_u16 (c_numSamples c)
        @ put_u32 (of_nat (length bitstream)) @ bitstream @ genSection (c_gens c))"

fun foldMinMax :: "i64 \<Rightarrow> i64 \<Rightarrow> csample list \<Rightarrow> i64 \<times> i64" where
  "foldMinMax mn mx [] = (mn, mx)"
| "foldMinMax mn mx ((ts, _, _) # ss) =
     foldMinMax (if ts <s mn then ts else mn) (if mx <s ts then ts else mx) ss"

definition decodeAndValidate :: "i64 \<Rightarrow> i64 \<Rightarrow> u16 \<Rightarrow> bytes \<Rightarrow> chunk_error + chunk" where
  "decodeAndValidate minTs maxTs numSamples payload =
     (let c = NewChunk\<lparr>c_minTs := minTs, c_maxTs := maxTs, c_numSamples := numSamples,
                c_sealed := True, c_bw := \<lparr>bw_buf = payload, bw_cur = 0, bw_nBits = 0\<rparr>\<rparr>
      in if numSamples = 0 then
           (if minTs \<noteq> 0 \<or> maxTs \<noteq> 0 then Inl ErrEmptyHeader
            else if payload \<noteq> [] then Inl ErrEmptyPayload
            else Inr c)
         else
           let (ss, it) = drain (Iterator c);
               (gotMin, gotMax) = (case ss of [] \<Rightarrow> (0, 0) | (ts, _, _) # rest \<Rightarrow> foldMinMax ts ts rest)
           in if it_err it then Inl ErrDecode
              else if length ss \<noteq> unat numSamples then Inl ErrSampleCount
              else if gotMin \<noteq> minTs \<or> gotMax \<noteq> maxTs then Inl ErrBoundsMismatch
              else if br_pos (it_br it) < length (br_buf (it_br it)) then Inl ErrTrailingBytes
              else Inr c)"

fun decodeDeltas :: "nat \<Rightarrow> i64 \<Rightarrow> bytes \<Rightarrow> chunk_error + i64 list" where
  "decodeDeltas 0 prev data = (if data = [] then Inr [] else Inl ErrGenTrailing)"
| "decodeDeltas (Suc n) prev data =
     (case get_varint data of None \<Rightarrow> Inl ErrGenVarint
      | Some (d, m) \<Rightarrow>
        let sum = prev + d in
        if (0 <s d \<and> sum <s prev) \<or> (d <s 0 \<and> prev <s sum) then Inl ErrGenOverflow
        else if sum <s 0 \<or> MaxGeneration <s sum then Inl ErrGenerationRange
        else (case decodeDeltas n sum (drop m data) of Inl e \<Rightarrow> Inl e | Inr gs \<Rightarrow> Inr (sum # gs)))"

definition decodeGens :: "bytes \<Rightarrow> nat \<Rightarrow> chunk_error + i64 list" where
  "decodeGens data n0 =
     (case n0 of 0 \<Rightarrow> (if data = [] then Inr [] else Inl ErrGenTrailing)
      | Suc n \<Rightarrow>
        (case get_uvarint data of None \<Rightarrow> Inl ErrGenVarint
         | Some (v, m) \<Rightarrow>
           if v > MaxGeneration then Inl ErrGenerationRange
           else (case decodeDeltas n v (drop m data) of Inl e \<Rightarrow> Inl e | Inr gs \<Rightarrow> Inr (v # gs))))"

definition maxGenOf :: "i64 list \<Rightarrow> i64" where
  "maxGenOf gs = foldl (\<lambda>m g. if m <s g then g else m) 0 gs"

definition FromBytes :: "bytes \<Rightarrow> chunk_error + chunk" where
  "FromBytes data =
     (if length data < chunkHeaderLen \<or> take 4 data \<noteq> chunkMagicV1 then Inl ErrUnrecognizedFormat
      else
        let minTs = get_be (take 8 (drop 4 data));
            maxTs = get_be (take 8 (drop 12 data));
            numSamples = get_be (take 2 (drop 20 data));
            bitLen = unat (get_be (take 4 (drop 22 data)) :: u32)
        in if chunkHeaderLen + bitLen > length data then Inl ErrBitstreamLength
           else
             case decodeAndValidate minTs maxTs numSamples (take bitLen (drop chunkHeaderLen data)) of
               Inl e \<Rightarrow> Inl e
             | Inr c \<Rightarrow>
               (case decodeGens (drop (chunkHeaderLen + bitLen) data) (unat numSamples) of
                  Inl e \<Rightarrow> Inl e
                | Inr gens \<Rightarrow> Inr (c\<lparr>c_gens := gens, c_maxGen := maxGenOf gens\<rparr>)))"

section \<open>Last-write-wins order\<close>

definition Outranks :: "i64 \<Rightarrow> float64 \<Rightarrow> i64 \<Rightarrow> float64 \<Rightarrow> bool" where
  "Outranks genA valA genB valB = (if genA \<noteq> genB then genB <s genA else valB < valA)"

section \<open>Bit streams\<close>

text \<open>
  The abstraction of writer and reader: the list of bits written so far and the list of bits
  still to be read, most significant bit of each byte first.
\<close>

definition bits_of :: "'a::len word \<Rightarrow> nat \<Rightarrow> bool list" where
  "bits_of v n = map (bit v) (rev [0..<n])"

definition byte_bits :: "u8 \<Rightarrow> bool list" where
  "byte_bits b = bits_of b 8"

lemma length_bits_of [simp]: "length (bits_of v n) = n" by (simp add: bits_of_def)

lemma nth_bits_of: "i < n \<Longrightarrow> bits_of v n ! i = bit v (n - 1 - i)"
  by (simp add: bits_of_def rev_nth)

lemma bits_of_Suc: "bits_of v (Suc n) = bit v n # bits_of v n" by (simp add: bits_of_def)

lemma bits_of_0 [simp]: "bits_of v 0 = []" by (simp add: bits_of_def)

lemma length_byte_bits [simp]: "length (byte_bits b) = 8" by (simp add: byte_bits_def)

definition wf_bw :: "bitsWriter \<Rightarrow> bool" where
  "wf_bw w \<longleftrightarrow> bw_nBits w < 8 \<and> (\<forall>i < 8 - bw_nBits w. \<not> bit (bw_cur w) i)"

definition bw_bits :: "bitsWriter \<Rightarrow> bool list" where
  "bw_bits w = concat (map byte_bits (bw_buf w)) @ take (bw_nBits w) (byte_bits (bw_cur w))"

lemma take_Suc_byte:
  assumes "k < 8" and "\<forall>i < 8 - k. \<not> bit cur i"
  shows "take (Suc k) (byte_bits (if x then cur OR push_bit (7 - k) 1 else cur)) = take k (byte_bits cur) @ [x]"
    (is "take _ (byte_bits ?c) = _")
proof (rule nth_equalityI)
  show "length (take (Suc k) (byte_bits ?c)) = length (take k (byte_bits cur) @ [x])"
    using assms(1) by simp
next
  fix i assume "i < length (take (Suc k) (byte_bits ?c))"
  then have i: "i < Suc k" by simp
  have m: "bit (push_bit (7 - k) (1::u8)) (7 - i) \<longleftrightarrow> i = k"
    using i assms(1) by (auto simp: bit_exp_iff)
  show "take (Suc k) (byte_bits ?c) ! i = (take k (byte_bits cur) @ [x]) ! i"
    using i assms m by (cases "i = k") (auto simp: nth_append byte_bits_def nth_bits_of bit_or_iff)
qed

lemma writeBit_bits:
  assumes "wf_bw w"
  shows "wf_bw (writeBit w b)" and "bw_bits (writeBit w b) = bw_bits w @ [b \<noteq> 0]"
proof -
  let ?k = "bw_nBits w" and ?cur = "bw_cur w"
  let ?c = "if b \<noteq> 0 then ?cur OR push_bit (7 - ?k) 1 else ?cur"
  from assms have k: "?k < 8" and z: "\<forall>i < 8 - ?k. \<not> bit ?cur i" by (auto simp: wf_bw_def)
  note T = take_Suc_byte [OF k z, of "b \<noteq> 0"]
  have z': "\<not> bit ?c i" if "i < 7 - ?k" for i
    using z that k by (auto simp: bit_or_iff bit_exp_iff)
  show "wf_bw (writeBit w b)"
    using k z' by (auto simp: wf_bw_def writeBit_def Let_def)
  show "bw_bits (writeBit w b) = bw_bits w @ [b \<noteq> 0]"
  proof (cases "?k = 7")
    case True
    then have "byte_bits ?c = take 7 (byte_bits ?cur) @ [b \<noteq> 0]" using T by simp
    with True show ?thesis by (simp add: bw_bits_def writeBit_def Let_def)
  next
    case False
    with T show ?thesis by (simp add: bw_bits_def writeBit_def Let_def)
  qed
qed

lemma bit0_word: "(ucast (drop_bit i v AND 1) :: u8) \<noteq> 0 \<longleftrightarrow> bit v i" for v :: u64
proof -
  have "drop_bit i v AND 1 = (if bit v i then 1 else 0)"
    by (simp add: and_one_eq mod_2_eq_odd bit_iff_odd_drop_bit)
  then show ?thesis by simp
qed

lemma writeBits_bits:
  assumes "wf_bw w"
  shows "wf_bw (writeBits w v n)" and "bw_bits (writeBits w v n) = bw_bits w @ bits_of v n"
  using assms
  by (induction n arbitrary: w)
    (simp_all add: writeBit_bits bits_of_Suc bit0_word)

definition pad_len :: "bitsWriter \<Rightarrow> nat" where "pad_len w = (if bw_nBits w = 0 then 0 else 8 - bw_nBits w)"

lemma bw_bytes_bits:
  assumes "wf_bw w"
  shows "concat (map byte_bits (bw_bytes w)) = bw_bits w @ replicate (pad_len w) False"
proof (cases "bw_nBits w = 0")
  case True
  then show ?thesis by (simp add: bw_bytes_def bw_bits_def pad_len_def)
next
  case False
  have "byte_bits (bw_cur w) = take (bw_nBits w) (byte_bits (bw_cur w)) @ replicate (8 - bw_nBits w) False"
  proof (rule nth_equalityI)
    fix i assume "i < length (byte_bits (bw_cur w))"
    then show "byte_bits (bw_cur w) ! i = (take (bw_nBits w) (byte_bits (bw_cur w)) @ replicate (8 - bw_nBits w) False) ! i"
      using assms by (auto simp: nth_append wf_bw_def byte_bits_def nth_bits_of)
  qed (use assms in \<open>simp add: wf_bw_def\<close>)
  with False show ?thesis by (simp add: bw_bytes_def bw_bits_def pad_len_def)
qed

definition rd_ok :: "bitsReader \<Rightarrow> bool list \<Rightarrow> bool" where
  "rd_ok r bs \<longleftrightarrow> br_nBits r \<le> 8 \<and> br_pos r \<le> length (br_buf r)
     \<and> bs = take (br_nBits r) (byte_bits (br_cur r)) @ concat (map byte_bits (drop (br_pos r) (br_buf r)))"

lemma rd_ok_new: "rd_ok (newBitsReader buf) (concat (map byte_bits buf))"
  by (simp add: rd_ok_def newBitsReader_def)

lemma byte_bits_shift: "byte_bits b = bit b 7 # take 7 (byte_bits (push_bit 1 b))"
proof (rule nth_equalityI)
  fix i assume i: "i < length (byte_bits b)"
  have "bit (push_bit (Suc 0) b) (8 - i) \<longleftrightarrow> bit b (7 - i)" if "0 < i"
    using that i unfolding bit_push_bit_iff by (auto simp: Suc_diff_Suc numeral_eq_Suc)
  then show "byte_bits b ! i = (bit b 7 # take 7 (byte_bits (push_bit 1 b))) ! i"
    using i by (cases i) (auto simp: byte_bits_def nth_bits_of)
qed simp

lemma readBit_ok:
  assumes "rd_ok r (x # bs)"
  obtains r' where "readBit r = Some (if x then 1 else 0, r')" and "rd_ok r' bs" and "br_buf r' = br_buf r"
proof -
  define r1 where "r1 = (if br_nBits r = 0
     then r\<lparr>br_cur := br_buf r ! br_pos r, br_pos := br_pos r + 1, br_nBits := 8\<rparr> else r)"
  have nz: "\<not> (br_nBits r = 0 \<and> br_pos r \<ge> length (br_buf r))"
    using assms by (auto simp: rd_ok_def)
  have r1: "rd_ok r1 (x # bs)" "br_nBits r1 \<noteq> 0" "br_buf r1 = br_buf r"
    using assms nz by (auto simp: rd_ok_def r1_def Cons_nth_drop_Suc [symmetric])
  then obtain k where k: "br_nBits r1 = Suc k" "k < 8" by (cases "br_nBits r1") (auto simp: rd_ok_def)
  define r2 where "r2 = r1\<lparr>br_cur := push_bit 1 (br_cur r1), br_nBits := br_nBits r1 - 1\<rparr>"
  have b: "drop_bit 7 (br_cur r1) AND 1 = (if bit (br_cur r1) 7 then 1 else 0)"
    by (simp only: and_one_eq mod_2_eq_odd bit_iff_odd_drop_bit) simp
  have rb: "readBit r = Some (drop_bit 7 (br_cur r1) AND 1, r2)"
    using nz by (auto simp: readBit_def r1_def r2_def Let_def)
  have tk: "take (Suc k) (byte_bits (br_cur r1)) = bit (br_cur r1) 7 # take k (byte_bits (push_bit 1 (br_cur r1)))"
    using k by (subst byte_bits_shift) (simp add: min_def)
  show ?thesis
  proof
    show "readBit r = Some (if x then 1 else 0, r2)"
      using rb b r1(1) k tk by (simp add: rd_ok_def)
    show "rd_ok r2 bs" using r1(1) k tk by (auto simp: rd_ok_def r2_def)
    show "br_buf r2 = br_buf r" using r1(3) by (simp add: r2_def)
  qed
qed

lemma readBits_loop_ok:
  assumes "rd_ok r (bits_of v n @ bs)"
  shows "\<exists>r'. readBits_loop n acc r = Some (push_bit n acc OR take_bit n v, r') \<and> rd_ok r' bs \<and> br_buf r' = br_buf r"
  using assms
proof (induction n arbitrary: r acc)
  case 0
  then show ?case by simp
next
  case (Suc n)
  from Suc.prems have "rd_ok r (bit v n # (bits_of v n @ bs))" by (simp add: bits_of_Suc)
  then obtain r1 where r1: "readBit r = Some (if bit v n then 1 else 0, r1)" "rd_ok r1 (bits_of v n @ bs)" "br_buf r1 = br_buf r"
    by (rule readBit_ok)
  define a where "a = push_bit 1 acc OR ucast (if bit v n then 1 else 0 :: u8)"
  obtain r2 where r2: "readBits_loop n a r1 = Some (push_bit n a OR take_bit n v, r2)" "rd_ok r2 bs" "br_buf r2 = br_buf r1"
    using Suc.IH [OF r1(2), of a] by blast
  have "push_bit n a OR take_bit n v = push_bit (Suc n) acc OR take_bit (Suc n) v"
  proof (rule bit_word_eqI)
    fix i assume i: "i < LENGTH(64)"
    have u: "bit (ucast (if bit v n then 1 else 0 :: u8) :: u64) j \<longleftrightarrow> j = 0 \<and> bit v n" for j
      by (simp add: bit_1_iff)
    have p: "bit (push_bit 1 acc) j \<longleftrightarrow> 1 \<le> j \<and> j < 64 \<and> bit acc (j - 1)" for j
      unfolding bit_push_bit_iff by simp
    consider "i < n" | "i = n" | "n < i" by linarith
    then show "bit (push_bit n a OR take_bit n v) i \<longleftrightarrow> bit (push_bit (Suc n) acc OR take_bit (Suc n) v) i"
    proof cases
      case 1
      then show ?thesis by (simp add: bit_or_iff bit_push_bit_iff bit_take_bit_iff)
    next
      case 2
      then show ?thesis using i u [of 0] p [of 0] unfolding a_def bit_or_iff bit_push_bit_iff [of n] bit_take_bit_iff
        by (simp add: bit_push_bit_iff)
    next
      case 3
      then show ?thesis using i unfolding a_def bit_or_iff bit_push_bit_iff bit_take_bit_iff u
        by (auto simp: Suc_le_eq)
    qed
  qed
  with r1 r2 show ?case by (simp add: a_def)
qed

lemma readBits_ok:
  assumes "rd_ok r (bits_of v n @ bs)" and "n \<le> 64"
  obtains r' where "readBits r n = Some (take_bit n v, r')" and "rd_ok r' bs" and "br_buf r' = br_buf r"
proof -
  obtain r' where "readBits_loop n 0 r = Some (push_bit n 0 OR take_bit n v, r')" "rd_ok r' bs" "br_buf r' = br_buf r"
    using readBits_loop_ok [OF assms(1), of 0] by blast
  with assms(2) that show ?thesis by (simp add: readBits_def)
qed

lemma zigzagEncode_alt: "zigzagEncode v = (if v <s 0 then NOT (push_bit 1 v) else push_bit 1 v)"
proof -
  have "bit (signed_drop_bit 63 v) i \<longleftrightarrow> bit v 63" if "i < 64" for i
    using that by (cases i) (auto simp: bit_signed_drop_bit_iff)
  then show ?thesis unfolding zigzagEncode_def sless_0_iff
    by (intro bit_word_eqI) (auto simp: bit_xor_iff bit_not_iff)
qed

lemma zigzag_roundtrip: "zigzagDecode (zigzagEncode v) = v"
proof -
  have "push_bit 1 v AND 1 = 0" and "NOT (push_bit 1 v) AND 1 = 1"
    unfolding and_one_eq mod_2_eq_odd by (simp_all add: even_push_bit_iff)
  moreover have "x XOR - 1 = NOT x" for x :: u64 by (simp add: not_eq_complement bit_eq_iff bit_xor_iff bit_not_iff)
  ultimately show ?thesis
    using drop_push_1 [of v] drop_push_2 [of v]
    unfolding zigzagDecode_def zigzagEncode_alt
    by (cases "v <s 0") (simp_all only: if_True if_False minus_zero xor.right_neutral simp_thms)
qed

lemma zigzag_small:
  assumes "- (2 ^ n) \<le> sint v" and "sint v < 2 ^ n"
  shows "take_bit (Suc n) (zigzagEncode v) = zigzagEncode v"
proof (cases "n < 63")
  case False
  then show ?thesis by (intro take_bit_word_eq_self) simp
next
  case True
  have st: "signed_take_bit n (sint v) = sint v" by (rule signed_take_bit_int_eq_self [OF assms])
  have same: "bit v i \<longleftrightarrow> bit v 63" if "n \<le> i" "i < 64" for i
  proof -
    have top: "bit (sint v) j \<longleftrightarrow> bit (sint v) n" if "n \<le> j" for j
      using bit_signed_take_bit_iff [of n "sint v" j] that unfolding st by (simp add: min_def)
    show ?thesis using top [of i] top [of 63] that True by (simp add: bit_sint_iff)
  qed
  show ?thesis
  proof (rule bit_word_eqI)
    fix i assume i: "i < LENGTH(64)"
    show "bit (take_bit (Suc n) (zigzagEncode v)) i \<longleftrightarrow> bit (zigzagEncode v) i"
    proof (cases "i < Suc n")
      case True then show ?thesis by (simp add: bit_take_bit_iff)
    next
      case False
      then have "bit v (i - 1) \<longleftrightarrow> bit v 63" using i by (intro same) auto
      then have "\<not> bit (zigzagEncode v) i"
        using False i unfolding zigzagEncode_alt sless_0_iff
        by (auto simp: bit_not_iff bit_push_bit_iff simp del: push_bit_Suc split: if_splits)
      with False show ?thesis by (simp add: bit_take_bit_iff)
    qed
  qed
qed

subsection \<open>Timestamps\<close>

definition dod_bits :: "i64 \<Rightarrow> bool list" where
  "dod_bits dod =
     (if dod = 0 then [False]
      else if -64 \<le> sint dod \<and> sint dod \<le> 63 then [True, False] @ bits_of (zigzagEncode dod) 7
      else if -256 \<le> sint dod \<and> sint dod \<le> 255 then [True, True, False] @ bits_of (zigzagEncode dod) 9
      else if -2048 \<le> sint dod \<and> sint dod \<le> 2047 then [True, True, True, False] @ bits_of (zigzagEncode dod) 12
      else [True, True, True, True] @ bits_of (zigzagEncode dod) 64)"

lemma control_bits: "bits_of (2::u64) 2 = [True, False]" "bits_of (6::u64) 3 = [True, True, False]"
  "bits_of (14::u64) 4 = [True, True, True, False]" "bits_of (15::u64) 4 = [True, True, True, True]"
  by (simp_all add: bits_of_def upt_rec)

lemma writeTimestampDod_bits:
  assumes "wf_bw (c_bw c)"
  shows "wf_bw (c_bw (writeTimestampDod c dod))"
    and "bw_bits (c_bw (writeTimestampDod c dod)) = bw_bits (c_bw c) @ dod_bits dod"
  using assms
  by (simp_all add: writeTimestampDod_def Let_def writeBit_bits writeBits_bits dod_bits_def control_bits)

lemma zigzag_take: "zigzagDecode (take_bit (Suc n) (zigzagEncode dod)) = dod"
  if "- (2 ^ n) \<le> sint dod" "sint dod < 2 ^ n"
  using zigzag_small [OF that] by (simp add: zigzag_roundtrip)

lemma zigzag_take64: "zigzagDecode (take_bit 64 (zigzagEncode dod)) = dod"
  using take_bit_word_eq_self [of 64 "zigzagEncode dod"] by (simp add: zigzag_roundtrip)

lemma decodeTimestamp_ok:
  assumes "rd_ok r (dod_bits dod @ bs)"
  obtains r' where "decodeTimestamp r = Some (dod, r')" and "rd_ok r' bs" and "br_buf r' = br_buf r"
proof -
  consider (zero) "dod = 0"
    | (b7) "dod \<noteq> 0" "-64 \<le> sint dod" "sint dod \<le> 63"
    | (b9) "dod \<noteq> 0" "\<not> (-64 \<le> sint dod \<and> sint dod \<le> 63)" "-256 \<le> sint dod" "sint dod \<le> 255"
    | (b12) "dod \<noteq> 0" "\<not> (-256 \<le> sint dod \<and> sint dod \<le> 255)" "-2048 \<le> sint dod" "sint dod \<le> 2047"
    | (b64) "dod \<noteq> 0" "\<not> (-2048 \<le> sint dod \<and> sint dod \<le> 2047)"
    by blast
  then show ?thesis
  proof cases
    case zero
    then have "rd_ok r (False # bs)" using assms by (simp add: dod_bits_def)
    then obtain r1 where "readBit r = Some (0, r1)" "rd_ok r1 bs" "br_buf r1 = br_buf r"
      by (auto elim: readBit_ok)
    with zero show ?thesis by (intro that [of r1]) (simp_all add: decodeTimestamp_def)
  next
    case b7
    then have "dod_bits dod = [True, False] @ bits_of (zigzagEncode dod) 7"
      unfolding dod_bits_def by auto
    with assms have "rd_ok r (True # False # bits_of (zigzagEncode dod) 7 @ bs)" by simp
    then obtain r1 r2 where c: "readBit r = Some (1, r1)" "readBit r1 = Some (0, r2)"
        "rd_ok r2 (bits_of (zigzagEncode dod) 7 @ bs)" "br_buf r2 = br_buf r"
      by (auto elim!: readBit_ok)
    from c(3) obtain r' where "readBits r2 7 = Some (take_bit 7 (zigzagEncode dod), r')" "rd_ok r' bs" "br_buf r' = br_buf r2"
      by (rule readBits_ok) simp
    with c zigzag_take [of 6 dod] b7 show ?thesis by (intro that [of r']) (simp_all add: decodeTimestamp_def)
  next
    case b9
    then have "dod_bits dod = [True, True, False] @ bits_of (zigzagEncode dod) 9"
      unfolding dod_bits_def by auto
    with assms have "rd_ok r (True # True # False # bits_of (zigzagEncode dod) 9 @ bs)" by simp
    then obtain r1 r2 r3 where c: "readBit r = Some (1, r1)" "readBit r1 = Some (1, r2)" "readBit r2 = Some (0, r3)"
        "rd_ok r3 (bits_of (zigzagEncode dod) 9 @ bs)" "br_buf r3 = br_buf r"
      by (auto elim!: readBit_ok)
    from c(4) obtain r' where "readBits r3 9 = Some (take_bit 9 (zigzagEncode dod), r')" "rd_ok r' bs" "br_buf r' = br_buf r3"
      by (rule readBits_ok) simp
    with c zigzag_take [of 8 dod] b9 show ?thesis by (intro that [of r']) (simp_all add: decodeTimestamp_def)
  next
    case b12
    then have "dod_bits dod = [True, True, True, False] @ bits_of (zigzagEncode dod) 12"
      unfolding dod_bits_def by auto
    with assms have "rd_ok r (True # True # True # False # bits_of (zigzagEncode dod) 12 @ bs)" by simp
    then obtain r1 r2 r3 r4 where c: "readBit r = Some (1, r1)" "readBit r1 = Some (1, r2)" "readBit r2 = Some (1, r3)" "readBit r3 = Some (0, r4)"
        "rd_ok r4 (bits_of (zigzagEncode dod) 12 @ bs)" "br_buf r4 = br_buf r"
      by (auto elim!: readBit_ok)
    from c(5) obtain r' where "readBits r4 12 = Some (take_bit 12 (zigzagEncode dod), r')" "rd_ok r' bs" "br_buf r' = br_buf r4"
      by (rule readBits_ok) simp
    with c zigzag_take [of 11 dod] b12 show ?thesis by (intro that [of r']) (simp_all add: decodeTimestamp_def)
  next
    case b64
    then have "dod_bits dod = [True, True, True, True] @ bits_of (zigzagEncode dod) 64"
      unfolding dod_bits_def by auto
    with assms have "rd_ok r (True # True # True # True # bits_of (zigzagEncode dod) 64 @ bs)" by simp
    then obtain r1 r2 r3 r4 where c: "readBit r = Some (1, r1)" "readBit r1 = Some (1, r2)" "readBit r2 = Some (1, r3)" "readBit r3 = Some (1, r4)"
        "rd_ok r4 (bits_of (zigzagEncode dod) 64 @ bs)" "br_buf r4 = br_buf r"
      by (auto elim!: readBit_ok)
    from c(5) obtain r' where "readBits r4 64 = Some (take_bit 64 (zigzagEncode dod), r')" "rd_ok r' bs" "br_buf r' = br_buf r4"
      by (rule readBits_ok) simp
    with c zigzag_take64 [of dod] b64 show ?thesis by (intro that [of r']) (simp_all add: decodeTimestamp_def)
  qed
qed

subsection \<open>Values\<close>

lemma TrailingZeros64_props:
  assumes "x \<noteq> 0"
  shows "TrailingZeros64 x < 64" and "bit x (TrailingZeros64 x)" and "i < TrailingZeros64 x \<Longrightarrow> \<not> bit x i"
proof -
  let ?P = "\<lambda>i. \<not> bit x i"
  from assms obtain j where "bit x j" by (auto simp: bit_eq_iff)
  then have j: "j < 64" "bit x j" using bit_imp_le_length [of x j] by simp_all
  have t: "TrailingZeros64 x = length (takeWhile ?P [0..<64])" by (simp add: TrailingZeros64_def)
  show lt: "TrailingZeros64 x < 64"
  proof (rule ccontr)
    assume "\<not> ?thesis"
    then have "length (takeWhile ?P [0..<64]) = length [0..<64]"
      using length_takeWhile_le [of ?P "[0..<64]"] t by simp
    then have "takeWhile ?P [0..<64] = [0..<64]" by (metis takeWhile_eq_take take_all_iff order_refl)
    then have "\<forall>i \<in> set [0..<64]. ?P i" by (metis takeWhile_eq_all_conv)
    with j show False by auto
  qed
  show "bit x (TrailingZeros64 x)"
    using nth_length_takeWhile [of ?P "[0..<64]"] lt by (simp add: t)
  show "\<not> bit x i" if "i < TrailingZeros64 x"
    using that nth_mem [of i "takeWhile ?P [0..<64]"] lt
    by (auto simp: t takeWhile_nth dest!: set_takeWhileD)
qed

lemma LeadingZeros64_props:
  assumes "x \<noteq> 0"
  shows "LeadingZeros64 x < 64" and "bit x (63 - LeadingZeros64 x)"
    and "64 - LeadingZeros64 x \<le> i \<Longrightarrow> i < 64 \<Longrightarrow> \<not> bit x i"
proof -
  let ?P = "\<lambda>i. \<not> bit x i" and ?L = "rev [0..<64] :: nat list"
  have tz: "TrailingZeros64 x < 64" "bit x (TrailingZeros64 x)" using TrailingZeros64_props [OF assms] by auto
  have t: "LeadingZeros64 x = length (takeWhile ?P ?L)" by (simp only: LeadingZeros64_def)
  have len: "length ?L = 64" by simp
  have nth: "?L ! i = 63 - i" if "i < 64" for i using that by (subst rev_nth) simp_all
  show lt: "LeadingZeros64 x < 64"
  proof (rule ccontr)
    assume "\<not> ?thesis"
    then have "length (takeWhile ?P ?L) = length ?L"
      using length_takeWhile_le [of ?P ?L] unfolding t len by linarith
    then have "takeWhile ?P ?L = ?L" by (metis takeWhile_eq_take take_all_iff order_refl)
    then have "\<forall>i \<in> set ?L. ?P i" by (metis takeWhile_eq_all_conv)
    with tz show False by auto
  qed
  show "bit x (63 - LeadingZeros64 x)"
    using nth_length_takeWhile [of ?P ?L] lt nth [of "LeadingZeros64 x"] unfolding t len by simp
  show "\<not> bit x i" if "64 - LeadingZeros64 x \<le> i" "i < 64"
  proof -
    define k where "k = 63 - i"
    have k: "k < LeadingZeros64 x" "i = 63 - k" "k < 64" using that by (auto simp: k_def)
    have "?P (takeWhile ?P ?L ! k)"
      using nth_mem [of k "takeWhile ?P ?L"] k(1) set_takeWhileD [of _ ?P ?L] unfolding t by metis
    moreover have "takeWhile ?P ?L ! k = 63 - k"
      using k(1) nth [OF k(3)] takeWhile_nth [of k ?P ?L] unfolding t by metis
    ultimately show ?thesis using k by simp
  qed
qed

definition xor_lz :: "u64 \<Rightarrow> u8" where
  "xor_lz x = (let lz0 = of_nat (LeadingZeros64 x) :: u8 in if lz0 > 31 then 31 else lz0)"

definition xor_tz :: "u64 \<Rightarrow> u8" where
  "xor_tz x = of_nat (TrailingZeros64 x)"

definition val_step :: "u64 \<Rightarrow> u8 \<Rightarrow> u8 \<Rightarrow> u64 \<Rightarrow> bool list \<times> u8 \<times> u8" where
  "val_step lastVal lead trail val =
     (let xor = lastVal XOR val; lz = xor_lz xor; tz = xor_tz xor; sig = 64 - lz - tz in
      if xor = 0 then ([False], lead, trail)
      else if lead \<noteq> 0xff \<and> lz \<ge> lead \<and> tz \<ge> trail
        then ([True, False] @ bits_of (drop_bit (unat trail) xor) (unat (64 - lead - trail)), lead, trail)
      else ([True, True] @ bits_of (ucast lz :: u64) 5 @ bits_of (ucast (sig - 1) :: u64) 6
              @ bits_of (drop_bit (unat tz) xor) (unat sig), lz, tz))"

definition win_ok :: "u8 \<Rightarrow> u8 \<Rightarrow> bool" where
  "win_ok lead trail \<longleftrightarrow> lead = 0xff \<or> (unat lead \<le> 31 \<and> unat lead + unat trail < 64)"

lemma writeValueXOR_alt:
  "writeValueXOR c v =
     (let x = c_lastVal c XOR v; lz = xor_lz x; tz = xor_tz x; sig = 64 - lz - tz; bw = writeBit (c_bw c) 1 in
      if x = 0 then c\<lparr>c_bw := writeBit (c_bw c) 0\<rparr>
      else if c_lastLeading c \<noteq> 0xff \<and> lz \<ge> c_lastLeading c \<and> tz \<ge> c_lastTrailing c
      then c\<lparr>c_bw := writeBits (writeBit bw 0) (drop_bit (unat (c_lastTrailing c)) x)
                (unat (64 - c_lastLeading c - c_lastTrailing c))\<rparr>
      else c\<lparr>c_bw := writeBits (writeBits (writeBits (writeBit bw 1) (ucast lz) 5) (ucast (sig - 1)) 6)
                (drop_bit (unat tz) x) (unat sig), c_lastLeading := lz, c_lastTrailing := tz\<rparr>)"
  by (simp only: writeValueXOR_def xor_lz_def xor_tz_def Let_def)

lemma writeValueXOR_bits:
  assumes "wf_bw (c_bw c)"
  shows "wf_bw (c_bw (writeValueXOR c v))"
    and "bw_bits (c_bw (writeValueXOR c v)) =
      bw_bits (c_bw c) @ fst (val_step (c_lastVal c) (c_lastLeading c) (c_lastTrailing c) v)"
    and "(c_lastLeading (writeValueXOR c v), c_lastTrailing (writeValueXOR c v)) =
      snd (val_step (c_lastVal c) (c_lastLeading c) (c_lastTrailing c) v)"
  using assms
  by (simp_all add: writeValueXOR_alt val_step_def Let_def writeBit_bits writeBits_bits)

lemma xor_lz_tz:
  assumes "x \<noteq> 0"
  shows "unat (xor_lz x) \<le> 31" and "unat (xor_lz x) \<le> LeadingZeros64 x"
    and "unat (xor_tz x) = TrailingZeros64 x" and "unat (xor_lz x) + unat (xor_tz x) < 64"
proof -
  note L = LeadingZeros64_props [OF assms] and T = TrailingZeros64_props [OF assms]
  have l: "unat (of_nat (LeadingZeros64 x) :: u8) = LeadingZeros64 x"
    using L(1) by (simp add: unat_of_nat take_bit_nat_eq_self)
  show a: "unat (xor_lz x) \<le> 31" and b: "unat (xor_lz x) \<le> LeadingZeros64 x"
    using l by (auto simp: xor_lz_def Let_def word_less_nat_alt)
  show c: "unat (xor_tz x) = TrailingZeros64 x"
    using T(1) by (simp add: xor_tz_def unat_of_nat take_bit_nat_eq_self)
  have "LeadingZeros64 x + TrailingZeros64 x < 64"
    using L(1,3) T(1,2) by (metis add.commute diff_le_self le_diff_conv linorder_not_le)
  with b c show "unat (xor_lz x) + unat (xor_tz x) < 64" by simp
qed

text \<open>A window \<open>[lead, 64 - trail)\<close> that covers every set bit loses nothing.\<close>

lemma window_lossless:
  assumes "unat lead \<le> LeadingZeros64 x" "unat trail \<le> TrailingZeros64 x" "x \<noteq> 0" "unat lead + unat trail < 64"
  shows "push_bit (unat trail) (take_bit (unat (64 - lead - trail)) (drop_bit (unat trail) x)) = x"
    and "unat (64 - lead - trail :: u8) = 64 - unat lead - unat trail"
proof -
  have s: "unat (64 - lead - trail :: u8) = 64 - unat lead - unat trail"
    using assms(4) by unat_arith
  then show "unat (64 - lead - trail :: u8) = 64 - unat lead - unat trail" .
  show "push_bit (unat trail) (take_bit (unat (64 - lead - trail)) (drop_bit (unat trail) x)) = x"
  proof (rule bit_word_eqI)
    fix i assume i: "i < LENGTH(64)"
    have "\<not> bit x i" if "i < unat trail"
      using TrailingZeros64_props(3) [OF assms(3)] assms(2) that by simp
    moreover have "\<not> bit x i" if "64 - unat lead \<le> i"
      using LeadingZeros64_props(3) [OF assms(3)] assms(1) that i by simp
    ultimately show "bit (push_bit (unat trail) (take_bit (unat (64 - lead - trail)) (drop_bit (unat trail) x))) i = bit x i"
      using i assms(4) unfolding s bit_push_bit_iff bit_take_bit_iff bit_drop_bit_eq
      by (cases "i < unat trail"; cases "64 - unat lead \<le> i") auto
  qed
qed

lemma ucast_u8_u64_bits: "unat b < 2 ^ n \<Longrightarrow> take_bit n (ucast b :: u64) = ucast b" for b :: u8
  by (intro take_bit_word_less) (simp add: unsigned_ucast_eq le_less_trans [OF take_bit_nat_less_eq_self])

lemma ucast_back: "ucast (ucast b :: u64) = (b :: u8)"
  by (rule bit_word_eqI) (simp add: bit_simps)

lemma decodeValue_new:
  assumes rd: "rd_ok r (fst (val_step lv lead trail v) @ bs)" and x: "x = lv XOR v" "x \<noteq> 0"
    and new: "\<not> (lead \<noteq> 0xff \<and> xor_lz x \<ge> lead \<and> xor_tz x \<ge> trail)"
  obtains r' where "decodeValue lv lead trail r = Some (v, xor_lz x, xor_tz x, r')"
    and "snd (val_step lv lead trail v) = (xor_lz x, xor_tz x)"
    and "rd_ok r' bs" and "br_buf r' = br_buf r" and "win_ok (xor_lz x) (xor_tz x)"
proof -
  have xb: "lv XOR x = v" by (simp add: x(1) xor.assoc [symmetric])
  define lz where "lz = xor_lz x"
  define tz where "tz = xor_tz x"
  define sig where "sig = 64 - lz - tz"
  note L = xor_lz_tz [OF x(2), folded lz_def tz_def]
  have W: "push_bit (unat tz) (take_bit (unat sig) (drop_bit (unat tz) x)) = x" "unat sig = 64 - unat lz - unat tz"
    using window_lossless [of lz x tz] L x(2) by (simp_all add: sig_def)
  from new x have vs: "val_step lv lead trail v =
      ([True, True] @ bits_of (ucast lz :: u64) 5 @ bits_of (ucast (sig - 1) :: u64) 6
        @ bits_of (drop_bit (unat tz) x) (unat sig), lz, tz)"
    by (simp add: val_step_def Let_def lz_def tz_def sig_def)
  with rd obtain r1 r2 where c: "readBit r = Some (1, r1)" "readBit r1 = Some (1, r2)"
      "rd_ok r2 (bits_of (ucast lz :: u64) 5 @ bits_of (ucast (sig - 1) :: u64) 6
        @ bits_of (drop_bit (unat tz) x) (unat sig) @ bs)" "br_buf r2 = br_buf r"
    by (auto elim!: readBit_ok)
  have s1: "unat (sig - 1) < 2 ^ 6" using W(2) L(4) by unat_arith
  obtain r3 where r3: "readBits r2 5 = Some (take_bit 5 (ucast lz), r3)" "br_buf r3 = br_buf r2"
      "rd_ok r3 (bits_of (ucast (sig - 1) :: u64) 6 @ bits_of (drop_bit (unat tz) x) (unat sig) @ bs)"
    by (rule readBits_ok [OF c(3)]) simp_all
  obtain r4 where r4: "readBits r3 6 = Some (take_bit 6 (ucast (sig - 1)), r4)" "br_buf r4 = br_buf r3"
      "rd_ok r4 (bits_of (drop_bit (unat tz) x) (unat sig) @ bs)"
    by (rule readBits_ok [OF r3(3)]) simp_all
  obtain r5 where r5: "readBits r4 (unat sig) = Some (take_bit (unat sig) (drop_bit (unat tz) x), r5)"
      "br_buf r5 = br_buf r4" "rd_ok r5 bs"
    by (rule readBits_ok [OF r4(3)]) (simp_all add: W(2))
  have t5: "take_bit 5 (ucast lz :: u64) = ucast lz" using L(1) by (intro ucast_u8_u64_bits) simp
  have t6: "take_bit 6 (ucast (sig - 1) :: u64) = ucast (sig - 1)" by (rule ucast_u8_u64_bits [OF s1])
  have tzs: "64 - lz - sig = tz" by (simp add: sig_def)
  from c r3 r4 r5 vs W(1) xb L show ?thesis
    by (intro that [of r5])
      (simp_all add: decodeValue_def Let_def t5 t6 ucast_back tzs win_ok_def flip: lz_def tz_def)
qed

lemma decodeValue_ok:
  assumes "rd_ok r (fst (val_step lv lead trail v) @ bs)" and "win_ok lead trail"
    and "val_step lv lead trail v = (vb, lead', trail')"
  obtains r' where "decodeValue lv lead trail r = Some (v, lead', trail', r')"
    and "rd_ok r' bs" and "br_buf r' = br_buf r" and "win_ok lead' trail'"
proof -
  define x where "x = lv XOR v"
  have xb: "lv XOR x = v" by (simp add: x_def xor.assoc [symmetric])
  consider (same) "x = 0"
    | (reuse) "x \<noteq> 0" "lead \<noteq> 0xff" "xor_lz x \<ge> lead" "xor_tz x \<ge> trail"
    | (new) "x \<noteq> 0" "\<not> (lead \<noteq> 0xff \<and> xor_lz x \<ge> lead \<and> xor_tz x \<ge> trail)"
    by blast
  then show ?thesis
  proof cases
    case same
    then have vs: "val_step lv lead trail v = ([False], lead, trail)" by (simp add: val_step_def x_def)
    with assms(1) obtain r1 where "readBit r = Some (0, r1)" "rd_ok r1 bs" "br_buf r1 = br_buf r"
      by (auto elim!: readBit_ok)
    with same vs assms(2,3) xb show ?thesis by (intro that [of r1]) (simp_all add: decodeValue_def)
  next
    case reuse
    note L = xor_lz_tz [OF reuse(1)]
    from reuse assms(2) L have lt: "unat lead \<le> LeadingZeros64 x" "unat trail \<le> TrailingZeros64 x" "unat lead + unat trail < 64"
      by (auto simp: win_ok_def word_le_nat_alt)
    note W = window_lossless [OF lt(1,2) reuse(1) lt(3)]
    from reuse have vs: "val_step lv lead trail v =
        ([True, False] @ bits_of (drop_bit (unat trail) x) (unat (64 - lead - trail)), lead, trail)"
      by (simp add: val_step_def x_def Let_def)
    with assms(1) obtain r1 r2 where c: "readBit r = Some (1, r1)" "readBit r1 = Some (0, r2)"
        "rd_ok r2 (bits_of (drop_bit (unat trail) x) (unat (64 - lead - trail)) @ bs)" "br_buf r2 = br_buf r"
      by (auto elim!: readBit_ok)
    obtain r3 where "readBits r2 (unat (64 - lead - trail)) =
        Some (take_bit (unat (64 - lead - trail)) (drop_bit (unat trail) x), r3)" "rd_ok r3 bs" "br_buf r3 = br_buf r2"
      by (rule readBits_ok [OF c(3)]) (simp add: W(2))
    with c vs assms(2,3) W(1) xb show ?thesis
      by (intro that [of r3]) (simp_all add: decodeValue_def Let_def)
  next
    case new
    then show ?thesis
      using decodeValue_new [OF assms(1) x_def] assms(3) that by (metis prod.inject snd_conv)
  qed
qed

end
