(* ===== verification/Chunk_Correct.thy ===== *)
theory Chunk_Correct
  imports Chunk
begin

text \<open>
  Correctness of the chunk. The representation relation \<^verbatim>\<open>chunk_rep c ss\<close> says that the
  mutable state of a chunk is the encoding of the sample list \<^verbatim>\<open>ss\<close>: its bit stream, the
  decoder state both sides keep, the bounds, the count and the generations. Appending preserves
  it, the iterator inverts it, and serialization keeps it.
\<close>


type_synonym enc_state = "i64 \<times> i64 \<times> u64 \<times> u8 \<times> u8"

fun enc1 :: "enc_state \<Rightarrow> csample \<Rightarrow> bool list \<times> enc_state" where
  "enc1 (lt, ld, lv, le, tr) (ts, v, g) =
     (let vs = val_step lv le tr v
      in (dod_bits (ts - lt - ld) @ fst vs, (ts, ts - lt, v, fst (snd vs), snd (snd vs))))"

fun enc_bits :: "enc_state \<Rightarrow> csample list \<Rightarrow> bool list" where
  "enc_bits e [] = []"
| "enc_bits e (s # ss) = fst (enc1 e s) @ enc_bits (snd (enc1 e s)) ss"

definition enc_end :: "enc_state \<Rightarrow> csample list \<Rightarrow> enc_state" where
  "enc_end e ss = foldl (\<lambda>e s. snd (enc1 e s)) e ss"

lemma enc_bits_snoc: "enc_bits e (ss @ [s]) = enc_bits e ss @ fst (enc1 (enc_end e ss) s)"
  by (induction ss arbitrary: e) (simp_all add: enc_end_def)

lemma enc_end_snoc: "enc_end e (ss @ [s]) = snd (enc1 (enc_end e ss) s)"
  by (simp add: enc_end_def)

lemma foldMinMax_snoc:
  "foldMinMax mn mx (ss @ [(ts, v, g)]) =
     (let (a, b) = foldMinMax mn mx ss in (if ts <s a then ts else a, if b <s ts then ts else b))"
  by (induction mn mx ss rule: foldMinMax.induct) auto

definition chunk_st :: "chunk \<Rightarrow> enc_state" where
  "chunk_st c = (c_lastTs c, c_lastDelta c, c_lastVal c, c_lastLeading c, c_lastTrailing c)"

definition gen_ok :: "i64 \<Rightarrow> bool" where
  "gen_ok g \<longleftrightarrow> \<not> g <s 0 \<and> \<not> MaxGeneration <s g"

abbreviation sgen :: "csample \<Rightarrow> i64" where "sgen s \<equiv> snd (snd s)"

definition chunk_rep :: "chunk \<Rightarrow> csample list \<Rightarrow> bool" where
  "chunk_rep c ss \<longleftrightarrow>
     wf_bw (c_bw c) \<and> length ss \<le> 120 \<and> (\<not> c_sealed c \<longrightarrow> length ss < 120)
     \<and> c_numSamples c = of_nat (length ss)
     \<and> c_gens c = map sgen ss \<and> (\<forall>s \<in> set ss. gen_ok (sgen s)) \<and> c_maxGen c = maxGenOf (map sgen ss)
     \<and> (case ss of
          [] \<Rightarrow> c_bw c = \<lparr>bw_buf = [], bw_cur = 0, bw_nBits = 0\<rparr> \<and> chunk_st c = (0, 0, 0, 0xff, 0)
                \<and> c_minTs c = 0 \<and> c_maxTs c = 0
        | (ts, v, g) # rest \<Rightarrow>
            bw_bits (c_bw c) = bits_of ts 64 @ bits_of v 64 @ enc_bits (ts, 0, v, 0xff, 0) rest
            \<and> chunk_st c = enc_end (ts, 0, v, 0xff, 0) rest
            \<and> (c_minTs c, c_maxTs c) = foldMinMax ts ts rest)"

lemma chunk_rep_new: "chunk_rep NewChunk []"
  by (simp add: chunk_rep_def NewChunk_def wf_bw_def chunk_st_def maxGenOf_def)

lemma chunk_rep_seal: "chunk_rep c ss \<Longrightarrow> chunk_rep (Seal c) ss"
  by (auto simp: chunk_rep_def Seal_def chunk_st_def split: list.splits)

lemma numSamples_rep: "chunk_rep c ss \<Longrightarrow> unat (c_numSamples c) = length ss"
  by (simp add: chunk_rep_def unat_of_nat take_bit_nat_eq_self)

lemma maxGenOf_snoc: "maxGenOf (gs @ [g]) = (if maxGenOf gs <s g then g else maxGenOf gs)"
  by (simp add: maxGenOf_def)

lemma writeTimestampDod_frame [simp]:
  "c_minTs (writeTimestampDod c d) = c_minTs c" "c_maxTs (writeTimestampDod c d) = c_maxTs c"
  "c_numSamples (writeTimestampDod c d) = c_numSamples c" "c_sealed (writeTimestampDod c d) = c_sealed c"
  "c_gens (writeTimestampDod c d) = c_gens c" "c_maxGen (writeTimestampDod c d) = c_maxGen c"
  "c_lastVal (writeTimestampDod c d) = c_lastVal c"
  "c_lastLeading (writeTimestampDod c d) = c_lastLeading c"
  "c_lastTrailing (writeTimestampDod c d) = c_lastTrailing c"
  by (simp_all add: writeTimestampDod_def Let_def)

lemma writeValueXOR_frame [simp]:
  "c_minTs (writeValueXOR c v) = c_minTs c" "c_maxTs (writeValueXOR c v) = c_maxTs c"
  "c_numSamples (writeValueXOR c v) = c_numSamples c" "c_sealed (writeValueXOR c v) = c_sealed c"
  "c_gens (writeValueXOR c v) = c_gens c" "c_maxGen (writeValueXOR c v) = c_maxGen c"
  "c_lastTs (writeValueXOR c v) = c_lastTs c" "c_lastDelta (writeValueXOR c v) = c_lastDelta c"
  by (simp_all add: writeValueXOR_alt Let_def)

lemma Append_later:
  assumes ap: "Append c ts v g = Inr c'" and nz: "c_numSamples c \<noteq> 0" and wf: "wf_bw (c_bw c)"
  shows "wf_bw (c_bw c')" and "bw_bits (c_bw c') = bw_bits (c_bw c) @ fst (enc1 (chunk_st c) (ts, v, g))"
    and "chunk_st c' = snd (enc1 (chunk_st c) (ts, v, g))"
    and "c_numSamples c' = c_numSamples c + 1"
    and "c_gens c' = c_gens c @ [g]" and "c_maxGen c' = (if c_maxGen c <s g then g else c_maxGen c)"
    and "c_minTs c' = (if ts <s c_minTs c then ts else c_minTs c)"
    and "c_maxTs c' = (if c_maxTs c <s ts then ts else c_maxTs c)"
    and "c_sealed c' \<longleftrightarrow> c_numSamples c' \<ge> maxSamples \<or> c_maxTs c' - c_minTs c' <s 0 \<or> maxSpanMs \<le>s c_maxTs c' - c_minTs c'"
proof -
  define c1 where "c1 = c\<lparr>c_gens := c_gens c @ [g], c_maxGen := (if c_maxGen c <s g then g else c_maxGen c)\<rparr>"
  define c2 where "c2 = (writeTimestampDod c1 (ts - c_lastTs c1 - c_lastDelta c1))\<lparr>c_lastDelta := ts - c_lastTs c1, c_lastTs := ts\<rparr>"
  define c3 where "c3 = (if ts <s c_minTs c2 then c2\<lparr>c_minTs := ts\<rparr> else c2)"
  define c4 where "c4 = (if c_maxTs c3 <s ts then c3\<lparr>c_maxTs := ts\<rparr> else c3)"
  define c5 where "c5 = (writeValueXOR c4 v)\<lparr>c_lastVal := v, c_numSamples := c_numSamples c4 + 1\<rparr>"
  have ns: "\<not> c_sealed c" and gk: "\<not> (g <s 0 \<or> MaxGeneration <s g)"
    using ap by (auto simp: Append_def split: if_splits)
  have "Append c ts v g = Inr (if c_numSamples c5 \<ge> maxSamples \<or> c_maxTs c5 - c_minTs c5 <s 0 \<or> maxSpanMs \<le>s c_maxTs c5 - c_minTs c5
      then c5\<lparr>c_sealed := True\<rparr> else c5)"
    unfolding Append_def Let_def c5_def c4_def c3_def c2_def c1_def using ns gk nz by simp
  with ap have c': "c' = (if c_numSamples c5 \<ge> maxSamples \<or> c_maxTs c5 - c_minTs c5 <s 0 \<or> maxSpanMs \<le>s c_maxTs c5 - c_minTs c5
      then c5\<lparr>c_sealed := True\<rparr> else c5)" by (simp only: sum.inject)
  have f1: "c_bw c1 = c_bw c" "chunk_st c1 = chunk_st c" by (simp_all add: c1_def chunk_st_def)
  have w2: "wf_bw (c_bw c2)" "bw_bits (c_bw c2) = bw_bits (c_bw c) @ dod_bits (ts - c_lastTs c - c_lastDelta c)"
    using writeTimestampDod_bits [of c1] wf by (simp_all add: c2_def f1 c1_def)
  have f4: "c_bw c4 = c_bw c2" "c_lastVal c4 = c_lastVal c" "c_lastLeading c4 = c_lastLeading c"
      "c_lastTrailing c4 = c_lastTrailing c" "c_lastTs c4 = ts" "c_lastDelta c4 = ts - c_lastTs c"
    by (simp_all add: c4_def c3_def c2_def c1_def)
  note W5 = writeValueXOR_bits [of c4 v, unfolded f4, OF w2(1)]
  show "wf_bw (c_bw c')" using W5(1) by (simp add: c' c5_def)
  show "bw_bits (c_bw c') = bw_bits (c_bw c) @ fst (enc1 (chunk_st c) (ts, v, g))"
    using W5(2) w2(2) by (simp add: c' c5_def chunk_st_def Let_def)
  show "chunk_st c' = snd (enc1 (chunk_st c) (ts, v, g))"
    using W5(3) by (simp add: c' c5_def chunk_st_def Let_def f4 prod_eq_iff)
  show "c_numSamples c' = c_numSamples c + 1" "c_gens c' = c_gens c @ [g]"
      "c_maxGen c' = (if c_maxGen c <s g then g else c_maxGen c)"
      "c_minTs c' = (if ts <s c_minTs c then ts else c_minTs c)"
      "c_maxTs c' = (if c_maxTs c <s ts then ts else c_maxTs c)"
    by (simp_all add: c' c5_def c4_def c3_def c2_def c1_def)
  show "c_sealed c' \<longleftrightarrow> c_numSamples c' \<ge> maxSamples \<or> c_maxTs c' - c_minTs c' <s 0 \<or> maxSpanMs \<le>s c_maxTs c' - c_minTs c'"
    using ns by (simp add: c' c5_def c4_def c3_def c2_def c1_def)
qed

text \<open>One append extends the encoded stream by exactly one sample.\<close>

lemma Append_rep:
  assumes rep: "chunk_rep c ss" and ap: "Append c ts v g = Inr c'"
  shows "chunk_rep c' (ss @ [(ts, v, g)])"
proof -
  have ns: "\<not> c_sealed c" and g: "gen_ok g"
    using ap by (auto simp: Append_def gen_ok_def split: if_splits)
  have len: "length ss < 120" using rep ns by (simp add: chunk_rep_def)
  have n: "unat (c_numSamples c) = length ss" by (rule numSamples_rep [OF rep])
  show ?thesis
  proof (cases ss)
    case Nil
    then have z: "c_numSamples c = 0" using n by (simp add: unat_eq_zero)
    have w: "wf_bw (c_bw c)" using rep by (simp add: chunk_rep_def)
    have b: "bw_bits (c_bw c) = []" using rep Nil by (simp add: chunk_rep_def bw_bits_def)
    show ?thesis
      using ap ns g rep Nil z b writeBits_bits [OF w] writeBits_bits(1) [OF w, THEN writeBits_bits(1)]
        writeBits_bits(1) [OF w, THEN writeBits_bits(2)]
      by (auto simp: Append_def gen_ok_def chunk_rep_def chunk_st_def enc_end_def maxGenOf_def Let_def)
  next
    case (Cons s0 rest)
    obtain ts0 v0 g0 where s0: "s0 = (ts0, v0, g0)" by (cases s0)
    have nz: "c_numSamples c \<noteq> 0" using n Cons by auto
    have wf: "wf_bw (c_bw c)" using rep by (simp add: chunk_rep_def)
    note A = Append_later [OF ap nz wf]
    have num: "c_numSamples c' = of_nat (length (ss @ [(ts, v, g)]))"
      using A(4) rep by (simp add: chunk_rep_def)
    have open_lt: "length (ss @ [(ts, v, g)]) < 120" if "\<not> c_sealed c'"
    proof -
      have "c_numSamples c' < maxSamples" using A(9) that by (simp add: linorder_not_le)
      then have "unat (of_nat (Suc (length ss)) :: u16) < 120" using num by (simp add: maxSamples_def word_less_nat_alt)
      moreover have "unat (of_nat (Suc (length ss)) :: u16) = Suc (length ss)"
        using len by (simp only: unat_of_nat) (simp add: take_bit_nat_eq_self)
      ultimately show ?thesis by simp
    qed
    have mg: "c_maxGen c' = maxGenOf (map sgen (ss @ [(ts, v, g)]))"
      using A(6) rep maxGenOf_snoc [of "map sgen ss" g] by (simp add: chunk_rep_def)
    have body: "bw_bits (c_bw c) = bits_of ts0 64 @ bits_of v0 64 @ enc_bits (ts0, 0, v0, 0xff, 0) rest"
        "chunk_st c = enc_end (ts0, 0, v0, 0xff, 0) rest" "foldMinMax ts0 ts0 rest = (c_minTs c, c_maxTs c)"
        "c_gens c = map sgen ss" "\<forall>s \<in> set ss. gen_ok (sgen s)"
      using rep by (simp_all add: chunk_rep_def Cons s0)
    show ?thesis
      using A(1) len open_lt num g mg body unfolding chunk_rep_def A(2,3,5,7,8) Cons s0
      by (simp add: enc_bits_snoc enc_end_snoc foldMinMax_snoc)
  qed
qed

definition it_st :: "iterator \<Rightarrow> enc_state" where
  "it_st it = (it_lastTs it, it_lastDelta it, it_lastVal it, it_lastLeading it, it_lastTrailing it)"

lemma drain_True: "Next it = (True, it') \<Longrightarrow> drain it = ((fst (At it'), snd (At it'), Gen it') # fst (drain it'), snd (drain it'))"
  by (subst drain.simps) (simp add: case_prod_unfold Let_def)

lemma drain_False: "Next it = (False, it') \<Longrightarrow> drain it = ([], it')"
  by (subst drain.simps) simp

lemma Next_later:
  assumes rd: "rd_ok (it_br it) (fst (enc1 (it_st it) (ts, v, g)) @ bs)"
    and n: "it_n it \<noteq> 0" "it_n it < it_total it" "\<not> it_err it"
    and win: "win_ok (it_lastLeading it) (it_lastTrailing it)"
  obtains it' where "Next it = (True, it')" "it_st it' = snd (enc1 (it_st it) (ts, v, g))"
    "rd_ok (it_br it') bs" "br_buf (it_br it') = br_buf (it_br it)" "\<not> it_err it'"
    "it_curTs it' = ts" "it_curVal it' = v"
    "win_ok (it_lastLeading it') (it_lastTrailing it')"
proof -
  let ?vs = "val_step (it_lastVal it) (it_lastLeading it) (it_lastTrailing it) v"
  let ?dod = "ts - it_lastTs it - it_lastDelta it"
  from rd have "rd_ok (it_br it) (dod_bits ?dod @ fst ?vs @ bs)" by (simp add: it_st_def Let_def)
  then obtain r1 where r1: "decodeTimestamp (it_br it) = Some (?dod, r1)" "rd_ok r1 (fst ?vs @ bs)" "br_buf r1 = br_buf (it_br it)"
    by (rule decodeTimestamp_ok)
  obtain vb le tr where vs: "?vs = (vb, le, tr)" by (cases ?vs)
  obtain r2 where r2: "decodeValue (it_lastVal it) (it_lastLeading it) (it_lastTrailing it) r1 = Some (v, le, tr, r2)"
      "rd_ok r2 bs" "br_buf r2 = br_buf r1" "win_ok le tr"
    by (rule decodeValue_ok [OF r1(2) win vs])
  show ?thesis
    by (rule that [of "snd (Next it)"])
      (use n r1 r2 vs in \<open>simp_all add: Next_def Let_def it_st_def\<close>)
qed

lemma drain_enc:
  assumes "rd_ok (it_br it) (enc_bits (it_st it) ss @ pad)"
    and "it_n it \<noteq> 0" and "it_total it = it_n it + length ss" and "\<not> it_err it"
    and "win_ok (it_lastLeading it) (it_lastTrailing it)" and "drop (it_n it) (it_gens it) = map sgen ss"
  shows "\<exists>it'. drain it = (ss, it') \<and> \<not> it_err it' \<and> rd_ok (it_br it') pad \<and> br_buf (it_br it') = br_buf (it_br it)"
  using assms
proof (induction ss arbitrary: it)
  case Nil
  then show ?case by (intro exI [of _ it]) (simp add: drain_False [of it it] Next_def)
next
  case (Cons s ss)
  obtain ts v g where s: "s = (ts, v, g)" by (cases s)
  from Cons.prems(1) have "rd_ok (it_br it) (fst (enc1 (it_st it) (ts, v, g)) @ enc_bits (snd (enc1 (it_st it) (ts, v, g))) ss @ pad)"
    by (simp add: s)
  then obtain it1 where N: "Next it = (True, it1)" "it_st it1 = snd (enc1 (it_st it) (ts, v, g))"
    "rd_ok (it_br it1) (enc_bits (snd (enc1 (it_st it) (ts, v, g))) ss @ pad)" "br_buf (it_br it1) = br_buf (it_br it)"
    "\<not> it_err it1" "it_curTs it1 = ts" "it_curVal it1 = v" "win_ok (it_lastLeading it1) (it_lastTrailing it1)"
    by (rule Next_later) (use Cons.prems in simp_all)
  note P = Next_progress [OF N(1)]
  have gs: "drop (it_n it1) (it_gens it1) = map sgen ss"
    using P arg_cong [OF Cons.prems(6), of tl] by (simp add: tl_drop drop_Suc)
  have g: "Gen it1 = g"
  proof -
    have "it_n it < length (it_gens it)" using Cons.prems(6) by (rule_tac ccontr) simp
    moreover from this have "it_gens it ! it_n it = g" using Cons.prems(6) s by (simp add: Cons_nth_drop_Suc [symmetric])
    ultimately show ?thesis using P by (simp add: Gen_def)
  qed
  obtain it' where "drain it1 = (ss, it')" "\<not> it_err it'" "rd_ok (it_br it') pad" "br_buf (it_br it') = br_buf (it_br it1)"
    using Cons.IH [of it1] N P gs Cons.prems(3) by auto
  then show ?case using drain_True [OF N(1)] N g s by (simp add: At_def)
qed

text \<open>Iterating a chunk returns exactly the samples appended to it, in insertion order.\<close>

lemma drain_rep:
  assumes rep: "chunk_rep c ss"
  shows "\<exists>it. drain (Iterator c) = (ss, it) \<and> \<not> it_err it \<and> br_pos (it_br it) = length (br_buf (it_br it))"
proof (cases ss)
  case Nil
  then have "c_numSamples c = 0" using rep by (simp add: chunk_rep_def)
  moreover have "br_buf (newBitsReader (bw_bytes (c_bw c))) = []" using rep Nil by (simp add: chunk_rep_def bw_bytes_def newBitsReader_def)
  ultimately show ?thesis using Nil
    by (subst drain_False [of _ "Iterator c"]) (simp_all add: Next_def Iterator_def newBitsReader_def)
next
  case (Cons s0 rest)
  obtain ts v g where s0: "s0 = (ts, v, g)" by (cases s0)
  let ?e = "(ts, 0, v, 0xff, 0) :: enc_state" and ?pad = "replicate (pad_len (c_bw c)) False"
  let ?r = "newBitsReader (bw_bytes (c_bw c))"
  have wf: "wf_bw (c_bw c)" using rep by (simp add: chunk_rep_def)
  have "rd_ok ?r (bits_of ts 64 @ bits_of v 64 @ enc_bits ?e rest @ ?pad)"
    using rd_ok_new [of "bw_bytes (c_bw c)"] rep unfolding bw_bytes_bits [OF wf] by (simp add: chunk_rep_def Cons s0)
  then obtain r1 where r1: "readBits ?r 64 = Some (take_bit 64 ts, r1)" "rd_ok r1 (bits_of v 64 @ enc_bits ?e rest @ ?pad)" "br_buf r1 = br_buf ?r"
    by (rule readBits_ok) simp
  from r1(2) obtain r2 where r2: "readBits r1 64 = Some (take_bit 64 v, r2)" "rd_ok r2 (enc_bits ?e rest @ ?pad)" "br_buf r2 = br_buf r1"
    by (rule readBits_ok) simp
  have id64: "take_bit 64 x = x" for x :: u64 using take_bit_word_eq_self [of 64 x] by simp
  define it1 where "it1 = (Iterator c)\<lparr>it_br := r2, it_lastTs := ts, it_lastVal := v, it_curTs := ts, it_curVal := v, it_n := 1\<rparr>"
  have num: "unat (c_numSamples c) = Suc (length rest)" using numSamples_rep [OF rep] Cons by simp
  have N: "Next (Iterator c) = (True, it1)"
    using r1 r2 num unfolding Next_def it1_def by (simp add: Iterator_def id64)
  have gens: "c_gens c = g # map sgen rest" using rep by (simp add: chunk_rep_def Cons s0)
  have "\<exists>it'. drain it1 = (rest, it') \<and> \<not> it_err it' \<and> rd_ok (it_br it') ?pad \<and> br_buf (it_br it') = br_buf (it_br it1)"
    by (rule drain_enc) (use r2 num gens in \<open>simp_all add: it1_def Iterator_def it_st_def win_ok_def\<close>)
  then obtain it' where it': "drain it1 = (rest, it')" "\<not> it_err it'" "rd_ok (it_br it') ?pad" by blast
  have g1: "Gen it1 = g" using gens by (simp add: Gen_def it1_def Iterator_def)
  have "length (replicate (pad_len (c_bw c)) False) < 8" using wf by (simp add: pad_len_def wf_bw_def)
  then have "br_pos (it_br it') = length (br_buf (it_br it'))"
    using it'(3) by (cases "drop (br_pos (it_br it')) (br_buf (it_br it'))") (auto simp: rd_ok_def dest!: arg_cong [where f = length])
  then show ?thesis using it' drain_True [OF N] g1 Cons s0 by (simp add: At_def it1_def)
qed

lemma Next_gens: "Next (it\<lparr>it_gens := gs\<rparr>) = (fst (Next it), (snd (Next it))\<lparr>it_gens := gs\<rparr>)"
  by (simp add: Next_def Let_def split: option.split prod.split)

lemma drain_gens:
  "map (\<lambda>s. (fst s, fst (snd s))) (fst (drain (it\<lparr>it_gens := gs\<rparr>))) = map (\<lambda>s. (fst s, fst (snd s))) (fst (drain it))
   \<and> snd (drain (it\<lparr>it_gens := gs\<rparr>)) = (snd (drain it))\<lparr>it_gens := gs\<rparr>"
proof (induction it rule: drain.induct)
  case (1 it)
  obtain b it' where N: "Next it = (b, it')" by (cases "Next it")
  have N': "Next (it\<lparr>it_gens := gs\<rparr>) = (b, it'\<lparr>it_gens := gs\<rparr>)" by (simp add: Next_gens N)
  show ?case
    using "1.IH" [OF N [symmetric]] N N' by (cases b) (simp_all add: drain_True drain_False At_def)
qed

lemma sint_diff_gens:
  assumes "gen_ok g" "gen_ok p"
  shows "sint (g - p) = sint g - sint p"
proof -
  have b: "0 \<le> sint g" "sint g \<le> 2 ^ 62" "0 \<le> sint p" "sint p \<le> 2 ^ 62"
    using assms by (auto simp: gen_ok_def MaxGeneration_def word_sless_alt)
  have "sint (g - p) = signed_take_bit 63 (sint g - sint p)" by (simp add: sint_word_ariths)
  also have "\<dots> = sint g - sint p" using b by (intro signed_take_bit_int_eq_self) simp_all
  finally show ?thesis .
qed

lemma decodeDeltas_put:
  assumes "gen_ok p" and "\<forall>g \<in> set gs. gen_ok g"
  shows "decodeDeltas (length gs) p (putGens p gs) = Inr gs"
  using assms
proof (induction gs arbitrary: p)
  case (Cons g gs)
  have "\<not> (0 <s g - p \<and> g <s p)" "\<not> (g - p <s 0 \<and> p <s g)"
    using sint_diff_gens [of g p] Cons.prems by (auto simp: word_sless_alt)
  with Cons show ?case by (simp add: gen_ok_def Let_def)
qed simp

lemma sint_nonneg_unat:
  assumes "0 \<le> sint (x :: u64)"
  shows "sint x = uint x"
proof -
  have "take_bit 64 (uint x) = uint x"
    by (rule take_bit_int_eq_self) (use uint_bounded [of x] in simp_all)
  then have "sint x = uint x - 2 ^ 64 * of_bool (bit (uint x) 63)"
    by (simp add: sint_uint signed_take_bit_eq_take_bit_minus)
  moreover have "uint x < 2 ^ 64" using uint_lt2p [of x] by simp
  ultimately show ?thesis using assms by (cases "bit (uint x) 63") auto
qed

lemma decodeGens_genSection:
  assumes "\<forall>g \<in> set gs. gen_ok g"
  shows "decodeGens (genSection gs) (length gs) = Inr gs"
proof (cases gs)
  case (Cons g rest)
  have "sint g = uint g" if "0 \<le> sint g" by (rule sint_nonneg_unat [OF that])
  then have "\<not> MaxGeneration < g" using assms Cons
    by (auto simp: gen_ok_def MaxGeneration_def word_sless_alt word_less_def)
  with Cons assms show ?thesis by (simp add: decodeGens_def genSection_def decodeDeltas_put)
qed (simp add: decodeGens_def genSection_def)

lemma length_dod_bits: "length (dod_bits d) \<le> 68"
  by (simp add: dod_bits_def)

lemma length_val_step:
  assumes "win_ok le tr"
  shows "length (fst (val_step lv le tr v)) \<le> 77" and "win_ok (fst (snd (val_step lv le tr v))) (snd (snd (val_step lv le tr v)))"
proof -
  have u: "unat (64 - a - b :: u8) \<le> 64" if "unat a + unat b < 64" for a b :: u8
    using that by unat_arith
  show "length (fst (val_step lv le tr v)) \<le> 77"
    using assms xor_lz_tz(4) [of "lv XOR v"] u [of le tr] u [of "xor_lz (lv XOR v)" "xor_tz (lv XOR v)"]
    by (auto simp: val_step_def Let_def win_ok_def)
  show "win_ok (fst (snd (val_step lv le tr v))) (snd (snd (val_step lv le tr v)))"
    using assms xor_lz_tz(1,4) [of "lv XOR v"] by (auto simp: val_step_def Let_def win_ok_def)
qed

lemma length_enc_bits:
  assumes "win_ok (fst (snd (snd (snd e)))) (snd (snd (snd (snd e))))"
  shows "length (enc_bits e ss) \<le> 145 * length ss"
  using assms
proof (induction ss arbitrary: e)
  case (Cons s ss)
  obtain lt ld lv le tr where e: "e = (lt, ld, lv, le, tr)" by (cases e)
  obtain ts v g where s: "s = (ts, v, g)" by (cases s)
  have w: "win_ok le tr" using Cons.prems by (simp add: e)
  have "length (enc_bits (snd (enc1 e s)) ss) \<le> 145 * length ss"
    by (rule Cons.IH) (simp add: e s Let_def length_val_step(2) [OF w])
  moreover have "length (fst (enc1 e s)) \<le> 145"
    using length_dod_bits [of "ts - lt - ld"] length_val_step(1) [OF w, of lv v] by (simp add: e s Let_def)
  ultimately show ?case by simp
qed simp

lemma length_concat_byte_bits: "length (concat (map byte_bits bs)) = 8 * length bs"
  by (induction bs) simp_all

lemma length_bw_bytes_rep:
  assumes "chunk_rep c ss"
  shows "length (bw_bytes (c_bw c)) \<le> 2200"
proof -
  have wf: "wf_bw (c_bw c)" and l: "length ss \<le> 120" using assms by (simp_all add: chunk_rep_def)
  have "8 * length (bw_bytes (c_bw c)) \<le> length (bw_bits (c_bw c)) + 8"
    using arg_cong [OF bw_bytes_bits [OF wf], of length] wf unfolding length_concat_byte_bits
    by (simp add: pad_len_def)
  moreover have "length (bw_bits (c_bw c)) \<le> 128 + 145 * 120"
  proof (cases ss)
    case Nil
    then show ?thesis using assms by (simp add: chunk_rep_def bw_bits_def)
  next
    case (Cons s rest)
    obtain ts v g where s: "s = (ts, v, g)" by (cases s)
    show ?thesis using assms l length_enc_bits [of "(ts, 0, v, 0xff, 0)" rest]
      by (simp add: chunk_rep_def Cons s win_ok_def)
  qed
  ultimately show ?thesis by simp
qed

fun append_all :: "chunk \<Rightarrow> csample list \<Rightarrow> chunk_error + chunk" where
  "append_all c [] = Inr c"
| "append_all c ((ts, v, g) # ss) =
     (case Append c ts v g of Inl e \<Rightarrow> Inl e | Inr c' \<Rightarrow> append_all c' ss)"

lemma append_all_rep: "chunk_rep c ss \<Longrightarrow> append_all c ss' = Inr c' \<Longrightarrow> chunk_rep c' (ss @ ss')"
proof (induction c ss' arbitrary: ss rule: append_all.induct)
  case (2 c ts v g ss')
  then show ?case using Append_rep [of c ss ts v g] by (fastforce split: sum.splits)
qed simp

lemma get_field:
  "n = length ys \<Longrightarrow> m = length zs \<Longrightarrow> take n (drop m (zs @ ys @ rest)) = ys"
  by simp

lemma decodeAndValidate_rep:
  assumes rep: "chunk_rep c ss"
  shows "decodeAndValidate (c_minTs c) (c_maxTs c) (c_numSamples c) (bw_bytes (c_bw c)) =
    Inr (NewChunk\<lparr>c_minTs := c_minTs c, c_maxTs := c_maxTs c, c_numSamples := c_numSamples c,
      c_sealed := True, c_bw := \<lparr>bw_buf = bw_bytes (c_bw c), bw_cur = 0, bw_nBits = 0\<rparr>\<rparr>)"
    (is "_ = Inr ?c0")
proof (cases ss)
  case Nil
  then show ?thesis using rep by (simp add: decodeAndValidate_def chunk_rep_def bw_bytes_def Let_def)
next
  case (Cons s rest)
  obtain ts v g where s: "s = (ts, v, g)" by (cases s)
  have nz: "c_numSamples c \<noteq> 0" using numSamples_rep [OF rep] Cons by auto
  have I: "Iterator ?c0 = (Iterator c)\<lparr>it_gens := []\<rparr>"
    by (simp add: Iterator_def NewChunk_def bw_bytes_def)
  obtain it where it: "drain (Iterator c) = (ss, it)" "\<not> it_err it" "br_pos (it_br it) = length (br_buf (it_br it))"
    using drain_rep [OF rep] by blast
  obtain ss0 it0 where d0: "drain (Iterator ?c0) = (ss0, it0)" by (cases "drain (Iterator ?c0)")
  have m: "map (\<lambda>s. (fst s, fst (snd s))) ss0 = map (\<lambda>s. (fst s, fst (snd s))) ss" and i0: "it0 = it\<lparr>it_gens := []\<rparr>"
    using drain_gens [where it = "Iterator c" and gs = "[]"] it d0 by (simp_all add: I)
  have fm: "foldMinMax a b xs = foldMinMax a b ys"
    if "map (\<lambda>s. (fst s, fst (snd s))) xs = map (\<lambda>s. (fst s, fst (snd s))) ys" for a b and xs ys :: "csample list"
    using that
  proof (induction xs arbitrary: a b ys)
    case (Cons x xs)
    then obtain y ys' where "ys = y # ys'" by (cases ys) auto
    with Cons show ?case by (cases x; cases y) auto
  qed simp
  obtain v' g' rest0 where ss0: "ss0 = (ts, v', g') # rest0" and
      r: "map (\<lambda>s. (fst s, fst (snd s))) rest0 = map (\<lambda>s. (fst s, fst (snd s))) rest"
    using m Cons s by (cases ss0) auto
  have "foldMinMax ts ts rest0 = (c_minTs c, c_maxTs c)"
    using fm [OF r] rep by (simp add: chunk_rep_def Cons s)
  moreover have "length ss0 = unat (c_numSamples c)"
    using arg_cong [OF m, of length] numSamples_rep [OF rep] by simp
  ultimately show ?thesis
    using nz d0 it i0 ss0 by (simp add: decodeAndValidate_def Let_def)
qed

definition reopened :: "chunk \<Rightarrow> chunk" where
  "reopened c = NewChunk\<lparr>c_minTs := c_minTs c, c_maxTs := c_maxTs c, c_numSamples := c_numSamples c,
      c_sealed := True, c_bw := \<lparr>bw_buf = bw_bytes (c_bw c), bw_cur = 0, bw_nBits = 0\<rparr>,
      c_gens := c_gens c, c_maxGen := c_maxGen c\<rparr>"

lemma reopened_iterator: "Iterator (reopened c) = Iterator c"
  by (simp add: Iterator_def reopened_def NewChunk_def bw_bytes_def)

lemma FromBytes_Bytes_rep:
  assumes rep: "chunk_rep c ss"
  shows "FromBytes (Bytes c) = Inr (reopened c)"
proof -
  let ?bs = "bw_bytes (c_bw c)" and ?L = "put_u32 (of_nat (length (bw_bytes (c_bw c))))"
  have len: "unat (of_nat (length ?bs) :: u32) = length ?bs"
    using length_bw_bytes_rep [OF rep] by (simp only: unat_of_nat) (simp add: take_bit_nat_eq_self)
  have B: "Bytes c = chunkMagicV1 @ put_u64 (c_minTs c) @ put_u64 (c_maxTs c) @ put_u16 (c_numSamples c)
      @ ?L @ ?bs @ genSection (c_gens c)" by (simp add: Bytes_def Let_def)
  have m4: "length chunkMagicV1 = 4" by (simp add: chunkMagicV1_def)
  have f: "take 4 (Bytes c) = chunkMagicV1" "take 8 (drop 4 (Bytes c)) = put_u64 (c_minTs c)"
      "take 8 (drop 12 (Bytes c)) = put_u64 (c_maxTs c)" "take 2 (drop 20 (Bytes c)) = put_u16 (c_numSamples c)"
      "take 4 (drop 22 (Bytes c)) = ?L" "take (length ?bs) (drop 26 (Bytes c)) = ?bs"
      "drop (26 + length ?bs) (Bytes c) = genSection (c_gens c)"
      "26 + length ?bs \<le> length (Bytes c)"
    unfolding B using m4 by simp_all
  have g: "decodeGens (genSection (c_gens c)) (unat (c_numSamples c)) = Inr (c_gens c)"
    using decodeGens_genSection [of "c_gens c"] numSamples_rep [OF rep] rep by (auto simp: chunk_rep_def)
  have mg: "maxGenOf (c_gens c) = c_maxGen c" using rep by (simp add: chunk_rep_def)
  show ?thesis
    using f(8) decodeAndValidate_rep [OF rep]
    by (simp add: FromBytes_def chunkHeaderLen_def f(1-7) Let_def len g mg reopened_def)
qed

lemma span_wrap:
  fixes a b :: i64
  assumes "sint a \<le> sint b"
  shows "b - a <s 0 \<or> maxSpanMs \<le>s b - a \<longleftrightarrow> sint b - sint a \<ge> 7200000"
proof -
  have "- (2 ^ 63) \<le> sint a" "sint b < 2 ^ 63"
    using sint_range_size [of a] sint_range_size [of b] by (simp_all add: word_size)
  then show ?thesis using sint_diff_wrap [OF assms] assms
    by (auto simp: word_sless_alt word_sle_eq maxSpanMs_def)
qed

lemma foldMinMax_bounds:
  assumes "foldMinMax mn mx ss = (a, b)"
  shows "a \<in> insert mn (fst ` set ss) \<and> b \<in> insert mx (fst ` set ss)
    \<and> (\<forall>t \<in> insert mn (fst ` set ss). sint a \<le> sint t) \<and> (\<forall>t \<in> insert mx (fst ` set ss). sint t \<le> sint b)"
  using assms
proof (induction mn mx ss rule: foldMinMax.induct)
  case (2 mn mx ts v g ss)
  then show ?case by (simp add: word_sless_alt split: if_splits) force+
qed simp

lemma extreme_diff:
  fixes a b :: i64
  assumes "a \<in> f ` S" "b \<in> f ` S" "\<forall>t \<in> f ` S. sint a \<le> sint t" "\<forall>t \<in> f ` S. sint t \<le> sint b"
  shows "k \<le> sint b - sint a \<longleftrightarrow> (\<exists>s \<in> S. \<exists>t \<in> S. k \<le> sint (f t) - sint (f s))"
proof
  assume k: "k \<le> sint b - sint a"
  obtain s t where "s \<in> S" "a = f s" "t \<in> S" "b = f t" using assms(1,2) by (auto elim!: imageE)
  with k show "\<exists>s \<in> S. \<exists>t \<in> S. k \<le> sint (f t) - sint (f s)" by blast
next
  assume "\<exists>s \<in> S. \<exists>t \<in> S. k \<le> sint (f t) - sint (f s)"
  then obtain s t where "s \<in> S" "t \<in> S" "k \<le> sint (f t) - sint (f s)" by blast
  moreover from this have "sint a \<le> sint (f s)" "sint (f t) \<le> sint b" using assms(3,4) by simp_all
  ultimately show "k \<le> sint b - sint a" by linarith
qed

lemma append_all_snoc:
  "append_all c (ss @ [(ts, v, g)]) = (case append_all c ss of Inl e \<Rightarrow> Inl e | Inr c' \<Rightarrow> Append c' ts v g)"
  by (induction c ss rule: append_all.induct) (auto split: sum.splits)

lemma sealed_iff:
  assumes "append_all NewChunk ss = Inr c"
  shows "Sealed c \<longleftrightarrow> length ss = 120 \<or> (\<exists>s \<in> set ss. \<exists>t \<in> set ss. sint (fst t) - sint (fst s) \<ge> 7200000)"
proof (cases ss rule: rev_cases)
  case Nil
  then have "c = NewChunk" using assms by simp
  then show ?thesis using Nil by (simp add: Sealed_def NewChunk_def)
next
  case (snoc ss' x)
  obtain ts v g where x: "x = (ts, v, g)" by (cases x)
  obtain c1 where c1: "append_all NewChunk ss' = Inr c1" "Append c1 ts v g = Inr c"
    using assms unfolding snoc x append_all_snoc by (auto split: sum.splits)
  have rep1: "chunk_rep c1 ss'" using append_all_rep [OF chunk_rep_new c1(1)] by simp
  have rep: "chunk_rep c ss" using append_all_rep [OF chunk_rep_new assms] by simp
  show ?thesis
  proof (cases ss')
    case Nil
    then have "c_numSamples c1 = 0" using rep1 by (simp add: chunk_rep_def)
    then have "\<not> c_sealed c" using c1(2) by (auto simp: Append_def Let_def split: if_splits)
    then show ?thesis using Nil snoc by (simp add: Sealed_def)
  next
    case (Cons y ys)
    obtain ts0 v0 g0 where y: "y = (ts0, v0, g0)" by (cases y)
    have nz: "c_numSamples c1 \<noteq> 0" and wf: "wf_bw (c_bw c1)"
      using numSamples_rep [OF rep1] rep1 Cons by (auto simp: chunk_rep_def)
    have ss: "ss = (ts0, v0, g0) # (ys @ [x])" using snoc Cons y by simp
    have fm: "foldMinMax ts0 ts0 (ys @ [x]) = (c_minTs c, c_maxTs c)"
      using rep unfolding ss by (simp add: chunk_rep_def)
    note B = foldMinMax_bounds [OF fm]
    have T: "insert ts0 (fst ` set (ys @ [x])) = fst ` set ss" by (simp add: ss)
    have le: "sint (c_minTs c) \<le> sint (c_maxTs c)" using B by auto
    have "sint (c_maxTs c) - sint (c_minTs c) \<ge> 7200000
        \<longleftrightarrow> (\<exists>s \<in> set ss. \<exists>t \<in> set ss. sint (fst t) - sint (fst s) \<ge> 7200000)"
      using B unfolding T by (intro extreme_diff) blast+
    moreover have "c_numSamples c \<ge> maxSamples \<longleftrightarrow> length ss = 120"
      using numSamples_rep [OF rep] rep by (auto simp: word_le_nat_alt maxSamples_def chunk_rep_def)
    ultimately show ?thesis
      using Append_later(9) [OF c1(2) nz wf] span_wrap [OF le] by (simp add: Sealed_def)
  qed
qed

section \<open>Properties of the chunk\<close>

text \<open>
  C5: append-then-read round trip. Whatever samples a fresh chunk accepted, the iterator returns
  exactly those (timestamp, value bits, generation), in order, and stops without an error.
\<close>

theorem chunk_roundtrip:
  assumes "append_all NewChunk ss = Inr c"
  shows "fst (drain (Iterator c)) = ss \<and> \<not> it_err (snd (drain (Iterator c))) \<and> NumSamples c = length ss"
proof -
  have rep: "chunk_rep c ss" using append_all_rep [OF chunk_rep_new assms] by simp
  then show ?thesis using drain_rep [OF rep] numSamples_rep [OF rep] by (auto simp: NumSamples_def)
qed

theorem chunk_roundtrip_witness:
  "\<exists>c. append_all NewChunk [(1000, 5, 1), (1015, 5, 1), (1030, 9, 2)] = Inr c
     \<and> fst (drain (Iterator c)) = [(1000, 5, 1), (1015, 5, 1), (1030, 9, 2)]"
proof -
  have "\<not> isl (append_all NewChunk [(1000, 5, 1), (1015, 5, 1), (1030, 9, 2)])" by code_simp
  then obtain c where "append_all NewChunk [(1000, 5, 1), (1015, 5, 1), (1030, 9, 2)] = Inr c"
    by (cases "append_all NewChunk [(1000, 5, 1), (1015, 5, 1), (1030, 9, 2)]") auto
  with chunk_roundtrip [OF this] show ?thesis by blast
qed

text \<open>
  C15: serialization round trip. Every chunk built by appends is accepted by \<^const>\<open>FromBytes\<close>
  from its own \<^const>\<open>Bytes\<close>: the reopened chunk is sealed, its iterator yields the same samples
  with the same generations, and the header bounds and the largest generation are unchanged.
\<close>

theorem chunk_bytes_roundtrip:
  assumes "append_all NewChunk ss = Inr c"
  shows "\<exists>c'. FromBytes (Bytes c) = Inr c' \<and> Sealed c' \<and> drain (Iterator c') = drain (Iterator c)
           \<and> c_minTs c' = c_minTs c \<and> c_maxTs c' = c_maxTs c \<and> c_maxGen c' = c_maxGen c"
proof -
  have rep: "chunk_rep c ss" using append_all_rep [OF chunk_rep_new assms] by simp
  then show ?thesis using FromBytes_Bytes_rep [OF rep] reopened_iterator [of c]
    by (auto simp: Sealed_def reopened_def)
qed

theorem chunk_bytes_roundtrip_witness:
  "\<exists>c c'. append_all NewChunk [(7, 3, 4), (2, 8, 1)] = Inr c \<and> FromBytes (Bytes c) = Inr c' \<and> Sealed c'
     \<and> drain (Iterator c') = drain (Iterator c)"
proof -
  have "\<not> isl (append_all NewChunk [(7, 3, 4), (2, 8, 1)])" by code_simp
  then obtain c where "append_all NewChunk [(7, 3, 4), (2, 8, 1)] = Inr c"
    by (cases "append_all NewChunk [(7, 3, 4), (2, 8, 1)]") auto
  with chunk_bytes_roundtrip [OF this] show ?thesis by blast
qed

text \<open>
  C25: the sealing rule. A chunk built by appends is sealed exactly when it holds 120 samples or
  two of its samples are at least two hours apart as integers: the wrap-around of the 64-bit
  span never lets a chunk grow past the limit.
\<close>

theorem chunk_sealed_iff:
  assumes "append_all NewChunk ss = Inr c"
  shows "Sealed c \<longleftrightarrow> length ss = 120 \<or> (\<exists>s \<in> set ss. \<exists>t \<in> set ss. sint (fst t) - sint (fst s) \<ge> 7200000)"
  using assms by (rule sealed_iff)

theorem chunk_sealed_iff_witness:
  "\<exists>c. append_all NewChunk [(0x8000000000000000, 1, 0), (0x7fffffffffffffff, 1, 0)] = Inr c \<and> Sealed c"
proof -
  let ?ss = "[(0x8000000000000000, 1, 0), (0x7fffffffffffffff, 1, 0)] :: csample list"
  have "\<not> isl (append_all NewChunk ?ss)" by code_simp
  then obtain c where c: "append_all NewChunk ?ss = Inr c" by (cases "append_all NewChunk ?ss") auto
  have "sint (0x7fffffffffffffff :: i64) - sint (0x8000000000000000 :: i64) \<ge> 7200000" by code_simp
  then have "Sealed c" using chunk_sealed_iff [OF c] by simp
  with c show ?thesis by blast
qed

text \<open>
  \<^const>\<open>Outranks\<close> is a strict total order on (generation, value bits): irreflexive,
  asymmetric, transitive, and two samples it does not order are identical. So any two replicas
  that hold the same writes agree on the survivor.
\<close>

lemma Outranks_total:
  "\<not> Outranks g v g v
   \<and> (Outranks g v g' v' \<longrightarrow> \<not> Outranks g' v' g v)
   \<and> (Outranks g v g' v' \<and> Outranks g' v' g'' v'' \<longrightarrow> Outranks g v g'' v'')
   \<and> (Outranks g v g' v' \<or> Outranks g' v' g v \<or> (g = g' \<and> v = v'))"
  by (auto simp: Outranks_def word_sless_alt split: if_splits) (metis linorder_neqE signed_word_eqI)+

end
