(* ===== verification/Labels.thy ===== *)
theory Labels
  imports Prelude "HOL-Library.AList"
begin

text \<open>
  Tenants (\<^verbatim>\<open>internal/tenant/tenant.go\<close>) and label sets (\<^verbatim>\<open>internal/labels\<close>, with the
  domain rules of \<^verbatim>\<open>internal/metrics/labels.go\<close>, \<^verbatim>\<open>internal/metrics/validation.go\<close>,
  \<^verbatim>\<open>internal/logs/labels.go\<close> and \<^verbatim>\<open>internal/logs/validation.go\<close>). A Go
  \<^verbatim>\<open>map[string]string\<close> is an association list with distinct keys whose order stands for the
  unspecified iteration order; that nothing depends on the order is a theorem.
\<close>

section \<open>Tenants\<close>

abbreviation tenant_default :: string where "tenant_default \<equiv> ''anonymous''"
abbreviation tenant_label :: string where "tenant_label \<equiv> ''__tenant__''"

definition MaxLength :: nat where "MaxLength = 150"

datatype tenant_error = TenantEmpty | TenantTooLong | TenantDots | TenantChar char

definition is_lower :: "char \<Rightarrow> bool" where "is_lower c \<longleftrightarrow> CHR ''a'' \<le> c \<and> c \<le> CHR ''z''"
definition is_upper :: "char \<Rightarrow> bool" where "is_upper c \<longleftrightarrow> CHR ''A'' \<le> c \<and> c \<le> CHR ''Z''"
definition is_digit :: "char \<Rightarrow> bool" where "is_digit c \<longleftrightarrow> CHR ''0'' \<le> c \<and> c \<le> CHR ''9''"
definition is_alnum :: "char \<Rightarrow> bool" where "is_alnum c \<longleftrightarrow> is_lower c \<or> is_upper c \<or> is_digit c"

definition tenant_char :: "char \<Rightarrow> bool" where
  "tenant_char c \<longleftrightarrow> is_alnum c \<or> c \<in> set ''!-_.*'' \<or> c = CHR 0x27 \<or> c \<in> set ''()''"

definition Validate :: "string \<Rightarrow> tenant_error option" where
  "Validate tid =
     (if tid = [] then Some TenantEmpty
      else if length tid > MaxLength then Some TenantTooLong
      else if tid = ''.'' \<or> tid = ''..'' then Some TenantDots
      else map_option TenantChar (find (\<lambda>c. \<not> tenant_char c) tid))"

text \<open>
  \<^verbatim>\<open>strings.TrimSpace\<close>: the UTF-8 encodings of the Unicode white space characters are removed
  from both ends. A white space suffix is found by its last character's encoding, as
  \<^verbatim>\<open>utf8.DecodeLastRune\<close> finds it.
\<close>

definition space_encodings :: "string list" where
  "space_encodings =
     map (\<lambda>n. [char_of n]) [0x20, 0x09, 0x0A, 0x0B, 0x0C, 0x0D :: nat]
     @ map (map char_of) ([[0xC2, 0x85], [0xC2, 0xA0], [0xE1, 0x9A, 0x80], [0xE2, 0x80, 0xA8],
         [0xE2, 0x80, 0xA9], [0xE2, 0x80, 0xAF], [0xE2, 0x81, 0x9F], [0xE3, 0x80, 0x80]] :: nat list list)
     @ map (\<lambda>n. map char_of [0xE2, 0x80, n]) [0x80 ..< 0x8B :: nat]"

fun trim_left :: "string list \<Rightarrow> nat \<Rightarrow> string \<Rightarrow> string" where
  "trim_left encs 0 s = s"
| "trim_left encs (Suc n) s =
     (case find (\<lambda>e. take (length e) s = e) encs of
        None \<Rightarrow> s | Some e \<Rightarrow> trim_left encs n (drop (length e) s))"

definition TrimSpace :: "string \<Rightarrow> string" where
  "TrimSpace s =
     (let s1 = trim_left space_encodings (length s) s
      in rev (trim_left (map rev space_encodings) (length s1) (rev s1)))"

text \<open>
  \<^verbatim>\<open>Resolve\<close> takes the value \<^verbatim>\<open>h.Get(Header)\<close>; the result is \<^verbatim>\<open>Inr id\<close> for status 0 and
  \<^verbatim>\<open>Inl status\<close> otherwise.
\<close>

definition Resolve :: "string \<Rightarrow> bool \<Rightarrow> nat + string" where
  "Resolve header required =
     (let v = TrimSpace header in
      if v = [] then (if required then Inl 401 else Inr tenant_default)
      else if CHR ''|'' \<in> set v then Inl 400
      else case Validate v of Some _ \<Rightarrow> Inl 400 | None \<Rightarrow> Inr v)"

section \<open>Label sets\<close>

type_synonym label = "string \<times> string"
type_synonym gomap = "(string \<times> string) list"

definition gomap_ok :: "('k \<times> 'v) list \<Rightarrow> bool" where "gomap_ok m \<longleftrightarrow> distinct (map fst m)"

record Labels =
  l_pairs :: "label list"
  l_hash :: u64

text \<open>\<^verbatim>\<open>hash/fnv\<close>: the 64-bit FNV-1a state and its update by one byte.\<close>

definition fnv_offset :: u64 where "fnv_offset = 0xcbf29ce484222325"
definition fnv_prime :: u64 where "fnv_prime = 0x100000001b3"

definition fnv1a :: "u64 \<Rightarrow> bytes \<Rightarrow> u64" where
  "fnv1a h bs = foldl (\<lambda>h b. (h XOR ucast b) * fnv_prime) h bs"

fun fingerprint_loop :: "u64 \<Rightarrow> label list \<Rightarrow> u64" where
  "fingerprint_loop h [] = h"
| "fingerprint_loop h ((n, v) # ps) =
     (let h1 = fnv1a h (put_u64 (of_nat (length n)));
          h2 = fnv1a h1 (str_bytes n);
          h3 = fnv1a h2 (put_u64 (of_nat (length v)));
          h4 = fnv1a h3 (str_bytes v)
      in fingerprint_loop h4 ps)"

definition fingerprint :: "label list \<Rightarrow> u64" where
  "fingerprint pairs = fingerprint_loop fnv_offset pairs"

definition build :: "gomap \<Rightarrow> Labels" where
  "build m = (let pairs = sort_key fst m in \<lparr>l_pairs = pairs, l_hash = fingerprint pairs\<rparr>)"

definition NewUnvalidated :: "gomap \<Rightarrow> Labels" where "NewUnvalidated m = build m"

definition Hash :: "Labels \<Rightarrow> u64" where "Hash l = l_hash l"

function get_loop :: "label list \<Rightarrow> string \<Rightarrow> nat \<Rightarrow> nat \<Rightarrow> string option" where
  "get_loop ps name lo hi =
     (if lo < hi then
        let mid = (lo + hi) div 2 in
        if fst (ps ! mid) = name then Some (snd (ps ! mid))
        else if fst (ps ! mid) < name then get_loop ps name (mid + 1) hi
        else get_loop ps name lo mid
      else None)"
  by pat_completeness auto
termination
  by (relation "measure (\<lambda>(ps, name, lo, hi). hi - lo)") auto

declare get_loop.simps [simp del]

definition Get :: "Labels \<Rightarrow> string \<Rightarrow> string option" where
  "Get l name = get_loop (l_pairs l) name 0 (length (l_pairs l))"

definition Map :: "Labels \<Rightarrow> gomap" where
  "Map l = foldl (\<lambda>m p. AList.update (fst p) (snd p) m) [] (l_pairs l)"

definition WithTenant :: "Labels \<Rightarrow> string \<Rightarrow> Labels" where
  "WithTenant l tid =
     (if tid = tenant_default then l else build (AList.update tenant_label tid (Map l)))"

definition TenantOf :: "Labels \<Rightarrow> string" where
  "TenantOf l = (case Get l tenant_label of Some v \<Rightarrow> v | None \<Rightarrow> tenant_default)"

definition Without :: "Labels \<Rightarrow> string \<Rightarrow> Labels" where
  "Without l name = (case Get l name of None \<Rightarrow> l | Some _ \<Rightarrow> build (AList.delete name (Map l)))"

section \<open>Validation\<close>

datatype label_error =
    TooManyLabels | DefaultTenantLabel | BadTenant tenant_error | ReservedName string
  | InvalidName string | NameTooLong string | ValueNotUtf8 string | ValueTooLong string
  | NameRequired | InvalidMetricName string | MetricNameTooLong | NoLabels

text \<open>The regular expressions \<^verbatim>\<open>labelNameRe\<close> and \<^verbatim>\<open>metricNameRe\<close>.\<close>

definition label_name_re :: "string \<Rightarrow> bool" where
  "label_name_re s = (case s of [] \<Rightarrow> False
     | c # cs \<Rightarrow> (is_lower c \<or> is_upper c \<or> c = CHR ''_'') \<and> list_all (\<lambda>c. is_alnum c \<or> c = CHR ''_'') cs)"

definition metric_name_re :: "string \<Rightarrow> bool" where
  "metric_name_re s = (case s of [] \<Rightarrow> False
     | c # cs \<Rightarrow> (is_lower c \<or> is_upper c \<or> c = CHR ''_'' \<or> c = CHR '':'')
         \<and> list_all (\<lambda>c. is_alnum c \<or> c = CHR ''_'' \<or> c = CHR '':'') cs)"

text \<open>\<^verbatim>\<open>unicode/utf8.ValidString\<close>: no overlong form, no surrogate, at most U+10FFFF.\<close>

definition in_range :: "nat \<Rightarrow> nat \<Rightarrow> char \<Rightarrow> bool" where
  "in_range a b c \<longleftrightarrow> a \<le> of_char c \<and> of_char c \<le> b"

fun ValidString :: "string \<Rightarrow> bool" where
  "ValidString [] = True"
| "ValidString (c # s) =
     (if in_range 0 0x7F c then ValidString s
      else if in_range 0xC2 0xDF c then
        (case s of c1 # s1 \<Rightarrow> in_range 0x80 0xBF c1 \<and> ValidString s1 | _ \<Rightarrow> False)
      else if in_range 0xE0 0xEF c then
        (case s of c1 # c2 # s2 \<Rightarrow>
           in_range (if of_char c = (0xE0 :: nat) then 0xA0 else 0x80)
                    (if of_char c = (0xED :: nat) then 0x9F else 0xBF) c1
           \<and> in_range 0x80 0xBF c2 \<and> ValidString s2
         | _ \<Rightarrow> False)
      else if in_range 0xF0 0xF4 c then
        (case s of c1 # c2 # c3 # s3 \<Rightarrow>
           in_range (if of_char c = (0xF0 :: nat) then 0x90 else 0x80)
                    (if of_char c = (0xF4 :: nat) then 0x8F else 0xBF) c1
           \<and> in_range 0x80 0xBF c2 \<and> in_range 0x80 0xBF c3 \<and> ValidString s3
         | _ \<Rightarrow> False)
      else False)"

definition has_prefix :: "string \<Rightarrow> string \<Rightarrow> bool" where
  "has_prefix s p \<longleftrightarrow> take (length p) s = p"

definition validateLabel :: "bool \<Rightarrow> label \<Rightarrow> label_error option" where
  "validateLabel allowTenant kv =
     (case kv of (k, v) \<Rightarrow>
      if k = tenant_label \<and> allowTenant then
        (if v = tenant_default then Some DefaultTenantLabel
         else map_option BadTenant (Validate v))
      else if k \<noteq> ''__name__'' \<and> has_prefix k ''__'' then Some (ReservedName k)
      else if k \<noteq> ''__name__'' \<and> \<not> label_name_re k then Some (InvalidName k)
      else if length k > 255 then Some (NameTooLong k)
      else if \<not> ValidString v then Some (ValueNotUtf8 k)
      else if length v > 65535 then Some (ValueTooLong k)
      else None)"

fun validate_loop :: "bool \<Rightarrow> gomap \<Rightarrow> label_error option" where
  "validate_loop allowTenant [] = None"
| "validate_loop allowTenant (kv # m) =
     (case validateLabel allowTenant kv of Some e \<Rightarrow> Some e | None \<Rightarrow> validate_loop allowTenant m)"

definition validateLabelMap :: "gomap \<Rightarrow> bool \<Rightarrow> label_error option" where
  "validateLabelMap m allowTenant =
     (if length m > 255 then Some TooManyLabels else validate_loop allowTenant m)"

definition New :: "gomap \<Rightarrow> label_error + Labels" where
  "New m = (case validateLabelMap m False of Some e \<Rightarrow> Inl e | None \<Rightarrow> Inr (build m))"

definition NewStored :: "gomap \<Rightarrow> label_error + Labels" where
  "NewStored m = (case validateLabelMap m True of Some e \<Rightarrow> Inl e | None \<Rightarrow> Inr (build m))"

definition validateMetricName :: "gomap \<Rightarrow> label_error option" where
  "validateMetricName m =
     (case map_of m ''__name__'' of None \<Rightarrow> Some NameRequired
      | Some name \<Rightarrow>
        if \<not> metric_name_re name then Some (InvalidMetricName name)
        else if length name > 65535 then Some MetricNameTooLong
        else None)"

definition NewLabels :: "gomap \<Rightarrow> label_error + Labels" where
  "NewLabels m = (case validateMetricName m of Some e \<Rightarrow> Inl e | None \<Rightarrow> New m)"

definition NewStoredLabels :: "gomap \<Rightarrow> label_error + Labels" where
  "NewStoredLabels m = (case validateMetricName m of Some e \<Rightarrow> Inl e | None \<Rightarrow> NewStored m)"

definition NewStreamLabels :: "gomap \<Rightarrow> label_error + Labels" where
  "NewStreamLabels m = (if m = [] then Inl NoLabels else New m)"

definition NewStoredStreamLabels :: "gomap \<Rightarrow> label_error + Labels" where
  "NewStoredStreamLabels m = (if m = [] then Inl NoLabels else NewStored m)"

definition MaxLineBytes :: nat where "MaxLineBytes = 262144"

datatype entry_error = BadTimestamp | LineTooLong

definition ValidateEntry :: "i64 \<Rightarrow> string \<Rightarrow> entry_error option" where
  "ValidateEntry tsNs line =
     (if tsNs \<le>s 0 then Some BadTimestamp
      else if length line > MaxLineBytes then Some LineTooLong else None)"

section \<open>Well-formed label sets\<close>

definition labels_ok :: "Labels \<Rightarrow> bool" where
  "labels_ok l \<longleftrightarrow> sorted (map fst (l_pairs l)) \<and> distinct (map fst (l_pairs l))
     \<and> l_hash l = fingerprint (l_pairs l)"

lemma map_of_sort_key: "distinct (map fst m) \<Longrightarrow> map_of (sort_key fst m) = map_of m"
  by (intro map_of_inject_set [THEN iffD2]) (auto simp: distinct_map)

lemma labels_ok_build [simp, intro]: "gomap_ok m \<Longrightarrow> labels_ok (build m)"
  by (simp add: labels_ok_def build_def gomap_ok_def Let_def distinct_map)

lemma map_of_build [simp]: "gomap_ok m \<Longrightarrow> map_of (l_pairs (build m)) = map_of m"
  by (simp add: build_def gomap_ok_def map_of_sort_key Let_def)

lemma labels_eqI:
  assumes "labels_ok l" "labels_ok l'" "map_of (l_pairs l) = map_of (l_pairs l')"
  shows "l = l'"
proof -
  have "set (l_pairs l) = set (l_pairs l')"
    using assms by (subst map_of_inject_set [symmetric]) (auto simp: labels_ok_def)
  then have "l_pairs l = l_pairs l'"
    using assms(1,2) by (intro map_sorted_distinct_set_unique [where f = fst])
      (auto simp: labels_ok_def distinct_map)
  then show ?thesis using assms(1,2) by (cases l; cases l') (simp add: labels_ok_def)
qed

lemma get_loop_spec:
  assumes "sorted (map fst ps)" "distinct (map fst ps)" "hi \<le> length ps"
    and "\<And>i. i < length ps \<Longrightarrow> fst (ps ! i) = name \<Longrightarrow> lo \<le> i \<and> i < hi"
  shows "get_loop ps name lo hi = map_of ps name"
  using assms
proof (induction ps name lo hi rule: get_loop.induct)
  case (1 ps name lo hi)
  define mid where "mid = (lo + hi) div 2"
  have mono: "fst (ps ! i) \<le> fst (ps ! j)" if "i \<le> j" "j < length ps" for i j
    using sorted_nth_mono [OF "1.prems"(1), of i j] that by simp
  show ?case
  proof (cases "lo < hi")
    case False
    then have "map_of ps name = None"
      using "1.prems"(4) by (fastforce simp: map_of_eq_None_iff in_set_conv_nth)
    then show ?thesis using False by (simp add: get_loop.simps)
  next
    case True
    then have mid: "lo \<le> mid" "mid < hi" "mid < length ps" using "1.prems"(3) by (auto simp: mid_def)
    consider (eq) "fst (ps ! mid) = name" | (lt) "fst (ps ! mid) < name" | (gt) "name < fst (ps ! mid)"
      by (rule linorder_cases)
    then show ?thesis
    proof cases
      case eq
      moreover have "map_of ps (fst (ps ! mid)) = Some (snd (ps ! mid))"
        using mid "1.prems"(2) by (intro map_of_is_SomeI) simp_all
      ultimately show ?thesis using True by (simp add: get_loop.simps flip: mid_def)
    next
      case lt
      have "get_loop ps name (mid + 1) hi = map_of ps name"
      proof (rule "1.IH"(1) [OF True mid_def])
        fix i assume i: "i < length ps" "fst (ps ! i) = name"
        then show "mid + 1 \<le> i \<and> i < hi"
          using lt mono [of i mid] mid "1.prems"(4) [OF i] by (simp add: Suc_le_eq) (meson leD not_le)
      qed (use lt "1.prems" in auto)
      then show ?thesis using True lt by (auto simp: get_loop.simps [of ps name lo] simp flip: mid_def)
    next
      case gt
      have "get_loop ps name lo mid = map_of ps name"
      proof (rule "1.IH"(2) [OF True mid_def])
        fix i assume i: "i < length ps" "fst (ps ! i) = name"
        then show "lo \<le> i \<and> i < mid"
          using gt mono [of mid i] "1.prems"(4) [OF i] by (meson leD not_le)
      qed (use gt mid "1.prems" in auto)
      then show ?thesis using True gt by (auto simp: get_loop.simps [of ps name lo] simp flip: mid_def)
    qed
  qed
qed

lemma Get_map_of: "labels_ok l \<Longrightarrow> Get l name = map_of (l_pairs l) name"
  unfolding Get_def by (rule get_loop_spec) (auto simp: labels_ok_def)

lemma distinct_foldl_update:
  "distinct (map fst m) \<Longrightarrow> distinct (map fst (foldl (\<lambda>m p. AList.update (fst p) (snd p) m) m ps))"
  by (induction ps arbitrary: m) (simp_all add: distinct_update)

lemma gomap_ok_Map [simp, intro]: "gomap_ok (Map l)"
  by (simp add: gomap_ok_def Map_def distinct_foldl_update)

lemma map_of_foldl_update:
  "map_of (foldl (\<lambda>m p. AList.update (fst p) (snd p) m) m ps) = map_of m ++ map_of (rev ps)"
  by (induction ps arbitrary: m) (auto simp: update_conv' map_add_assoc [symmetric])

lemma map_of_rev: "distinct (map fst ps) \<Longrightarrow> map_of (rev ps) = map_of ps"
  by (intro map_of_inject_set [THEN iffD2]) (auto simp: rev_map [symmetric])

lemma map_of_Map [simp]: "labels_ok l \<Longrightarrow> map_of (Map l) = map_of (l_pairs l)"
  by (simp add: Map_def map_of_foldl_update labels_ok_def map_of_rev)

lemma gomap_ok_update [simp, intro]: "gomap_ok m \<Longrightarrow> gomap_ok (AList.update k v m)"
  by (simp add: gomap_ok_def distinct_update)

lemma gomap_ok_delete [simp, intro]: "gomap_ok m \<Longrightarrow> gomap_ok (AList.delete k m)"
  by (simp add: gomap_ok_def distinct_delete)

lemma WithTenant_ok [simp, intro]: "labels_ok l \<Longrightarrow> labels_ok (WithTenant l tid)"
  by (auto simp: WithTenant_def)

lemma Without_ok [simp, intro]: "labels_ok l \<Longrightarrow> labels_ok (Without l n)"
  by (auto simp: Without_def split: option.splits)

lemma Get_WithTenant:
  assumes "labels_ok l"
  shows "Get (WithTenant l tid) n =
    (if tid \<noteq> tenant_default \<and> n = tenant_label then Some tid else Get l n)"
  using assms by (simp add: Get_map_of) (auto simp: WithTenant_def update_conv')

lemma Get_Without:
  assumes "labels_ok l"
  shows "Get (Without l m) n = (if n = m then None else Get l n)"
  using assms by (simp add: Get_map_of) (auto simp: Without_def Get_map_of delete_conv' split: option.splits)

lemma labels_eq_GetI:
  "labels_ok l \<Longrightarrow> labels_ok l' \<Longrightarrow> (\<And>n. Get l n = Get l' n) \<Longrightarrow> l = l'"
  by (rule labels_eqI) (auto simp: Get_map_of)


section \<open>The hashed byte string\<close>

text \<open>What \<^const>\<open>fingerprint\<close> feeds to the hash, and that it determines the label pairs.\<close>

definition hashed_bytes :: "label list \<Rightarrow> bytes" where
  "hashed_bytes ps = concat (map (\<lambda>(n, v).
     put_u64 (of_nat (length n)) @ str_bytes n @ put_u64 (of_nat (length v)) @ str_bytes v) ps)"

lemma fnv1a_append: "fnv1a (fnv1a h xs) ys = fnv1a h (xs @ ys)"
  by (simp add: fnv1a_def)

lemma fingerprint_loop_bytes: "fingerprint_loop h ps = fnv1a h (hashed_bytes ps)"
  by (induction h ps rule: fingerprint_loop.induct)
    (simp_all add: hashed_bytes_def Let_def fnv1a_append, simp add: fnv1a_def)

lemma framed_inject:
  assumes "length x < 2 ^ 64" "length y < 2 ^ 64"
    and "put_u64 (of_nat (length x)) @ str_bytes x @ xs = put_u64 (of_nat (length y)) @ str_bytes y @ ys"
  shows "x = y \<and> xs = ys"
proof -
  have e: "put_u64 (of_nat (length x)) = put_u64 (of_nat (length y))"
    and r: "str_bytes x @ xs = str_bytes y @ ys" using assms(3) by (simp_all add: append_eq_append_conv)
  have "(of_nat (length x) :: u64) = of_nat (length y)" using arg_cong [OF e, of "get_be :: bytes \<Rightarrow> u64"] by simp
  then have "length x = length y"
    using assms(1,2) by (simp add: of_nat_eq_iff word_of_nat_eq_iff take_bit_nat_eq_self)
  then have b: "str_bytes x = str_bytes y" "xs = ys" using r by (simp_all add: append_eq_append_conv)
  show ?thesis using arg_cong [OF b(1), of bytes_str] b(2) by simp
qed

definition short_pairs :: "label list \<Rightarrow> bool" where
  "short_pairs ps \<longleftrightarrow> (\<forall>(n, v) \<in> set ps. length n < 2 ^ 64 \<and> length v < 2 ^ 64)"

lemma hashed_bytes_inject:
  assumes "short_pairs ps" "short_pairs qs" "hashed_bytes ps = hashed_bytes qs"
  shows "ps = qs"
  using assms
proof (induction ps arbitrary: qs)
  case Nil
  then show ?case by (cases qs) (auto simp: hashed_bytes_def dest: arg_cong [of _ _ length])
next
  case (Cons p ps)
  obtain n v where p: "p = (n, v)" by (cases p)
  obtain q qs' where qs: "qs = q # qs'" using Cons.prems by (cases qs) (auto simp: hashed_bytes_def p dest: arg_cong [of _ _ length])
  obtain n' v' where q: "q = (n', v')" by (cases q)
  note e = Cons.prems(3) [unfolded qs p q hashed_bytes_def, simplified]
  have l: "length n < 2 ^ 64" "length v < 2 ^ 64" "length n' < 2 ^ 64" "length v' < 2 ^ 64"
    using Cons.prems(1,2) by (auto simp: short_pairs_def p q qs)
  have 1: "n = n' \<and> put_u64 (of_nat (length v)) @ str_bytes v @ hashed_bytes ps
      = put_u64 (of_nat (length v')) @ str_bytes v' @ hashed_bytes qs'"
    by (rule framed_inject) (use l e in \<open>simp_all add: hashed_bytes_def\<close>)
  then have "v = v' \<and> hashed_bytes ps = hashed_bytes qs'" using l by (intro framed_inject) simp_all
  then show ?case using 1 Cons by (auto simp: qs p q short_pairs_def)
qed

section \<open>Properties\<close>

text \<open>
  A label set is canonical: two maps give the same \<^verbatim>\<open>Labels\<close> (pairs and hash) exactly
  when they are equal as maps, whatever order the iteration visited them in.
\<close>

lemma build_canonical:
  assumes "gomap_ok m" "gomap_ok m'"
  shows "build m = build m' \<longleftrightarrow> map_of m = map_of m'"
  using assms labels_eqI [of "build m" "build m'"] by (metis labels_ok_build map_of_build)

text \<open>
  The binary search of \<^verbatim>\<open>Labels.Get\<close> returns what the map held.
\<close>

lemma Get_build: "gomap_ok m \<Longrightarrow> Get (build m) name = map_of m name"
  by (simp add: Get_map_of)

lemma validate_loop_None:
  "validate_loop a m = None \<longleftrightarrow> (\<forall>kv \<in> set m. validateLabel a kv = None)"
  by (induction a m rule: validate_loop.induct) (auto split: option.splits)

lemma New_no_tenant:
  assumes "gomap_ok m" "New m = Inr l"
  shows "l = build m \<and> labels_ok l \<and> Get l tenant_label = None"
proof -
  have l: "l = build m" and v: "\<forall>kv \<in> set m. validateLabel False kv = None"
    using assms(2) by (auto simp: New_def validateLabelMap_def validate_loop_None split: option.splits if_splits)
  have "tenant_label \<notin> fst ` set m" using v by (fastforce simp: validateLabel_def has_prefix_def)
  then show ?thesis using assms(1) l by (simp add: Get_map_of map_of_eq_None_iff)
qed

text \<open>
  C24: tenant isolation in the series identity. For label sets a client can create, the tenant
  label added by \<^const>\<open>WithTenant\<close> is read back by \<^const>\<open>TenantOf\<close> and removed by \<^const>\<open>Without\<close>, and two
  series of different tenants never get the same label set.
\<close>

theorem tenant_isolation:
  assumes "gomap_ok m" "gomap_ok m'" "New m = Inr l" "New m' = Inr l'"
  shows "TenantOf (WithTenant l tid) = tid
    \<and> Without (WithTenant l tid) tenant_label = l
    \<and> (WithTenant l tid = WithTenant l' tid' \<longleftrightarrow> l = l' \<and> tid = tid')"
proof -
  have rt: "TenantOf (WithTenant k t) = t \<and> Without (WithTenant k t) tenant_label = k"
    if "gomap_ok n" "New n = Inr k" for n k t
  proof -
    note k = New_no_tenant [OF that]
    then have ok: "labels_ok k" and g: "Get k tenant_label = None" by blast+
    have "Without (WithTenant k t) tenant_label = k"
      by (rule labels_eq_GetI) (auto simp: ok g Get_Without Get_WithTenant)
    then show ?thesis using ok g by (simp add: TenantOf_def Get_WithTenant)
  qed
  show ?thesis using rt [OF assms(1,3)] rt [OF assms(2,4)] by metis
qed

theorem tenant_isolation_witness:
  "TenantOf (WithTenant (build [(''job'', ''api'')]) ''acme'') = ''acme''
   \<and> Without (WithTenant (build [(''job'', ''api'')]) ''acme'') tenant_label = build [(''job'', ''api'')]"
  using tenant_isolation [of "[(''job'', ''api'')]" "[(''job'', ''api'')]" "build [(''job'', ''api'')]"
    "build [(''job'', ''api'')]" "''acme''" "''acme''"]
  by (simp add: gomap_ok_def New_def validateLabelMap_def validateLabel_def has_prefix_def label_name_re_def
    is_lower_def is_alnum_def in_range_def)

text \<open>
  The fingerprint is the FNV-1a hash of a byte string that determines the label pairs:
  thanks to the length prefixes no two label sets feed the same bytes to the hash.
\<close>

lemma fingerprint_input_injective:
  assumes "short_pairs ps" "short_pairs qs"
  shows "fingerprint ps = fnv1a fnv_offset (hashed_bytes ps)
    \<and> (hashed_bytes ps = hashed_bytes qs \<longleftrightarrow> ps = qs)"
  using hashed_bytes_inject [OF assms] by (auto simp: fingerprint_def fingerprint_loop_bytes)

lemma New_success: "(\<exists>l. New m = Inr l) \<longleftrightarrow> length m \<le> 255 \<and> (\<forall>kv \<in> set m. validateLabel False kv = None)"
  by (auto simp: New_def validateLabelMap_def validate_loop_None [symmetric] split: option.splits)

text \<open>
  \<^const>\<open>New\<close> accepts a client label set exactly when it has at most 255 labels, every name is
  \<^verbatim>\<open>__name__\<close> or an unreserved label name of at most 255 bytes and every value is valid UTF-8 of
  at most 65535 bytes, the limits of the WAL encoding. The map order is irrelevant.
\<close>

lemma New_accepts_iff:
  "(\<exists>l. New m = Inr l) \<longleftrightarrow> length m \<le> 255 \<and> (\<forall>(k, v) \<in> set m.
      (k = ''__name__'' \<or> label_name_re k \<and> \<not> has_prefix k ''__'') \<and> length k \<le> 255
      \<and> length v \<le> 65535 \<and> ValidString v)"
  unfolding New_success by (auto simp: validateLabel_def split: if_splits)

end
