(* ===== verification/Postings.thy ===== *)
theory Postings
  imports Labels
begin

text \<open>
  The in-memory inverted index of \<^verbatim>\<open>internal/storage/index/postings.go\<close>: label name to label
  value to ascending series IDs. The interface every user of an inverted index relies on is the
  locale \<^verbatim>\<open>label_index\<close> (and \<^verbatim>\<open>mutable_label_index\<close> for the head's index); the abstract state
  is the map from series ID to its set of label pairs. A Go map is an association list with
  distinct keys, as in \<^verbatim>\<open>Labels\<close>; the mutex makes every operation atomic, so operations are
  functions on the state.
\<close>

section \<open>The model\<close>

type_synonym ids = "u64 list"

record MemPostings =
  mp_m :: "(string \<times> (string \<times> ids) list) list"
  mp_allRefs :: ids

definition NewMemPostings :: MemPostings where
  "NewMemPostings = \<lparr>mp_m = [], mp_allRefs = []\<rparr>"

definition containsSorted :: "ids \<Rightarrow> u64 \<Rightarrow> bool" where
  "containsSorted s x = (let i = sort_search (length s) (\<lambda>i. s ! i \<ge> x) in i < length s \<and> s ! i = x)"

definition insertSorted :: "ids \<Rightarrow> u64 \<Rightarrow> ids" where
  "insertSorted s x =
     (let i = sort_search (length s) (\<lambda>i. s ! i \<ge> x) in
      if i < length s \<and> s ! i = x then s else take i s @ [x] @ drop i s)"

definition removeSorted :: "ids \<Rightarrow> u64 \<Rightarrow> ids" where
  "removeSorted s x =
     (let i = sort_search (length s) (\<lambda>i. s ! i \<ge> x) in
      if i < length s \<and> s ! i = x then take i s @ drop (i + 1) s else s)"

fun intersectSorted :: "ids \<Rightarrow> ids \<Rightarrow> ids" where
  "intersectSorted (a # as) (b # bs) =
     (if a = b then a # intersectSorted as bs
      else if a < b then intersectSorted as (b # bs)
      else intersectSorted (a # as) bs)"
| "intersectSorted _ _ = []"

text \<open>Reading an absent key of a Go map gives the zero value: the empty map or the nil slice.\<close>

definition lookup0 :: "('k \<times> 'v list) list \<Rightarrow> 'k \<Rightarrow> 'v list" where
  "lookup0 m k = (case map_of m k of Some v \<Rightarrow> v | None \<Rightarrow> [])"

fun add_pairs :: "(string \<times> (string \<times> ids) list) list \<Rightarrow> u64 \<Rightarrow> label list
    \<Rightarrow> (string \<times> (string \<times> ids) list) list" where
  "add_pairs m x [] = m"
| "add_pairs m x ((n, v) # ls) =
     (let vals = lookup0 m n
      in add_pairs (AList.update n (AList.update v (insertSorted (lookup0 vals v) x) vals) m) x ls)"

definition Add :: "MemPostings \<Rightarrow> u64 \<Rightarrow> label list \<Rightarrow> MemPostings" where
  "Add p x ls =
     (if containsSorted (mp_allRefs p) x then p
      else \<lparr>mp_m = add_pairs (mp_m p) x ls, mp_allRefs = insertSorted (mp_allRefs p) x\<rparr>)"

definition Postings :: "MemPostings \<Rightarrow> string \<Rightarrow> string \<Rightarrow> ids" where
  "Postings p n v =
     (if n = [] \<and> v = [] then mp_allRefs p
      else case map_of (mp_m p) n of Some vals \<Rightarrow> lookup0 vals v | None \<Rightarrow> [])"

fun select_lists :: "MemPostings \<Rightarrow> label list \<Rightarrow> ids list option" where
  "select_lists p [] = Some []"
| "select_lists p ((n, v) # ms) =
     (case map_of (mp_m p) n of None \<Rightarrow> None
      | Some vals \<Rightarrow>
        if lookup0 vals v = [] then None
        else map_option ((#) (lookup0 vals v)) (select_lists p ms))"

fun intersect_all :: "ids \<Rightarrow> ids list \<Rightarrow> ids" where
  "intersect_all result [] = result"
| "intersect_all result (l # ls) =
     (let r = intersectSorted result l in if r = [] then [] else intersect_all r ls)"

text \<open>
  \<^verbatim>\<open>sort.Slice\<close> by length is not stable; the order among lists of equal length does not
  matter, as the specification of \<^verbatim>\<open>Select\<close> below shows.
\<close>

definition Select :: "MemPostings \<Rightarrow> label list \<Rightarrow> ids" where
  "Select p matchers =
     (if matchers = [] then mp_allRefs p
      else case select_lists p matchers of
             None \<Rightarrow> []
           | Some pls \<Rightarrow>
             (case sort_key length pls of [] \<Rightarrow> [] | l # rest \<Rightarrow> intersect_all l rest))"

fun delete_pairs :: "(string \<times> (string \<times> ids) list) list \<Rightarrow> u64 \<Rightarrow> label list
    \<Rightarrow> (string \<times> (string \<times> ids) list) list" where
  "delete_pairs m x [] = m"
| "delete_pairs m x ((n, v) # ls) =
     (case map_of m n of None \<Rightarrow> delete_pairs m x ls
      | Some vals \<Rightarrow>
        (let l = removeSorted (lookup0 vals v) x;
             vals' = (if l = [] then AList.delete v vals else AList.update v l vals);
             m' = (if vals' = [] then AList.delete n m else AList.update n vals' m)
         in delete_pairs m' x ls))"

definition Delete :: "MemPostings \<Rightarrow> u64 \<Rightarrow> label list \<Rightarrow> MemPostings" where
  "Delete p x ls = \<lparr>mp_m = delete_pairs (mp_m p) x ls, mp_allRefs = removeSorted (mp_allRefs p) x\<rparr>"

definition LabelNames :: "MemPostings \<Rightarrow> string list" where
  "LabelNames p = sort (map fst (mp_m p))"

definition LabelValues :: "MemPostings \<Rightarrow> string \<Rightarrow> string list" where
  "LabelValues p n =
     (case map_of (mp_m p) n of None \<Rightarrow> []
      | Some vals \<Rightarrow> sort (map fst (filter (\<lambda>(v, l). l \<noteq> []) vals)))"

definition SeriesCount :: "MemPostings \<Rightarrow> nat" where "SeriesCount p = length (mp_allRefs p)"
definition LabelNameCount :: "MemPostings \<Rightarrow> nat" where "LabelNameCount p = length (mp_m p)"
definition LabelPairCount :: "MemPostings \<Rightarrow> nat" where
  "LabelPairCount p = sum_list (map (\<lambda>(n, vals). length (filter (\<lambda>(v, l). l \<noteq> []) vals)) (mp_m p))"

section \<open>Ascending lists\<close>

lemma containsSorted_iff: "ascending s \<Longrightarrow> containsSorted s x \<longleftrightarrow> x \<in> set s"
  by (simp add: containsSorted_def Let_def ascending_search(3))

lemma insertSorted_ok:
  assumes "ascending s"
  shows "ascending (insertSorted s x)" and "set (insertSorted s x) = insert x (set s)"
proof -
  note S = ascending_search [OF assms, of x]
  have e: "insertSorted s x = (if x \<in> set s then s else filter (\<lambda>y. y < x) s @ x # filter (\<lambda>y. y \<ge> x) s)"
    by (simp add: insertSorted_def Let_def S)
  show "ascending (insertSorted s x)"
    using assms unfolding e by (auto simp: sorted_wrt_append sorted_wrt_filter intro: le_neq_trans)
  show "set (insertSorted s x) = insert x (set s)" unfolding e by auto
qed

lemma removeSorted_ok:
  assumes "ascending s"
  shows "ascending (removeSorted s x)" and "set (removeSorted s x) = set s - {x}"
proof -
  let ?i = "sort_search (length s) (\<lambda>i. s ! i \<ge> x)"
  have c: "drop ?i s = x # drop (?i + 1) s" if "x \<in> set s"
    using ascending_search(3) [OF assms, of x] that by (metis Cons_nth_drop_Suc Suc_eq_plus1)
  have a: "ascending (take ?i s @ drop ?i s)" using assms by simp
  have u: "set s = set (take ?i s) \<union> set (drop ?i s)" by (metis append_take_drop_id set_append)
  show "ascending (removeSorted s x)"
    using a c ascending_search(3) [OF assms, of x] assms
    by (auto simp: removeSorted_def Let_def sorted_wrt_append simp del: append_take_drop_id)
  show "set (removeSorted s x) = set s - {x}"
    using a c u ascending_search(3) [OF assms, of x]
    by (auto simp: removeSorted_def Let_def sorted_wrt_append simp del: append_take_drop_id)
qed

lemma intersectSorted_ok:
  "ascending a \<Longrightarrow> ascending b \<Longrightarrow> ascending (intersectSorted a b) \<and> set (intersectSorted a b) = set a \<inter> set b"
  by (induction a b rule: intersectSorted.induct) (auto dest: less_trans)

lemma intersect_all_ok:
  "ascending r \<Longrightarrow> \<forall>l \<in> set ls. ascending l \<Longrightarrow>
     ascending (intersect_all r ls) \<and> set (intersect_all r ls) = set r \<inter> \<Inter> (set ` set ls)"
proof (induction r ls rule: intersect_all.induct)
  case (2 r l ls)
  have i: "ascending (intersectSorted r l) \<and> set (intersectSorted r l) = set r \<inter> set l"
    using 2 by (intro intersectSorted_ok) simp_all
  show ?case
  proof (cases "intersectSorted r l = []")
    case True
    then have "set r \<inter> set l = {}" using i by simp
    then show ?thesis using True by (auto simp: Let_def)
  next
    case False
    then show ?thesis using 2 i by (auto simp: Let_def)
  qed
qed simp

section \<open>Invariant of the nested map\<close>

definition plist :: "(string \<times> (string \<times> ids) list) list \<Rightarrow> string \<Rightarrow> string \<Rightarrow> ids" where
  "plist m n v = lookup0 (lookup0 m n) v"

definition vals_ok :: "(string \<times> ids) list \<Rightarrow> bool" where
  "vals_ok vals \<longleftrightarrow> vals \<noteq> [] \<and> distinct (map fst vals) \<and> (\<forall>l \<in> snd ` set vals. l \<noteq> [] \<and> ascending l)"

definition m_ok :: "(string \<times> (string \<times> ids) list) list \<Rightarrow> bool" where
  "m_ok m \<longleftrightarrow> distinct (map fst m) \<and> (\<forall>vals \<in> snd ` set m. vals_ok vals)"

lemma vals_ok_alt:
  "vals_ok vals \<longleftrightarrow> vals \<noteq> [] \<and> distinct (map fst vals) \<and> (\<forall>v l. map_of vals v = Some l \<longrightarrow> l \<noteq> [] \<and> ascending l)"
  by (fastforce simp: vals_ok_def)

lemma m_ok_alt:
  "m_ok m \<longleftrightarrow> distinct (map fst m) \<and> (\<forall>n vals. map_of m n = Some vals \<longrightarrow> vals_ok vals)"
  by (fastforce simp: m_ok_def)

lemma lookup0_update [simp]: "lookup0 (AList.update k v m) k' = (if k' = k then v else lookup0 m k')"
  by (simp add: lookup0_def update_conv')

lemma lookup0_delete [simp]: "lookup0 (AList.delete k m) k' = (if k' = k then [] else lookup0 m k')"
  by (simp add: lookup0_def delete_conv')

lemma lookup0_Nil [simp]: "lookup0 [] k = []" by (simp add: lookup0_def)

lemma lookup0_Some: "map_of m k = Some v \<Longrightarrow> lookup0 m k = v" by (simp add: lookup0_def)

lemma plist_ascending: "m_ok m \<Longrightarrow> ascending (plist m n v)"
  by (auto simp: plist_def lookup0_def m_ok_alt vals_ok_alt split: option.splits)

lemma vals_ok_update:
  "vals = [] \<or> vals_ok vals \<Longrightarrow> l \<noteq> [] \<Longrightarrow> ascending l \<Longrightarrow> vals_ok (AList.update v l vals)"
  by (auto simp: vals_ok_alt update_conv' distinct_update)

lemma m_ok_update: "m_ok m \<Longrightarrow> vals_ok vals \<Longrightarrow> m_ok (AList.update n vals m)"
  by (auto simp: m_ok_alt update_conv' distinct_update split: if_splits)

lemma m_ok_lookup: "m_ok m \<Longrightarrow> lookup0 m n = [] \<or> vals_ok (lookup0 m n)"
  by (auto simp: m_ok_alt lookup0_def split: option.splits)

lemma m_ok_delete: "m_ok m \<Longrightarrow> m_ok (AList.delete n m)"
  by (auto simp: m_ok_alt delete_conv' distinct_delete split: if_splits)

lemma add_pairs_ok:
  assumes "m_ok m"
  shows "m_ok (add_pairs m x ls) \<and>
    set (plist (add_pairs m x ls) n v) = set (plist m n v) \<union> {y. y = x \<and> (n, v) \<in> set ls}"
  using assms
proof (induction m x ls rule: add_pairs.induct)
  case (2 m x n' v' ls)
  let ?vals = "lookup0 m n'"
  let ?l = "insertSorted (lookup0 ?vals v') x"
  let ?m = "AList.update n' (AList.update v' ?l ?vals) m"
  have asc: "ascending (lookup0 ?vals v')" using plist_ascending [OF "2.prems"] by (simp add: plist_def)
  have sl: "set ?l = insert x (set (lookup0 ?vals v'))" by (rule insertSorted_ok(2) [OF asc])
  then have "vals_ok (AList.update v' ?l ?vals)"
    using m_ok_lookup [OF "2.prems"] insertSorted_ok(1) [OF asc]
    by (intro vals_ok_update) (auto simp del: set_empty simp: set_empty [symmetric])
  then have "m_ok ?m" by (rule m_ok_update [OF "2.prems"])
  then show ?case using "2.IH" [OF refl] sl by (auto simp: Let_def plist_def)
qed simp

lemma delete_step_ok:
  assumes m: "m_ok m" and vals: "map_of m n = Some vals"
    and l: "ascending l" and vals': "vals' = (if l = [] then AList.delete v vals else AList.update v l vals)"
    and m': "m' = (if vals' = [] then AList.delete n m else AList.update n vals' m)"
  shows "m_ok m' \<and> plist m' n' v' = (if n' = n \<and> v' = v then l else plist m n' v')"
proof -
  have vo: "vals_ok vals" using m vals by (auto simp: m_ok_alt)
  have lk: "lookup0 vals' w = (if w = v then l else lookup0 vals w)" for w by (simp add: vals')
  have "vals' = [] \<or> vals_ok vals'"
    using vo l by (auto simp: vals' vals_ok_alt delete_conv' distinct_delete update_conv' distinct_update simp del: map_of_eq_Some_iff split: if_splits)
  then have "m_ok m'" using m m_ok_update m_ok_delete by (auto simp: m')
  moreover have "lookup0 m' k = (if k = n then vals' else lookup0 m k)" for k by (simp add: m')
  ultimately show ?thesis using lk lookup0_Some [OF vals] by (simp add: plist_def)
qed

lemma delete_pairs_ok:
  assumes "m_ok m"
  shows "m_ok (delete_pairs m x ls) \<and>
    set (plist (delete_pairs m x ls) n v) = set (plist m n v) - {y. y = x \<and> (n, v) \<in> set ls}"
  using assms
proof (induction m x ls rule: delete_pairs.induct)
  case (2 m x n' v' ls)
  show ?case
  proof (cases "map_of m n'")
    case None
    then show ?thesis using 2 by (auto simp: plist_def lookup0_def)
  next
    case (Some vals)
    have asc: "ascending (lookup0 vals v')"
      using plist_ascending [OF "2.prems", of n' v'] lookup0_Some [OF Some] by (simp add: plist_def)
    note S = delete_step_ok [OF "2.prems" Some removeSorted_ok(1) [OF asc, of x] refl refl]
    have pl: "plist m n' v' = lookup0 vals v'" using lookup0_Some [OF Some] by (simp add: plist_def)
    show ?thesis
      using "2.IH"(2) [OF Some refl refl refl] S [where n' = n and v' = v] removeSorted_ok(2) [OF asc, of x] pl
      by (auto simp: Some Let_def split: if_splits)
  qed
qed simp

section \<open>The interface of an inverted index\<close>

type_synonym series_map = "u64 \<rightharpoonup> label set"

locale label_index =
  fixes rep :: "'p \<Rightarrow> series_map \<Rightarrow> bool"
    and select :: "'p \<Rightarrow> label list \<Rightarrow> ids"
    and names :: "'p \<Rightarrow> string list"
    and vals :: "'p \<Rightarrow> string \<Rightarrow> string list"
  assumes select_asc: "rep p S \<Longrightarrow> ascending (select p ms)"
    and select_set: "rep p S \<Longrightarrow> set (select p ms) = {x. \<exists>ls. S x = Some ls \<and> set ms \<subseteq> ls}"
    and names_asc: "rep p S \<Longrightarrow> ascending (names p)"
    and names_set: "rep p S \<Longrightarrow> set (names p) = {n. \<exists>x ls v. S x = Some ls \<and> (n, v) \<in> ls}"
    and vals_asc: "rep p S \<Longrightarrow> ascending (vals p n)"
    and vals_set: "rep p S \<Longrightarrow> set (vals p n) = {v. \<exists>x ls. S x = Some ls \<and> (n, v) \<in> ls}"
begin

lemma select_determined:
  assumes "rep p S" "rep q S"
  shows "select p ms = select q ms" and "names p = names q" and "vals p n = vals q n"
  using assms by (auto intro!: ascending_unique simp: select_asc select_set names_asc names_set vals_asc vals_set)

lemma select_append:
  assumes "rep p S"
  shows "select p (ms @ ms') = filter (\<lambda>x. x \<in> set (select p ms')) (select p ms)"
  using assms by (intro ascending_unique) (auto simp: select_asc select_set sorted_wrt_filter)

lemma select_nonempty_iff:
  assumes "rep p S"
  shows "select p [(n, v)] \<noteq> [] \<longleftrightarrow> v \<in> set (vals p n)"
  using assms by (auto simp: vals_set select_set simp flip: set_empty)

lemma names_vals: "rep p S \<Longrightarrow> n \<in> set (names p) \<longleftrightarrow> vals p n \<noteq> []"
  by (auto simp: names_set vals_set simp flip: set_empty)

end

locale mutable_label_index = label_index rep select names vals
  for rep :: "'p \<Rightarrow> series_map \<Rightarrow> bool" and select names vals +
  fixes empty :: 'p
    and add :: "'p \<Rightarrow> u64 \<Rightarrow> label list \<Rightarrow> 'p"
    and del :: "'p \<Rightarrow> u64 \<Rightarrow> label list \<Rightarrow> 'p"
  assumes rep_empty: "rep empty Map.empty"
    and rep_add: "rep p S \<Longrightarrow> rep (add p x ls) (if x \<in> dom S then S else S(x \<mapsto> set ls))"
    and rep_del: "rep p S \<Longrightarrow> S x = None \<or> S x = Some (set ls) \<Longrightarrow> rep (del p x ls) (S(x := None))"
begin

lemma rep_add_all:
  assumes "distinct (map fst ss)"
  shows "rep (foldl (\<lambda>p (x, ls). add p x ls) empty ss) (map_of (map (\<lambda>(x, ls). (x, set ls)) ss))"
  using assms
proof (induction ss rule: rev_induct)
  case (snoc s ss)
  obtain x ls where s: "s = (x, ls)" by (cases s)
  let ?S = "map_of (map (\<lambda>(x, ls). (x, set ls)) ss)"
  have "x \<notin> dom ?S" using snoc.prems by (auto simp: s dom_map_of_conv_image_fst image_iff)
  then have "rep (add (foldl (\<lambda>p (x, ls). add p x ls) empty ss) x ls) (?S(x \<mapsto> set ls))"
    using rep_add [of _ ?S x ls] snoc by simp
  moreover have "?S(x \<mapsto> set ls) = map_of (map (\<lambda>(x, ls). (x, set ls)) (ss @ [s]))"
    using \<open>x \<notin> dom ?S\<close> by (auto simp: s map_add_def fun_eq_iff split: option.splits)
  ultimately show ?case by (simp add: s)
qed (simp add: rep_empty)

lemma del_undoes_add:
  assumes "rep p S" "x \<notin> dom S"
  shows "rep (del (add p x ls) x ls) S"
  using rep_del [OF rep_add [OF assms(1), of x ls], of x ls] assms(2) by (simp add: fun_upd_idem_iff domIff)

end

section \<open>The in-memory index satisfies it\<close>

definition mp_rep :: "MemPostings \<Rightarrow> series_map \<Rightarrow> bool" where
  "mp_rep p S \<longleftrightarrow> m_ok (mp_m p) \<and> ascending (mp_allRefs p) \<and> set (mp_allRefs p) = dom S
     \<and> (\<forall>n v. set (plist (mp_m p) n v) = {x. \<exists>ls. S x = Some ls \<and> (n, v) \<in> ls})"


lemma mp_rep_empty: "mp_rep NewMemPostings Map.empty"
  by (simp add: mp_rep_def NewMemPostings_def m_ok_def plist_def)

lemma mp_rep_Add:
  assumes "mp_rep p S"
  shows "mp_rep (Add p x ls) (if x \<in> dom S then S else S(x \<mapsto> set ls))"
proof (cases "x \<in> dom S")
  case True
  then show ?thesis using assms by (simp add: Add_def mp_rep_def containsSorted_iff)
next
  case False
  then show ?thesis
    using assms add_pairs_ok [of "mp_m p" x ls] insertSorted_ok [of "mp_allRefs p" x]
    by (auto simp: Add_def mp_rep_def containsSorted_iff)
qed

lemma mp_rep_Delete:
  assumes "mp_rep p S" "S x = None \<or> S x = Some (set ls)"
  shows "mp_rep (Delete p x ls) (S(x := None))"
  using assms delete_pairs_ok [of "mp_m p" x ls] removeSorted_ok [of "mp_allRefs p" x]
  by (auto simp: Delete_def mp_rep_def)

lemma select_lists_spec:
  assumes "mp_rep p S"
  shows "case select_lists p ms of
      None \<Rightarrow> \<nexists>x ls. S x = Some ls \<and> set ms \<subseteq> ls
    | Some pls \<Rightarrow> length pls = length ms \<and> (\<forall>l \<in> set pls. ascending l)
        \<and> (\<forall>x. (\<forall>l \<in> set pls. x \<in> set l) \<longleftrightarrow> (\<forall>(n, v) \<in> set ms. \<exists>ls. S x = Some ls \<and> (n, v) \<in> ls))"
proof (induction ms)
  case (Cons nv ms)
  obtain n v where nv: "nv = (n, v)" by (cases nv)
  have P: "set (plist (mp_m p) n v) = {x. \<exists>ls. S x = Some ls \<and> (n, v) \<in> ls}" "ascending (plist (mp_m p) n v)"
    using assms plist_ascending by (auto simp: mp_rep_def)
  show ?case
  proof (cases "plist (mp_m p) n v = []")
    case True
    then have "select_lists p (nv # ms) = None" by (auto simp: nv plist_def lookup0_def split: option.splits)
    moreover have "\<nexists>x ls. S x = Some ls \<and> (n, v) \<in> ls" using True P(1) by auto
    ultimately show ?thesis by (auto simp: nv)
  next
    case False
    then have "select_lists p (nv # ms) = map_option ((#) (plist (mp_m p) n v)) (select_lists p ms)"
      by (auto simp: nv plist_def lookup0_def split: option.splits)
    then show ?thesis using Cons P by (auto simp: nv split: option.splits)
  qed
qed simp

lemma Select_spec:
  assumes "mp_rep p S"
  shows "ascending (Select p ms) \<and> set (Select p ms) = {x. \<exists>ls. S x = Some ls \<and> set ms \<subseteq> ls}"
proof (cases "ms = []")
  case True
  then show ?thesis using assms by (auto simp: Select_def mp_rep_def)
next
  case ms: False
  note L = select_lists_spec [OF assms, of ms]
  show ?thesis
  proof (cases "select_lists p ms")
    case None
    then show ?thesis using L ms by (simp add: Select_def)
  next
    case (Some pls)
    have "length (sort_key length pls) = length ms" using L Some by simp
    then obtain l rest where lr: "sort_key length pls = l # rest" using ms by (cases "sort_key length pls") auto
    then have set_pls: "set pls = insert l (set rest)" by (metis list.simps(15) set_sort)
    then have "\<forall>k \<in> insert l (set rest). ascending k" using L Some by simp
    then have "ascending (intersect_all l rest) \<and> set (intersect_all l rest) = set l \<inter> \<Inter> (set ` set rest)"
      by (intro intersect_all_ok) simp_all
    moreover have "x \<in> set l \<inter> \<Inter> (set ` set rest) \<longleftrightarrow> (\<exists>ls. S x = Some ls \<and> set ms \<subseteq> ls)" for x
    proof -
      have "x \<in> set l \<inter> \<Inter> (set ` set rest) \<longleftrightarrow> (\<forall>k \<in> set pls. x \<in> set k)" by (simp add: set_pls)
      also have "\<dots> \<longleftrightarrow> (\<forall>(n, v) \<in> set ms. \<exists>ls. S x = Some ls \<and> (n, v) \<in> ls)" using L Some by simp
      also have "\<dots> \<longleftrightarrow> (\<exists>ls. S x = Some ls \<and> set ms \<subseteq> ls)" using ms by (cases ms) fastforce+
      finally show ?thesis .
    qed
    ultimately show ?thesis using ms Some lr by (simp add: Select_def set_eq_iff)
  qed
qed

lemma m_ok_names: "m_ok m \<Longrightarrow> n \<in> fst ` set m \<longleftrightarrow> (\<exists>v. plist m n v \<noteq> [])"
proof -
  assume m: "m_ok m"
  have "(\<exists>v. lookup0 vals v \<noteq> [])" if "vals_ok vals" for vals
    using that by (cases vals) (auto simp: vals_ok_def lookup0_def)
  moreover have "n \<in> fst ` set m \<longleftrightarrow> map_of m n \<noteq> None" by (simp add: map_of_eq_None_iff)
  ultimately show ?thesis using m by (fastforce simp: plist_def lookup0_def m_ok_alt split: option.splits)
qed

interpretation mem: mutable_label_index mp_rep Select LabelNames LabelValues NewMemPostings Add Delete
proof unfold_locales
  fix p S ms assume r: "mp_rep p S"
  show "ascending (Select p ms)" "set (Select p ms) = {x. \<exists>ls. S x = Some ls \<and> set ms \<subseteq> ls}"
    using Select_spec [OF r] by auto
  have m: "m_ok (mp_m p)" and P: "\<And>n v. set (plist (mp_m p) n v) = {x. \<exists>ls. S x = Some ls \<and> (n, v) \<in> ls}"
    using r by (auto simp: mp_rep_def)
  show "ascending (LabelNames p)"
    using m by (simp add: LabelNames_def ascending_sort m_ok_def)
  show "set (LabelNames p) = {n. \<exists>x ls v. S x = Some ls \<and> (n, v) \<in> ls}"
    using m_ok_names [OF m] P by (simp add: LabelNames_def set_eq_iff) (metis empty_iff ex_in_conv set_empty)
  fix n
  have "distinct (map fst (filter (\<lambda>(v, l). l \<noteq> []) vals))" if "vals_ok vals" for vals
    using that by (auto simp: vals_ok_def distinct_map_filter)
  then show "ascending (LabelValues p n)"
    using m by (auto simp: LabelValues_def ascending_sort m_ok_alt split: option.splits)
  have "(v \<in> set (LabelValues p n)) = (plist (mp_m p) n v \<noteq> [])" for v
  proof (cases "map_of (mp_m p) n")
    case (Some vals)
    then have "vals_ok vals" using m by (auto simp: m_ok_alt)
    then show ?thesis using Some
      by (auto simp: LabelValues_def plist_def lookup0_def vals_ok_def image_iff split: option.splits)
  qed (simp add: LabelValues_def plist_def lookup0_def)
  then show "set (LabelValues p n) = {v. \<exists>x ls. S x = Some ls \<and> (n, v) \<in> ls}"
    using P [of n] unfolding set_empty [symmetric] by (intro set_eqI) (simp add: set_eq_iff)
qed (simp_all add: mp_rep_empty mp_rep_Add mp_rep_Delete)


section \<open>Properties\<close>

text \<open>
  C13: the index answers exactly. After any additions of distinct series to an empty index, followed
  by the deletion of any one of them with its own labels, \<^const>\<open>Select\<close> returns in ascending
  order, without repetition, exactly the remaining series that carry every matcher.
\<close>

theorem Select_after_Add_Delete:
  assumes "distinct (map fst ss)" "(d, dls) \<in> set ss"
  defines "p \<equiv> foldl (\<lambda>p (x, ls). Add p x ls) NewMemPostings ss"
  shows "Select p ms = sort (map fst (filter (\<lambda>(x, ls). set ms \<subseteq> set ls) ss))
    \<and> Select (Delete p d dls) ms = sort (map fst (filter (\<lambda>(x, ls). x \<noteq> d \<and> set ms \<subseteq> set ls) ss))"
proof -
  let ?S = "map_of (map (\<lambda>(x, ls). (x, set ls)) ss)"
  have r: "mp_rep p ?S" unfolding p_def by (rule mem.rep_add_all [OF assms(1)])
  have S: "?S x = Some ls \<longleftrightarrow> (\<exists>k. (x, k) \<in> set ss \<and> ls = set k)" for x ls
  proof -
    have "distinct (map fst (map (\<lambda>(x, ls). (x, set ls)) ss))"
      using assms(1) by (simp add: comp_def case_prod_beta)
    then show ?thesis by (force simp: map_of_eq_Some_iff)
  qed
  have r': "mp_rep (Delete p d dls) (?S(d := None))"
    using S [of d "set dls"] assms(2) by (intro mem.rep_del [OF r]) blast
  have dist: "distinct (map fst (filter P ss))" for P using assms(1) by (rule distinct_map_filter)
  show ?thesis
    using r r' by (auto intro!: ascending_unique ascending_sort dist
        simp: mem.select_asc mem.select_set S image_iff split: if_splits) force+
qed

text \<open>
  metadata never goes stale. For every reachable index state, a label name is listed exactly
  when some value is listed for it, and a value is listed exactly when \<^const>\<open>Select\<close> finds a series.
\<close>

lemma index_metadata_live:
  assumes "mp_rep p S"
  shows "(n \<in> set (LabelNames p) \<longleftrightarrow> LabelValues p n \<noteq> [])
    \<and> (v \<in> set (LabelValues p n) \<longleftrightarrow> Select p [(n, v)] \<noteq> [])
    \<and> SeriesCount p = card (dom S) \<and> LabelNameCount p = card (fst ` \<Union> (ran S))"
proof -
  have a: "ascending (mp_allRefs p)" "set (mp_allRefs p) = dom S" "distinct (map fst (mp_m p))"
    using assms by (auto simp: mp_rep_def m_ok_def)
  have "SeriesCount p = card (dom S)"
    using a(1) distinct_card [of "mp_allRefs p"] by (simp add: SeriesCount_def strict_sorted_iff a(2))
  moreover have "LabelNameCount p = card (set (LabelNames p))"
    using distinct_card [OF a(3)] by (simp add: LabelNameCount_def LabelNames_def)
  moreover have "set (LabelNames p) = fst ` \<Union> (ran S)"
    using mem.names_set [OF assms] by (force simp: ran_def)
  ultimately show ?thesis using mem.select_nonempty_iff [OF assms] mem.names_vals [OF assms] by simp
qed

theorem Select_after_Add_Delete_witness:
  "Select (foldl (\<lambda>p (x, ls). Add p x ls) NewMemPostings [(7, [(''a'', ''1'')]), (3, [(''a'', ''1'')])]) [(''a'', ''1'')] = [3, 7]"
  using Select_after_Add_Delete [of "[(7, [(''a'', ''1'')]), (3, [(''a'', ''1'')])]" 7 "[(''a'', ''1'')]" "[(''a'', ''1'')]"]
  by simp

end
