(* ===== verification/Samples.thy ===== *)
theory Samples
  imports Chunk_Correct Postings
begin

text \<open>
  The read side every store shares: \<^verbatim>\<open>internal/metrics/source.go\<close> (samples, select parameters,
  last-write-wins deduplication, anchors) and \<^verbatim>\<open>internal/metrics/merge.go\<close> (merging two sources,
  reading replicated heads with tolerated outages). The last-write-wins rule is the locale
  \<^verbatim>\<open>lww\<close>, interpreted on \<^const>\<open>Outranks\<close>.
\<close>

section \<open>Samples and select parameters\<close>

record sample =
  sm_id :: u64
  sm_ts :: i64
  sm_val :: float64
  sm_gen :: i64

text \<open>A selector: a metric name, empty for any, and equality matchers as name and value.\<close>

record Selector =
  sel_MetricName :: string
  sel_Matchers :: "label list"

definition selectorToIndexMatchers :: "Selector \<Rightarrow> label list" where
  "selectorToIndexMatchers sel =
     (if sel_MetricName sel \<noteq> [] then [(''__name__'', sel_MetricName sel)] else []) @ sel_Matchers sel"

record SelectParams =
  sp_Selector :: Selector
  sp_MinT :: i64
  sp_MaxT :: i64
  sp_Anchor :: bool
  sp_SeriesOnly :: bool
  sp_AnyTime :: bool

definition ValidateSelect :: "SelectParams \<Rightarrow> bool" where
  "ValidateSelect p \<longleftrightarrow> \<not> (sp_AnyTime p \<and> \<not> sp_SeriesOnly p) \<and> \<not> (sp_Anchor p \<and> sp_SeriesOnly p)"

record SeriesData =
  sd_Labels :: Labels
  sd_Anchor :: "sample option"
  sd_Samples :: "sample list"

section \<open>Last write wins\<close>

definition beats :: "sample \<Rightarrow> sample \<Rightarrow> bool" where
  "beats a b = Outranks (sm_gen a) (sm_val a) (sm_gen b) (sm_val b)"

text \<open>The loop of \<^verbatim>\<open>dedupByGeneration\<close> with the last element of \<^verbatim>\<open>out\<close>.\<close>

fun dedup_from :: "sample \<Rightarrow> sample list \<Rightarrow> sample list" where
  "dedup_from cur [] = [cur]"
| "dedup_from cur (x # xs) =
     (if sm_ts x = sm_ts cur then dedup_from (if beats x cur then x else cur) xs
      else cur # dedup_from x xs)"

definition dedupByGeneration :: "sample list \<Rightarrow> sample list" where
  "dedupByGeneration xs = (case xs of [] \<Rightarrow> [] | x # rest \<Rightarrow> dedup_from x rest)"

definition ts_key :: "sample \<Rightarrow> int" where "ts_key s = sint (sm_ts s)"

definition sortAndDedup :: "sample list \<Rightarrow> sample list" where
  "sortAndDedup xs = dedupByGeneration (sort_key ts_key xs)"

definition laterSample :: "sample option \<Rightarrow> sample option \<Rightarrow> sample option" where
  "laterSample a b =
     (case a of None \<Rightarrow> b
      | Some x \<Rightarrow> (case b of None \<Rightarrow> a
        | Some y \<Rightarrow> if sm_ts x <s sm_ts y \<or> (sm_ts y = sm_ts x \<and> beats y x) then b else a))"

section \<open>Merging two sources\<close>

definition merge_into :: "(u64 \<times> nat) list \<Rightarrow> SeriesData list \<Rightarrow> SeriesData \<Rightarrow> SeriesData list" where
  "merge_into pos out sd =
     (case map_of pos (Hash (sd_Labels sd)) of
        None \<Rightarrow> out @ [sd]
      | Some i \<Rightarrow>
        out[i := (out ! i)\<lparr>sd_Anchor := laterSample (sd_Anchor (out ! i)) (sd_Anchor sd),
                           sd_Samples := sortAndDedup (sd_Samples (out ! i) @ sd_Samples sd)\<rparr>])"

definition positions :: "SeriesData list \<Rightarrow> (u64 \<times> nat) list" where
  "positions a = foldl (\<lambda>pos (i, sd). AList.update (Hash (sd_Labels sd)) i pos) [] (zip [0..<length a] a)"

definition mergeSelect :: "SeriesData list \<Rightarrow> SeriesData list \<Rightarrow> SeriesData list" where
  "mergeSelect a b = foldl (merge_into (positions a)) a b"

definition unionSorted :: "string list \<Rightarrow> string list \<Rightarrow> string list" where
  "unionSorted a b = sort (remdups (a @ b))"

section \<open>Reading replicated heads\<close>

text \<open>
  What one head's read came to, as \<^verbatim>\<open>skip\<close> classifies it: an answer, an outage that may be
  skipped, or an error that may not.
\<close>

datatype ('a, 'e) outcome = Answer 'a | Outage 'e | Fatal 'e

record ('a, 'e) gather_state =
  g_answers :: "'a option list"
  g_skipped :: "nat list"
  g_lastOutage :: "'e option"
  g_fatal :: "'e option"

definition gather_take :: "('a, 'e) gather_state \<Rightarrow> nat \<times> ('a, 'e) outcome \<Rightarrow> ('a, 'e) gather_state" where
  "gather_take g r =
     (case r of
        (i, Answer a) \<Rightarrow> g\<lparr>g_answers := (g_answers g)[i := Some a]\<rparr>
      | (i, Fatal e) \<Rightarrow> (if g_fatal g = None then g\<lparr>g_fatal := Some e\<rparr> else g)
      | (i, Outage e) \<Rightarrow> g\<lparr>g_skipped := g_skipped g @ [i], g_lastOutage := Some e\<rparr>)"

text \<open>
  The results in the order they arrive; \<^verbatim>\<open>queued\<close> is how many further results are already queued
  when the read is decided. \<^verbatim>\<open>Inl\<close> is the error returned.
\<close>

fun gather_loop :: "nat \<Rightarrow> nat \<Rightarrow> ('a, 'e) gather_state \<Rightarrow> (nat \<times> ('a, 'e) outcome) list
    \<Rightarrow> 'e option + ('a, 'e) gather_state" where
  "gather_loop tolerate queued g [] = Inr g"
| "gather_loop tolerate queued g (r # rs) =
     (let g1 = gather_take g r in
      if g_fatal g1 = None \<and> length (g_skipped g1) \<le> tolerate then gather_loop tolerate queued g1 rs
      else
        let decidedBy = g_lastOutage g1;
            g2 = foldl gather_take g1 (take queued rs)
        in Inl (if g_fatal g2 \<noteq> None then g_fatal g2 else decidedBy))"

definition gather_init :: "nat \<Rightarrow> ('a, 'e) gather_state" where
  "gather_init n = \<lparr>g_answers = replicate n None, g_skipped = [], g_lastOutage = None, g_fatal = None\<rparr>"

fun fold_merge :: "SeriesData list list \<Rightarrow> SeriesData list" where
  "fold_merge [] = []"
| "fold_merge [a] = a"
| "fold_merge (a # as) = mergeSelect a (fold_merge as)"

definition collectSelect :: "nat \<Rightarrow> nat \<Rightarrow> nat \<Rightarrow> (nat \<times> (SeriesData list, 'e) outcome) list
    \<Rightarrow> 'e option + SeriesData list" where
  "collectSelect heads tolerate queued arrivals =
     (case gather_loop tolerate queued (gather_init heads) arrivals of
        Inl e \<Rightarrow> Inl e
      | Inr g \<Rightarrow>
        let folded = map the (filter (\<lambda>a. a \<noteq> None) (g_answers g))
        in if folded = [] then Inl (g_lastOutage g) else Inr (fold_merge folded))"

section \<open>The last-write-wins interface\<close>

locale lww =
  fixes key :: "'s \<Rightarrow> int" and better :: "'s \<Rightarrow> 's \<Rightarrow> bool"
  assumes better_irrefl: "\<not> better a a"
    and better_trans: "better a b \<Longrightarrow> better b c \<Longrightarrow> better a c"
    and better_split: "better a c \<Longrightarrow> better a b \<or> better b c"
begin

text \<open>
  \<^verbatim>\<open>winners xs out\<close>: \<^verbatim>\<open>out\<close> ascends strictly by key, holds only elements of \<^verbatim>\<open>xs\<close>, and for every
  element of \<^verbatim>\<open>xs\<close> an element of the same key that it does not beat.
\<close>

definition winners :: "'s set \<Rightarrow> 's list \<Rightarrow> bool" where
  "winners xs out \<longleftrightarrow> ascending (map key out) \<and> set out \<subseteq> xs
     \<and> (\<forall>x \<in> xs. \<exists>y \<in> set out. key y = key x \<and> \<not> better x y)"

definition total_on :: "'s set \<Rightarrow> bool" where
  "total_on xs \<longleftrightarrow> (\<forall>a \<in> xs. \<forall>b \<in> xs. key a = key b \<longrightarrow> better a b \<or> better b a \<or> a = b)"

lemma winners_unique:
  assumes "winners xs out" "winners xs out'" "total_on xs"
  shows "out = out'"
proof -
  have sub: "set o1 \<subseteq> set o2" if w: "winners xs o1" "winners xs o2" for o1 o2
  proof
    fix x assume x: "x \<in> set o1"
    then have xx: "x \<in> xs" using w(1) by (auto simp: winners_def)
    obtain y where y: "y \<in> set o2" "key y = key x" "\<not> better x y" using w(2) xx by (auto simp: winners_def)
    have yx: "y \<in> xs" using y(1) w(2) by (auto simp: winners_def)
    obtain z where z: "z \<in> set o1" "key z = key y" "\<not> better y z" using w(1) yx by (auto simp: winners_def)
    have "inj_on key (set o1)" using w(1) by (simp add: winners_def strict_sorted_iff distinct_map)
    then have "z = x" using z(1,2) y(2) x by (auto dest: inj_onD)
    then show "x \<in> set o2" using y z(3) assms(3) xx yx by (auto simp: total_on_def)
  qed
  have "set out = set out'" using sub [OF assms(1,2)] sub [OF assms(2,1)] by blast
  then show ?thesis using assms(1,2)
    by (intro map_sorted_distinct_set_unique [where f = key])
      (auto simp: winners_def strict_sorted_iff distinct_map)
qed

lemma winners_absorb:
  assumes "winners xs out" "c \<in> xs" "key d = key c" "\<not> better d c"
  shows "winners (insert d xs) out"
proof -
  obtain y where "y \<in> set out" "key y = key c" "\<not> better c y" using assms(1,2) by (auto simp: winners_def)
  then have "\<exists>y \<in> set out. key y = key d \<and> \<not> better d y" using better_split assms(3,4) by metis
  then show ?thesis using assms(1) by (auto simp: winners_def)
qed

lemma winners_mono:
  assumes "winners xs o1" "winners ys o2" "winners (set o1 \<union> set o2) out"
  shows "winners (xs \<union> ys) out"
proof -
  have "\<exists>y \<in> set out. key y = key x \<and> \<not> better x y" if x: "x \<in> xs \<union> ys" for x
  proof -
    obtain y where y: "y \<in> set o1 \<union> set o2" "key y = key x" "\<not> better x y"
      using x assms(1,2) unfolding winners_def by blast
    obtain z where z: "z \<in> set out" "key z = key y" "\<not> better y z"
      using assms(3) y(1) unfolding winners_def by blast
    have "\<not> better x z" using better_split y(3) z(3) by blast
    then show ?thesis using y(2) z(1,2) by auto
  qed
  then show ?thesis using assms by (auto simp: winners_def)
qed

end

interpretation samples: lww ts_key beats
proof unfold_locales
  fix a b c
  show "\<not> beats a a" by (simp add: beats_def Outranks_def)
  show "beats a b \<Longrightarrow> beats b c \<Longrightarrow> beats a c"
    by (auto simp: beats_def Outranks_def word_sless_alt split: if_splits)
  show "beats a c \<Longrightarrow> beats a b \<or> beats b c"
    by (auto simp: beats_def Outranks_def word_sless_alt split: if_splits)
      (metis linorder_neqE signed_word_eqI)+
qed

lemma ts_eq_iff: "ts_key a = ts_key b \<longleftrightarrow> sm_ts a = sm_ts b"
  unfolding ts_key_def by (metis signed_word_eqI)

text \<open>Samples of one series are totally ordered at each timestamp.\<close>

lemma samples_total:
  assumes "\<forall>x \<in> xs. sm_id x = sid"
  shows "samples.total_on xs"
  unfolding samples.total_on_def
proof (intro ballI impI)
  fix a b assume ab: "a \<in> xs" "b \<in> xs" "ts_key a = ts_key b"
  then have "sm_ts a = sm_ts b" "sm_id a = sm_id b" using assms ts_eq_iff by auto
  then show "beats a b \<or> beats b a \<or> a = b"
    by (cases a; cases b) (auto simp: beats_def Outranks_def word_sless_alt split: if_splits, metis linorder_neqE signed_word_eqI)
qed

lemma dedup_from_keys: "set (dedup_from cur xs) \<subseteq> set (cur # xs) \<and> dedup_from cur xs \<noteq> []"
  by (induction xs arbitrary: cur) (auto split: if_splits)

lemma dedup_from_winners:
  "sorted (map ts_key (cur # xs)) \<Longrightarrow> samples.winners (set (cur # xs)) (dedup_from cur xs)"
proof (induction cur xs rule: dedup_from.induct)
  case (1 cur)
  then show ?case by (simp add: samples.winners_def samples.better_irrefl)
next
  case (2 cur x xs)
  show ?case
  proof (cases "sm_ts x = sm_ts cur")
    case True
    let ?c = "if beats x cur then x else cur"
    have "samples.winners (set (?c # xs)) (dedup_from ?c xs)"
      using 2 True by (intro "2.IH"(1)) auto
    then have "samples.winners (insert (if beats x cur then cur else x) (set (?c # xs))) (dedup_from ?c xs)"
      using True samples.better_trans [of x cur x] samples.better_irrefl [of x]
      by (intro samples.winners_absorb [where c = ?c]) (auto simp: ts_key_def)
    moreover have "insert (if beats x cur then cur else x) (set (?c # xs)) = set (cur # x # xs)" by auto
    ultimately show ?thesis using True by simp
  next
    case False
    have w: "samples.winners (set (x # xs)) (dedup_from x xs)" using 2 False by (intro "2.IH"(2)) auto
    have "ts_key cur < ts_key y" if "y \<in> set (x # xs)" for y
      using that "2.prems" False ts_eq_iff [of x cur] by (auto simp: less_le)
    then have "ascending (map ts_key (cur # dedup_from x xs))"
      using w dedup_from_keys [of x xs] by (auto simp: samples.winners_def)
    then show ?thesis using w False by (auto simp: samples.winners_def samples.better_irrefl)
  qed
qed

lemma sortAndDedup_winners: "samples.winners (set xs) (sortAndDedup xs)"
proof (cases "sort_key ts_key xs")
  case Nil
  then have "xs = []" by (metis length_0_conv length_sort)
  then show ?thesis by (simp add: sortAndDedup_def dedupByGeneration_def samples.winners_def)
next
  case (Cons c cs)
  have "set (c # cs) = set xs" "sorted (map ts_key (c # cs))" by (metis Cons set_sort) (metis Cons sorted_sort_key)
  then show ?thesis using dedup_from_winners [of c cs] by (simp add: sortAndDedup_def dedupByGeneration_def Cons)
qed

lemma sortAndDedup_eqI:
  assumes "\<forall>x \<in> set xs. sm_id x = sid" "samples.winners (set xs) out"
  shows "sortAndDedup xs = out"
  using samples.winners_unique [OF sortAndDedup_winners assms(2)] samples_total [OF assms(1)] by simp

lemma sortAndDedup_cong:
  assumes "\<forall>x \<in> set xs. sm_id x = sid" "set xs = set ys"
  shows "sortAndDedup xs = sortAndDedup ys"
  using sortAndDedup_eqI [OF assms(1), of "sortAndDedup ys"] sortAndDedup_winners [of ys] assms(2) by simp

lemma sortAndDedup_merge:
  assumes "\<forall>x \<in> set xs \<union> set ys. sm_id x = sid"
  shows "sortAndDedup (sortAndDedup xs @ sortAndDedup ys) = sortAndDedup (xs @ ys)"
proof (rule sym, rule sortAndDedup_eqI)
  show "\<forall>x \<in> set (xs @ ys). sm_id x = sid" using assms by auto
  show "samples.winners (set (xs @ ys)) (sortAndDedup (sortAndDedup xs @ sortAndDedup ys))"
    using samples.winners_mono [OF sortAndDedup_winners [of xs] sortAndDedup_winners [of ys]]
      sortAndDedup_winners [of "sortAndDedup xs @ sortAndDedup ys"] by simp
qed

lemma sortAndDedup_set: "set (sortAndDedup xs) \<subseteq> set xs"
  using sortAndDedup_winners [of xs] by (simp add: samples.winners_def)

lemma sortAndDedup_Nil [simp]: "sortAndDedup xs = [] \<longleftrightarrow> xs = []"
proof
  assume "sortAndDedup xs = []"
  then show "xs = []" using sortAndDedup_winners [of xs] by (cases xs) (auto simp: samples.winners_def)
qed (simp add: sortAndDedup_def dedupByGeneration_def)

section \<open>What a select must answer\<close>

definition MinInt64 :: i64 where "MinInt64 = 0x8000000000000000"

definition later :: "sample \<Rightarrow> sample \<Rightarrow> bool" where
  "later x y \<longleftrightarrow> sm_ts y <s sm_ts x \<or> (sm_ts x = sm_ts y \<and> beats x y)"

definition latest :: "sample list \<Rightarrow> sample option" where
  "latest xs = foldl (\<lambda>a x. laterSample a (Some x)) None xs"

definition in_range_ts :: "SelectParams \<Rightarrow> sample \<Rightarrow> bool" where
  "in_range_ts p x \<longleftrightarrow> sp_MinT p \<le>s sm_ts x \<and> sm_ts x \<le>s sp_MaxT p"

definition before_range :: "SelectParams \<Rightarrow> sample \<Rightarrow> bool" where
  "before_range p x \<longleftrightarrow> sp_Anchor p \<and> sp_MinT p \<noteq> MinInt64 \<and> sm_ts x <s sp_MinT p"

text \<open>A series matches when it carries every pair the selector names.\<close>

definition matches :: "Selector \<Rightarrow> Labels \<Rightarrow> bool" where
  "matches sel l \<longleftrightarrow> set (selectorToIndexMatchers sel) \<subseteq> set (l_pairs l)"

definition select_spec :: "Labels \<Rightarrow> sample list \<Rightarrow> SelectParams \<Rightarrow> SeriesData option" where
  "select_spec l ss p =
     (let samples = filter (in_range_ts p) ss; anchor = latest (filter (before_range p) ss) in
      if \<not> matches (sp_Selector p) l then None
      else if sp_SeriesOnly p \<and> sp_AnyTime p then Some \<lparr>sd_Labels = l, sd_Anchor = None, sd_Samples = []\<rparr>
      else if sp_MaxT p <s sp_MinT p then None
      else if sp_SeriesOnly p then
        (if samples \<noteq> [] then Some \<lparr>sd_Labels = l, sd_Anchor = None, sd_Samples = []\<rparr> else None)
      else if samples = [] \<and> anchor = None then None
      else Some \<lparr>sd_Labels = l, sd_Anchor = anchor, sd_Samples = sortAndDedup samples\<rparr>)"

lemma laterSample_alt:
  "laterSample (Some x) (Some y) = (if later y x then Some y else Some x)"
  "laterSample None b = b" "laterSample a None = a"
  by (auto simp: laterSample_def later_def split: option.splits)

lemma later_order:
  "\<not> later x x" "later x y \<Longrightarrow> later y z \<Longrightarrow> later x z" "later x z \<Longrightarrow> later x y \<or> later y z"
  "sm_id x = sm_id y \<Longrightarrow> later x y \<or> later y x \<or> x = y"
proof -
  show "\<not> later x x" by (simp add: later_def samples.better_irrefl)
  show "later x y \<Longrightarrow> later y z \<Longrightarrow> later x z"
    using samples.better_trans [of x y z] by (auto simp: later_def word_sless_alt)
  show "later x z \<Longrightarrow> later x y \<or> later y z"
    using samples.better_split [of x z y] by (auto simp: later_def word_sless_alt) (metis linorder_neqE signed_word_eqI)+
  show "sm_id x = sm_id y \<Longrightarrow> later x y \<or> later y x \<or> x = y"
    using samples_total [of "{x, y}" "sm_id x"] unfolding samples.total_on_def ts_key_def later_def word_sless_alt
    by (auto) (metis linorder_neqE signed_word_eqI)+
qed

lemma latest_fold:
  "case foldl (\<lambda>a x. laterSample a (Some x)) acc xs of
     None \<Rightarrow> acc = None \<and> xs = []
   | Some m \<Rightarrow> m \<in> set xs \<union> set_option acc \<and> (\<forall>x \<in> set xs \<union> set_option acc. \<not> later x m)"
proof (induction xs arbitrary: acc)
  case Nil
  then show ?case by (cases acc) (auto simp: later_order(1))
next
  case (Cons x xs)
  show ?case
  proof (cases acc)
    case None
    then show ?thesis using Cons [of "Some x"] by (auto simp: laterSample_alt split: option.splits)
  next
    case (Some a)
    show ?thesis
    proof (cases "later x a")
      case True
      have "later a m \<Longrightarrow> later x m" for m using later_order(2) True by blast
      then show ?thesis using Cons [of "Some x"] Some True by (auto simp: laterSample_alt split: option.splits)
    next
      case False
      have "later x m \<Longrightarrow> later a m" for m using later_order(3) False by blast
      then show ?thesis using Cons [of "Some a"] Some False by (auto simp: laterSample_alt split: option.splits)
    qed
  qed
qed

lemma latest_spec:
  "case latest xs of None \<Rightarrow> xs = [] | Some m \<Rightarrow> m \<in> set xs \<and> (\<forall>x \<in> set xs. \<not> later x m)"
  using latest_fold [of None xs] by (auto simp: latest_def split: option.splits)

lemma latest_None [simp]: "latest xs = None \<longleftrightarrow> xs = []"
  using latest_spec [of xs] by (auto simp: latest_def split: option.splits)

lemma latest_Nil [simp]: "latest [] = None" by (simp add: latest_def)

lemma latest_eqI:
  assumes "\<forall>x \<in> set xs. sm_id x = sid" "m \<in> set xs" "\<forall>x \<in> set xs. \<not> later x m"
  shows "latest xs = Some m"
proof -
  have "xs \<noteq> []" using assms(2) by auto
  then obtain m' where "latest xs = Some m'" "m' \<in> set xs" "\<forall>x \<in> set xs. \<not> later x m'"
    using latest_spec [of xs] by (auto split: option.splits)
  then show ?thesis using assms later_order(4) [of m m'] by auto
qed

lemma latest_append:
  assumes "\<forall>x \<in> set (xs @ ys). sm_id x = sid"
  shows "latest (xs @ ys) = laterSample (latest xs) (latest ys)"
proof (cases "latest xs")
  case None
  then have "xs = []" by simp
  then show ?thesis using None by (simp add: laterSample_alt)
next
  case (Some a)
  note A = latest_spec [of xs, unfolded Some option.case]
  show ?thesis
  proof (cases "latest ys")
    case None
    then have "ys = []" by simp
    then show ?thesis using Some None by (simp add: laterSample_alt)
  next
    case (Some b)
    note B = latest_spec [of ys, unfolded Some option.case]
    have "\<not> later x (if later b a then b else a)" if "x \<in> set (xs @ ys)" for x
    proof (cases "later b a")
      case True
      then show ?thesis using that A B later_order(2) [of x b a] by auto
    next
      case False
      then show ?thesis using that A B later_order(3) [of x a b] by auto
    qed
    then have "latest (xs @ ys) = Some (if later b a then b else a)"
      using A B assms by (intro latest_eqI) auto
    then show ?thesis by (simp add: \<open>latest xs = Some a\<close> Some laterSample_alt)
  qed
qed

lemma filter_same_id: "\<forall>x \<in> set xs. sm_id x = sid \<Longrightarrow> \<forall>x \<in> set (filter P xs). sm_id x = sid"
  by simp

section \<open>Merging answers\<close>

definition sd_hash :: "SeriesData \<Rightarrow> u64" where "sd_hash sd = Hash (sd_Labels sd)"

definition lookup_sd :: "SeriesData list \<Rightarrow> u64 \<Rightarrow> SeriesData option" where
  "lookup_sd out h = map_of (map (\<lambda>sd. (sd_hash sd, sd)) out) h"

definition merge_sd :: "SeriesData \<Rightarrow> SeriesData \<Rightarrow> SeriesData" where
  "merge_sd x y = x\<lparr>sd_Anchor := laterSample (sd_Anchor x) (sd_Anchor y),
                    sd_Samples := sortAndDedup (sd_Samples x @ sd_Samples y)\<rparr>"

lemma sd_hash_merge [simp]: "sd_hash (merge_sd x y) = sd_hash x"
  by (simp add: merge_sd_def sd_hash_def)

lemma lookup_append: "lookup_sd (a @ b) h = (case lookup_sd a h of None \<Rightarrow> lookup_sd b h | x \<Rightarrow> x)"
  by (simp add: lookup_sd_def map_add_def split: option.splits)

lemma lookup_None: "lookup_sd a h = None \<longleftrightarrow> h \<notin> sd_hash ` set a"
  by (induction a) (auto simp: lookup_sd_def)

lemma positions_map_of:
  assumes "distinct (map sd_hash a)"
  shows "map_of (positions a) h = Some i \<longleftrightarrow> i < length a \<and> sd_hash (a ! i) = h"
proof -
  have "map_of (foldl (\<lambda>pos (i, sd). AList.update (Hash (sd_Labels sd)) i pos) pos (zip [k..<k + length a] a)) h =
      (case lookup_sd a h of None \<Rightarrow> map_of pos h | Some sd \<Rightarrow> Some (k + length (takeWhile (\<lambda>x. sd_hash x \<noteq> h) a)))" for pos k
    using assms
  proof (induction a arbitrary: pos k)
    case (Cons x a)
    have "lookup_sd a h = None" if "sd_hash x = h"
      using Cons.prems that by (auto simp: lookup_None)
    moreover have "zip [k..<k + length (x # a)] (x # a) = (k, x) # zip [Suc k..<Suc k + length a] a"
      by (simp add: upt_conv_Cons del: upt_Suc)
    ultimately show ?case using Cons.IH [of "AList.update (Hash (sd_Labels x)) k pos" "Suc k"] Cons.prems
      by (auto simp: lookup_sd_def update_conv' sd_hash_def split: option.splits)
  qed (simp add: lookup_sd_def)
  from this [of "[]" 0] have m: "map_of (positions a) h =
      (case lookup_sd a h of None \<Rightarrow> None | Some sd \<Rightarrow> Some (length (takeWhile (\<lambda>x. sd_hash x \<noteq> h) a)))"
    by (auto simp: positions_def split: option.splits)
  show ?thesis
  proof (cases "h \<in> set (map sd_hash a)")
    case False
    then have "lookup_sd a h = None" by (auto simp: lookup_None)
    moreover have "\<not> (i < length a \<and> sd_hash (a ! i) = h)" using False nth_mem [of i a] by auto
    ultimately show ?thesis using m by simp
  next
    case True
    then obtain j where j: "j < length a" "sd_hash (a ! j) = h" by (auto simp: in_set_conv_nth)
    have "takeWhile (\<lambda>x. sd_hash x \<noteq> h) a = take j a"
      using j assms by (intro takeWhile_eq_take_P_nth) (auto simp: distinct_conv_nth)
    moreover have "lookup_sd a h \<noteq> None" using True by (auto simp: lookup_None)
    ultimately have "map_of (positions a) h = Some j" using m j by auto
    then show ?thesis using j assms by (auto simp: distinct_conv_nth)
  qed
qed

lemma lookup_sd_snoc: "sd_hash y \<notin> sd_hash ` set b \<Longrightarrow>
    lookup_sd (b @ [y]) h = (if h = sd_hash y then Some y else lookup_sd b h)"
  using lookup_None [of b "sd_hash y"] by (auto simp: lookup_append lookup_sd_def [of "[y]"] split: option.splits)

lemma mergeSelect_shape:
  assumes "distinct (map sd_hash a)" "distinct (map sd_hash b)"
  shows "mergeSelect a b = map (\<lambda>x. case lookup_sd b (sd_hash x) of None \<Rightarrow> x | Some y \<Rightarrow> merge_sd x y) a
    @ filter (\<lambda>y. sd_hash y \<notin> sd_hash ` set a) b"
  using assms(2)
proof (induction b rule: rev_induct)
  case Nil
  then show ?case by (simp add: mergeSelect_def lookup_sd_def)
next
  case (snoc y b)
  let ?f = "\<lambda>b x. case lookup_sd b (sd_hash x) of None \<Rightarrow> x | Some y \<Rightarrow> merge_sd x y"
  let ?out = "map (?f b) a @ filter (\<lambda>y. sd_hash y \<notin> sd_hash ` set a) b"
  have IH: "mergeSelect a b = ?out" using snoc by simp
  have yb: "sd_hash y \<notin> sd_hash ` set b" using snoc.prems by auto
  have step: "mergeSelect a (b @ [y]) = merge_into (positions a) ?out y"
    using IH by (simp add: mergeSelect_def)
  show ?case
  proof (cases "sd_hash y \<in> sd_hash ` set a")
    case False
    then have "map_of (positions a) (sd_hash y) = None"
      using positions_map_of [OF assms(1), of "sd_hash y"] by (metis imageI not_None_eq nth_mem)
    moreover have "map (?f (b @ [y])) a = map (?f b) a"
      using False by (intro map_cong refl) (auto simp: lookup_sd_snoc [OF yb] intro: rev_image_eqI)
    ultimately show ?thesis unfolding step using False by (simp add: merge_into_def sd_hash_def)
  next
    case True
    then obtain i where i: "i < length a" "sd_hash (a ! i) = sd_hash y" by (metis imageE in_set_conv_nth)
    then have p: "map_of (positions a) (Hash (sd_Labels y)) = Some i"
      using positions_map_of [OF assms(1), of "sd_hash y" i] by (simp add: sd_hash_def)
    have "lookup_sd b (sd_hash y) = None" using yb by (auto simp: lookup_None)
    then have oi: "?out ! i = a ! i" using i by (simp add: nth_append)
    have uniq: "k = i" if "k < length a" "sd_hash (a ! k) = sd_hash y" for k
      using that i assms(1) nth_eq_iff_index_eq [of "map sd_hash a" k i] by simp
    have "map (?f (b @ [y])) a = (map (?f b) a)[i := merge_sd (a ! i) y]"
      using i by (intro nth_equalityI) (auto simp: nth_list_update lookup_sd_snoc [OF yb] dest: uniq)
    then show ?thesis unfolding step merge_into_def p option.case oi
      using True i by (simp add: merge_sd_def list_update_append)
  qed
qed

lemma lookup_map_same_hash:
  "(\<And>x. sd_hash (f x) = sd_hash x) \<Longrightarrow> lookup_sd (map f a) h = map_option f (lookup_sd a h)"
  by (induction a) (auto simp: lookup_sd_def)

lemma lookup_filter_hash: "P h \<Longrightarrow> lookup_sd (filter (\<lambda>y. P (sd_hash y)) b) h = lookup_sd b h"
  by (induction b) (auto simp: lookup_sd_def)

lemma lookup_sd_hash: "lookup_sd a h = Some x \<Longrightarrow> sd_hash x = h \<and> x \<in> set a"
  by (auto simp: lookup_sd_def dest!: map_of_SomeD)

lemma mergeSelect_lookup:
  assumes "distinct (map sd_hash a)" "distinct (map sd_hash b)"
  shows "lookup_sd (mergeSelect a b) h =
     (case lookup_sd a h of None \<Rightarrow> lookup_sd b h
      | Some x \<Rightarrow> (case lookup_sd b h of None \<Rightarrow> Some x | Some y \<Rightarrow> Some (merge_sd x y)))"
    and "distinct (map sd_hash (mergeSelect a b))"
proof -
  let ?f = "\<lambda>x. case lookup_sd b (sd_hash x) of None \<Rightarrow> x | Some y \<Rightarrow> merge_sd x y"
  have fh: "sd_hash (?f x) = sd_hash x" for x by (simp split: option.splits)
  have na: "lookup_sd a h = None \<longleftrightarrow> h \<notin> sd_hash ` set a" by (auto simp: lookup_None)
  show "lookup_sd (mergeSelect a b) h =
     (case lookup_sd a h of None \<Rightarrow> lookup_sd b h
      | Some x \<Rightarrow> (case lookup_sd b h of None \<Rightarrow> Some x | Some y \<Rightarrow> Some (merge_sd x y)))"
    unfolding mergeSelect_shape [OF assms] lookup_append lookup_map_same_hash [of ?f, OF fh]
    using na lookup_filter_hash [of "\<lambda>k. k \<notin> sd_hash ` set a" h b] lookup_sd_hash [of a h]
    by (auto split: option.splits)
  show "distinct (map sd_hash (mergeSelect a b))"
    unfolding mergeSelect_shape [OF assms] using assms fh
    by (auto simp: distinct_map_filter comp_def) (metis imageI)
qed

section \<open>Sources\<close>

text \<open>What a source holds: for each series fingerprint its labels and its samples, duplicates included.\<close>

type_synonym holdings = "u64 \<Rightarrow> (Labels \<times> sample list) option"

definition holdings_ok :: "holdings \<Rightarrow> bool" where
  "holdings_ok S \<longleftrightarrow> (\<forall>h l ss. S h = Some (l, ss) \<longrightarrow> Hash l = h \<and> (\<forall>x \<in> set ss. sm_id x = h))"

definition answers :: "holdings \<Rightarrow> SelectParams \<Rightarrow> SeriesData list \<Rightarrow> bool" where
  "answers S p out \<longleftrightarrow> distinct (map sd_hash out)
     \<and> (\<forall>h. lookup_sd out h = (case S h of None \<Rightarrow> None | Some (l, ss) \<Rightarrow> select_spec l ss p))"

definition merge_holdings :: "holdings \<Rightarrow> holdings \<Rightarrow> holdings" where
  "merge_holdings S T h =
     (case S h of None \<Rightarrow> T h
      | Some (l, ss) \<Rightarrow> (case T h of None \<Rightarrow> S h | Some (_, tt) \<Rightarrow> Some (l, ss @ tt)))"

definition same_labels :: "holdings \<Rightarrow> holdings \<Rightarrow> bool" where
  "same_labels S T \<longleftrightarrow> (\<forall>h l ss l' tt. S h = Some (l, ss) \<longrightarrow> T h = Some (l', tt) \<longrightarrow> l = l')"

lemma sortAndDedup_nil: "sortAndDedup [] = []"
  by simp

lemma select_spec_append:
  assumes "\<forall>x \<in> set (ss @ tt). sm_id x = sid"
  shows "select_spec l (ss @ tt) p =
    (case select_spec l ss p of None \<Rightarrow> select_spec l tt p
     | Some x \<Rightarrow> (case select_spec l tt p of None \<Rightarrow> Some x | Some y \<Rightarrow> Some (merge_sd x y)))"
proof (cases "sp_SeriesOnly p")
  case True
  then show ?thesis
    by (auto simp: select_spec_def Let_def merge_sd_def laterSample_alt sortAndDedup_nil split: if_splits)
next
  case False
  let ?F = "filter (in_range_ts p)" and ?B = "filter (before_range p)"
  have "sortAndDedup (?F ss @ ?F tt) = sortAndDedup (sortAndDedup (?F ss) @ sortAndDedup (?F tt))"
    using assms by (intro sortAndDedup_merge [where sid = sid, symmetric]) auto
  moreover have "latest (?B ss @ ?B tt) = laterSample (latest (?B ss)) (latest (?B tt))"
    using assms by (intro latest_append [where sid = sid]) auto
  ultimately show ?thesis using False
    by (auto simp: select_spec_def Let_def merge_sd_def laterSample_alt)
qed

lemma merge_answers:
  assumes "answers S p a" "answers T p b" "holdings_ok S" "holdings_ok T" "same_labels S T"
  shows "answers (merge_holdings S T) p (mergeSelect a b)"
proof -
  have d: "distinct (map sd_hash a)" "distinct (map sd_hash b)" using assms(1,2) by (auto simp: answers_def)
  have "lookup_sd (mergeSelect a b) h =
      (case merge_holdings S T h of None \<Rightarrow> None | Some (l, ss) \<Rightarrow> select_spec l ss p)" for h
  proof (cases "\<exists>l ss l' tt. S h = Some (l, ss) \<and> T h = Some (l', tt)")
    case True
    then obtain l ss l' tt where S': "S h = Some (l, ss)" "T h = Some (l', tt)" by blast
    then have "l' = l" using assms(5) unfolding same_labels_def by blast
    then have S: "S h = Some (l, ss)" "T h = Some (l, tt)" using S' by simp_all
    have "\<forall>x \<in> set (ss @ tt). sm_id x = h" using S assms(3,4) by (auto simp: holdings_ok_def)
    note app = select_spec_append [OF this, of l p]
    have "lookup_sd a h = select_spec l ss p" "lookup_sd b h = select_spec l tt p"
      using S assms(1,2) unfolding answers_def by simp_all
    then show ?thesis using S app unfolding mergeSelect_lookup(1) [OF d]
      by (simp add: merge_holdings_def split: option.splits)
  next
    case False
    then show ?thesis using assms(1,2) unfolding mergeSelect_lookup(1) [OF d]
      by (auto simp: answers_def merge_holdings_def split: option.splits prod.splits)
  qed
  then show ?thesis using mergeSelect_lookup(2) [OF d] by (simp add: answers_def)
qed

lemma merge_holdings_ok:
  "holdings_ok S \<Longrightarrow> holdings_ok T \<Longrightarrow> holdings_ok (merge_holdings S T)"
  by (fastforce simp: holdings_ok_def merge_holdings_def split: option.splits)

locale source =
  fixes inv :: "'s \<Rightarrow> bool" and holds_of :: "'s \<Rightarrow> holdings" and sel :: "'s \<Rightarrow> SelectParams \<Rightarrow> SeriesData list"
  assumes holds_ok: "inv s \<Longrightarrow> holdings_ok (holds_of s)"
    and sel_answers: "inv s \<Longrightarrow> ValidateSelect p \<Longrightarrow> answers (holds_of s) p (sel s p)"
begin

text \<open>Reading two sources one after the other and merging is reading one source that holds both.\<close>

lemma merged_source:
  assumes "inv s" "inv t" "same_labels (holds_of s) (holds_of t)" "ValidateSelect p"
  shows "answers (merge_holdings (holds_of s) (holds_of t)) p (mergeSelect (sel s p) (sel t p))"
  using assms by (intro merge_answers sel_answers holds_ok)

text \<open>The answer is determined by what is held, whatever the order of the series.\<close>

lemma answer_determined:
  assumes "inv s" "inv t" "holds_of s = holds_of t" "ValidateSelect p"
  shows "lookup_sd (sel s p) = lookup_sd (sel t p)"
  using sel_answers [OF assms(1,4)] sel_answers [OF assms(2,4)] assms(3) by (auto simp: answers_def)

end

section \<open>Heads read concurrently\<close>

definition answers_of :: "(nat \<times> ('a, 'e) outcome) list \<Rightarrow> nat \<Rightarrow> 'a option" where
  "answers_of rs i = (case map_of rs i of Some (Answer a) \<Rightarrow> Some a | _ \<Rightarrow> None)"

definition outages :: "(nat \<times> ('a, 'e) outcome) list \<Rightarrow> nat" where
  "outages rs = length (filter (\<lambda>(i, r). case r of Outage _ \<Rightarrow> True | _ \<Rightarrow> False) rs)"

definition fatals :: "(nat \<times> ('a, 'e) outcome) list \<Rightarrow> nat" where
  "fatals rs = length (filter (\<lambda>(i, r). case r of Fatal _ \<Rightarrow> True | _ \<Rightarrow> False) rs)"

lemma gather_fatal_stays: "g_fatal h \<noteq> None \<Longrightarrow> g_fatal (foldl gather_take h ys) = g_fatal h"
  by (induction ys arbitrary: h) (auto simp: gather_take_def split: prod.splits outcome.splits)

lemma gather_loop_spec:
  assumes "g_fatal g = None" "length (g_skipped g) \<le> tolerate"
  shows "case gather_loop tolerate queued g rs of
      Inl e \<Rightarrow> e \<noteq> None \<and> (fatals rs > 0 \<or> length (g_skipped g) + outages rs > tolerate)
    | Inr g' \<Rightarrow> fatals rs = 0 \<and> length (g_skipped g) + outages rs \<le> tolerate
        \<and> g_answers g' = foldl (\<lambda>as (i, r). case r of Answer a \<Rightarrow> as[i := Some a] | _ \<Rightarrow> as) (g_answers g) rs"
  using assms
proof (induction rs arbitrary: g)
  case Nil
  then show ?case by (simp add: fatals_def outages_def)
next
  case (Cons r rs)
  obtain i x where r: "r = (i, x)" by (cases r)
  show ?case
  proof (cases x)
    case (Answer a)
    then show ?thesis using Cons.IH [of "gather_take g r"] Cons.prems
      by (simp add: r gather_take_def Let_def fatals_def outages_def split: sum.splits)
  next
    case (Fatal e)
    then show ?thesis using Cons.prems gather_fatal_stays [of "gather_take g r" "take queued rs"]
      by (simp add: r gather_take_def Let_def fatals_def)
  next
    case (Outage e)
    show ?thesis
    proof (cases "length (g_skipped g) < tolerate")
      case True
      then show ?thesis using Cons.IH [of "gather_take g r"] Cons.prems Outage
        by (simp add: r gather_take_def Let_def fatals_def outages_def split: sum.splits)
    next
      case False
      then show ?thesis using Cons.prems Outage
        by (simp add: r gather_take_def Let_def fatals_def outages_def)
    qed
  qed
qed

lemma answers_foldl:
  assumes "distinct (map fst rs)" "\<forall>i \<in> set (map fst rs). i < length as" "k < length as"
  shows "foldl (\<lambda>as (i, r). case r of Answer a \<Rightarrow> as[i := Some a] | _ \<Rightarrow> as) as rs ! k =
      (case answers_of rs k of Some a \<Rightarrow> Some a | None \<Rightarrow> as ! k)
    \<and> length (foldl (\<lambda>as (i, r). case r of Answer a \<Rightarrow> as[i := Some a] | _ \<Rightarrow> as) as rs) = length as"
  using assms
proof (induction rs arbitrary: as)
  case (Cons r rs)
  obtain i x where r: "r = (i, x)" by (cases r)
  have "map_of rs i = None" using Cons.prems(1) by (auto simp: r map_of_eq_None_iff)
  then show ?case using Cons.IH [of "case x of Answer a \<Rightarrow> as[i := Some a] | _ \<Rightarrow> as"] Cons.prems
    by (cases x) (auto simp: r answers_of_def nth_list_update split: option.splits outcome.splits)
qed (simp add: answers_of_def)

section \<open>Properties\<close>

text \<open>
  C23: the one merge rule. \<^const>\<open>sortAndDedup\<close> returns, in strictly ascending timestamp order, for every
  timestamp of its input exactly the sample no other sample of that timestamp outranks; for the
  samples of one series the result depends only on the set of samples, not on their order or
  multiplicity, and merging two deduplicated halves is deduplicating the whole.
\<close>

theorem sortAndDedup_correct:
  assumes "\<forall>x \<in> set xs \<union> set ys. sm_id x = sid"
  shows "ascending (map ts_key (sortAndDedup xs)) \<and> set (sortAndDedup xs) \<subseteq> set xs
    \<and> (\<forall>x \<in> set xs. \<exists>y \<in> set (sortAndDedup xs). sm_ts y = sm_ts x \<and> (x = y \<or> beats y x))
    \<and> (set xs = set ys \<longrightarrow> sortAndDedup xs = sortAndDedup ys)
    \<and> sortAndDedup (sortAndDedup xs @ sortAndDedup ys) = sortAndDedup (xs @ ys)"
proof -
  note w = sortAndDedup_winners [of xs, unfolded samples.winners_def]
  have "\<exists>y \<in> set (sortAndDedup xs). sm_ts y = sm_ts x \<and> (x = y \<or> beats y x)" if x: "x \<in> set xs" for x
  proof -
    obtain y where y: "y \<in> set (sortAndDedup xs)" "ts_key y = ts_key x" "\<not> beats x y" using w x by blast
    then have "y \<in> set xs" using w by blast
    moreover have "samples.total_on (set xs)" using assms by (intro samples_total) auto
    ultimately have "x = y \<or> beats y x" using x y by (auto simp: samples.total_on_def)
    then show ?thesis using y by (auto simp: ts_eq_iff)
  qed
  then show ?thesis
    using w sortAndDedup_cong [of xs sid ys] sortAndDedup_merge [of xs ys sid] assms by auto
qed

theorem sortAndDedup_correct_witness:
  "sortAndDedup [\<lparr>sm_id = 1, sm_ts = 5, sm_val = 7, sm_gen = 2\<rparr>, \<lparr>sm_id = 1, sm_ts = 5, sm_val = 8, sm_gen = 1\<rparr>]
   = sortAndDedup [\<lparr>sm_id = 1, sm_ts = 5, sm_val = 8, sm_gen = 1\<rparr>, \<lparr>sm_id = 1, sm_ts = 5, sm_val = 7, sm_gen = 2\<rparr>]"
  using sortAndDedup_correct [where sid = 1
      and xs = "[\<lparr>sm_id = 1, sm_ts = 5, sm_val = 7, sm_gen = 2\<rparr>, \<lparr>sm_id = 1, sm_ts = 5, sm_val = 8, sm_gen = 1\<rparr>]"
      and ys = "[\<lparr>sm_id = 1, sm_ts = 5, sm_val = 8, sm_gen = 1\<rparr>, \<lparr>sm_id = 1, sm_ts = 5, sm_val = 7, sm_gen = 2\<rparr>]"]
  by auto

text \<open>
  merging answers answers the merged data. If two answers are correct for what their sources
  hold, their merge is the correct answer for both holdings together, for every combination of
  select parameters: samples, anchors and series-only selects.
\<close>

lemma mergeSelect_correct:
  assumes "answers S p a" "answers T p b" "holdings_ok S" "holdings_ok T" "same_labels S T"
  shows "answers (merge_holdings S T) p (mergeSelect a b)"
  using assms by (rule merge_answers)

lemma collectSelect_iff:
  assumes "distinct (map fst arrivals)" "set (map fst arrivals) = {..<n}"
  shows "collectSelect n tolerate queued arrivals = Inr out \<longleftrightarrow>
     fatals arrivals = 0 \<and> outages arrivals \<le> tolerate \<and> (\<exists>i < n. answers_of arrivals i \<noteq> None)
     \<and> out = fold_merge (map the (filter (\<lambda>a. a \<noteq> None) (map (answers_of arrivals) [0..<n])))"
proof -
  let ?as = "foldl (\<lambda>as (i, r). case r of Answer a \<Rightarrow> as[i := Some a] | _ \<Rightarrow> as) (replicate n None) arrivals"
  have A: "?as = map (answers_of arrivals) [0..<n]"
  proof (rule nth_equalityI)
    show "length ?as = length (map (answers_of arrivals) [0..<n])"
      using answers_foldl [OF assms(1), of "replicate n None" 0] assms(2) by (cases n) auto
    then have len: "length ?as = n" by simp
    show "?as ! k = map (answers_of arrivals) [0..<n] ! k" if "k < length ?as" for k
    proof -
      have k: "k < n" using that len by simp
      have "\<forall>i \<in> set arrivals. fst i < n" using assms(2) by auto
      then show ?thesis using answers_foldl [OF assms(1), of "replicate n None" k] k
        by (cases "answers_of arrivals k") simp_all
    qed
  qed
  have ne: "map the (filter (\<lambda>a. a \<noteq> None) (map (answers_of arrivals) [0..<n])) = [] \<longleftrightarrow>
      \<not> (\<exists>i < n. answers_of arrivals i \<noteq> None)" by (auto simp: filter_empty_conv)
  note spec = gather_loop_spec [where g = "gather_init n" and tolerate = tolerate and queued = queued and rs = arrivals]
  show ?thesis
  proof (cases "gather_loop tolerate queued (gather_init n) arrivals")
    case (Inl e)
    then show ?thesis using spec by (auto simp: collectSelect_def gather_init_def)
  next
    case (Inr g)
    then have "fatals arrivals = 0" "outages arrivals \<le> tolerate" "g_answers g = map (answers_of arrivals) [0..<n]"
      using spec A by (simp_all add: gather_init_def)
    then show ?thesis using Inr ne by (auto simp: collectSelect_def Let_def)
  qed
qed

text \<open>
  C22: tolerated reads of replicated heads. Whatever order the heads' results arrive in and however
  many are queued when the read is decided, the read succeeds exactly when no head failed with a
  protocol error, at most \<^verbatim>\<open>tolerate\<close> heads were out, and some head answered; its answer is then
  the fold of the answers in head order.
\<close>

theorem collect_order_independent:
  assumes "distinct (map fst arrivals)" "set (map fst arrivals) = {..<n}"
  shows "collectSelect n tolerate queued arrivals = Inr out \<longleftrightarrow>
     fatals arrivals = 0 \<and> outages arrivals \<le> tolerate \<and> (\<exists>i < n. answers_of arrivals i \<noteq> None)
     \<and> out = fold_merge (map the (filter (\<lambda>a. a \<noteq> None) (map (answers_of arrivals) [0..<n])))"
  by (rule collectSelect_iff [OF assms])

theorem collect_order_independent_witness:
  "collectSelect 2 1 0 [(1, Outage ()), (0, Answer [])] = Inr []"
  using collect_order_independent [of "[(1, Outage ()), (0, Answer [])]" 2 1 0 "[]"]
  by (auto simp: fatals_def outages_def answers_of_def numeral_2_eq_2 lessThan_Suc)

end
