(* ===== verification/Gates.thy ===== *)
theory Gates
  imports Labels
begin

text \<open>
  The two gates in front of the heads: \<^verbatim>\<open>internal/limits/gate.go\<close> (per-tenant active series and
  stream limits: a member's share of a limit, admission of a batch, the order in which batches
  take the tenant locks) and \<^verbatim>\<open>internal/drain/gate.go\<close> (the write barrier of a draining ingester).
  The counter a limit gate consults is an interface of the source; it is the locale
  \<^verbatim>\<open>active_counter\<close>, interpreted on the metrics head in \<^verbatim>\<open>MemStore\<close>. Interleavings are step
  relations.
\<close>

section \<open>A member's share of a limit\<close>

text \<open>
  \<^verbatim>\<open>int\<close> is 64 bits wide. \<^verbatim>\<open>bits.Mul64\<close>, \<^verbatim>\<open>bits.Add64\<close> and \<^verbatim>\<open>bits.Div64\<close> are written out on
  the two 64-bit halves; \<^verbatim>\<open>Div64\<close> panics when the high half is not below the divisor.
\<close>

definition wrap64 :: "int \<Rightarrow> int" where "wrap64 x = sint (word_of_int x :: 64 word)"

definition Mul64 :: "int \<Rightarrow> int \<Rightarrow> int \<times> int" where
  "Mul64 x y = ((x * y) div 2 ^ 64, (x * y) mod 2 ^ 64)"

definition Add64 :: "int \<Rightarrow> int \<Rightarrow> int \<times> int" where
  "Add64 x y = ((x + y) mod 2 ^ 64, (x + y) div 2 ^ 64)"

definition Div64 :: "int \<Rightarrow> int \<Rightarrow> int \<Rightarrow> int option" where
  "Div64 hi lo y = (if y = 0 \<or> y \<le> hi then None else Some ((hi * 2 ^ 64 + lo) div y))"

definition Share :: "int \<Rightarrow> int \<Rightarrow> int \<Rightarrow> int option" where
  "Share limit rf0 n0 =
     (if limit \<le> 0 then Some 0
      else
        let n = (if n0 \<le> 0 then 1 else n0) in
        if rf0 \<ge> n then Some limit
        else
          let rf = max rf0 1;
              q = limit div n; r = limit mod n;
              (hi, lo) = Mul64 r rf;
              (lo', carry) = Add64 lo (n - 1)
          in case Div64 ((hi + carry) mod 2 ^ 64) lo' n of
               None \<Rightarrow> None
             | Some extra \<Rightarrow> Some (min (max (wrap64 (q * rf + wrap64 extra)) 1) limit))"

section \<open>Admission\<close>

text \<open>
  A batch is a Go map from tenant to series IDs. \<^const>\<open>None\<close> means admitted: \<^verbatim>\<open>fn\<close> runs and its
  result is returned; \<^verbatim>\<open>Some (t, l)\<close> is the \<^verbatim>\<open>LimitError\<close>.
\<close>

type_synonym batch = "(string \<times> u64 list) list"

definition fresh_ids :: "(u64 \<Rightarrow> bool) \<Rightarrow> u64 list \<Rightarrow> nat" where
  "fresh_ids has ids = length (filter (\<lambda>x. \<not> has x) (remdups ids))"

definition limited :: "(string \<Rightarrow> int) \<Rightarrow> batch \<Rightarrow> string list" where
  "limited limit keys = sort (filter (\<lambda>t. limit t > 0) (map fst keys))"

fun admit_loop :: "(string \<Rightarrow> int) \<Rightarrow> (string \<Rightarrow> nat) \<Rightarrow> (u64 \<Rightarrow> bool) \<Rightarrow> batch \<Rightarrow> string list
    \<Rightarrow> (string \<times> int) option" where
  "admit_loop limit cnt has keys [] = None"
| "admit_loop limit cnt has keys (t # ts) =
     (let fresh = fresh_ids has (case map_of keys t of Some ids \<Rightarrow> ids | None \<Rightarrow> []) in
      if fresh > 0 \<and> int (cnt t + fresh) > limit t then Some (t, limit t)
      else admit_loop limit cnt has keys ts)"

definition Admit :: "(string \<Rightarrow> int) \<Rightarrow> (string \<Rightarrow> nat) \<Rightarrow> (u64 \<Rightarrow> bool) \<Rightarrow> batch \<Rightarrow> (string \<times> int) option" where
  "Admit limit cnt has keys = admit_loop limit cnt has keys (limited limit keys)"

section \<open>Concurrent admissions\<close>

text \<open>
  Batches that run \<^verbatim>\<open>Admit\<close> on one gate at the same time. A mutex is an index into \<^verbatim>\<open>am_owner\<close>, which
  says which batch has locked it; \<^verbatim>\<open>am_tenants\<close> is the gate's map from tenants to mutexes. \<^verbatim>\<open>am_live\<close>
  lists the series the counter counts, each under \<^verbatim>\<open>tenant_of\<close>. A batch's program counter carries
  its deferred unlocks, last locked first: it locks, counts the fresh series of one limited tenant
  after the other, runs \<^verbatim>\<open>fn\<close>, which adds the batch's series and may stop at any of them with an error, and
  unlocks. Every access to the gate or the counter is a step of its own.
\<close>

datatype admit_outcome = Rejected string int | Ran bool

datatype admit_pc =
    Locking "nat list"
  | Waiting "nat list" nat
  | Counting "nat list" nat "u64 list" "u64 list" nat
  | Appending "nat list" "u64 list"
  | Unlocking "nat list" admit_outcome

record admissions =
  am_tenants :: "(string \<times> nat) list"
  am_owner :: "nat option list"
  am_live :: "u64 list"
  am_pc :: "admit_pc list"

definition lockFor :: "string \<Rightarrow> admissions \<Rightarrow> nat \<times> admissions" where
  "lockFor t s =
     (case map_of (am_tenants s) t of
        Some m \<Rightarrow> (m, s)
      | None \<Rightarrow> (length (am_owner s), s\<lparr>am_tenants := (t, length (am_owner s)) # am_tenants s, am_owner := am_owner s @ [None]\<rparr>))"

definition tenant_ids :: "batch \<Rightarrow> string \<Rightarrow> u64 list" where
  "tenant_ids keys t = (case map_of keys t of Some ids \<Rightarrow> ids | None \<Rightarrow> [])"

definition batch_ids :: "batch \<Rightarrow> u64 list" where "batch_ids keys = concat (map snd keys)"

definition live_count :: "(u64 \<Rightarrow> string) \<Rightarrow> u64 list \<Rightarrow> string \<Rightarrow> nat" where
  "live_count tenant_of live t = length (filter (\<lambda>x. tenant_of x = t) live)"

text \<open>Where the loop over the limited tenants goes next: the tenant at an index, or \<^verbatim>\<open>fn\<close>.\<close>

definition count_from :: "(string \<Rightarrow> int) \<Rightarrow> batch \<Rightarrow> nat list \<Rightarrow> nat \<Rightarrow> admit_pc" where
  "count_from limit keys ms i =
     (if i < length (limited limit keys) then Counting ms i (tenant_ids keys (limited limit keys ! i)) [] 0
      else Appending ms (batch_ids keys))"

definition at_pc :: "admissions \<Rightarrow> nat \<Rightarrow> admit_pc \<Rightarrow> bool" where
  "at_pc s b pc \<longleftrightarrow> b < length (am_pc s) \<and> am_pc s ! b = pc"

definition goto :: "nat \<Rightarrow> admit_pc \<Rightarrow> admissions \<Rightarrow> admissions" where
  "goto b pc s = s\<lparr>am_pc := (am_pc s)[b := pc]\<rparr>"

inductive admission_step :: "(string \<Rightarrow> int) \<Rightarrow> (u64 \<Rightarrow> string) \<Rightarrow> batch list \<Rightarrow> admissions \<Rightarrow> admissions \<Rightarrow> bool"
  for limit :: "string \<Rightarrow> int" and tenant_of :: "u64 \<Rightarrow> string" and batches :: "batch list" where
  get_mutex: "at_pc s b (Locking ms) \<Longrightarrow> length ms < length (limited limit (batches ! b))
     \<Longrightarrow> lockFor (limited limit (batches ! b) ! length ms) s = (m, s')
     \<Longrightarrow> admission_step limit tenant_of batches s (goto b (Waiting ms m) s')"
| lock_mutex: "at_pc s b (Waiting ms m) \<Longrightarrow> am_owner s ! m = None
     \<Longrightarrow> admission_step limit tenant_of batches s (goto b (Locking (m # ms)) (s\<lparr>am_owner := (am_owner s)[m := Some b]\<rparr>))"
| all_locked: "at_pc s b (Locking ms) \<Longrightarrow> length ms = length (limited limit (batches ! b))
     \<Longrightarrow> admission_step limit tenant_of batches s (goto b (count_from limit (batches ! b) ms 0) s)"
| look_up: "at_pc s b (Counting ms i (x # left) seen fresh)
     \<Longrightarrow> admission_step limit tenant_of batches s (goto b
           (if x \<in> set seen then Counting ms i left seen fresh
            else Counting ms i left (x # seen) (if x \<in> set (am_live s) then fresh else fresh + 1)) s)"
| decide: "at_pc s b (Counting ms i [] seen fresh) \<Longrightarrow> t = limited limit (batches ! b) ! i
     \<Longrightarrow> admission_step limit tenant_of batches s (goto b
           (if fresh > 0 \<and> int (live_count tenant_of (am_live s) t + fresh) > limit t then Unlocking ms (Rejected t (limit t))
            else count_from limit (batches ! b) ms (i + 1)) s)"
| add_series: "at_pc s b (Appending ms (x # left))
     \<Longrightarrow> admission_step limit tenant_of batches s (goto b (Appending ms left) (s\<lparr>am_live := List.insert x (am_live s)\<rparr>))"
| fn_returns: "at_pc s b (Appending ms left) \<Longrightarrow> ok \<longrightarrow> left = []
     \<Longrightarrow> admission_step limit tenant_of batches s (goto b (Unlocking ms (Ran ok)) s)"
| unlock: "at_pc s b (Unlocking (m # ms) out)
     \<Longrightarrow> admission_step limit tenant_of batches s (goto b (Unlocking ms out) (s\<lparr>am_owner := (am_owner s)[m := None]\<rparr>))"

definition admissions_start :: "u64 list \<Rightarrow> batch list \<Rightarrow> admissions" where
  "admissions_start live batches =
     \<lparr>am_tenants = [], am_owner = [], am_live = live, am_pc = map (\<lambda>_. Locking []) batches\<rparr>"

section \<open>The drain gate\<close>

record drain_gate =
  dg_closed :: bool
  dg_inflight :: int
  dg_idle :: bool

definition NewGate :: drain_gate where
  "NewGate = \<lparr>dg_closed = False, dg_inflight = 0, dg_idle = False\<rparr>"

text \<open>\<^verbatim>\<open>enter\<close> returns whether the append was admitted; closing a closed channel panics (\<^const>\<open>None\<close>).\<close>

definition enter :: "drain_gate \<Rightarrow> drain_gate \<times> bool" where
  "enter g = (if dg_closed g then (g, False) else (g\<lparr>dg_inflight := dg_inflight g + 1\<rparr>, True))"

definition close_idle :: "drain_gate \<Rightarrow> drain_gate option" where
  "close_idle g = (if dg_idle g then None else Some (g\<lparr>dg_idle := True\<rparr>))"

definition leave :: "drain_gate \<Rightarrow> drain_gate option" where
  "leave g =
     (let g1 = g\<lparr>dg_inflight := dg_inflight g - 1\<rparr>
      in if dg_closed g1 \<and> dg_inflight g1 = 0 then close_idle g1 else Some g1)"

definition Close :: "drain_gate \<Rightarrow> drain_gate option" where
  "Close g =
     (if \<not> dg_closed g then
        let g1 = g\<lparr>dg_closed := True\<rparr>
        in if dg_inflight g1 = 0 then close_idle g1 else Some g1
      else Some g)"

text \<open>
  Interleavings of appends and closes. The state pairs the gate (\<^const>\<open>None\<close> after a panic) with the
  number of appends that entered and have not left and the number of appends admitted after
  the first close.
\<close>

inductive gate_step :: "drain_gate option \<times> nat \<times> nat \<Rightarrow> drain_gate option \<times> nat \<times> nat \<Rightarrow> bool" where
  step_enter: "enter g = (g', True) \<Longrightarrow>
     gate_step (Some g, active, late) (Some g', active + 1, if dg_closed g then late + 1 else late)"
| step_refuse: "enter g = (g', False) \<Longrightarrow> gate_step (Some g, active, late) (Some g', active, late)"
| step_leave: "gate_step (Some g, Suc active, late) (leave g, active, late)"
| step_close: "gate_step (Some g, active, late) (Close g, active, late)"

section \<open>The counter interface\<close>

locale active_counter =
  fixes inv :: "'s \<Rightarrow> bool"
    and cnt :: "'s \<Rightarrow> string \<Rightarrow> nat"
    and has :: "'s \<Rightarrow> u64 \<Rightarrow> bool"
    and active :: "'s \<Rightarrow> string \<Rightarrow> u64 set"
  assumes finite_active: "inv s \<Longrightarrow> finite (active s t)"
    and cnt_active: "inv s \<Longrightarrow> cnt s t = card (active s t)"
    and has_active: "inv s \<Longrightarrow> has s x \<longleftrightarrow> (\<exists>t. x \<in> active s t)"
begin

lemma count_fresh:
  assumes "inv s" "\<forall>x \<in> set ids. \<forall>t'. x \<in> active s t' \<longrightarrow> t' = t"
  shows "cnt s t + fresh_ids (has s) ids = card (active s t \<union> set ids)"
    and "fresh_ids (has s) ids = 0 \<longleftrightarrow> set ids \<subseteq> active s t"
proof -
  have f: "set (filter (\<lambda>x. \<not> has s x) (remdups ids)) = set ids - active s t"
    using assms by (auto simp: has_active)
  have "fresh_ids (has s) ids = card (set ids - active s t)"
    unfolding fresh_ids_def f [symmetric] by (rule distinct_card [symmetric]) simp
  moreover have "card (active s t \<union> set ids) = card (active s t) + card (set ids - active s t)"
    by (metis Diff_disjoint List.finite_set Un_Diff_cancel assms(1) card_Un_disjoint finite_Diff finite_active)
  ultimately show "cnt s t + fresh_ids (has s) ids = card (active s t \<union> set ids)"
    "fresh_ids (has s) ids = 0 \<longleftrightarrow> set ids \<subseteq> active s t"
    using assms(1) by (simp_all add: cnt_active)
qed

lemma admit_loop_spec:
  assumes "inv s" "\<forall>(t, ids) \<in> set keys. \<forall>x \<in> set ids. \<forall>t'. x \<in> active s t' \<longrightarrow> t' = t"
  shows "case admit_loop limit (cnt s) (has s) keys ts of
      None \<Rightarrow> \<forall>t \<in> set ts. \<forall>ids. map_of keys t = Some ids \<longrightarrow>
        set ids \<subseteq> active s t \<or> int (card (active s t \<union> set ids)) \<le> limit t
    | Some (t, l) \<Rightarrow> t \<in> set ts \<and> l = limit t \<and> (\<exists>ids. map_of keys t = Some ids
        \<and> \<not> set ids \<subseteq> active s t \<and> int (card (active s t \<union> set ids)) > limit t)"
proof (induction ts)
  case (Cons t ts)
  show ?case
  proof (cases "map_of keys t")
    case None
    then show ?thesis using Cons by (auto simp: fresh_ids_def split: option.splits)
  next
    case (Some ids)
    then have "\<forall>x \<in> set ids. \<forall>t'. x \<in> active s t' \<longrightarrow> t' = t"
      using assms(2) by (auto dest!: map_of_SomeD)
    note C = count_fresh [OF assms(1) this]
    have C': "int (cnt s t) + int (fresh_ids (has s) ids) = int (card (active s t \<union> set ids))"
      using C(1) by (simp flip: of_nat_add)
    show ?thesis using Cons Some C(2) C' by (auto simp: Let_def split: option.splits)
  qed
qed simp

lemma Admit_spec:
  assumes "inv s" "distinct (map fst keys)" "\<forall>(t, ids) \<in> set keys. \<forall>x \<in> set ids. \<forall>t'. x \<in> active s t' \<longrightarrow> t' = t"
  shows "Admit limit (cnt s) (has s) keys = None \<longleftrightarrow>
      (\<forall>(t, ids) \<in> set keys. limit t > 0 \<longrightarrow>
         set ids \<subseteq> active s t \<or> int (card (active s t \<union> set ids)) \<le> limit t)"
proof -
  have lim: "set (limited limit keys) = {t. limit t > 0 \<and> (\<exists>ids. map_of keys t = Some ids)}"
    using assms(2) by (force simp: limited_def)
  have q: "(\<forall>(t, ids) \<in> set keys. limit t > 0 \<longrightarrow> P t ids) \<longleftrightarrow>
      (\<forall>t \<in> set (limited limit keys). \<forall>ids. map_of keys t = Some ids \<longrightarrow> P t ids)" for P
    unfolding lim using assms(2) by force
  show ?thesis unfolding q
    using admit_loop_spec [OF assms(1,3), where limit = limit and ts = "limited limit keys"]
    by (fastforce simp: Admit_def split: option.splits)
qed

end

section \<open>Share\<close>

lemma int_div_less:
  fixes x y d :: int
  assumes "0 < d" "x < y * d"
  shows "x div d < y"
proof (rule ccontr)
  assume "\<not> x div d < y"
  then have "y * d \<le> x div d * d" using assms(1) by (intro mult_right_mono) simp_all
  moreover have "x div d * d \<le> x" using div_mult_mod_eq [of x d] pos_mod_sign [OF assms(1), of x] by linarith
  ultimately show False using assms(2) by linarith
qed

lemma Share_value:
  assumes "0 < limit" "limit < 2 ^ 63" "0 < n" "n < 2 ^ 63" "rf < n"
  shows "Share limit rf n = Some ((limit * max rf 1 + n - 1) div n)
    \<and> 1 \<le> (limit * max rf 1 + n - 1) div n \<and> (limit * max rf 1 + n - 1) div n \<le> limit"
proof -
  let ?rf = "max rf 1" and ?q = "limit div n" and ?r = "limit mod n"
  have r: "0 \<le> ?r" "?r < n" using assms by simp_all
  have n1: "1 < n \<or> n = 1" using assms(3) by linarith
  have rfn: "1 \<le> ?rf" "?rf \<le> n" using assms by auto
  have tot: "?r * ?rf + (n - 1) < n * n"
  proof -
    have "?r * ?rf \<le> (n - 1) * n" using r rfn by (intro mult_mono) auto
    then show ?thesis using assms(3) by (simp add: algebra_simps)
  qed
  define X where "X = ?r * ?rf + (n - 1)"
  have X: "0 \<le> X" "X < n * n" using r rfn tot assms(3) by (auto simp: X_def)
  define H where "H = (?r * ?rf) div 2 ^ 64 + ((?r * ?rf) mod 2 ^ 64 + (n - 1)) div 2 ^ 64"
  define L where "L = ((?r * ?rf) mod 2 ^ 64 + (n - 1)) mod 2 ^ 64"
  have split: "H * 2 ^ 64 + L = X" by (simp add: X_def H_def L_def distrib_right algebra_simps)
  have L: "0 \<le> L" "L < 2 ^ 64" unfolding L_def by (rule pos_mod_sign pos_mod_bound, simp)+
  have XH: "X div 2 ^ 64 = H"
    using L split by (intro int_div_pos_eq [of _ _ _ L]) (simp_all add: mult.commute)
  have "n * n \<le> n * 2 ^ 64" using assms(3,4) by (intro mult_left_mono) simp_all
  then have "X < n * 2 ^ 64" using X(2) by linarith
  then have "X div 2 ^ 64 < n" by (intro int_div_less) simp_all
  moreover have "0 \<le> X div 2 ^ 64" using X(1) by (intro div_int_pos_iff [THEN iffD2]) simp
  ultimately have H: "0 \<le> H" "H < n" unfolding XH by simp_all
  have Hm: "H mod 2 ^ 64 = H" using H assms(4) by (intro mod_pos_pos_trivial) simp_all
  have D: "Div64 (H mod 2 ^ 64) L n = Some (X div n)"
    unfolding Hm Div64_def split using H(2) assms(3) by simp
  have e: "?q * ?rf + X div n = (limit * ?rf + n - 1) div n"
  proof -
    have alg: "(q * n + r) * m = r * m + (q * m) * n" for q r m :: int by (simp add: algebra_simps)
    have "limit * ?rf = ?r * ?rf + (?q * ?rf) * n"
      using alg [of ?q ?r ?rf] by (simp only: div_mult_mod_eq)
    then have "limit * ?rf + n - 1 = X + (?q * ?rf) * n" unfolding X_def by linarith
    then show ?thesis using assms(3) by simp
  qed
  have ub: "(limit * ?rf + n - 1) div n \<le> limit"
  proof -
    have "limit * ?rf \<le> limit * n" using rfn assms(1) by (intro mult_left_mono) simp_all
    then have "limit * ?rf + n - 1 < (limit + 1) * n" by (simp add: algebra_simps)
    then have "(limit * ?rf + n - 1) div n < limit + 1" using assms(3) by (intro int_div_less)
    then show ?thesis by simp
  qed
  have lb: "1 \<le> (limit * ?rf + n - 1) div n"
  proof -
    have "1 * 1 \<le> limit * ?rf" using rfn assms(1) by (intro mult_mono) simp_all
    then show ?thesis using assms(3) by (simp add: pos_imp_zdiv_pos_iff int_one_le_iff_zero_less)
  qed
  have w: "wrap64 x = x" if "0 \<le> x" "x < 2 ^ 63" for x
    using that by (simp add: wrap64_def sint_sbintrunc' signed_take_bit_int_eq_self)
  have "X div n < n" using X assms(3) by (intro int_div_less)
  moreover have "0 \<le> X div n" using X assms(3) by (simp add: pos_imp_zdiv_nonneg_iff)
  ultimately have "wrap64 (?q * ?rf + wrap64 (X div n)) = (limit * ?rf + n - 1) div n"
    using w [of "X div n"] w [of "(limit * ?rf + n - 1) div n"] assms(2,4) ub lb e by simp
  moreover have "Share limit rf n = (case Div64 (H mod 2 ^ 64) L n of None \<Rightarrow> None
      | Some extra \<Rightarrow> Some (min (max (wrap64 (?q * ?rf + wrap64 extra)) 1) limit))"
    unfolding Share_def Mul64_def Add64_def Let_def H_def L_def prod.case using assms(1,3,5)
    by (simp only: not_le [symmetric] if_False)
  ultimately show ?thesis unfolding D using ub lb by simp
qed

section \<open>The concurrent admissions are exact\<close>

text \<open>What each batch holds.\<close>

fun pc_held :: "admit_pc \<Rightarrow> nat list" where
  "pc_held (Locking ms) = ms"
| "pc_held (Waiting ms m) = ms"
| "pc_held (Counting ms i left seen fresh) = ms"
| "pc_held (Appending ms left) = ms"
| "pc_held (Unlocking ms out) = ms"

fun pc_inside :: "admit_pc \<Rightarrow> bool" where
  "pc_inside (Counting ms i left seen fresh) = True"
| "pc_inside (Appending ms left) = True"
| "pc_inside pc = False"

definition pc_finished :: "admit_pc \<Rightarrow> bool" where
  "pc_finished pc \<longleftrightarrow> (\<exists>out. pc = Unlocking [] out)"

definition locks_ok :: "(string \<Rightarrow> nat option) \<Rightarrow> string list \<Rightarrow> admit_pc \<Rightarrow> bool" where
  "locks_ok mu need pc \<longleftrightarrow> length (pc_held pc) \<le> length need
     \<and> list_all2 (\<lambda>m t. mu t = Some m) (rev (pc_held pc)) (take (length (pc_held pc)) need)
     \<and> (pc_inside pc \<longrightarrow> length (pc_held pc) = length need)
     \<and> (\<forall>ms m. pc = Waiting ms m \<longrightarrow> length ms < length need \<and> mu (need ! length ms) = Some m)"

definition locks_inv :: "(string \<Rightarrow> int) \<Rightarrow> batch list \<Rightarrow> admissions \<Rightarrow> bool" where
  "locks_inv limit batches s \<longleftrightarrow> length (am_pc s) = length batches
     \<and> inj_on (map_of (am_tenants s)) (dom (map_of (am_tenants s)))
     \<and> (\<forall>t m. map_of (am_tenants s) t = Some m \<longrightarrow> m < length (am_owner s))
     \<and> (\<forall>b < length batches. locks_ok (map_of (am_tenants s)) (limited limit (batches ! b)) (am_pc s ! b))
     \<and> (\<forall>m < length (am_owner s). \<forall>b. am_owner s ! m = Some b \<longleftrightarrow> b < length batches \<and> m \<in> set (pc_held (am_pc s ! b)))"

lemma limited_ascending:
  assumes "distinct (map fst keys)"
  shows "ascending (limited limit keys)"
  using assms by (simp add: limited_def ascending_sort)


lemma goto_simps [simp]:
  "am_tenants (goto b pc s) = am_tenants s" "am_owner (goto b pc s) = am_owner s" "am_live (goto b pc s) = am_live s"
  "am_pc (goto b pc s) = (am_pc s)[b := pc]"
  by (simp_all add: goto_def)

lemma count_from_held [simp]: "pc_held (count_from limit keys ms i) = ms" "pc_inside (count_from limit keys ms i)"
  by (simp_all add: count_from_def)

lemma count_from_not_waiting [simp]: "count_from limit keys ms i \<noteq> Waiting ms' m"
  by (simp add: count_from_def)

lemma locks_ok_held_iff:
  assumes "locks_ok mu need pc"
  shows "m \<in> set (pc_held pc) \<longleftrightarrow> (\<exists>t \<in> set (take (length (pc_held pc)) need). mu t = Some m)"
proof -
  have "list_all2 (\<lambda>m t. mu t = Some m) (rev (pc_held pc)) (take (length (pc_held pc)) need)"
    using assms by (simp add: locks_ok_def)
  then have "map Some (rev (pc_held pc)) = map mu (take (length (pc_held pc)) need)"
    by (auto simp: list_eq_iff_nth_eq list_all2_conv_all_nth)
  then have "Some ` set (pc_held pc) = mu ` set (take (length (pc_held pc)) need)"
    by (metis set_map set_rev)
  then show ?thesis by (metis (no_types, lifting) imageE imageI option.inject)
qed

lemma locks_ok_distinct:
  assumes "locks_ok mu need pc" "distinct need" "inj_on mu (dom mu)"
  shows "distinct (pc_held pc)"
proof -
  let ?T = "take (length (pc_held pc)) need"
  have e: "list_all2 (\<lambda>m t. mu t = Some m) (rev (pc_held pc)) ?T" using assms(1) by (simp add: locks_ok_def)
  then have m: "map Some (rev (pc_held pc)) = map mu ?T"
    by (auto simp: list_eq_iff_nth_eq list_all2_conv_all_nth)
  have "\<forall>t \<in> set ?T. t \<in> dom mu"
  proof
    fix t assume "t \<in> set ?T"
    then have "mu t \<in> set (map Some (rev (pc_held pc)))" unfolding m by simp
    then show "t \<in> dom mu" by auto
  qed
  then have "inj_on mu (set ?T)" using assms(3) by (meson inj_on_subset subsetI)
  then have "distinct (map mu ?T)" using assms(2) by (simp add: distinct_map distinct_take)
  then have "distinct (map Some (rev (pc_held pc)))" unfolding m .
  then show ?thesis by (simp add: distinct_map)
qed

lemma locks_ok_mono:
  assumes "locks_ok mu need pc" "\<And>t m. mu t = Some m \<Longrightarrow> mu' t = Some m"
  shows "locks_ok mu' need pc"
  using assms(1) list_all2_mono [of "\<lambda>m t. mu t = Some m" _ _ "\<lambda>m t. mu' t = Some m"] assms(2)
  by (auto simp: locks_ok_def)

lemma locks_inv_bound:
  assumes "locks_inv limit batches s" "b < length batches" "m \<in> set (pc_held (am_pc s ! b))"
  shows "m < length (am_owner s)"
  using assms locks_ok_held_iff [of "map_of (am_tenants s)" "limited limit (batches ! b)" "am_pc s ! b" m]
  by (auto simp: locks_inv_def)

lemma locks_inv_owner:
  assumes "locks_inv limit batches s" "b < length batches" "m \<in> set (pc_held (am_pc s ! b))"
  shows "am_owner s ! m = Some b"
  using assms(1,2,3) locks_inv_bound [OF assms] unfolding locks_inv_def by blast

lemma inside_excludes:
  assumes "locks_inv limit batches s" "b < length batches" "b' < length batches"
    "pc_inside (am_pc s ! b)" "pc_inside (am_pc s ! b')"
    "t \<in> set (limited limit (batches ! b))" "t \<in> set (limited limit (batches ! b'))"
  shows "b = b'"
proof -
  let ?mu = "map_of (am_tenants s)"
  have ok: "locks_ok ?mu (limited limit (batches ! b)) (am_pc s ! b)" "locks_ok ?mu (limited limit (batches ! b')) (am_pc s ! b')"
    using assms(1-3) by (auto simp: locks_inv_def)
  have full: "\<exists>m. ?mu t = Some m"
  proof -
    have "list_all2 (\<lambda>m t. ?mu t = Some m) (rev (pc_held (am_pc s ! b))) (limited limit (batches ! b))"
      using ok(1) assms(4) by (auto simp: locks_ok_def)
    moreover obtain i where "i < length (limited limit (batches ! b))" "limited limit (batches ! b) ! i = t"
      using assms(6) by (auto simp: in_set_conv_nth)
    ultimately show ?thesis unfolding list_all2_conv_all_nth by auto
  qed
  then obtain m where m: "?mu t = Some m" ..
  have "m \<in> set (pc_held (am_pc s ! b))" "m \<in> set (pc_held (am_pc s ! b'))"
    using locks_ok_held_iff [OF ok(1), of m] locks_ok_held_iff [OF ok(2), of m] ok assms(4-7) m
    by (auto simp: locks_ok_def)
  then have "am_owner s ! m = Some b" "am_owner s ! m = Some b'"
    using assms(1-3) locks_inv_bound [OF assms(1)] by (auto simp: locks_inv_def)
  then show ?thesis by simp
qed

lemma locks_inv_goto:
  assumes "locks_inv limit batches s" "at_pc s b pc" "pc_held pc' = pc_held pc"
    "locks_ok (map_of (am_tenants s)) (limited limit (batches ! b)) pc'"
  shows "locks_inv limit batches (goto b pc' s)"
  using assms by (auto simp: locks_inv_def at_pc_def nth_list_update)

lemma locks_inv_live: "locks_inv limit batches (s\<lparr>am_live := live\<rparr>) = locks_inv limit batches s"
  by (simp add: locks_inv_def)

lemma locks_inv_at:
  assumes "locks_inv limit batches s" "at_pc s b pc"
  shows "b < length batches" "locks_ok (map_of (am_tenants s)) (limited limit (batches ! b)) pc"
  using assms by (auto simp: locks_inv_def at_pc_def)

lemma locks_inv_owner_upd:
  assumes inv: "locks_inv limit batches s" and b: "b < length batches" and pc: "am_pc s ! b = pc"
    and ok: "locks_ok (map_of (am_tenants s)) (limited limit (batches ! b)) pc'" and m: "m < length (am_owner s)"
    and iff: "\<And>b'. own = Some b' \<longleftrightarrow> b' < length batches \<and> m \<in> set (pc_held (if b' = b then pc' else am_pc s ! b'))"
    and same: "\<And>k. k \<noteq> m \<Longrightarrow> k \<in> set (pc_held pc') \<longleftrightarrow> k \<in> set (pc_held pc)"
  shows "locks_inv limit batches (goto b pc' (s\<lparr>am_owner := (am_owner s)[m := own]\<rparr>))"
proof -
  have l: "length (am_pc s) = length batches" using inv by (simp add: locks_inv_def)
  have n: "(am_pc s)[b := pc'] ! b' = (if b' = b then pc' else am_pc s ! b')" if "b' < length batches" for b'
    using that l by (simp add: nth_list_update)
  have "(am_owner s)[m := own] ! k = Some b' \<longleftrightarrow> b' < length batches \<and> k \<in> set (pc_held ((am_pc s)[b := pc'] ! b'))"
    if "k < length (am_owner s)" for k b'
  proof (cases "k = m")
    case True
    then show ?thesis using iff [of b'] n [of b'] m by (cases "b' < length batches") auto
  next
    case False
    have "am_owner s ! k = Some b' \<longleftrightarrow> b' < length batches \<and> k \<in> set (pc_held (am_pc s ! b'))"
      using inv that by (simp add: locks_inv_def)
    then show ?thesis using False n [of b'] same [OF False] pc by (cases "b' < length batches") auto
  qed
  moreover have "locks_ok (map_of (am_tenants s)) (limited limit (batches ! b')) ((am_pc s)[b := pc'] ! b')"
    if "b' < length batches" for b'
    using inv that ok n [OF that] by (simp add: locks_inv_def)
  ultimately show ?thesis using inv unfolding locks_inv_def by simp
qed

lemma lockFor_inv:
  assumes "locks_inv limit batches s" "lockFor t s = (m, s')"
  shows "locks_inv limit batches s'" "map_of (am_tenants s') t = Some m" "am_pc s' = am_pc s" "am_live s' = am_live s"
proof -
  let ?k = "length (am_owner s)"
  have "locks_inv limit batches s' \<and> map_of (am_tenants s') t = Some m \<and> am_pc s' = am_pc s \<and> am_live s' = am_live s"
  proof (cases "map_of (am_tenants s) t")
    case (Some m')
    then show ?thesis using assms by (simp add: lockFor_def)
  next
    case None
    have s': "m = ?k" "s' = s\<lparr>am_tenants := (t, ?k) # am_tenants s, am_owner := am_owner s @ [None]\<rparr>"
      using assms(2) None by (auto simp: lockFor_def)
    have new: "map_of (am_tenants s') = (map_of (am_tenants s))(t \<mapsto> ?k)" by (simp add: s')
    have bound: "\<And>t m. map_of (am_tenants s) t = Some m \<Longrightarrow> m < ?k" using assms(1) by (simp add: locks_inv_def)
    have "inj_on (map_of (am_tenants s)) (dom (map_of (am_tenants s)))" using assms(1) by (simp add: locks_inv_def)
    moreover have "map_of (am_tenants s) y \<noteq> Some ?k" for y using bound [of y ?k] by auto
    ultimately have "inj_on (map_of (am_tenants s')) (dom (map_of (am_tenants s')))"
      unfolding new by (auto simp: inj_on_def dom_def)
    moreover have "locks_ok (map_of (am_tenants s')) (limited limit (batches ! b)) (am_pc s ! b)" if "b < length batches" for b
    proof (rule locks_ok_mono)
      show "locks_ok (map_of (am_tenants s)) (limited limit (batches ! b)) (am_pc s ! b)"
        using assms(1) that by (simp add: locks_inv_def)
      show "\<And>t' m. map_of (am_tenants s) t' = Some m \<Longrightarrow> map_of (am_tenants s') t' = Some m" using None by (auto simp: new)
    qed
    moreover have "am_owner s' ! m = Some b \<longleftrightarrow> b < length batches \<and> m \<in> set (pc_held (am_pc s ! b))"
      if "m < length (am_owner s')" for m b
    proof (cases "m = ?k")
      case True
      then show ?thesis using locks_inv_bound [OF assms(1), of b m] by (auto simp: s')
    next
      case False
      then have "m < ?k" using that by (simp add: s')
      then show ?thesis using assms(1) by (simp add: locks_inv_def s' nth_append)
    qed
    ultimately have "locks_inv limit batches s'"
      using assms(1) bound unfolding locks_inv_def by (auto simp: s' less_Suc_eq dest: bound)
    then show ?thesis by (simp add: new s'(1)) (simp add: s')
  qed
  then show "locks_inv limit batches s'" "map_of (am_tenants s') t = Some m" "am_pc s' = am_pc s" "am_live s' = am_live s" by auto
qed

lemma locks_ok_pop:
  assumes "locks_ok mu need (Unlocking (m # ms) out)"
  shows "locks_ok mu need (Unlocking ms out)"
proof -
  have l: "length ms < length need" and a: "list_all2 (\<lambda>m t. mu t = Some m) (rev ms @ [m]) (take (length ms) need @ [need ! length ms])"
    using assms by (auto simp: locks_ok_def take_Suc_conv_app_nth)
  have "list_all2 (\<lambda>m t. mu t = Some m) (rev ms) (take (length ms) need)"
    using a l by (subst (asm) list_all2_append) simp_all
  then show ?thesis using l by (simp add: locks_ok_def)
qed

lemma locks_inv_step:
  assumes step: "admission_step limit tenant_of batches s s'" and inv: "locks_inv limit batches s"
    and maps: "\<forall>keys \<in> set batches. distinct (map fst keys)"
  shows "locks_inv limit batches s'"
  using step
proof cases
  case (get_mutex b ms m s1)
  note L = lockFor_inv [OF inv get_mutex(4)]
  have at: "at_pc s1 b (Locking ms)" using get_mutex(2) L(3) by (simp add: at_pc_def)
  show ?thesis unfolding get_mutex(1)
    using locks_inv_at(2) [OF L(1) at] L(2) get_mutex(3)
    by (intro locks_inv_goto [OF L(1) at]) (auto simp: locks_ok_def)
next
  case (lock_mutex b ms m)
  let ?mu = "map_of (am_tenants s)" and ?s = "s\<lparr>am_owner := (am_owner s)[m := Some b]\<rparr>"
  note at = locks_inv_at [OF inv lock_mutex(2)]
  have m: "length ms < length (limited limit (batches ! b))" "?mu (limited limit (batches ! b) ! length ms) = Some m"
    using at(2) by (auto simp: locks_ok_def)
  then have mb: "m < length (am_owner s)" using inv by (auto simp: locks_inv_def)
  have ok: "locks_ok ?mu (limited limit (batches ! b)) (Locking (m # ms))"
    using at(2) m by (auto simp: locks_ok_def take_Suc_conv_app_nth intro!: list_all2_appendI)
  have free: "m \<notin> set (pc_held (am_pc s ! b'))" if "b' < length batches" for b'
    using locks_inv_owner [OF inv that, of m] lock_mutex(3) by auto
  show ?thesis unfolding lock_mutex(1)
    using lock_mutex(2) by (intro locks_inv_owner_upd [OF inv at(1) _ ok mb]) (use free at(1) in \<open>auto simp: at_pc_def\<close>)
next
  case (all_locked b ms)
  show ?thesis unfolding all_locked(1) using locks_inv_at(2) [OF inv all_locked(2)] all_locked(3)
    by (intro locks_inv_goto [OF inv all_locked(2)]) (auto simp: locks_ok_def)
next
  case (look_up b ms i x left seen fresh)
  show ?thesis unfolding look_up(1) using locks_inv_at(2) [OF inv look_up(2)]
    by (intro locks_inv_goto [OF inv look_up(2)]) (auto simp: locks_ok_def)
next
  case (decide b ms i seen fresh t)
  show ?thesis unfolding decide(1) using locks_inv_at(2) [OF inv decide(2)]
    by (intro locks_inv_goto [OF inv decide(2)]) (auto simp: locks_ok_def)
next
  case (add_series b ms x left)
  have "locks_inv limit batches (goto b (Appending ms left) s)"
    using locks_inv_at(2) [OF inv add_series(2)]
    by (intro locks_inv_goto [OF inv add_series(2)]) (auto simp: locks_ok_def)
  then show ?thesis unfolding add_series(1) by (simp add: locks_inv_def)
next
  case (fn_returns b ms left ok)
  show ?thesis unfolding fn_returns(1) using locks_inv_at(2) [OF inv fn_returns(2)]
    by (intro locks_inv_goto [OF inv fn_returns(2)]) (auto simp: locks_ok_def)
next
  case (unlock b m ms out)
  let ?mu = "map_of (am_tenants s)"
  note at = locks_inv_at [OF inv unlock(2)]
  have need: "distinct (limited limit (batches ! b))" using maps at(1) by (simp add: limited_def)
  have d: "distinct (m # ms)"
    using locks_ok_distinct [OF at(2) need] inv by (simp add: locks_inv_def)
  have ok: "locks_ok ?mu (limited limit (batches ! b)) (Unlocking ms out)"
    by (rule locks_ok_pop [OF at(2)])
  have own: "am_owner s ! m = Some b" and mb: "m < length (am_owner s)"
    using locks_inv_owner [OF inv at(1), of m] locks_inv_bound [OF inv at(1), of m] unlock(2) by (simp_all add: at_pc_def)
  have other: "m \<notin> set (pc_held (am_pc s ! b'))" if "b' < length batches" "b' \<noteq> b" for b'
    using locks_inv_owner [OF inv that(1), of m] own that(2) by auto
  show ?thesis unfolding unlock(1)
    using unlock(2) by (intro locks_inv_owner_upd [OF inv at(1) _ ok mb]) (use d other own at(1) in \<open>auto simp: at_pc_def\<close>)
qed

lemma locks_inv_start: "locks_inv limit batches (admissions_start live batches)"
  by (simp add: locks_inv_def admissions_start_def locks_ok_def)


text \<open>What a batch has established about the counter where it stands.\<close>

definition active_in :: "(u64 \<Rightarrow> string) \<Rightarrow> u64 set \<Rightarrow> string \<Rightarrow> u64 set" where
  "active_in tenant_of A t = {x \<in> A. tenant_of x = t}"

definition within :: "(string \<Rightarrow> int) \<Rightarrow> (u64 \<Rightarrow> string) \<Rightarrow> u64 set \<Rightarrow> batch \<Rightarrow> string \<Rightarrow> bool" where
  "within limit tenant_of A keys t \<longleftrightarrow> set (tenant_ids keys t) \<subseteq> A
     \<or> int (card (active_in tenant_of A t \<union> set (tenant_ids keys t))) \<le> limit t"

fun phase_ok :: "(string \<Rightarrow> int) \<Rightarrow> (u64 \<Rightarrow> string) \<Rightarrow> u64 set \<Rightarrow> batch \<Rightarrow> admit_pc \<Rightarrow> bool" where
  "phase_ok limit tenant_of A keys (Counting ms i left seen fresh) \<longleftrightarrow> i < length (limited limit keys)
     \<and> (\<forall>t \<in> set (take i (limited limit keys)). within limit tenant_of A keys t)
     \<and> set seen \<union> set left = set (tenant_ids keys (limited limit keys ! i)) \<and> fresh = card (set seen - A)"
| "phase_ok limit tenant_of A keys (Appending ms left) \<longleftrightarrow>
     (\<forall>t \<in> set (limited limit keys). within limit tenant_of A keys t)
     \<and> set left \<subseteq> set (batch_ids keys) \<and> set (batch_ids keys) - set left \<subseteq> A"
| "phase_ok limit tenant_of A keys (Unlocking ms (Rejected t l)) \<longleftrightarrow> t \<in> set (limited limit keys) \<and> l = limit t
     \<and> limit t < int (card (active_in tenant_of A t \<union> set (tenant_ids keys t)))"
| "phase_ok limit tenant_of A keys (Unlocking ms (Ran ok)) \<longleftrightarrow> (ok \<longrightarrow> set (batch_ids keys) \<subseteq> A)"
| "phase_ok limit tenant_of A keys pc \<longleftrightarrow> True"

definition batch_ok :: "(u64 \<Rightarrow> string) \<Rightarrow> batch \<Rightarrow> bool" where
  "batch_ok tenant_of keys \<longleftrightarrow> distinct (map fst keys) \<and> (\<forall>(t, ids) \<in> set keys. \<forall>x \<in> set ids. tenant_of x = t)"

definition phase_inv :: "(string \<Rightarrow> int) \<Rightarrow> (u64 \<Rightarrow> string) \<Rightarrow> u64 list \<Rightarrow> batch list \<Rightarrow> admissions \<Rightarrow> bool" where
  "phase_inv limit tenant_of live batches s \<longleftrightarrow> distinct (am_live s) \<and> set live \<subseteq> set (am_live s)
     \<and> (\<forall>t. 0 < limit t \<longrightarrow> int (card (active_in tenant_of (set (am_live s)) t))
            \<le> max (limit t) (int (card (active_in tenant_of (set live) t))))
     \<and> (\<forall>b < length batches. phase_ok limit tenant_of (set (am_live s)) (batches ! b) (am_pc s ! b))"

lemma live_count_active: "distinct live \<Longrightarrow> live_count tenant_of live t = card (active_in tenant_of (set live) t)"
  by (simp add: live_count_def active_in_def flip: distinct_card)

lemma tenant_ids_tenant: "batch_ok tenant_of keys \<Longrightarrow> x \<in> set (tenant_ids keys t) \<Longrightarrow> tenant_of x = t"
  by (auto simp: batch_ok_def tenant_ids_def dest!: map_of_SomeD split: option.splits)

lemma batch_ids_iff:
  assumes "batch_ok tenant_of keys"
  shows "x \<in> set (batch_ids keys) \<longleftrightarrow> x \<in> set (tenant_ids keys (tenant_of x))"
proof
  assume "x \<in> set (batch_ids keys)"
  then obtain t ids where t: "(t, ids) \<in> set keys" "x \<in> set ids" by (auto simp: batch_ids_def)
  then have "tenant_of x = t" "map_of keys t = Some ids" using assms by (auto simp: batch_ok_def)
  then show "x \<in> set (tenant_ids keys (tenant_of x))" using t(2) by (simp add: tenant_ids_def)
next
  assume "x \<in> set (tenant_ids keys (tenant_of x))"
  then obtain ids where "(tenant_of x, ids) \<in> set keys" "x \<in> set ids"
    by (cases "map_of keys (tenant_of x)") (auto simp: tenant_ids_def dest: map_of_SomeD)
  then show "x \<in> set (batch_ids keys)" by (force simp: batch_ids_def)
qed

lemma limited_iff: "t \<in> set (limited limit keys) \<longleftrightarrow> 0 < limit t \<and> t \<in> fst ` set keys"
  by (auto simp: limited_def)

lemma tenant_ids_limited:
  assumes "x \<in> set (tenant_ids keys t)" "0 < limit t"
  shows "t \<in> set (limited limit keys)"
proof -
  obtain ids where "(t, ids) \<in> set keys"
    using assms(1) by (cases "map_of keys t") (auto simp: tenant_ids_def dest: map_of_SomeD)
  then show ?thesis using assms(2) by (force simp: limited_iff)
qed

lemma active_in_insert: "active_in tenant_of (insert x A) t = (if tenant_of x = t then insert x (active_in tenant_of A t) else active_in tenant_of A t)"
  by (auto simp: active_in_def)

lemma finite_active_in [simp]: "finite A \<Longrightarrow> finite (active_in tenant_of A t)"
  by (simp add: active_in_def)

lemma within_insert:
  assumes "within limit tenant_of A keys t" "tenant_of x = t \<Longrightarrow> x \<in> set (tenant_ids keys t)"
  shows "within limit tenant_of (insert x A) keys t"
proof (cases "tenant_of x = t")
  case True
  then have "insert x (active_in tenant_of A t) \<union> set (tenant_ids keys t) = active_in tenant_of A t \<union> set (tenant_ids keys t)"
    using assms(2) by auto
  then show ?thesis using assms(1) True by (auto simp: within_def active_in_insert)
next
  case False
  then show ?thesis using assms(1) by (auto simp: within_def active_in_insert)
qed

lemma phase_ok_insert:
  assumes "phase_ok limit tenant_of A keys pc" "batch_ok tenant_of keys" "finite A"
    "pc_inside pc \<Longrightarrow> tenant_of x \<notin> set (limited limit keys)"
  shows "phase_ok limit tenant_of (insert x A) keys pc"
proof (cases pc)
  case (Counting ms i left seen fresh)
  have x: "tenant_of x \<notin> set (limited limit keys)" using assms(4) by (simp add: Counting)
  have w: "within limit tenant_of (insert x A) keys t" if "t \<in> set (take i (limited limit keys))" for t
    using assms(1) that x by (intro within_insert) (auto simp: Counting dest: in_set_takeD)
  have "limited limit keys ! i \<in> set (limited limit keys)" using assms(1) by (simp add: Counting)
  then have "x \<notin> set (tenant_ids keys (limited limit keys ! i))" using x tenant_ids_tenant [OF assms(2)] by metis
  then have "x \<notin> set seen" using assms(1) by (auto simp: Counting)
  then have "set seen - insert x A = set seen - A" by auto
  then show ?thesis using assms(1) w by (simp add: Counting)
next
  case (Appending ms left)
  have x: "tenant_of x \<notin> set (limited limit keys)" using assms(4) by (simp add: Appending)
  have w: "within limit tenant_of (insert x A) keys t" if "t \<in> set (limited limit keys)" for t
    using assms(1) that x by (intro within_insert) (auto simp: Appending)
  then show ?thesis using assms(1) by (auto simp: Appending)
next
  case (Unlocking ms out)
  show ?thesis
  proof (cases out)
    case (Rejected t l)
    have "card (active_in tenant_of A t \<union> set (tenant_ids keys t)) \<le> card (active_in tenant_of (insert x A) t \<union> set (tenant_ids keys t))"
      using assms(3) by (intro card_mono) (auto simp: active_in_def)
    then show ?thesis using assms(1) by (auto simp: Unlocking Rejected)
  next
    case (Ran ok)
    then show ?thesis using assms(1) by (auto simp: Unlocking)
  qed
qed simp_all

lemma phase_inv_goto:
  assumes "phase_inv limit tenant_of live batches s" "locks_inv limit batches s" "at_pc s b pc"
    "phase_ok limit tenant_of (set (am_live s)) (batches ! b) pc'"
  shows "phase_inv limit tenant_of live batches (goto b pc' s)"
  using assms unfolding phase_inv_def at_pc_def locks_inv_def by (auto simp: nth_list_update)

lemma phase_inv_other:
  "am_live s' = am_live s \<Longrightarrow> am_pc s' = am_pc s \<Longrightarrow> phase_inv limit tenant_of live batches s' = phase_inv limit tenant_of live batches s"
  by (simp add: phase_inv_def)

lemma phase_ok_count_from:
  assumes "\<forall>t \<in> set (take i (limited limit keys)). within limit tenant_of A keys t" "i \<le> length (limited limit keys)"
  shows "phase_ok limit tenant_of A keys (count_from limit keys ms i)"
  using assms by (auto simp: count_from_def)

lemma phase_inv_add:
  assumes ph: "phase_inv limit tenant_of live batches s" and lk: "locks_inv limit batches s"
    and ok: "\<forall>keys \<in> set batches. batch_ok tenant_of keys" and at: "at_pc s b (Appending ms (x # left))"
  shows "phase_inv limit tenant_of live batches (goto b (Appending ms left) (s\<lparr>am_live := List.insert x (am_live s)\<rparr>))"
proof -
  let ?A = "set (am_live s)" and ?keys = "batches ! b"
  note b = locks_inv_at(1) [OF lk at]
  have bok: "batch_ok tenant_of (batches ! b')" if "b' < length batches" for b' using ok that by simp
  have len: "length (am_pc s) = length batches" using lk by (simp add: locks_inv_def)
  have pcs: "phase_ok limit tenant_of ?A (batches ! b') (am_pc s ! b')" if "b' < length batches" for b'
    using ph that by (simp add: phase_inv_def)
  have me: "phase_ok limit tenant_of ?A ?keys (Appending ms (x # left))" using pcs [OF b] at by (simp add: at_pc_def)
  have xin: "x \<in> set (tenant_ids ?keys (tenant_of x))" using me batch_ids_iff [OF bok [OF b], of x] by auto
  have mine: "phase_ok limit tenant_of (insert x ?A) ?keys (Appending ms left)"
    using me xin by (auto intro!: within_insert)
  have others: "phase_ok limit tenant_of (insert x ?A) (batches ! b') (am_pc s ! b')" if "b' < length batches" "b' \<noteq> b" for b'
  proof (rule phase_ok_insert [OF pcs [OF that(1)] bok [OF that(1)]])
    assume i: "pc_inside (am_pc s ! b')"
    show "tenant_of x \<notin> set (limited limit (batches ! b'))"
    proof
      assume t: "tenant_of x \<in> set (limited limit (batches ! b'))"
      then have "tenant_of x \<in> set (limited limit ?keys)"
        by (intro tenant_ids_limited [OF xin]) (simp add: limited_iff)
      then have "b' = b" using inside_excludes [OF lk that(1) b i _ t] at by (simp add: at_pc_def)
      then show False using that(2) by simp
    qed
  qed simp
  have cap: "int (card (active_in tenant_of (insert x ?A) t)) \<le> max (limit t) (int (card (active_in tenant_of (set live) t)))"
    if "0 < limit t" for t
  proof (cases "tenant_of x = t \<and> x \<notin> ?A")
    case True
    then have "within limit tenant_of ?A ?keys t" using me tenant_ids_limited [OF xin] that by auto
    then have "int (card (active_in tenant_of ?A t \<union> set (tenant_ids ?keys t))) \<le> limit t"
      using True xin by (auto simp: within_def)
    moreover have "card (active_in tenant_of (insert x ?A) t) \<le> card (active_in tenant_of ?A t \<union> set (tenant_ids ?keys t))"
      using xin True by (intro card_mono) (auto simp: active_in_def)
    ultimately show ?thesis by linarith
  next
    case False
    then have "active_in tenant_of (insert x ?A) t = active_in tenant_of ?A t" by (auto simp: active_in_def)
    then show ?thesis using ph that by (simp add: phase_inv_def)
  qed
  have "phase_ok limit tenant_of (insert x ?A) (batches ! b') ((am_pc s)[b := Appending ms left] ! b')" if "b' < length batches" for b'
  proof (cases "b' = b")
    case True
    then have e: "(am_pc s)[b := Appending ms left] ! b' = Appending ms left" using b len by simp
    show ?thesis unfolding e using mine True by simp
  next
    case False
    then show ?thesis using others [OF that] by simp
  qed
  then show ?thesis using ph cap by (auto simp: phase_inv_def)
qed

lemma phase_inv_step:
  assumes step: "admission_step limit tenant_of batches s s'"
    and ph: "phase_inv limit tenant_of live batches s" and lk: "locks_inv limit batches s"
    and ok: "\<forall>keys \<in> set batches. batch_ok tenant_of keys"
  shows "phase_inv limit tenant_of live batches s'"
proof -
  have now: "phase_ok limit tenant_of (set (am_live s)) (batches ! b) pc" if "at_pc s b pc" for b pc
    using ph that locks_inv_at(1) [OF lk that] by (auto simp: phase_inv_def at_pc_def)
  have d: "distinct (am_live s)" using ph by (simp add: phase_inv_def)
  show ?thesis
    using step
  proof cases
    case (get_mutex b ms m s1)
    note L = lockFor_inv [OF lk get_mutex(4)]
    have "phase_inv limit tenant_of live batches (goto b (Waiting ms m) s)"
      by (rule phase_inv_goto [OF ph lk get_mutex(2)]) simp
    then show ?thesis unfolding get_mutex(1) using L(3,4) by (simp add: phase_inv_def)
  next
    case (lock_mutex b ms m)
    have "phase_inv limit tenant_of live batches (goto b (Locking (m # ms)) s)"
      by (rule phase_inv_goto [OF ph lk lock_mutex(2)]) simp
    then show ?thesis unfolding lock_mutex(1) by (simp add: phase_inv_def)
  next
    case (all_locked b ms)
    show ?thesis unfolding all_locked(1)
      by (rule phase_inv_goto [OF ph lk all_locked(2)]) (simp add: phase_ok_count_from)
  next
    case (look_up b ms i x left seen fresh)
    have "card (insert x (set seen) - set (am_live s)) =
        (if x \<in> set (am_live s) then card (set seen - set (am_live s)) else card (set seen - set (am_live s)) + 1)" if "x \<notin> set seen"
      using that by (simp add: insert_Diff_if)
    then show ?thesis unfolding look_up(1) using now [OF look_up(2)]
      by (intro phase_inv_goto [OF ph lk look_up(2)]) auto
  next
    case (decide b ms i seen fresh t)
    let ?A = "set (am_live s)" and ?keys = "batches ! b"
    have p: "phase_ok limit tenant_of ?A ?keys (Counting ms i [] seen fresh)" by (rule now [OF decide(2)])
    have bok: "batch_ok tenant_of ?keys" using ok locks_inv_at(1) [OF lk decide(2)] by simp
    have need: "i < length (limited limit ?keys)" "t \<in> set (limited limit ?keys)" using p decide(3) by auto
    have ids: "set seen = set (tenant_ids ?keys t)" "fresh = card (set (tenant_ids ?keys t) - ?A)" using p decide(3) by auto
    have "active_in tenant_of ?A t \<inter> (set (tenant_ids ?keys t) - ?A) = {}" by (auto simp: active_in_def)
    moreover have "active_in tenant_of ?A t \<union> set (tenant_ids ?keys t) = active_in tenant_of ?A t \<union> (set (tenant_ids ?keys t) - ?A)"
      using tenant_ids_tenant [OF bok] by (auto simp: active_in_def)
    ultimately have c: "live_count tenant_of (am_live s) t + fresh = card (active_in tenant_of ?A t \<union> set (tenant_ids ?keys t))"
      using d ids(2) by (simp add: live_count_active card_Un_disjoint)
    have z: "fresh = 0 \<longleftrightarrow> set (tenant_ids ?keys t) \<subseteq> ?A" using ids(2) by auto
    show ?thesis
    proof (cases "fresh > 0 \<and> int (live_count tenant_of (am_live s) t + fresh) > limit t")
      case True
      then have "phase_inv limit tenant_of live batches (goto b (Unlocking ms (Rejected t (limit t))) s)"
        using need(2) unfolding c by (intro phase_inv_goto [OF ph lk decide(2)]) simp
      then show ?thesis unfolding decide(1) if_P [OF True] .
    next
      case False
      then have "within limit tenant_of ?A ?keys t" using z unfolding within_def c by auto
      then have "\<forall>t \<in> set (take (i + 1) (limited limit ?keys)). within limit tenant_of ?A ?keys t"
        using p need(1) decide(3) by (auto simp: take_Suc_conv_app_nth)
      then have "phase_inv limit tenant_of live batches (goto b (count_from limit ?keys ms (i + 1)) s)"
        using need(1) by (intro phase_inv_goto [OF ph lk decide(2)] phase_ok_count_from) simp_all
      then show ?thesis unfolding decide(1) if_not_P [OF False] .
    qed
  next
    case (add_series b ms x left)
    show ?thesis unfolding add_series(1) by (rule phase_inv_add [OF ph lk ok add_series(2)])
  next
    case (fn_returns b ms left ok)
    show ?thesis unfolding fn_returns(1) using now [OF fn_returns(2)] fn_returns(3)
      by (intro phase_inv_goto [OF ph lk fn_returns(2)]) auto
  next
    case (unlock b m ms out)
    have "phase_ok limit tenant_of (set (am_live s)) (batches ! b) (Unlocking ms out)"
      using now [OF unlock(2)] by (cases out) simp_all
    then have "phase_inv limit tenant_of live batches (goto b (Unlocking ms out) s)" by (rule phase_inv_goto [OF ph lk unlock(2)])
    then show ?thesis unfolding unlock(1) by (simp add: phase_inv_def)
  qed
qed

lemma admissions_inv:
  assumes "(admission_step limit tenant_of batches)\<^sup>*\<^sup>* (admissions_start live batches) s"
    "\<forall>keys \<in> set batches. batch_ok tenant_of keys" "distinct live"
  shows "locks_inv limit batches s \<and> phase_inv limit tenant_of live batches s"
  using assms(1)
proof (induction rule: rtranclp_induct)
  case base
  show ?case using assms(3) by (simp add: locks_inv_start) (simp add: phase_inv_def admissions_start_def)
next
  case (step s s')
  have "\<forall>keys \<in> set batches. distinct (map fst keys)" using assms(2) by (simp add: batch_ok_def)
  then show ?case using locks_inv_step [OF step.hyps(2)] phase_inv_step [OF step.hyps(2)] step.IH assms(2) by blast
qed

text \<open>Progress: the batch that waits for the last tenant in the order waits for nobody.\<close>

lemma admissions_progress:
  assumes lk: "locks_inv limit batches s" and maps: "\<forall>keys \<in> set batches. distinct (map fst keys)"
    and b0: "b0 < length batches" "\<not> pc_finished (am_pc s ! b0)"
  shows "\<exists>s'. admission_step limit tenant_of batches s s'"
proof (rule ccontr)
  assume stuck: "\<nexists>s'. admission_step limit tenant_of batches s s'"
  let ?mu = "map_of (am_tenants s)" and ?need = "\<lambda>b. limited limit (batches ! b)"
  let ?B = "{b. b < length batches \<and> \<not> pc_finished (am_pc s ! b)}" and ?k = "\<lambda>b. length (pc_held (am_pc s ! b))"
  have len: "length (am_pc s) = length batches" using lk by (simp add: locks_inv_def)
  have waits: "\<exists>ms m. am_pc s ! b = Waiting ms m \<and> am_owner s ! m \<noteq> None" if "b \<in> ?B" for b
  proof -
    have at: "at_pc s b (am_pc s ! b)" using that len by (simp add: at_pc_def)
    note ok = locks_inv_at(2) [OF lk at]
    show ?thesis
    proof (cases "am_pc s ! b")
      case (Locking ms)
      then have "length ms < length (?need b) \<or> length ms = length (?need b)" using ok by (auto simp: locks_ok_def)
      then show ?thesis using stuck get_mutex [of s b ms limit batches] all_locked [of s b ms limit batches] at Locking
        by (metis surj_pair)
    next
      case (Waiting ms m)
      then show ?thesis using stuck lock_mutex [of s b ms m] at by (cases "am_owner s ! m") auto
    next
      case (Counting ms i left seen fresh)
      then show ?thesis using stuck look_up [of s b ms i] decide [of s b ms i] at by (cases left) metis+
    next
      case (Appending ms left)
      then show ?thesis using stuck fn_returns [of s b ms left False] at by metis
    next
      case (Unlocking ms out)
      then have "ms \<noteq> []" using that by (auto simp: pc_finished_def)
      then obtain m ms' where "ms = m # ms'" by (cases ms) auto
      then show ?thesis using stuck unlock [of s b m ms' out] at Unlocking by metis
    qed
  qed
  let ?want = "\<lambda>b. ?need b ! ?k b"
  have "finite ?B" "?B \<noteq> {}" using b0 by auto
  then have "Max (?want ` ?B) \<in> ?want ` ?B" by (intro Max_in) simp_all
  then obtain b where b: "b \<in> ?B" "Max (?want ` ?B) = ?want b" by (rule imageE)
  have top: "?want b' \<le> ?want b" if "b' \<in> ?B" for b'
    using that \<open>finite ?B\<close> by (auto simp flip: b(2) intro!: Max_ge)
  obtain ms m o' where w: "am_pc s ! b = Waiting ms m" "am_owner s ! m = Some o'" using waits [OF b(1)] by auto
  have okb: "locks_ok ?mu (?need b') (am_pc s ! b')" if "b' < length batches" for b' using lk that by (simp add: locks_inv_def)
  have m: "?mu (?want b) = Some m" using okb [of b] b(1) w(1) by (auto simp: locks_ok_def)
  then have "m < length (am_owner s)" using lk by (auto simp: locks_inv_def)
  then have o': "o' < length batches" "m \<in> set (pc_held (am_pc s ! o'))" using lk w(2) by (auto simp: locks_inv_def)
  then have fin: "o' \<in> ?B" by (auto simp: pc_finished_def)
  obtain ms' m' where w': "am_pc s ! o' = Waiting ms' m'" using waits [OF fin] by auto
  have k: "?k o' < length (?need o')" using okb [OF o'(1)] w' by (auto simp: locks_ok_def)
  obtain t where t: "t \<in> set (take (?k o') (?need o'))" "?mu t = Some m"
    using locks_ok_held_iff [OF okb [OF o'(1)], of m] o'(2) by blast
  have "inj_on ?mu (dom ?mu)" using lk by (simp add: locks_inv_def)
  then have "t = ?want b" using t(2) m by (auto simp: inj_on_def dom_def)
  moreover have "t < ?want o'"
  proof -
    have asc: "ascending (?need o')" using maps o'(1) by (simp add: limited_ascending)
    obtain i where "i < ?k o'" "?need o' ! i = t" using t(1) by (auto simp: in_set_conv_nth)
    then show ?thesis using asc k by (auto simp: sorted_wrt_iff_nth_less)
  qed
  ultimately show False using top [OF fin] by (metis leD)
qed


text \<open>How many steps a batch still has before it.\<close>

definition counting_work :: "(string \<Rightarrow> int) \<Rightarrow> batch \<Rightarrow> nat \<Rightarrow> nat" where
  "counting_work limit keys i = sum_list (map (\<lambda>t. length (tenant_ids keys t) + 2) (drop i (limited limit keys)))"

fun pc_work :: "(string \<Rightarrow> int) \<Rightarrow> batch \<Rightarrow> admit_pc \<Rightarrow> nat" where
  "pc_work limit keys (Locking ms) = 2 * (length (limited limit keys) - length ms)
     + counting_work limit keys 0 + length (batch_ids keys) + length (limited limit keys) + 3"
| "pc_work limit keys (Waiting ms m) = 2 * (length (limited limit keys) - length ms) - 1
     + counting_work limit keys 0 + length (batch_ids keys) + length (limited limit keys) + 3"
| "pc_work limit keys (Counting ms i left seen fresh) = length left + 1
     + counting_work limit keys (i + 1) + length (batch_ids keys) + length ms + 2"
| "pc_work limit keys (Appending ms left) = length left + length ms + 1"
| "pc_work limit keys (Unlocking ms out) = length ms"

definition total_work :: "(string \<Rightarrow> int) \<Rightarrow> batch list \<Rightarrow> admissions \<Rightarrow> nat" where
  "total_work limit batches s = (\<Sum>b < length batches. pc_work limit (batches ! b) (am_pc s ! b))"

lemma counting_work_Suc:
  "i < length (limited limit keys) \<Longrightarrow>
    counting_work limit keys i = length (tenant_ids keys (limited limit keys ! i)) + 2 + counting_work limit keys (Suc i)"
  by (simp add: counting_work_def flip: Cons_nth_drop_Suc)

lemma count_from_work:
  assumes "i \<le> length (limited limit keys)"
  shows "pc_work limit keys (count_from limit keys ms i) < counting_work limit keys i + length (batch_ids keys) + length ms + 2"
  using assms counting_work_Suc [of i limit keys] by (auto simp: count_from_def)

lemma total_work_goto:
  assumes "locks_inv limit batches s" "at_pc s b pc" "pc_work limit (batches ! b) pc' < pc_work limit (batches ! b) pc"
    "am_pc s' = (am_pc s)[b := pc']"
  shows "total_work limit batches s' < total_work limit batches s"
proof -
  have b: "b < length batches" "length (am_pc s) = length batches" "am_pc s ! b = pc"
    using locks_inv_at(1) [OF assms(1,2)] assms(1,2) by (auto simp: locks_inv_def at_pc_def)
  have "pc_work limit (batches ! b') ((am_pc s)[b := pc'] ! b') \<le> pc_work limit (batches ! b') (am_pc s ! b')" if "b' < length batches" for b'
    using that b assms(3) by (cases "b' = b") auto
  moreover have "pc_work limit (batches ! b) ((am_pc s)[b := pc'] ! b) < pc_work limit (batches ! b) (am_pc s ! b)"
    using b assms(3) by simp
  ultimately show ?thesis unfolding total_work_def assms(4)
    by (intro sum_strict_mono_ex1) (use b(1) in auto)
qed

lemma total_work_step:
  assumes step: "admission_step limit tenant_of batches s s'"
    and lk: "locks_inv limit batches s" and ph: "phase_inv limit tenant_of live batches s"
  shows "total_work limit batches s' < total_work limit batches s"
  using step
proof cases
  case (get_mutex b ms m s1)
  show ?thesis using get_mutex(3) lockFor_inv(3) [OF lk get_mutex(4)]
    by (intro total_work_goto [OF lk get_mutex(2), of "Waiting ms m"]) (simp_all add: get_mutex(1))
next
  case (lock_mutex b ms m)
  have "length ms < length (limited limit (batches ! b))"
    using locks_inv_at(2) [OF lk lock_mutex(2)] by (simp add: locks_ok_def)
  then show ?thesis
    by (intro total_work_goto [OF lk lock_mutex(2), of "Locking (m # ms)"]) (simp_all add: lock_mutex(1))
next
  case (all_locked b ms)
  show ?thesis using count_from_work [of 0 limit "batches ! b" ms] all_locked(3)
    by (intro total_work_goto [OF lk all_locked(2), of "count_from limit (batches ! b) ms 0"]) (simp_all add: all_locked(1))
next
  case (look_up b ms i x left seen fresh)
  show ?thesis
    by (rule total_work_goto [OF lk look_up(2)]) (auto simp: look_up(1) split: if_split)
next
  case (decide b ms i seen fresh t)
  have "phase_ok limit tenant_of (set (am_live s)) (batches ! b) (Counting ms i [] seen fresh)"
    using ph locks_inv_at(1) [OF lk decide(2)] decide(2) by (auto simp: phase_inv_def at_pc_def)
  then have i: "i < length (limited limit (batches ! b))" by simp
  show ?thesis
    using count_from_work [of "i + 1" limit "batches ! b" ms] i
    by (intro total_work_goto [OF lk decide(2)]) (auto simp: decide(1) split: if_split)
next
  case (add_series b ms x left)
  show ?thesis by (rule total_work_goto [OF lk add_series(2), of "Appending ms left"]) (simp_all add: add_series(1))
next
  case (fn_returns b ms left ok)
  show ?thesis by (rule total_work_goto [OF lk fn_returns(2), of "Unlocking ms (Ran ok)"]) (simp_all add: fn_returns(1))
next
  case (unlock b m ms out)
  show ?thesis by (rule total_work_goto [OF lk unlock(2), of "Unlocking ms out"]) (simp_all add: unlock(1))
qed

lemma admissions_bounded:
  assumes "(admission_step limit tenant_of batches ^^ k) (admissions_start live batches) s"
    "\<forall>keys \<in> set batches. batch_ok tenant_of keys" "distinct live"
  shows "k + total_work limit batches s \<le> total_work limit batches (admissions_start live batches)"
  using assms(1)
proof (induction k arbitrary: s)
  case (Suc k)
  obtain s1 where s1: "(admission_step limit tenant_of batches ^^ k) (admissions_start live batches) s1"
    "admission_step limit tenant_of batches s1 s" using Suc.prems by auto
  have "(admission_step limit tenant_of batches)\<^sup>*\<^sup>* (admissions_start live batches) s1"
    using s1(1) by (meson rtranclp_power)
  from admissions_inv [OF this assms(2,3)] have "total_work limit batches s < total_work limit batches s1"
    using total_work_step [OF s1(2)] by blast
  then show ?case using Suc.IH [OF s1(1)] by linarith
qed simp

text \<open>The step of one batch as a function, for runs with a given schedule; its \<^verbatim>\<open>fn\<close> succeeds.\<close>

definition admission_next :: "(string \<Rightarrow> int) \<Rightarrow> (u64 \<Rightarrow> string) \<Rightarrow> batch list \<Rightarrow> nat \<Rightarrow> admissions \<Rightarrow> admissions option" where
  "admission_next limit tenant_of batches b s =
     (let need = limited limit (batches ! b) in
      if b \<ge> length (am_pc s) then None
      else case am_pc s ! b of
        Locking ms \<Rightarrow>
          if length ms < length need then (case lockFor (need ! length ms) s of (m, s') \<Rightarrow> Some (goto b (Waiting ms m) s'))
          else if length ms = length need then Some (goto b (count_from limit (batches ! b) ms 0) s) else None
      | Waiting ms m \<Rightarrow>
          if am_owner s ! m = None then Some (goto b (Locking (m # ms)) (s\<lparr>am_owner := (am_owner s)[m := Some b]\<rparr>)) else None
      | Counting ms i left seen fresh \<Rightarrow>
          (case left of
             x # left \<Rightarrow> Some (goto b (if x \<in> set seen then Counting ms i left seen fresh
               else Counting ms i left (x # seen) (if x \<in> set (am_live s) then fresh else fresh + 1)) s)
           | [] \<Rightarrow> Some (goto b
               (if fresh > 0 \<and> int (live_count tenant_of (am_live s) (need ! i) + fresh) > limit (need ! i)
                then Unlocking ms (Rejected (need ! i) (limit (need ! i))) else count_from limit (batches ! b) ms (i + 1)) s))
      | Appending ms left \<Rightarrow>
          (case left of
             x # left \<Rightarrow> Some (goto b (Appending ms left) (s\<lparr>am_live := List.insert x (am_live s)\<rparr>))
           | [] \<Rightarrow> Some (goto b (Unlocking ms (Ran True)) s))
      | Unlocking ms out \<Rightarrow>
          (case ms of m # ms \<Rightarrow> Some (goto b (Unlocking ms out) (s\<lparr>am_owner := (am_owner s)[m := None]\<rparr>)) | [] \<Rightarrow> None))"

fun admission_run :: "(string \<Rightarrow> int) \<Rightarrow> (u64 \<Rightarrow> string) \<Rightarrow> batch list \<Rightarrow> nat list \<Rightarrow> admissions \<Rightarrow> admissions" where
  "admission_run limit tenant_of batches [] s = s"
| "admission_run limit tenant_of batches (b # bs) s =
     (case admission_next limit tenant_of batches b s of
        Some s' \<Rightarrow> admission_run limit tenant_of batches bs s'
      | None \<Rightarrow> admission_run limit tenant_of batches bs s)"

lemma admission_next_step:
  assumes "admission_next limit tenant_of batches b s = Some s'"
  shows "admission_step limit tenant_of batches s s'"
proof -
  have b: "\<not> b \<ge> length (am_pc s)" using assms by (auto simp: admission_next_def Let_def)
  then have at: "at_pc s b (am_pc s ! b)" by (simp add: at_pc_def)
  note nx = assms [unfolded admission_next_def Let_def if_not_P [OF b]]
  show ?thesis
  proof (cases "am_pc s ! b")
    case (Locking ms)
    then show ?thesis using nx at by (auto intro: get_mutex all_locked split: if_splits prod.splits)
  next
    case (Waiting ms m)
    then show ?thesis using nx at by (auto intro: lock_mutex split: if_splits)
  next
    case (Counting ms i left seen fresh)
    show ?thesis
    proof (cases left)
      case Nil
      show ?thesis
        using nx decide [OF at [unfolded Counting Nil] refl, where limit = limit and tenant_of = tenant_of and batches = batches] by (simp add: Counting Nil del: not_gr_zero)
    next
      case (Cons x left')
      show ?thesis
        using nx look_up [OF at [unfolded Counting Cons], where limit = limit and tenant_of = tenant_of and batches = batches] by (simp add: Counting Cons)
    qed
  next
    case (Appending ms left)
    then show ?thesis using nx at by (cases left) (auto intro: add_series fn_returns)
  next
    case (Unlocking ms out)
    then show ?thesis using nx at by (cases ms) (auto intro: unlock)
  qed
qed

lemma admission_run_steps: "(admission_step limit tenant_of batches)\<^sup>*\<^sup>* s (admission_run limit tenant_of batches bs s)"
proof (induction bs arbitrary: s)
  case (Cons b bs)
  show ?case
  proof (cases "admission_next limit tenant_of batches b s")
    case (Some s')
    from converse_rtranclp_into_rtranclp [OF admission_next_step [OF Some] Cons.IH]
    show ?thesis by (simp add: Some)
  qed (simp add: Cons.IH)
qed simp

section \<open>The drain gate\<close>

definition gate_inv :: "drain_gate option \<times> nat \<times> nat \<Rightarrow> bool" where
  "gate_inv st = (case st of (None, _) \<Rightarrow> False
     | (Some g, active, late) \<Rightarrow> dg_inflight g = int active \<and> late = 0 \<and> dg_idle g = (dg_closed g \<and> active = 0))"

lemma gate_inv_step: "gate_inv st \<Longrightarrow> gate_step st st' \<Longrightarrow> gate_inv st'"
  by (erule gate_step.cases)
    (auto simp: gate_inv_def enter_def leave_def Close_def close_idle_def Let_def split: if_splits)

lemma gate_inv_reachable:
  assumes "gate_step\<^sup>*\<^sup>* (Some NewGate, 0, 0) st"
  shows "gate_inv st"
  using assms
proof (induction rule: rtranclp_induct)
  case base
  show ?case by (simp add: gate_inv_def NewGate_def)
qed (rule gate_inv_step)

lemma idle_step:
  "gate_inv (Some g, active, late) \<Longrightarrow> dg_idle g \<Longrightarrow> gate_step (Some g, active, late) st
    \<Longrightarrow> st = (Some g, 0, 0)"
  by (erule gate_step.cases) (auto simp: gate_inv_def enter_def Close_def)

lemma idle_forever:
  assumes "gate_step\<^sup>*\<^sup>* (Some g, active, late) st" "gate_inv (Some g, active, late)" "dg_idle g"
  shows "st = (Some g, 0, 0)"
proof -
  have "active = 0 \<and> late = 0" using assms(2,3) by (simp add: gate_inv_def)
  with assms show ?thesis
    by (induction rule: rtranclp_induct) (auto dest: idle_step)
qed

section \<open>Properties\<close>

text \<open>
  the share of a member. For every limit and ring size of 64-bit range, \<^const>\<open>Share\<close> neither panics nor
  overflows: it is the whole limit when every member is a replica, and otherwise the limit times
  the replication factor over the ring size, rounded up; it never exceeds the limit and is at least 1.
\<close>

lemma Share_correct:
  assumes "0 < limit" "limit < 2 ^ 63" "0 < n" "n < 2 ^ 63"
  shows "Share limit rf n = Some (if n \<le> rf then limit else (limit * max rf 1 + n - 1) div n)
    \<and> (\<exists>s. Share limit rf n = Some s \<and> 1 \<le> s \<and> s \<le> limit \<and> (rf \<le> n \<longrightarrow> limit * rf \<le> n * s))"
proof (cases "n \<le> rf")
  case True
  then show ?thesis using assms by (auto simp: Share_def Let_def mult.commute)
next
  case False
  let ?s = "(limit * max rf 1 + n - 1) div n"
  have v: "Share limit rf n = Some ?s" "1 \<le> ?s" "?s \<le> limit"
    using Share_value [OF assms, of rf] False by simp_all
  moreover have "limit * max rf 1 \<le> n * ?s"
    using mult_div_mod_eq [of n "limit * max rf 1 + n - 1"] pos_mod_bound [OF assms(3), of "limit * max rf 1 + n - 1"]
    by linarith
  moreover have "limit * rf \<le> limit * max rf 1" using assms(1) by (intro mult_left_mono) simp_all
  ultimately have "limit * rf \<le> n * ?s" by linarith
  then show ?thesis using v False by auto
qed

text \<open>
  C18: concurrent admissions are exact. Batches that run \<^verbatim>\<open>Admit\<close> on one gate at the same time, in any
  interleaving of their accesses to the gate's mutex map, its mutexes and the counter: no limited
  tenant ever counts more series than its limit, or than it had at the start; two batches that
  limit the same tenant are never both between their last lock and their first unlock; a batch is
  refused only for a tenant that it would take over its limit, and a batch admitted without error has
  all its series counted; while a batch is not finished some batch can take a step, and no run
  takes more than a bounded number of steps, so every batch finishes. The counter grows only
  by the batches; a flush that removes series between two steps is not in the relation.
\<close>

theorem concurrent_admissions_exact:
  assumes "\<forall>keys \<in> set batches. distinct (map fst keys)"
    "\<forall>keys \<in> set batches. \<forall>(t, ids) \<in> set keys. \<forall>x \<in> set ids. tenant_of x = t" "distinct live"
    "(admission_step limit tenant_of batches)\<^sup>*\<^sup>* (admissions_start live batches) s"
  shows "(\<forall>t. 0 < limit t \<longrightarrow> int (live_count tenant_of (am_live s) t) \<le> max (limit t) (int (live_count tenant_of live t)))
    \<and> (\<forall>b < length batches. \<forall>b' < length batches. \<forall>t \<in> set (limited limit (batches ! b)) \<inter> set (limited limit (batches ! b')).
         pc_inside (am_pc s ! b) \<and> pc_inside (am_pc s ! b') \<longrightarrow> b = b')
    \<and> (\<forall>b ms t l. at_pc s b (Unlocking ms (Rejected t l)) \<longrightarrow> l = limit t \<and> 0 < l
         \<and> l < int (card ({x \<in> set (am_live s). tenant_of x = t} \<union> set (tenant_ids (batches ! b) t))))
    \<and> (\<forall>b ms. at_pc s b (Unlocking ms (Ran True)) \<longrightarrow> set (batch_ids (batches ! b)) \<subseteq> set (am_live s))
    \<and> ((\<exists>b < length batches. \<not> pc_finished (am_pc s ! b)) \<longrightarrow> (\<exists>s'. admission_step limit tenant_of batches s s'))
    \<and> (\<exists>bound. \<forall>k s'. (admission_step limit tenant_of batches ^^ k) (admissions_start live batches) s' \<longrightarrow> k \<le> bound)"
proof -
  have ok: "\<forall>keys \<in> set batches. batch_ok tenant_of keys" using assms(1,2) by (auto simp: batch_ok_def)
  from admissions_inv [OF assms(4) ok assms(3)] have lk: "locks_inv limit batches s" and ph: "phase_inv limit tenant_of live batches s" by auto
  have now: "phase_ok limit tenant_of (set (am_live s)) (batches ! b) pc" if "at_pc s b pc" for b pc
    using ph that locks_inv_at(1) [OF lk that] by (auto simp: phase_inv_def at_pc_def)
  have "\<forall>t. 0 < limit t \<longrightarrow> int (live_count tenant_of (am_live s) t) \<le> max (limit t) (int (live_count tenant_of live t))"
    using ph live_count_active [OF assms(3)] live_count_active [of "am_live s"] by (simp add: phase_inv_def)
  moreover have "\<forall>b < length batches. \<forall>b' < length batches. \<forall>t \<in> set (limited limit (batches ! b)) \<inter> set (limited limit (batches ! b')).
         pc_inside (am_pc s ! b) \<and> pc_inside (am_pc s ! b') \<longrightarrow> b = b'"
    using inside_excludes [OF lk] by blast
  moreover have "\<forall>b ms t l. at_pc s b (Unlocking ms (Rejected t l)) \<longrightarrow> l = limit t \<and> 0 < l
         \<and> l < int (card ({x \<in> set (am_live s). tenant_of x = t} \<union> set (tenant_ids (batches ! b) t)))"
    using now by (fastforce simp: limited_iff active_in_def)
  moreover have "\<forall>b ms. at_pc s b (Unlocking ms (Ran True)) \<longrightarrow> set (batch_ids (batches ! b)) \<subseteq> set (am_live s)"
    using now by fastforce
  moreover have "(\<exists>b < length batches. \<not> pc_finished (am_pc s ! b)) \<longrightarrow> (\<exists>s'. admission_step limit tenant_of batches s s')"
    using admissions_progress [OF lk assms(1)] by blast
  moreover have "\<forall>k s'. (admission_step limit tenant_of batches ^^ k) (admissions_start live batches) s'
      \<longrightarrow> k \<le> total_work limit batches (admissions_start live batches)"
    using admissions_bounded [OF _ ok assms(3)] by (meson add_leE)
  ultimately show ?thesis by (intro conjI exI)
qed

definition demo_batches :: "batch list" where
  "demo_batches = [[(''b'', [7]), (''a'', [1, 2])], [(''a'', [3, 3]), (''b'', [8])]]"

definition demo_admissions :: admissions where
  "demo_admissions = admission_run (\<lambda>t. if t = ''a'' then 2 else 5) (\<lambda>x. if x < 7 then ''a'' else ''b'') demo_batches
     ([0, 1, 0, 1, 1] @ replicate 20 0 @ replicate 20 1) (admissions_start [1] demo_batches)"

theorem concurrent_admissions_exact_witness:
  "am_live demo_admissions = [2, 7, 1] \<and> at_pc demo_admissions 0 (Unlocking [] (Ran True))
    \<and> at_pc demo_admissions 1 (Unlocking [] (Rejected ''a'' 2))
    \<and> 2 < card ({x \<in> {2, 7, 1 :: u64}. (if x < 7 then ''a'' else ''b'') = ''a''} \<union> {3})"
proof -
  let ?limit = "\<lambda>t. if t = ''a'' then 2 else 5 :: int" and ?tenant = "\<lambda>x :: u64. if x < 7 then ''a'' else ''b''"
  have maps: "\<forall>keys \<in> set demo_batches. distinct (map fst keys)"
    and tenants: "\<forall>keys \<in> set demo_batches. \<forall>(t, ids) \<in> set keys. \<forall>x \<in> set ids. ?tenant x = t"
    by (simp_all add: demo_batches_def)
  have run: "(admission_step ?limit ?tenant demo_batches)\<^sup>*\<^sup>* (admissions_start [1] demo_batches) demo_admissions"
    unfolding demo_admissions_def by (rule admission_run_steps)
  have s: "am_live demo_admissions = [2, 7, 1]" "at_pc demo_admissions 0 (Unlocking [] (Ran True))"
    "at_pc demo_admissions 1 (Unlocking [] (Rejected ''a'' 2))" "tenant_ids (demo_batches ! 1) ''a'' = [3, 3]"
    by code_simp+
  have "distinct [1 :: u64]" by simp
  from concurrent_admissions_exact [OF maps tenants this run, THEN conjunct2, THEN conjunct2, THEN conjunct1, rule_format, OF s(3)]
  show ?thesis using s by simp
qed

text \<open>
  C17: the drain barrier. In every interleaving of appends and closes the gate never panics by
  closing its channel twice, no append is admitted after a close, and the channel on which
  \<^verbatim>\<open>Close\<close> waits is closed exactly when the gate is closed and no append is in flight; from then
  on the gate never changes again.
\<close>

theorem drain_barrier:
  assumes "gate_step\<^sup>*\<^sup>* (Some NewGate, 0, 0) (g, active, late)"
  shows "\<exists>g'. g = Some g' \<and> late = 0 \<and> dg_inflight g' = int active
    \<and> (dg_idle g' \<longleftrightarrow> dg_closed g' \<and> active = 0)
    \<and> (dg_idle g' \<longrightarrow> (\<forall>st. gate_step\<^sup>*\<^sup>* (g, active, late) st \<longrightarrow> st = (Some g', 0, 0)))"
  using gate_inv_reachable [OF assms] idle_forever by (auto simp: gate_inv_def split: option.splits)

theorem drain_barrier_witness:
  "\<exists>g'. Close NewGate = Some g' \<and> dg_idle g' \<and> (\<forall>st. gate_step\<^sup>*\<^sup>* (Some g', 0, 0) st \<longrightarrow> st = (Some g', 0, 0))"
proof -
  have "gate_step\<^sup>*\<^sup>* (Some NewGate, 0, 0) (Close NewGate, 0, 0)" by (blast intro: step_close)
  from drain_barrier [OF this] show ?thesis by (auto simp: Close_def NewGate_def close_idle_def Let_def)
qed

end
