(* ===== verification/MemStore.thy ===== *)
theory MemStore
  imports Samples Gates
begin

text \<open>
  \<^verbatim>\<open>internal/metrics/store.go\<close>: the in-memory head. A chunk is held through a pointer, and
  \<^verbatim>\<open>DiscardSealedChunks\<close> compares pointers, so a series lists its chunks as (pointer, chunk) pairs and
  the store counts the pointers it has allocated. A Go map is an association list; the code's loops
  over maps do not depend on the order. The wall clock is the argument \<^verbatim>\<open>now\<close>, the value one call of
  \<^verbatim>\<open>clock()\<close> returns; the mutex makes every operation atomic, so an operation is one state function.
\<close>

section \<open>State\<close>

type_synonym cptr = nat

record memorySeries =
  ms_labels :: Labels
  ms_chunks :: "(cptr \<times> chunk) list"
  ms_chunkSegs :: "int list"

record MemoryStore =
  st_series :: "(u64 \<times> memorySeries) list"
  st_tenantSeries :: "(string \<times> nat) list"
  st_idx :: MemPostings
  st_nextGen :: i64
  st_alloc :: cptr

datatype store_error = ErrGenerationExhausted | ErrChunk chunk_error

definition NewMemoryStore :: MemoryStore where
  "NewMemoryStore = \<lparr>st_series = [], st_tenantSeries = [], st_idx = NewMemPostings, st_nextGen = 1, st_alloc = 0\<rparr>"

section \<open>Appending\<close>

definition smax :: "i64 \<Rightarrow> i64 \<Rightarrow> i64" where "smax a b = (if a <s b then b else a)"

definition nextGenerationLocked :: "i64 \<Rightarrow> MemoryStore \<Rightarrow> store_error + i64 \<times> MemoryStore" where
  "nextGenerationLocked now s =
     (let gen = smax (st_nextGen s) now in
      if MaxGeneration <s gen then Inl ErrGenerationExhausted
      else Inr (gen, s\<lparr>st_nextGen := gen + 1\<rparr>))"

definition ReserveGeneration :: "i64 \<Rightarrow> MemoryStore \<Rightarrow> store_error + i64 \<times> MemoryStore" where
  "ReserveGeneration now s = nextGenerationLocked now s"

definition settle_generation :: "i64 \<Rightarrow> i64 \<Rightarrow> MemoryStore \<Rightarrow> store_error + i64 \<times> MemoryStore" where
  "settle_generation now gen s =
     (if gen = 0 then nextGenerationLocked now s
      else if MaxGeneration <s gen then Inl ErrGenerationExhausted
      else Inr (gen, if st_nextGen s \<le>s gen then s\<lparr>st_nextGen := gen + 1\<rparr> else s))"

definition labelsToIndexPairs :: "Labels \<Rightarrow> label list" where
  "labelsToIndexPairs l = Map l"

definition tenant_count :: "MemoryStore \<Rightarrow> string \<Rightarrow> nat" where
  "tenant_count s t = (case map_of (st_tenantSeries s) t of None \<Rightarrow> 0 | Some n \<Rightarrow> n)"

text \<open>The four stages of \<^verbatim>\<open>appendInternal\<close> after the generation is settled.\<close>

definition get_or_create :: "Labels \<Rightarrow> MemoryStore \<Rightarrow> memorySeries \<times> MemoryStore" where
  "get_or_create lbls s =
     (case map_of (st_series s) (Hash lbls) of
        Some ms \<Rightarrow> (ms, s)
      | None \<Rightarrow>
        let ms = \<lparr>ms_labels = lbls, ms_chunks = [], ms_chunkSegs = []\<rparr> in
        (ms, s\<lparr>st_series := AList.update (Hash lbls) ms (st_series s),
               st_idx := Add (st_idx s) (Hash lbls) (labelsToIndexPairs lbls)\<rparr>))"

definition count_active :: "Labels \<Rightarrow> memorySeries \<Rightarrow> MemoryStore \<Rightarrow> MemoryStore" where
  "count_active lbls ms s =
     (if ms_chunks ms = []
      then s\<lparr>st_tenantSeries := AList.update (TenantOf lbls) (tenant_count s (TenantOf lbls) + 1) (st_tenantSeries s)\<rparr>
      else s)"

definition open_chunk :: "int \<Rightarrow> memorySeries \<Rightarrow> MemoryStore \<Rightarrow> memorySeries \<times> MemoryStore" where
  "open_chunk walSeg ms s =
     (if ms_chunks ms = [] \<or> Sealed (snd (ms_chunks ms ! (length (ms_chunks ms) - 1)))
      then (ms\<lparr>ms_chunks := ms_chunks ms @ [(st_alloc s, NewChunk)], ms_chunkSegs := ms_chunkSegs ms @ [walSeg]\<rparr>,
            s\<lparr>st_alloc := st_alloc s + 1\<rparr>)
      else (ms, s))"

definition set_series :: "u64 \<Rightarrow> memorySeries \<Rightarrow> MemoryStore \<Rightarrow> MemoryStore" where
  "set_series sid ms s = s\<lparr>st_series := AList.update sid ms (st_series s)\<rparr>"

definition appendInternal :: "i64 \<Rightarrow> Labels \<Rightarrow> i64 \<Rightarrow> float64 \<Rightarrow> int \<Rightarrow> i64 \<Rightarrow> MemoryStore
    \<Rightarrow> store_error option \<times> MemoryStore" where
  "appendInternal now lbls tsMs v walSeg gen s =
     (case settle_generation now gen s of
        Inl e \<Rightarrow> (Some e, s)
      | Inr (g, s1) \<Rightarrow>
        let (ms, s2) = get_or_create lbls s1;
            s3 = count_active lbls ms s2;
            (ms1, s4) = open_chunk walSeg ms s3;
            k = length (ms_chunks ms1) - 1;
            (p, c) = ms_chunks ms1 ! k
        in case Chunk.Append c tsMs v g of
             Inl e \<Rightarrow> (Some (ErrChunk e), set_series (Hash lbls) ms1 s4)
           | Inr c1 \<Rightarrow> (None, set_series (Hash lbls) (ms1\<lparr>ms_chunks := (ms_chunks ms1)[k := (p, c1)]\<rparr>) s4))"

definition AppendTrackedGen :: "i64 \<Rightarrow> Labels \<Rightarrow> i64 \<Rightarrow> float64 \<Rightarrow> i64 \<Rightarrow> int \<Rightarrow> MemoryStore
    \<Rightarrow> store_error option \<times> MemoryStore" where
  "AppendTrackedGen now lbls tsMs v gen walSeg s = appendInternal now lbls tsMs v walSeg gen s"

definition AppendTracked :: "i64 \<Rightarrow> Labels \<Rightarrow> i64 \<Rightarrow> float64 \<Rightarrow> int \<Rightarrow> MemoryStore
    \<Rightarrow> store_error option \<times> MemoryStore" where
  "AppendTracked now lbls tsMs v walSeg s = appendInternal now lbls tsMs v walSeg 0 s"

definition AppendGen :: "i64 \<Rightarrow> Labels \<Rightarrow> i64 \<Rightarrow> float64 \<Rightarrow> i64 \<Rightarrow> MemoryStore
    \<Rightarrow> store_error option \<times> MemoryStore" where
  "AppendGen now lbls tsMs v gen s = appendInternal now lbls tsMs v 0 gen s"

definition AppendNow :: "i64 \<Rightarrow> Labels \<Rightarrow> i64 \<Rightarrow> float64 \<Rightarrow> MemoryStore
    \<Rightarrow> store_error option \<times> MemoryStore" where
  "AppendNow now lbls tsMs v s = appendInternal now lbls tsMs v 0 0 s"

section \<open>Generations, sealing and the WAL fence\<close>

definition EnsureGenFloor :: "i64 \<Rightarrow> MemoryStore \<Rightarrow> MemoryStore" where
  "EnsureGenFloor floor s = (if st_nextGen s <s floor then s\<lparr>st_nextGen := floor\<rparr> else s)"

definition NextGeneration :: "MemoryStore \<Rightarrow> i64" where "NextGeneration s = st_nextGen s"

definition GenerationExhausted :: "MemoryStore \<Rightarrow> bool" where
  "GenerationExhausted s \<longleftrightarrow> MaxGeneration <s st_nextGen s"

definition seal_last :: "memorySeries \<Rightarrow> nat \<times> memorySeries" where
  "seal_last ms =
     (if ms_chunks ms = [] then (0, ms)
      else
        let k = length (ms_chunks ms) - 1; (p, c) = ms_chunks ms ! k in
        if \<not> Sealed c \<and> NumSamples c > 0 then (1, ms\<lparr>ms_chunks := (ms_chunks ms)[k := (p, Seal c)]\<rparr>)
        else (0, ms))"

definition SealHeadChunks :: "MemoryStore \<Rightarrow> nat \<times> MemoryStore" where
  "SealHeadChunks s =
     (sum_list (map (\<lambda>(_, ms). fst (seal_last ms)) (st_series s)),
      s\<lparr>st_series := map (\<lambda>(sid, ms). (sid, snd (seal_last ms))) (st_series s)\<rparr>)"

definition OldestHeadSegment :: "MemoryStore \<Rightarrow> int" where
  "OldestHeadSegment s =
     foldl (\<lambda>oldest seg. if oldest < 0 \<or> seg < oldest then seg else oldest) (- 1)
       (concat (map (\<lambda>(_, ms). ms_chunkSegs ms) (st_series s)))"

definition SetHeadFence :: "int \<Rightarrow> MemoryStore \<Rightarrow> MemoryStore" where
  "SetHeadFence walSeg s =
     s\<lparr>st_series := map (\<lambda>(sid, ms). (sid, ms\<lparr>ms_chunkSegs := map (\<lambda>_. walSeg) (ms_chunkSegs ms)\<rparr>)) (st_series s)\<rparr>"

section \<open>Series, counts and garbage collection\<close>

type_synonym MatchedSeries = "u64 \<times> Labels"

definition SelectSeries :: "Selector \<Rightarrow> MemoryStore \<Rightarrow> MatchedSeries list" where
  "SelectSeries sel s =
     List.map_filter (\<lambda>sid. map_option (\<lambda>ms. (sid, ms_labels ms)) (map_of (st_series s) sid))
       (Postings.Select (st_idx s) (selectorToIndexMatchers sel))"

definition StoreLabelNames :: "MemoryStore \<Rightarrow> string list" where
  "StoreLabelNames s = LabelNames (st_idx s)"

definition StoreLabelValues :: "string \<Rightarrow> MemoryStore \<Rightarrow> string list" where
  "StoreLabelValues name s = LabelValues (st_idx s) name"

definition Cardinality :: "MemoryStore \<Rightarrow> nat \<times> nat \<times> nat" where
  "Cardinality s = (SeriesCount (st_idx s), LabelNameCount (st_idx s), LabelPairCount (st_idx s))"

definition EmptyHeadSeriesIDs :: "MemoryStore \<Rightarrow> u64 list" where
  "EmptyHeadSeriesIDs s = map fst (filter (\<lambda>(_, ms). ms_chunks ms = []) (st_series s))"

definition RemoveEmptySeries :: "u64 \<Rightarrow> MemoryStore \<Rightarrow> bool \<times> MemoryStore" where
  "RemoveEmptySeries sid s =
     (case map_of (st_series s) sid of
        None \<Rightarrow> (False, s)
      | Some ms \<Rightarrow>
        if ms_chunks ms \<noteq> [] then (False, s)
        else (True, s\<lparr>st_series := AList.delete sid (st_series s),
                      st_idx := Delete (st_idx s) sid (labelsToIndexPairs (ms_labels ms))\<rparr>))"

definition uncountLocked :: "Labels \<Rightarrow> (string \<times> nat) list \<Rightarrow> (string \<times> nat) list" where
  "uncountLocked l counts =
     (let t = TenantOf l; n = (case map_of counts t of None \<Rightarrow> 0 | Some n \<Rightarrow> n) in
      if n \<le> 1 then AList.delete t counts else AList.update t (n - 1) counts)"

definition TenantSeries :: "MemoryStore \<Rightarrow> string \<Rightarrow> nat" where
  "TenantSeries s t = tenant_count s t"

definition HasSeries :: "MemoryStore \<Rightarrow> u64 \<Rightarrow> bool" where
  "HasSeries s sid = (case map_of (st_series s) sid of None \<Rightarrow> False | Some ms \<Rightarrow> ms_chunks ms \<noteq> [])"

definition TenantSeriesCounts :: "MemoryStore \<Rightarrow> (string \<times> nat) list" where
  "TenantSeriesCounts s = st_tenantSeries s"

section \<open>Sealed chunks leave the head\<close>

record SeriesChunks =
  sc_ID :: u64
  sc_Labels :: Labels
  sc_Chunks :: "(cptr \<times> chunk) list"

definition ChunkCount :: "u64 \<Rightarrow> MemoryStore \<Rightarrow> nat" where
  "ChunkCount sid s = (case map_of (st_series s) sid of None \<Rightarrow> 0 | Some ms \<Rightarrow> length (ms_chunks ms))"

definition SealedChunkCount :: "MemoryStore \<Rightarrow> nat" where
  "SealedChunkCount s = sum_list (map (\<lambda>(_, ms). length (filter (\<lambda>pc. Sealed (snd pc)) (ms_chunks ms))) (st_series s))"

definition SealedChunksSnapshot :: "MemoryStore \<Rightarrow> SeriesChunks list" where
  "SealedChunksSnapshot s =
     List.map_filter (\<lambda>(sid, ms).
       let sealed = filter (\<lambda>pc. Sealed (snd pc)) (ms_chunks ms) in
       if sealed = [] then None else Some \<lparr>sc_ID = sid, sc_Labels = ms_labels ms, sc_Chunks = sealed\<rparr>) (st_series s)"

definition discard_series :: "cptr list \<Rightarrow> memorySeries \<Rightarrow> bool \<times> memorySeries" where
  "discard_series remove ms =
     (let keep = filter (\<lambda>((p, c), seg). p \<notin> set remove) (zip (ms_chunks ms) (ms_chunkSegs ms)) in
      (ms_chunks ms \<noteq> [] \<and> keep = [], ms\<lparr>ms_chunks := map fst keep, ms_chunkSegs := map snd keep\<rparr>))"

fun discard_loop :: "cptr list \<Rightarrow> (u64 \<times> memorySeries) list \<Rightarrow> (string \<times> nat) list
    \<Rightarrow> (u64 \<times> memorySeries) list \<times> (string \<times> nat) list" where
  "discard_loop remove [] counts = ([], counts)"
| "discard_loop remove ((sid, ms) # rest) counts =
     (let (emptied, ms1) = discard_series remove ms;
          counts1 = (if emptied then uncountLocked (ms_labels ms) counts else counts);
          (rest1, counts2) = discard_loop remove rest counts1
      in ((sid, ms1) # rest1, counts2))"

definition DiscardSealedChunks :: "SeriesChunks list \<Rightarrow> MemoryStore \<Rightarrow> MemoryStore" where
  "DiscardSealedChunks toDiscard s =
     (let remove = concat (map (\<lambda>sc. map fst (sc_Chunks sc)) toDiscard);
          (series1, counts1) = discard_loop remove (st_series s) (st_tenantSeries s)
      in s\<lparr>st_series := series1, st_tenantSeries := counts1\<rparr>)"

section \<open>Reads\<close>

text \<open>What the loop \<^verbatim>\<open>it := c.Iterator(); for it.Next()\<close> sees.\<close>

definition chunk_samples :: "u64 \<Rightarrow> chunk \<Rightarrow> sample list" where
  "chunk_samples sid c = map (\<lambda>(ts, v, g). \<lparr>sm_id = sid, sm_ts = ts, sm_val = v, sm_gen = g\<rparr>) (fst (drain (Iterator c)))"

fun instant_scan :: "i64 \<Rightarrow> sample option \<Rightarrow> sample list \<Rightarrow> sample option" where
  "instant_scan tMs best [] = best"
| "instant_scan tMs best (x # xs) =
     (if tMs <s sm_ts x then instant_scan tMs best xs
      else instant_scan tMs
        (case best of
           None \<Rightarrow> Some x
         | Some b \<Rightarrow> if sm_ts b <s sm_ts x \<or> (sm_ts x = sm_ts b \<and> beats x b) then Some x else Some b) xs)"

definition QueryInstant :: "u64 \<Rightarrow> i64 \<Rightarrow> MemoryStore \<Rightarrow> sample option" where
  "QueryInstant sid tMs s =
     (case map_of (st_series s) sid of
        None \<Rightarrow> None
      | Some ms \<Rightarrow> foldl (\<lambda>best (_, c).
          if NumSamples c = 0 \<or> tMs <s c_minTs c then best else instant_scan tMs best (chunk_samples sid c))
          None (ms_chunks ms))"

text \<open>\<^const>\<open>None\<close> is the nil slice an unknown series gets.\<close>

definition QueryRange :: "u64 \<Rightarrow> i64 \<Rightarrow> i64 \<Rightarrow> MemoryStore \<Rightarrow> sample list option" where
  "QueryRange sid startMs endMs s =
     (case map_of (st_series s) sid of
        None \<Rightarrow> None
      | Some ms \<Rightarrow> Some (sortAndDedup (concat (map (\<lambda>(_, c).
          if NumSamples c = 0 \<or> endMs <s c_minTs c \<or> c_maxTs c <s startMs then []
          else filter (\<lambda>x. startMs \<le>s sm_ts x \<and> sm_ts x \<le>s endMs) (chunk_samples sid c)) (ms_chunks ms)))))"

text \<open>The scan of \<^verbatim>\<open>selectFromChunks\<close> over one chunk: the samples and the anchor so far.\<close>

fun select_scan :: "SelectParams \<Rightarrow> bool \<Rightarrow> sample list \<times> sample option \<Rightarrow> sample list \<Rightarrow> sample list \<times> sample option" where
  "select_scan p wantAnchor acc [] = acc"
| "select_scan p wantAnchor (samples, anchor) (x # xs) =
     (if sp_MinT p \<le>s sm_ts x \<and> sm_ts x \<le>s sp_MaxT p then select_scan p wantAnchor (samples @ [x], anchor) xs
      else if wantAnchor \<and> sm_ts x <s sp_MinT p then select_scan p wantAnchor (samples, laterSample anchor (Some x)) xs
      else select_scan p wantAnchor (samples, anchor) xs)"

definition selectFromChunks :: "Labels \<Rightarrow> (cptr \<times> chunk) list \<Rightarrow> SelectParams \<Rightarrow> SeriesData option" where
  "selectFromChunks l chunks p =
     (if sp_SeriesOnly p \<and> sp_AnyTime p then Some \<lparr>sd_Labels = l, sd_Anchor = None, sd_Samples = []\<rparr>
      else if sp_MaxT p <s sp_MinT p then None
      else
        let wantAnchor = (sp_Anchor p \<and> MinInt64 <s sp_MinT p);
            (samples, anchor) = foldl (\<lambda>acc (_, c).
              if NumSamples c = 0 then acc
              else if sp_MaxT p <s c_minTs c \<or> (\<not> wantAnchor \<and> c_maxTs c <s sp_MinT p) then acc
              else select_scan p wantAnchor acc (chunk_samples (Hash l) c)) ([], None) chunks
        in if sp_SeriesOnly p then (if samples \<noteq> [] then Some \<lparr>sd_Labels = l, sd_Anchor = None, sd_Samples = []\<rparr> else None)
           else if samples = [] \<and> anchor = None then None
           else Some \<lparr>sd_Labels = l, sd_Anchor = anchor, sd_Samples = sortAndDedup samples\<rparr>)"

definition StoreSelect :: "SelectParams \<Rightarrow> MemoryStore \<Rightarrow> SeriesData list option" where
  "StoreSelect p s =
     (if \<not> ValidateSelect p then None
      else Some (List.map_filter (\<lambda>sid. case map_of (st_series s) sid of
          None \<Rightarrow> None | Some ms \<Rightarrow> selectFromChunks (ms_labels ms) (ms_chunks ms) p)
        (Postings.Select (st_idx s) (selectorToIndexMatchers (sp_Selector p)))))"

text \<open>
  \<^verbatim>\<open>perSeriesSource.Select\<close>, the reference definition of a select: one series at a time through
  \<^const>\<open>SelectSeries\<close>, \<^const>\<open>QueryRange\<close> and \<^const>\<open>QueryInstant\<close>.
\<close>

definition per_series :: "SelectParams \<Rightarrow> MemoryStore \<Rightarrow> MatchedSeries \<Rightarrow> SeriesData option" where
  "per_series sp s m =
     (let l = snd m; sid = Hash l in
      if sp_SeriesOnly sp \<and> sp_AnyTime sp then Some \<lparr>sd_Labels = l, sd_Anchor = None, sd_Samples = []\<rparr>
      else if sp_MaxT sp <s sp_MinT sp then None
      else
        let samples = (case QueryRange sid (sp_MinT sp) (sp_MaxT sp) s of None \<Rightarrow> [] | Some xs \<Rightarrow> xs) in
        if sp_SeriesOnly sp then (if samples \<noteq> [] then Some \<lparr>sd_Labels = l, sd_Anchor = None, sd_Samples = []\<rparr> else None)
        else
          let anchor = (if sp_Anchor sp \<and> MinInt64 <s sp_MinT sp then QueryInstant sid (sp_MinT sp - 1) s else None) in
          if samples = [] \<and> anchor = None then None
          else Some \<lparr>sd_Labels = l, sd_Anchor = anchor, sd_Samples = samples\<rparr>)"

definition perSeriesSelect :: "SelectParams \<Rightarrow> MemoryStore \<Rightarrow> SeriesData list option" where
  "perSeriesSelect sp s =
     (if \<not> ValidateSelect sp then None
      else Some (List.map_filter (per_series sp s) (SelectSeries (sp_Selector sp) s)))"

section \<open>What the head holds\<close>

definition ms_samples :: "memorySeries \<Rightarrow> sample list" where
  "ms_samples ms = concat (map (\<lambda>pc. chunk_samples (Hash (ms_labels ms)) (snd pc)) (ms_chunks ms))"

definition holds_of :: "MemoryStore \<Rightarrow> holdings" where
  "holds_of s sid = map_option (\<lambda>ms. (ms_labels ms, ms_samples ms)) (map_of (st_series s) sid)"

section \<open>Invariant\<close>

definition chunk_ok :: "i64 \<Rightarrow> chunk \<Rightarrow> bool" where
  "chunk_ok ng c \<longleftrightarrow> (\<exists>ss. ss \<noteq> [] \<and> chunk_rep c ss \<and> (\<forall>x \<in> set ss. sgen x <s ng))"

definition series_ok :: "i64 \<Rightarrow> u64 \<Rightarrow> memorySeries \<Rightarrow> bool" where
  "series_ok ng sid ms \<longleftrightarrow> Hash (ms_labels ms) = sid \<and> labels_ok (ms_labels ms)
     \<and> length (ms_chunkSegs ms) = length (ms_chunks ms)
     \<and> (\<forall>pc \<in> set (ms_chunks ms). chunk_ok ng (snd pc))
     \<and> (\<forall>pc \<in> set (butlast (ms_chunks ms)). Sealed (snd pc))"

definition ptrs :: "(u64 \<times> memorySeries) list \<Rightarrow> cptr list" where
  "ptrs xs = concat (map (\<lambda>x. map fst (ms_chunks (snd x))) xs)"

definition act :: "string \<Rightarrow> (u64 \<times> memorySeries) list \<Rightarrow> nat" where
  "act t xs = length (filter (\<lambda>x. ms_chunks (snd x) \<noteq> [] \<and> TenantOf (ms_labels (snd x)) = t) xs)"

definition counts_ok :: "(string \<times> nat) list \<Rightarrow> (string \<Rightarrow> nat) \<Rightarrow> bool" where
  "counts_ok counts f \<longleftrightarrow> distinct (map fst counts) \<and> (\<forall>t. map_of counts t = (if f t = 0 then None else Some (f t)))"

definition series_map_of :: "(u64 \<times> memorySeries) list \<Rightarrow> series_map" where
  "series_map_of xs sid = map_option (\<lambda>ms. set (l_pairs (ms_labels ms))) (map_of xs sid)"

definition mem_inv :: "MemoryStore \<Rightarrow> bool" where
  "mem_inv s \<longleftrightarrow> distinct (map fst (st_series s))
     \<and> (\<forall>x \<in> set (st_series s). series_ok (st_nextGen s) (fst x) (snd x))
     \<and> distinct (ptrs (st_series s)) \<and> (\<forall>p \<in> set (ptrs (st_series s)). p < st_alloc s)
     \<and> counts_ok (st_tenantSeries s) (\<lambda>t. act t (st_series s))
     \<and> mp_rep (st_idx s) (series_map_of (st_series s))
     \<and> 1 \<le>s st_nextGen s"

lemma mem_invD:
  assumes "mem_inv s"
  shows "distinct (map fst (st_series s))" "\<And>sid ms. (sid, ms) \<in> set (st_series s) \<Longrightarrow> series_ok (st_nextGen s) sid ms"
    "distinct (ptrs (st_series s))" "\<forall>p \<in> set (ptrs (st_series s)). p < st_alloc s"
    "counts_ok (st_tenantSeries s) (\<lambda>t. act t (st_series s))" "mp_rep (st_idx s) (series_map_of (st_series s))"
    "1 \<le>s st_nextGen s"
  using assms unfolding mem_inv_def by auto

lemma mem_inv_new: "mem_inv NewMemoryStore"
  using mp_rep_empty by (simp add: mem_inv_def NewMemoryStore_def ptrs_def act_def counts_ok_def series_map_of_def
      word_sle_eq cong: if_cong) (simp add: series_map_of_def [abs_def])

lemma series_ok_mono: "series_ok ng sid ms \<Longrightarrow> ng \<le>s ng' \<Longrightarrow> series_ok ng' sid ms"
  unfolding series_ok_def chunk_ok_def
  by (elim conjE, intro conjI) (simp_all, meson order.strict_trans2 word_sle_eq word_sless_alt)

lemma act_append [simp]: "act t (xs @ ys) = act t xs + act t ys"
  by (simp add: act_def)

lemma act_Cons: "act t (x # xs) = (if ms_chunks (snd x) \<noteq> [] \<and> TenantOf (ms_labels (snd x)) = t then 1 else 0) + act t xs"
  by (simp add: act_def)

lemma ptrs_append [simp]: "ptrs (xs @ ys) = ptrs xs @ ptrs ys" and ptrs_Cons: "ptrs (x # xs) = map fst (ms_chunks (snd x)) @ ptrs xs"
  by (simp_all add: ptrs_def)

lemma Map_pairs: "labels_ok l \<Longrightarrow> set (labelsToIndexPairs l) = set (l_pairs l)"
  using map_of_inject_set [of "Map l" "l_pairs l"] gomap_ok_Map [of l]
  by (simp add: labelsToIndexPairs_def labels_ok_def gomap_ok_def)

lemma chunk_samples_rep: "chunk_rep c ss \<Longrightarrow>
    chunk_samples sid c = map (\<lambda>(ts, v, g). \<lparr>sm_id = sid, sm_ts = ts, sm_val = v, sm_gen = g\<rparr>) ss"
  using drain_rep [of c ss] by (auto simp: chunk_samples_def)

lemma Append_ok: "\<not> Sealed c \<Longrightarrow> gen_ok g \<Longrightarrow> \<exists>c'. Chunk.Append c ts v g = Inr c'"
  by (auto simp: Chunk.Append_def Sealed_def gen_ok_def Let_def)

lemma chunk_ok_Append:
  assumes "chunk_rep c ss" "Chunk.Append c ts v g = Inr c'" "\<forall>x \<in> set ss. sgen x <s ng" "g <s ng"
  shows "chunk_ok ng c'" "chunk_samples sid c' = chunk_samples sid c @ [\<lparr>sm_id = sid, sm_ts = ts, sm_val = v, sm_gen = g\<rparr>]"
proof -
  note r = Append_rep [OF assms(1,2)]
  show "chunk_ok ng c'" unfolding chunk_ok_def using r assms(3,4) by (intro exI [of _ "ss @ [(ts, v, g)]"]) auto
  show "chunk_samples sid c' = chunk_samples sid c @ [\<lparr>sm_id = sid, sm_ts = ts, sm_val = v, sm_gen = g\<rparr>]"
    by (simp add: chunk_samples_rep [OF r] chunk_samples_rep [OF assms(1)])
qed


section \<open>Appending\<close>

definition no_collision :: "Labels \<Rightarrow> MemoryStore \<Rightarrow> bool" where
  "no_collision l s \<longleftrightarrow> (\<forall>ms. map_of (st_series s) (Hash l) = Some ms \<longrightarrow> ms_labels ms = l)"

lemma settle_generation_ok:
  assumes "mem_inv s" "\<not> gen <s 0" "settle_generation now gen s = Inr (g, s1)"
  shows "gen_ok g" "g <s st_nextGen s1" "st_nextGen s \<le>s st_nextGen s1" "s1 = s\<lparr>st_nextGen := st_nextGen s1\<rparr>"
    "gen = 0 \<Longrightarrow> st_nextGen s \<le>s g" "gen \<noteq> 0 \<Longrightarrow> g = gen"
proof -
  have ng: "1 \<le> sint (st_nextGen s)" using mem_invD(7) [OF assms(1)] by (simp add: word_sle_eq)
  have M: "sint MaxGeneration = 2 ^ 62" by (simp add: MaxGeneration_def)
  have succ: "sint (x + 1) = sint x + 1" if "sint x \<le> 2 ^ 62" "0 \<le> sint x" for x :: i64
    using that sint_add_fits [of x 1] by simp
  show "gen_ok g" "g <s st_nextGen s1" "st_nextGen s \<le>s st_nextGen s1" "s1 = s\<lparr>st_nextGen := st_nextGen s1\<rparr>"
    "gen = 0 \<Longrightarrow> st_nextGen s \<le>s g" "gen \<noteq> 0 \<Longrightarrow> g = gen"
    using assms(2,3) ng M succ
    by (auto simp: settle_generation_def nextGenerationLocked_def Let_def smax_def gen_ok_def word_sless_alt word_sle_eq
        split: if_splits)
qed


definition series_of :: "Labels \<Rightarrow> MemoryStore \<Rightarrow> memorySeries" where
  "series_of lbls s = (case map_of (st_series s) (Hash lbls) of
     Some ms \<Rightarrow> ms | None \<Rightarrow> \<lparr>ms_labels = lbls, ms_chunks = [], ms_chunkSegs = []\<rparr>)"

lemma series_of_ok:
  assumes "mem_inv s" "labels_ok lbls" "no_collision lbls s"
  shows "series_ok (st_nextGen s) (Hash lbls) (series_of lbls s)" "ms_labels (series_of lbls s) = lbls"
  using mem_invD(2) [OF assms(1), of "Hash lbls"] assms(2,3)
  by (auto simp: series_of_def no_collision_def series_ok_def split: option.splits dest!: map_of_SomeD)

text \<open>What one append does to the series it lands in.\<close>

lemma append_series:
  assumes ok: "series_ok ng sid ms" and ng: "ng \<le>s ng'" and g: "gen_ok g" "g <s ng'"
  obtains ms' s' where
    "open_chunk seg ms s = (fst (open_chunk seg ms s), s\<lparr>st_alloc := s'\<rparr>)"
    "\<exists>k p c c1. k = length (ms_chunks (fst (open_chunk seg ms s))) - 1 \<and> ms_chunks (fst (open_chunk seg ms s)) ! k = (p, c)
       \<and> Chunk.Append c ts v g = Inr c1
       \<and> ms' = (fst (open_chunk seg ms s))\<lparr>ms_chunks := (ms_chunks (fst (open_chunk seg ms s)))[k := (p, c1)]\<rparr>"
    "series_ok ng' sid ms'" "ms_labels ms' = ms_labels ms" "ms_chunks ms' \<noteq> []"
    "ms_samples ms' = ms_samples ms @ [\<lparr>sm_id = Hash (ms_labels ms), sm_ts = ts, sm_val = v, sm_gen = g\<rparr>]"
    "s' = st_alloc s \<and> map fst (ms_chunks ms') = map fst (ms_chunks ms) \<and> ms_chunkSegs ms' = ms_chunkSegs ms
     \<or> s' = st_alloc s + 1 \<and> map fst (ms_chunks ms') = map fst (ms_chunks ms) @ [st_alloc s] \<and> ms_chunkSegs ms' = ms_chunkSegs ms @ [seg]"
    "\<forall>pc \<in> set (ms_chunks ms). Sealed (snd pc) \<longrightarrow> pc \<in> set (ms_chunks ms')"
    "\<exists>Z p c1 k. zip (ms_chunks ms') (ms_chunkSegs ms') = Z @ [((p, c1), k)]
       \<and> (zip (ms_chunks ms) (ms_chunkSegs ms) = Z \<and> k = seg \<and> chunk_samples (Hash (ms_labels ms)) c1 = [\<lparr>sm_id = Hash (ms_labels ms), sm_ts = ts, sm_val = v, sm_gen = g\<rparr>]
         \<or> (\<exists>c0. zip (ms_chunks ms) (ms_chunkSegs ms) = Z @ [((p, c0), k)] \<and> chunk_samples (Hash (ms_labels ms)) c1 = chunk_samples (Hash (ms_labels ms)) c0 @ [\<lparr>sm_id = Hash (ms_labels ms), sm_ts = ts, sm_val = v, sm_gen = g\<rparr>]))"
proof (cases "ms_chunks ms = [] \<or> Sealed (snd (ms_chunks ms ! (length (ms_chunks ms) - 1)))")
  case True
  obtain c1 where c1: "Chunk.Append NewChunk ts v g = Inr c1"
    using Append_ok [of NewChunk g] g(1) by (auto simp: NewChunk_def Sealed_def)
  let ?ms = "ms\<lparr>ms_chunks := ms_chunks ms @ [(st_alloc s, c1)], ms_chunkSegs := ms_chunkSegs ms @ [seg]\<rparr>"
  note A = chunk_ok_Append [OF chunk_rep_new c1, of ng', OF _ g(2)]
  have sealed: "\<forall>pc \<in> set (ms_chunks ms). Sealed (snd pc)"
    using ok True unfolding series_ok_def
    by (cases "ms_chunks ms" rule: rev_cases) (auto simp: nth_append)
  have "series_ok ng' sid ?ms"
    using series_ok_mono [OF ok ng] A(1) sealed by (auto simp: series_ok_def)
  moreover have "chunk_samples (Hash (ms_labels ms)) NewChunk = []" by (simp add: chunk_samples_rep [OF chunk_rep_new])
  moreover have "zip (ms_chunks ?ms) (ms_chunkSegs ?ms) = zip (ms_chunks ms) (ms_chunkSegs ms) @ [((st_alloc s, c1), seg)]"
    using ok by (simp add: series_ok_def)
  ultimately show ?thesis using True c1 A(2)
    by (intro that [of "st_alloc s + 1" ?ms]) (auto simp: open_chunk_def nth_append ms_samples_def simp del: zip_append)
next
  case False
  then obtain cs p c where cs: "ms_chunks ms = cs @ [(p, c)]" "\<not> Sealed c"
    by (cases "ms_chunks ms" rule: rev_cases) (auto simp: nth_append)
  obtain c1 where c1: "Chunk.Append c ts v g = Inr c1" using Append_ok [OF cs(2) g(1)] by blast
  let ?ms = "ms\<lparr>ms_chunks := cs @ [(p, c1)]\<rparr>"
  obtain ss where ss: "chunk_rep c ss" "\<forall>x \<in> set ss. sgen x <s ng'"
    using series_ok_mono [OF ok ng] cs(1) by (auto simp: series_ok_def chunk_ok_def)
  note A = chunk_ok_Append [OF ss(1) c1 ss(2) g(2)]
  have "series_ok ng' sid ?ms" using series_ok_mono [OF ok ng] A(1) cs(1) by (auto simp: series_ok_def)
  moreover obtain ks k where ks: "ms_chunkSegs ms = ks @ [k]" "length ks = length cs"
    using ok cs(1) by (cases "ms_chunkSegs ms" rule: rev_cases) (auto simp: series_ok_def)
  moreover have "zip (ms_chunks ms) (ms_chunkSegs ms) = zip cs ks @ [((p, c), k)]"
    "zip (ms_chunks ?ms) (ms_chunkSegs ?ms) = zip cs ks @ [((p, c1), k)]"
    using cs(1) ks by simp_all
  ultimately show ?thesis using False c1 A(2) cs
    by (intro that [of "st_alloc s" ?ms]) (auto simp: open_chunk_def nth_append ms_samples_def list_update_append)
qed


lemma append_shape:
  assumes inv: "mem_inv s" and l: "labels_ok lbls" "no_collision lbls s" and gen: "\<not> gen <s 0"
    and settle: "settle_generation now gen s = Inr (g, s1)"
  obtains ms' a' where
    "appendInternal now lbls ts v seg gen s = (None,
       s\<lparr>st_series := AList.update (Hash lbls) ms' (st_series s),
         st_tenantSeries := (if ms_chunks (series_of lbls s) = []
           then AList.update (TenantOf lbls) (tenant_count s (TenantOf lbls) + 1) (st_tenantSeries s) else st_tenantSeries s),
         st_idx := (if map_of (st_series s) (Hash lbls) = None
           then Add (st_idx s) (Hash lbls) (labelsToIndexPairs lbls) else st_idx s),
         st_nextGen := st_nextGen s1, st_alloc := a'\<rparr>)"
    "series_ok (st_nextGen s1) (Hash lbls) ms'" "ms_labels ms' = lbls" "ms_chunks ms' \<noteq> []"
    "ms_samples ms' = ms_samples (series_of lbls s) @ [\<lparr>sm_id = Hash lbls, sm_ts = ts, sm_val = v, sm_gen = g\<rparr>]"
    "a' = st_alloc s \<and> map fst (ms_chunks ms') = map fst (ms_chunks (series_of lbls s)) \<and> ms_chunkSegs ms' = ms_chunkSegs (series_of lbls s)
     \<or> a' = st_alloc s + 1 \<and> map fst (ms_chunks ms') = map fst (ms_chunks (series_of lbls s)) @ [st_alloc s]
       \<and> ms_chunkSegs ms' = ms_chunkSegs (series_of lbls s) @ [seg]"
    "\<forall>pc \<in> set (ms_chunks (series_of lbls s)). Sealed (snd pc) \<longrightarrow> pc \<in> set (ms_chunks ms')"
    "\<exists>Z p c1 k. zip (ms_chunks ms') (ms_chunkSegs ms') = Z @ [((p, c1), k)]
       \<and> (zip (ms_chunks (series_of lbls s)) (ms_chunkSegs (series_of lbls s)) = Z \<and> k = seg \<and> chunk_samples (Hash lbls) c1 = [\<lparr>sm_id = Hash lbls, sm_ts = ts, sm_val = v, sm_gen = g\<rparr>]
         \<or> (\<exists>c0. zip (ms_chunks (series_of lbls s)) (ms_chunkSegs (series_of lbls s)) = Z @ [((p, c0), k)] \<and> chunk_samples (Hash lbls) c1 = chunk_samples (Hash lbls) c0 @ [\<lparr>sm_id = Hash lbls, sm_ts = ts, sm_val = v, sm_gen = g\<rparr>]))"
proof -
  note G = settle_generation_ok [OF inv gen settle] and S = series_of_ok [OF inv l]
  define ms where "ms = series_of lbls s"
  define s3 where "s3 = count_active lbls ms (snd (get_or_create lbls s1))"
  have s1: "st_series s1 = st_series s" "st_alloc s1 = st_alloc s" "st_idx s1 = st_idx s" "st_tenantSeries s1 = st_tenantSeries s"
    using arg_cong [OF G(4), of st_series] arg_cong [OF G(4), of st_alloc] arg_cong [OF G(4), of st_idx]
      arg_cong [OF G(4), of st_tenantSeries] by simp_all
  have ms: "fst (get_or_create lbls s1) = ms"
    by (simp add: get_or_create_def ms_def series_of_def s1 Let_def split: option.splits)
  obtain ms' a' where A: "open_chunk seg ms s3 = (fst (open_chunk seg ms s3), s3\<lparr>st_alloc := a'\<rparr>)"
    "\<exists>k p c c1. k = length (ms_chunks (fst (open_chunk seg ms s3))) - 1 \<and> ms_chunks (fst (open_chunk seg ms s3)) ! k = (p, c)
       \<and> Chunk.Append c ts v g = Inr c1
       \<and> ms' = (fst (open_chunk seg ms s3))\<lparr>ms_chunks := (ms_chunks (fst (open_chunk seg ms s3)))[k := (p, c1)]\<rparr>"
    "series_ok (st_nextGen s1) (Hash lbls) ms'" "ms_labels ms' = ms_labels ms" "ms_chunks ms' \<noteq> []"
    "ms_samples ms' = ms_samples ms @ [\<lparr>sm_id = Hash (ms_labels ms), sm_ts = ts, sm_val = v, sm_gen = g\<rparr>]"
    "a' = st_alloc s3 \<and> map fst (ms_chunks ms') = map fst (ms_chunks ms) \<and> ms_chunkSegs ms' = ms_chunkSegs ms
     \<or> a' = st_alloc s3 + 1 \<and> map fst (ms_chunks ms') = map fst (ms_chunks ms) @ [st_alloc s3] \<and> ms_chunkSegs ms' = ms_chunkSegs ms @ [seg]"
    "\<forall>pc \<in> set (ms_chunks ms). Sealed (snd pc) \<longrightarrow> pc \<in> set (ms_chunks ms')"
    "\<exists>Z p c1 k. zip (ms_chunks ms') (ms_chunkSegs ms') = Z @ [((p, c1), k)]
       \<and> (zip (ms_chunks ms) (ms_chunkSegs ms) = Z \<and> k = seg \<and> chunk_samples (Hash (ms_labels ms)) c1 = [\<lparr>sm_id = Hash (ms_labels ms), sm_ts = ts, sm_val = v, sm_gen = g\<rparr>]
         \<or> (\<exists>c0. zip (ms_chunks ms) (ms_chunkSegs ms) = Z @ [((p, c0), k)] \<and> chunk_samples (Hash (ms_labels ms)) c1 = chunk_samples (Hash (ms_labels ms)) c0 @ [\<lparr>sm_id = Hash (ms_labels ms), sm_ts = ts, sm_val = v, sm_gen = g\<rparr>]))"
    by (rule append_series [OF S(1) G(3,1,2), where seg = seg and s = s3 and ts = ts and v = v, folded ms_def])
      (rule that, assumption+)
  have s3: "set_series (Hash lbls) ms' (s3\<lparr>st_alloc := a'\<rparr>) =
      s\<lparr>st_series := AList.update (Hash lbls) ms' (st_series s),
         st_tenantSeries := (if ms_chunks ms = []
           then AList.update (TenantOf lbls) (tenant_count s (TenantOf lbls) + 1) (st_tenantSeries s) else st_tenantSeries s),
         st_idx := (if map_of (st_series s) (Hash lbls) = None
           then Add (st_idx s) (Hash lbls) (labelsToIndexPairs lbls) else st_idx s),
         st_nextGen := st_nextGen s1, st_alloc := a'\<rparr>" and a3: "st_alloc s3 = st_alloc s"
    by (auto simp: s3_def set_series_def count_active_def get_or_create_def s1 tenant_count_def Let_def split: option.splits)
  have "appendInternal now lbls ts v seg gen s = (None, set_series (Hash lbls) ms' (s3\<lparr>st_alloc := a'\<rparr>))"
  proof -
    define ms1 where "ms1 = fst (open_chunk seg ms s3)"
    have o: "open_chunk seg ms s3 = (ms1, s3\<lparr>st_alloc := a'\<rparr>)" using A(1) unfolding ms1_def .
    have gc: "get_or_create lbls s1 = (ms, snd (get_or_create lbls s1))" using ms by (simp add: prod_eq_iff)
    obtain p c c1 where c: "ms_chunks ms1 ! (length (ms_chunks ms1) - 1) = (p, c)" "Chunk.Append c ts v g = Inr c1"
      "ms' = ms1\<lparr>ms_chunks := (ms_chunks ms1)[length (ms_chunks ms1) - 1 := (p, c1)]\<rparr>"
      using A(2) unfolding ms1_def [symmetric] by blast
    show ?thesis unfolding appendInternal_def settle sum.case prod.case
      by (subst gc) (simp only: prod.case Let_def o c sum.case flip: s3_def)
  qed
  then show thesis using A(3-9) S(2) unfolding s3 a3 ms_def by (intro that) simp_all
qed


lemma append_effect:
  assumes "mem_inv s" "labels_ok lbls" "no_collision lbls s" "\<not> gen <s 0" "settle_generation now gen s = Inr (g, s1)"
  obtains ms' a' where
    "fst (appendInternal now lbls ts v seg gen s) = None"
    "st_series (snd (appendInternal now lbls ts v seg gen s)) = AList.update (Hash lbls) ms' (st_series s)"
    "st_alloc (snd (appendInternal now lbls ts v seg gen s)) = a'"
    "st_nextGen (snd (appendInternal now lbls ts v seg gen s)) = st_nextGen s1"
    "ms_labels ms' = lbls" "ms_chunks ms' \<noteq> []"
    "ms_samples ms' = ms_samples (series_of lbls s) @ [\<lparr>sm_id = Hash lbls, sm_ts = ts, sm_val = v, sm_gen = g\<rparr>]"
    "a' = st_alloc s \<and> map fst (ms_chunks ms') = map fst (ms_chunks (series_of lbls s)) \<and> ms_chunkSegs ms' = ms_chunkSegs (series_of lbls s)
     \<or> a' = st_alloc s + 1 \<and> map fst (ms_chunks ms') = map fst (ms_chunks (series_of lbls s)) @ [st_alloc s]
       \<and> ms_chunkSegs ms' = ms_chunkSegs (series_of lbls s) @ [seg]"
    "\<forall>pc \<in> set (ms_chunks (series_of lbls s)). Sealed (snd pc) \<longrightarrow> pc \<in> set (ms_chunks ms')"
    "\<exists>Z p c1 k. zip (ms_chunks ms') (ms_chunkSegs ms') = Z @ [((p, c1), k)]
       \<and> (zip (ms_chunks (series_of lbls s)) (ms_chunkSegs (series_of lbls s)) = Z \<and> k = seg \<and> chunk_samples (Hash lbls) c1 = [\<lparr>sm_id = Hash lbls, sm_ts = ts, sm_val = v, sm_gen = g\<rparr>]
         \<or> (\<exists>c0. zip (ms_chunks (series_of lbls s)) (ms_chunkSegs (series_of lbls s)) = Z @ [((p, c0), k)] \<and> chunk_samples (Hash lbls) c1 = chunk_samples (Hash lbls) c0 @ [\<lparr>sm_id = Hash lbls, sm_ts = ts, sm_val = v, sm_gen = g\<rparr>]))"
  by (rule append_shape [OF assms, where ts = ts and v = v and seg = seg], rule that) (assumption | simp)+

lemma counts_ok_add:
  assumes "counts_ok counts f" "\<And>t'. f' t' = f t' + (if t' = t then 1 else 0)"
  shows "counts_ok (AList.update t ((case map_of counts t of None \<Rightarrow> 0 | Some n \<Rightarrow> n) + 1) counts) f'"
proof -
  have "(case map_of counts t of None \<Rightarrow> 0 | Some n \<Rightarrow> n) = f t" using assms(1) by (simp add: counts_ok_def)
  then show ?thesis using assms by (simp add: counts_ok_def distinct_update update_conv')
qed

lemma counts_ok_uncount:
  assumes "counts_ok counts f" "\<And>t'. f t' = f' t' + (if t' = TenantOf l then 1 else 0)"
  shows "counts_ok (uncountLocked l counts) f'"
proof -
  have "(case map_of counts (TenantOf l) of None \<Rightarrow> 0 | Some n \<Rightarrow> n) = f' (TenantOf l) + 1"
    using assms by (simp add: counts_ok_def)
  then show ?thesis using assms
    by (auto simp: uncountLocked_def counts_ok_def distinct_update distinct_delete update_conv' delete_conv' Let_def)
qed

lemma series_map_of_update:
  "series_map_of (AList.update sid ms xs) = (series_map_of xs)(sid \<mapsto> set (l_pairs (ms_labels ms)))"
  by (auto simp: series_map_of_def update_conv' fun_eq_iff)

text \<open>The series list around the series an append lands in.\<close>

lemma series_parts:
  assumes inv: "mem_inv s" and l: "labels_ok lbls" "no_collision lbls s"
  obtains ys zs where "\<And>ms'. AList.update (Hash lbls) ms' (st_series s) = ys @ (Hash lbls, ms') # zs"
    "ptrs (st_series s) = ptrs ys @ map fst (ms_chunks (series_of lbls s)) @ ptrs zs"
    "\<And>t. act t (st_series s) = act t ys + (if ms_chunks (series_of lbls s) \<noteq> [] \<and> TenantOf lbls = t then 1 else 0) + act t zs"
    "set ys \<union> set zs \<subseteq> set (st_series s)"
proof (cases "map_of (st_series s) (Hash lbls)")
  case None
  then show ?thesis
    by (intro that [of "st_series s" "[]"]) (simp_all add: alist_update_new series_of_def ptrs_def act_def)
next
  case (Some ms)
  obtain ys zs where X: "st_series s = ys @ (Hash lbls, ms) # zs"
    "\<And>v'. AList.update (Hash lbls) v' (st_series s) = ys @ (Hash lbls, v') # zs"
    using alist_split [OF mem_invD(1) [OF inv] Some] by metis
  have "series_of lbls s = ms" "ms_labels ms = lbls" using Some l(2) by (simp_all add: series_of_def no_collision_def)
  then show ?thesis by (intro that [of ys zs] X(2)) (auto simp: X(1) ptrs_Cons act_Cons)
qed

lemma mem_inv_append:
  assumes inv: "mem_inv s" and l: "labels_ok lbls" "no_collision lbls s" and gen: "\<not> gen <s 0"
  shows "mem_inv (snd (appendInternal now lbls ts v seg gen s))"
proof (cases "settle_generation now gen s")
  case (Inl e)
  then show ?thesis using inv by (simp add: appendInternal_def)
next
  case (Inr gs)
  obtain g s1 where gs: "gs = (g, s1)" by (cases gs)
  note settle = Inr [unfolded gs]
  note G = settle_generation_ok [OF inv gen settle] and I = mem_invD [OF inv]
  define ms where "ms = series_of lbls s"
  obtain ms' a' where A: "snd (appendInternal now lbls ts v seg gen s) =
       s\<lparr>st_series := AList.update (Hash lbls) ms' (st_series s),
         st_tenantSeries := (if ms_chunks ms = []
           then AList.update (TenantOf lbls) (tenant_count s (TenantOf lbls) + 1) (st_tenantSeries s) else st_tenantSeries s),
         st_idx := (if map_of (st_series s) (Hash lbls) = None
           then Add (st_idx s) (Hash lbls) (labelsToIndexPairs lbls) else st_idx s),
         st_nextGen := st_nextGen s1, st_alloc := a'\<rparr>"
    "series_ok (st_nextGen s1) (Hash lbls) ms'" "ms_labels ms' = lbls" "ms_chunks ms' \<noteq> []"
    "a' = st_alloc s \<and> map fst (ms_chunks ms') = map fst (ms_chunks ms)
     \<or> a' = st_alloc s + 1 \<and> map fst (ms_chunks ms') = map fst (ms_chunks ms) @ [st_alloc s]"
    using append_shape [OF inv l gen settle] unfolding ms_def by (metis snd_conv)
  obtain ys zs where X: "AList.update (Hash lbls) ms' (st_series s) = ys @ (Hash lbls, ms') # zs"
    "ptrs (st_series s) = ptrs ys @ map fst (ms_chunks ms) @ ptrs zs"
    "\<And>t. act t (st_series s) = act t ys + (if ms_chunks ms \<noteq> [] \<and> TenantOf lbls = t then 1 else 0) + act t zs"
    "set ys \<union> set zs \<subseteq> set (st_series s)"
    using series_parts [OF inv l] unfolding ms_def by metis
  let ?xs' = "ys @ (Hash lbls, ms') # zs"
  have "distinct (map fst ?xs')" using distinct_update [OF I(1), of "Hash lbls" ms'] unfolding X(1) .
  moreover have "\<forall>x \<in> set ?xs'. series_ok (st_nextGen s1) (fst x) (snd x)"
    using X(4) A(2) I(2) series_ok_mono [OF _ G(3)] by auto
  moreover have "distinct (ptrs ?xs')" "\<forall>p \<in> set (ptrs ?xs'). p < a'"
    using I(3,4) A(5) unfolding X(2) by (auto simp: ptrs_Cons simp del: set_map intro: less_SucI)
  moreover have "counts_ok (if ms_chunks ms = []
       then AList.update (TenantOf lbls) (tenant_count s (TenantOf lbls) + 1) (st_tenantSeries s) else st_tenantSeries s)
       (\<lambda>t. act t ?xs')"
  proof (cases "ms_chunks ms = []")
    case True
    have "counts_ok (AList.update (TenantOf lbls) (tenant_count s (TenantOf lbls) + 1) (st_tenantSeries s)) (\<lambda>t. act t ?xs')"
      unfolding tenant_count_def by (rule counts_ok_add [OF I(5)]) (simp add: X(3) True A(3,4) act_Cons)
    then show ?thesis using True by simp
  next
    case False
    then have "(\<lambda>t. act t ?xs') = (\<lambda>t. act t (st_series s))" by (simp add: X(3) A(3,4) act_Cons fun_eq_iff)
    then show ?thesis using False I(5) by simp
  qed
  moreover have "mp_rep (if map_of (st_series s) (Hash lbls) = None
       then Add (st_idx s) (Hash lbls) (labelsToIndexPairs lbls) else st_idx s) (series_map_of ?xs')"
  proof -
    have m: "series_map_of ?xs' = (series_map_of (st_series s))(Hash lbls \<mapsto> set (l_pairs lbls))"
      unfolding X(1) [symmetric] series_map_of_update A(3) ..
    show ?thesis
    proof (cases "map_of (st_series s) (Hash lbls)")
      case None
      then have "Hash lbls \<notin> dom (series_map_of (st_series s))" by (simp add: series_map_of_def domIff)
      then show ?thesis using None mp_rep_Add [OF I(6), of "Hash lbls" "labelsToIndexPairs lbls"] Map_pairs [OF l(1)]
        by (simp add: m)
    next
      case (Some m0)
      then have "series_map_of (st_series s) (Hash lbls) = Some (set (l_pairs lbls))"
        using l(2) by (simp add: no_collision_def series_map_of_def)
      then show ?thesis using Some I(6) by (simp add: m fun_upd_idem)
    qed
  qed
  moreover have "1 \<le>s st_nextGen s1" using I(7) G(3) by (simp add: word_sle_eq)
  ultimately show ?thesis unfolding A(1) X(1) mem_inv_def by simp
qed


section \<open>The other operations\<close>

lemma map_of_map_snd: "map_of (map (\<lambda>(k, v). (k, f v)) xs) k = map_option f (map_of xs k)"
  by (induction xs) auto

lemma fst_comp_map_snd [simp]: "fst \<circ> (\<lambda>(k, v). (k, f v)) = fst"
  by (auto simp: fun_eq_iff)

lemma mem_inv_map:
  assumes inv: "mem_inv s"
    and f: "\<And>sid ms. (sid, ms) \<in> set (st_series s) \<Longrightarrow> ms_labels (f ms) = ms_labels ms
      \<and> map fst (ms_chunks (f ms)) = map fst (ms_chunks ms) \<and> series_ok (st_nextGen s) sid (f ms)"
  shows "mem_inv (s\<lparr>st_series := map (\<lambda>(sid, ms). (sid, f ms)) (st_series s)\<rparr>)"
proof -
  let ?xs = "st_series s" and ?f = "\<lambda>(sid, ms). (sid, f ms)"
  note I = mem_invD [OF inv]
  have e: "ms_chunks (f ms) = [] \<longleftrightarrow> ms_chunks ms = []" if "(sid, ms) \<in> set ?xs" for sid ms
    using f [OF that] by (metis map_is_Nil_conv)
  have "map (\<lambda>x. map fst (ms_chunks (snd x))) (map ?f ?xs) = map (\<lambda>x. map fst (ms_chunks (snd x))) ?xs"
    using f by auto
  then have p: "ptrs (map ?f ?xs) = ptrs ?xs" unfolding ptrs_def by (rule arg_cong)
  have a: "act t (map ?f ?xs) = act t ?xs" for t
    using f e unfolding act_def filter_map length_map by (intro arg_cong [of _ _ length] filter_cong) auto
  have m: "series_map_of (map ?f ?xs) = series_map_of ?xs"
  proof
    fix sid
    show "series_map_of (map ?f ?xs) sid = series_map_of ?xs sid"
      using f [of sid] by (cases "map_of ?xs sid") (auto simp: series_map_of_def map_of_map_snd dest!: map_of_SomeD)
  qed
  show ?thesis using I f unfolding mem_inv_def by (auto simp: p a m)
qed

lemma chunk_ok_Seal: "chunk_ok ng c \<Longrightarrow> chunk_ok ng (Seal c)"
  by (auto simp: chunk_ok_def dest: chunk_rep_seal)

lemma chunk_samples_Seal: "chunk_ok ng c \<Longrightarrow> chunk_samples sid (Seal c) = chunk_samples sid c"
  unfolding chunk_ok_def using chunk_samples_rep chunk_rep_seal by metis

lemma seal_last_ok:
  assumes "series_ok ng sid ms"
  shows "series_ok ng sid (snd (seal_last ms))" "ms_labels (snd (seal_last ms)) = ms_labels ms"
    "map fst (ms_chunks (snd (seal_last ms))) = map fst (ms_chunks ms)" "ms_samples (snd (seal_last ms)) = ms_samples ms"
    "\<forall>pc \<in> set (ms_chunks (snd (seal_last ms))). Sealed (snd pc)"
    "ms_chunkSegs (snd (seal_last ms)) = ms_chunkSegs ms"
proof -
  have "series_ok ng sid (snd (seal_last ms)) \<and> ms_labels (snd (seal_last ms)) = ms_labels ms
    \<and> map fst (ms_chunks (snd (seal_last ms))) = map fst (ms_chunks ms) \<and> ms_samples (snd (seal_last ms)) = ms_samples ms
    \<and> (\<forall>pc \<in> set (ms_chunks (snd (seal_last ms))). Sealed (snd pc)) \<and> ms_chunkSegs (snd (seal_last ms)) = ms_chunkSegs ms"
  proof (cases "ms_chunks ms" rule: rev_cases)
    case Nil
    then show ?thesis using assms by (simp add: seal_last_def)
  next
    case (snoc cs pc)
    obtain p c where pc: "pc = (p, c)" by (cases pc)
    have ok: "chunk_ok ng c" using assms by (simp add: series_ok_def snoc pc)
    then have "0 < NumSamples c" by (auto simp: chunk_ok_def NumSamples_def numSamples_rep)
    moreover have "Sealed (Seal c)" by (simp add: Seal_def Sealed_def)
    ultimately show ?thesis using assms ok
      by (auto simp: seal_last_def snoc pc nth_append list_update_append series_ok_def chunk_ok_Seal ms_samples_def
          chunk_samples_Seal Let_def)
  qed
  then show "series_ok ng sid (snd (seal_last ms))" "ms_labels (snd (seal_last ms)) = ms_labels ms"
    "map fst (ms_chunks (snd (seal_last ms))) = map fst (ms_chunks ms)" "ms_samples (snd (seal_last ms)) = ms_samples ms"
    "\<forall>pc \<in> set (ms_chunks (snd (seal_last ms))). Sealed (snd pc)"
    "ms_chunkSegs (snd (seal_last ms)) = ms_chunkSegs ms" by blast+
qed

lemma mem_inv_seal: "mem_inv s \<Longrightarrow> mem_inv (snd (SealHeadChunks s))"
  unfolding SealHeadChunks_def snd_conv
  by (intro mem_inv_map) (auto simp: seal_last_ok dest: mem_invD(2))

lemma mem_inv_fence: "mem_inv s \<Longrightarrow> mem_inv (SetHeadFence seg s)"
  unfolding SetHeadFence_def
  by (intro mem_inv_map) (simp, drule (1) mem_invD(2), simp add: series_ok_def)

lemma mem_inv_nextGen:
  "mem_inv s \<Longrightarrow> st_nextGen s \<le>s g \<Longrightarrow> mem_inv (s\<lparr>st_nextGen := g\<rparr>)"
  unfolding mem_inv_def by (auto intro: series_ok_mono simp: word_sle_eq)

lemma mem_inv_floor: "mem_inv s \<Longrightarrow> mem_inv (EnsureGenFloor f s)"
  by (auto simp: EnsureGenFloor_def intro!: mem_inv_nextGen simp: word_sle_eq word_sless_alt)

lemma mem_inv_reserve:
  assumes "mem_inv s" "ReserveGeneration now s = Inr (g, s')"
  shows "mem_inv s'"
proof -
  have "settle_generation now 0 s = Inr (g, s')" using assms(2) by (simp add: settle_generation_def ReserveGeneration_def)
  from settle_generation_ok [OF assms(1) _ this] show ?thesis
    using mem_inv_nextGen [OF assms(1), of "st_nextGen s'"] by simp
qed

lemma mem_inv_remove:
  assumes inv: "mem_inv s"
  shows "mem_inv (snd (RemoveEmptySeries sid s))"
proof (cases "\<exists>ms. map_of (st_series s) sid = Some ms \<and> ms_chunks ms = []")
  case False
  then show ?thesis using inv by (auto simp: RemoveEmptySeries_def split: option.splits)
next
  case True
  then obtain ms where ms: "map_of (st_series s) sid = Some ms" "ms_chunks ms = []" by blast
  note I = mem_invD [OF inv]
  obtain ys zs where X: "st_series s = ys @ (sid, ms) # zs" "AList.delete sid (st_series s) = ys @ zs"
    using alist_split [OF I(1) ms(1)] by metis
  have "labels_ok (ms_labels ms)" using I(2) [of sid ms] X(1) by (simp add: series_ok_def)
  then have "mp_rep (Delete (st_idx s) sid (labelsToIndexPairs (ms_labels ms))) ((series_map_of (st_series s))(sid := None))"
    using ms(1) by (intro mp_rep_Delete I(6)) (simp add: series_map_of_def Map_pairs)
  moreover have "(series_map_of (st_series s))(sid := None) = series_map_of (AList.delete sid (st_series s))"
    by (auto simp: series_map_of_def delete_conv' fun_eq_iff)
  ultimately have "mp_rep (Delete (st_idx s) sid (labelsToIndexPairs (ms_labels ms))) (series_map_of (ys @ zs))"
    using X(2) by simp
  moreover have "act t (st_series s) = act t (ys @ zs)" for t using ms(2) by (simp add: X(1) act_Cons)
  moreover have "ptrs (st_series s) = ptrs (ys @ zs)" using ms(2) by (simp add: X(1) ptrs_Cons)
  moreover have "snd (RemoveEmptySeries sid s) =
      s\<lparr>st_series := ys @ zs, st_idx := Delete (st_idx s) sid (labelsToIndexPairs (ms_labels ms))\<rparr>"
    by (simp add: RemoveEmptySeries_def ms X(2))
  moreover have "distinct (map fst (ys @ zs))" "\<forall>x \<in> set (ys @ zs). series_ok (st_nextGen s) (fst x) (snd x)"
    using I(1,2) by (auto simp: X(1))
  ultimately show ?thesis using I(3,4,5,7) by (simp add: mem_inv_def)
qed


lemma discard_series_simps:
  "ms_labels (snd (discard_series r ms)) = ms_labels ms"
  "length (ms_chunkSegs ms) = length (ms_chunks ms) \<Longrightarrow>
    ms_chunks (snd (discard_series r ms)) = filter (\<lambda>pc. fst pc \<notin> set r) (ms_chunks ms)"
  "length (ms_chunkSegs ms) = length (ms_chunks ms) \<Longrightarrow>
    length (ms_chunkSegs (snd (discard_series r ms))) = length (ms_chunks (snd (discard_series r ms)))"
  "fst (discard_series r ms) \<longleftrightarrow> ms_chunks ms \<noteq> [] \<and> ms_chunks (snd (discard_series r ms)) = []"
proof -
  have z: "map fst (filter (\<lambda>((p, c), seg). p \<notin> set r) (zip xs ys)) = filter (\<lambda>pc. fst pc \<notin> set r) xs"
    if "length ys = length xs" for xs :: "(cptr \<times> chunk) list" and ys :: "int list"
    using that by (induction xs ys rule: list_induct2') auto
  show "length (ms_chunkSegs ms) = length (ms_chunks ms) \<Longrightarrow>
    ms_chunks (snd (discard_series r ms)) = filter (\<lambda>pc. fst pc \<notin> set r) (ms_chunks ms)"
    by (simp add: discard_series_def Let_def z)
qed (auto simp: discard_series_def Let_def)

lemma discard_loop_series:
  "fst (discard_loop r xs counts) = map (\<lambda>(sid, ms). (sid, snd (discard_series r ms))) xs"
  by (induction r xs counts rule: discard_loop.induct) (auto simp: Let_def split: prod.splits)

lemma discard_loop_counts:
  assumes "counts_ok counts (\<lambda>t. act t xs + b t)"
  shows "counts_ok (snd (discard_loop r xs counts)) (\<lambda>t. act t (fst (discard_loop r xs counts)) + b t)"
  using assms
proof (induction xs arbitrary: counts b)
  case (Cons x xs)
  obtain sid ms where x: "x = (sid, ms)" by (cases x)
  let ?ms = "snd (discard_series r ms)"
  let ?c = "if fst (discard_series r ms) then uncountLocked (ms_labels ms) counts else counts"
  let ?h = "\<lambda>t. if ms_chunks ?ms \<noteq> [] \<and> TenantOf (ms_labels ms) = t then 1 else 0 :: nat"
  have k: "ms_chunks ms \<noteq> []" if "ms_chunks ?ms \<noteq> []"
    using that by (auto simp: discard_series_def Let_def)
  have "counts_ok ?c (\<lambda>t. act t xs + (?h t + b t))"
  proof (cases "fst (discard_series r ms)")
    case True
    then have e: "ms_chunks ms \<noteq> []" "ms_chunks ?ms = []" using discard_series_simps(4) [of r ms] by auto
    have "counts_ok (uncountLocked (ms_labels ms) counts) (\<lambda>t. act t xs + (?h t + b t))"
      using Cons.prems by (rule counts_ok_uncount) (simp add: x act_Cons e)
    then show ?thesis using True by simp
  next
    case False
    then have "ms_chunks ms \<noteq> [] \<longleftrightarrow> ms_chunks ?ms \<noteq> []" using k discard_series_simps(4) [of r ms] by blast
    then show ?thesis using False Cons.prems by (simp add: x act_Cons add.assoc add.left_commute cong: if_cong conj_cong)
  qed
  from Cons.IH [OF this] show ?case
    by (simp add: x Let_def case_prod_beta act_Cons discard_series_simps(1) add.assoc add.left_commute)
qed simp

lemma butlast_filter: "x \<in> set (butlast (filter P xs)) \<Longrightarrow> x \<in> set (butlast xs)"
  by (induction xs) (auto split: if_splits dest: in_set_butlastD)

lemma mem_inv_discard:
  assumes inv: "mem_inv s"
  shows "mem_inv (DiscardSealedChunks d s)"
proof -
  let ?r = "concat (map (\<lambda>sc. map fst (sc_Chunks sc)) d)" and ?xs = "st_series s"
  let ?f = "\<lambda>ms. snd (discard_series ?r ms)"
  let ?xs' = "map (\<lambda>(sid, ms). (sid, ?f ms)) ?xs"
  note I = mem_invD [OF inv]
  have D: "DiscardSealedChunks d s = s\<lparr>st_series := ?xs', st_tenantSeries := snd (discard_loop ?r ?xs (st_tenantSeries s))\<rparr>"
    unfolding DiscardSealedChunks_def Let_def case_prod_beta discard_loop_series ..
  have ok: "series_ok (st_nextGen s) sid (?f ms)" if "(sid, ms) \<in> set ?xs" for sid ms
    using I(2) [OF that] discard_series_simps [where r = ?r and ms = ms]
    by (auto simp: series_ok_def dest: butlast_filter)
  have c: "ms_chunks (?f ms) = filter (\<lambda>pc. fst pc \<notin> set ?r) (ms_chunks ms)" if "(sid, ms) \<in> set ?xs" for sid ms
    using I(2) [OF that] by (intro discard_series_simps(2)) (simp add: series_ok_def)
  have "map (\<lambda>x. map fst (ms_chunks (snd x))) ?xs' = map (\<lambda>x. filter (\<lambda>p. p \<notin> set ?r) (map fst (ms_chunks (snd x)))) ?xs"
    using c by (auto simp: filter_map comp_def)
  then have "ptrs ?xs' = filter (\<lambda>p. p \<notin> set ?r) (ptrs ?xs)" unfolding ptrs_def filter_concat map_map comp_def by (rule arg_cong)
  then have p: "distinct (ptrs ?xs')" "\<forall>p \<in> set (ptrs ?xs'). p < st_alloc s" using I(3,4) by simp_all
  have m: "series_map_of ?xs' = series_map_of ?xs"
    by (auto simp: series_map_of_def fun_eq_iff map_of_map_snd option.map_comp comp_def discard_series_simps(1))
  have "counts_ok (snd (discard_loop ?r ?xs (st_tenantSeries s))) (\<lambda>t. act t ?xs')"
    using discard_loop_counts [of "st_tenantSeries s" ?xs "\<lambda>_. 0" ?r] I(5) by (simp add: discard_loop_series)
  then show ?thesis using I(1,6,7) p ok unfolding D mem_inv_def by (auto simp: m)
qed

section \<open>Reachable heads\<close>

text \<open>
  Every operation of the head as a step. Labels reach the head through \<^const>\<open>New\<close> or
  \<^const>\<open>NewStored\<close>, so they are well formed; a fingerprint collision would file samples under another
  series' labels, which \<^const>\<open>no_collision\<close> excludes; a generation is stamped by a writer, never negative.
\<close>

inductive store_step :: "MemoryStore \<Rightarrow> MemoryStore \<Rightarrow> bool" where
  step_append: "labels_ok lbls \<Longrightarrow> no_collision lbls s \<Longrightarrow> \<not> gen <s 0 \<Longrightarrow>
     store_step s (snd (appendInternal now lbls ts v seg gen s))"
| step_reserve: "ReserveGeneration now s = Inr (g, s') \<Longrightarrow> store_step s s'"
| step_floor: "store_step s (EnsureGenFloor f s)"
| step_seal: "store_step s (snd (SealHeadChunks s))"
| step_fence: "store_step s (SetHeadFence seg s)"
| step_remove: "store_step s (snd (RemoveEmptySeries sid s))"
| step_discard: "store_step s (DiscardSealedChunks d s)"

lemma store_step_inv: "store_step s s' \<Longrightarrow> mem_inv s \<Longrightarrow> mem_inv s'"
  by (induction rule: store_step.induct)
    (simp_all add: mem_inv_append mem_inv_reserve mem_inv_floor mem_inv_seal mem_inv_fence mem_inv_remove mem_inv_discard)

lemma store_steps_inv: "store_step\<^sup>*\<^sup>* s s' \<Longrightarrow> mem_inv s \<Longrightarrow> mem_inv s'"
  by (induction rule: rtranclp_induct) (auto dest: store_step_inv)


section \<open>Reads answer what the head holds\<close>

lemma chunk_bounds:
  assumes "chunk_ok ng c" "x \<in> set (chunk_samples sid c)"
  shows "sint (c_minTs c) \<le> sint (sm_ts x) \<and> sint (sm_ts x) \<le> sint (c_maxTs c)"
proof -
  obtain ts v g rest where ss: "chunk_rep c ((ts, v, g) # rest)"
    using assms(1) by (auto simp: chunk_ok_def) (metis list.exhaust prod_cases3)
  then have "foldMinMax ts ts rest = (c_minTs c, c_maxTs c)" by (simp add: chunk_rep_def)
  from foldMinMax_bounds [OF this] show ?thesis
    using assms(2) unfolding chunk_samples_rep [OF ss] by force
qed

lemma foldl_later_append:
  "foldl (\<lambda>a x. laterSample a (Some x)) (foldl (\<lambda>a x. laterSample a (Some x)) None xs) ys = latest (xs @ ys)"
  by (simp add: latest_def)

lemma series_chunks_ok:
  assumes "mem_inv s" "map_of (st_series s) sid = Some ms"
  shows "Hash (ms_labels ms) = sid" "pc \<in> set (ms_chunks ms) \<Longrightarrow> chunk_ok (st_nextGen s) (snd pc)"
  using mem_invD(2) [OF assms(1) map_of_SomeD [OF assms(2)]] by (auto simp: series_ok_def)

lemma QueryRange_spec:
  assumes "mem_inv s"
  shows "QueryRange sid a b s =
    map_option (\<lambda>(l, ss). sortAndDedup (filter (\<lambda>x. a \<le>s sm_ts x \<and> sm_ts x \<le>s b) ss)) (holds_of s sid)"
proof (cases "map_of (st_series s) sid")
  case (Some ms)
  note C = series_chunks_ok [OF assms Some]
  let ?P = "\<lambda>x. a \<le>s sm_ts x \<and> sm_ts x \<le>s b"
  have "(case pc of (_, c) \<Rightarrow> if NumSamples c = 0 \<or> b <s c_minTs c \<or> c_maxTs c <s a then [] else filter ?P (chunk_samples sid c))
      = filter ?P (chunk_samples sid (snd pc))" if "pc \<in> set (ms_chunks ms)" for pc
  proof -
    have "filter ?P (chunk_samples sid (snd pc)) = []"
      if "b <s c_minTs (snd pc) \<or> c_maxTs (snd pc) <s a"
      using chunk_bounds [OF C(2) [OF \<open>pc \<in> _\<close>]] that by (fastforce simp: filter_empty_conv word_sle_eq word_sless_alt)
    moreover have "NumSamples (snd pc) \<noteq> 0"
      using C(2) [OF that] by (auto simp: chunk_ok_def NumSamples_def numSamples_rep)
    ultimately show ?thesis by (auto split: prod.splits)
  qed
  then have "map (\<lambda>(_, c). if NumSamples c = 0 \<or> b <s c_minTs c \<or> c_maxTs c <s a then [] else filter ?P (chunk_samples sid c)) (ms_chunks ms)
    = map (\<lambda>pc. filter ?P (chunk_samples sid (snd pc))) (ms_chunks ms)" by (intro map_cong refl)
  note E = arg_cong [OF this, of concat]
  have "concat (map (\<lambda>pc. filter ?P (chunk_samples sid (snd pc))) (ms_chunks ms)) = filter ?P (ms_samples ms)"
    by (simp add: ms_samples_def filter_concat C(1) comp_def)
  then show ?thesis unfolding QueryRange_def Some option.case E by (simp add: holds_of_def Some)
qed (simp add: QueryRange_def holds_of_def)

lemma instant_scan_fold:
  "instant_scan t best xs = foldl (\<lambda>a x. laterSample a (Some x)) best (filter (\<lambda>x. sm_ts x \<le>s t) xs)"
  by (induction t best xs rule: instant_scan.induct)
    (auto simp: laterSample_def word_sle_eq word_sless_alt split: option.splits)

lemma QueryInstant_spec:
  assumes "mem_inv s"
  shows "QueryInstant sid t s = Option.bind (holds_of s sid) (\<lambda>(l, ss). latest (filter (\<lambda>x. sm_ts x \<le>s t) ss))"
proof (cases "map_of (st_series s) sid")
  case (Some ms)
  note C = series_chunks_ok [OF assms Some]
  let ?Q = "\<lambda>x. sm_ts x \<le>s t"
  have "foldl (\<lambda>best (_, c). if NumSamples c = 0 \<or> t <s c_minTs c then best else instant_scan t best (chunk_samples sid c)) None cs
      = latest (filter ?Q (concat (map (\<lambda>pc. chunk_samples sid (snd pc)) cs)))"
    if "set cs \<subseteq> set (ms_chunks ms)" for cs
    using that
  proof (induction cs rule: rev_induct)
    case (snoc pc cs)
    obtain p c where pc: "pc = (p, c)" by (cases pc)
    have ok: "chunk_ok (st_nextGen s) c" using C(2) snoc.prems by (auto simp: pc)
    have "filter ?Q (chunk_samples sid c) = []" if "t <s c_minTs c"
      using chunk_bounds [OF ok] that by (fastforce simp: filter_empty_conv word_sle_eq word_sless_alt)
    moreover have "NumSamples c \<noteq> 0" using ok by (auto simp: chunk_ok_def NumSamples_def numSamples_rep)
    ultimately show ?case using snoc by (auto simp: pc instant_scan_fold latest_def)
  qed simp
  then show ?thesis using Some C(1) by (simp add: QueryInstant_def holds_of_def ms_samples_def)
qed (simp add: QueryInstant_def holds_of_def)

lemma select_scan_fold:
  "select_scan p w (S, A) xs = (S @ filter (in_range_ts p) xs,
     foldl (\<lambda>a x. laterSample a (Some x)) A (filter (\<lambda>x. w \<and> sm_ts x <s sp_MinT p) xs))"
  by (induction xs arbitrary: S A) (auto simp: in_range_ts_def word_sle_eq word_sless_alt)

lemma MinInt64_less: "MinInt64 <s m \<longleftrightarrow> m \<noteq> MinInt64"
proof -
  have "sint MinInt64 = - (2 ^ 63)" by (simp add: MinInt64_def)
  moreover have "- (2 ^ 63) \<le> sint m" using sint_range_size [of m] by (simp add: word_size)
  ultimately show ?thesis unfolding word_sless_alt by (metis less_le signed_word_eqI)
qed

lemma selectFromChunks_spec:
  assumes "\<And>pc. pc \<in> set cs \<Longrightarrow> chunk_ok ng (snd pc)" "matches (sp_Selector p) l"
  shows "selectFromChunks l cs p = select_spec l (concat (map (\<lambda>pc. chunk_samples (Hash l) (snd pc)) cs)) p"
proof (cases "sp_MaxT p <s sp_MinT p")
  case True
  then show ?thesis using assms(2) by (simp add: selectFromChunks_def select_spec_def Let_def)
next
  case False
  define w where "w \<longleftrightarrow> sp_Anchor p \<and> MinInt64 <s sp_MinT p"
  have b: "before_range p = (\<lambda>x. w \<and> sm_ts x <s sp_MinT p)"
    by (auto simp: before_range_def w_def MinInt64_less fun_eq_iff)
  have F: "foldl (\<lambda>acc (_, c). if NumSamples c = 0 then acc
              else if sp_MaxT p <s c_minTs c \<or> (\<not> w \<and> c_maxTs c <s sp_MinT p) then acc
              else select_scan p w acc (chunk_samples (Hash l) c)) ([], None) cs
    = (filter (in_range_ts p) (concat (map (\<lambda>pc. chunk_samples (Hash l) (snd pc)) cs)),
       latest (filter (before_range p) (concat (map (\<lambda>pc. chunk_samples (Hash l) (snd pc)) cs))))"
    using assms(1)
  proof (induction cs rule: rev_induct)
    case (snoc pc cs)
    obtain q c where pc: "pc = (q, c)" by (cases pc)
    have ok: "chunk_ok ng c" using snoc.prems [of pc] by (simp add: pc)
    have "filter (in_range_ts p) (chunk_samples (Hash l) c) = []" "filter (before_range p) (chunk_samples (Hash l) c) = []"
      if "sp_MaxT p <s c_minTs c \<or> (\<not> w \<and> c_maxTs c <s sp_MinT p)"
      using chunk_bounds [OF ok, of _ "Hash l"] that False
      by (fastforce simp: filter_empty_conv word_sle_eq word_sless_alt in_range_ts_def b)+
    moreover have "NumSamples c \<noteq> 0" using ok by (auto simp: chunk_ok_def NumSamples_def numSamples_rep)
    ultimately show ?case using snoc by (auto simp: pc select_scan_fold latest_def b)
  qed simp
  show ?thesis unfolding selectFromChunks_def select_spec_def w_def [symmetric] Let_def F prod.case
    using False assms(2) by simp
qed

lemma index_select:
  assumes "mem_inv s"
  shows "set (Postings.Select (st_idx s) (selectorToIndexMatchers sel)) =
      {sid. \<exists>ms. map_of (st_series s) sid = Some ms \<and> matches sel (ms_labels ms)}"
    "distinct (Postings.Select (st_idx s) (selectorToIndexMatchers sel))"
  using mem.select_set [OF mem_invD(6) [OF assms]] mem.select_asc [OF mem_invD(6) [OF assms]]
  by (auto simp: series_map_of_def matches_def strict_sorted_iff)


lemma select_spec_hash: "select_spec l ss p = Some sd \<Longrightarrow> sd_Labels sd = l"
  by (auto simp: select_spec_def Let_def split: if_splits)

definition select_at :: "MemoryStore \<Rightarrow> SelectParams \<Rightarrow> u64 \<Rightarrow> SeriesData option" where
  "select_at s p sid = (case holds_of s sid of None \<Rightarrow> None | Some (l, ss) \<Rightarrow> select_spec l ss p)"

lemma map_filter_cong: "(\<And>x. x \<in> set xs \<Longrightarrow> f x = g x) \<Longrightarrow> List.map_filter f xs = List.map_filter g xs"
  by (induction xs) (auto simp: List.map_filter_simps split: option.splits)

lemma map_filter_comp: "List.map_filter f (List.map_filter g xs) = List.map_filter (\<lambda>x. Option.bind (g x) f) xs"
  by (induction xs) (auto simp: List.map_filter_simps split: option.splits)

lemma StoreSelect_at:
  assumes "mem_inv s" "ValidateSelect p"
  shows "StoreSelect p s = Some (List.map_filter (select_at s p) (Postings.Select (st_idx s) (selectorToIndexMatchers (sp_Selector p))))"
proof -
  have "(case map_of (st_series s) sid of None \<Rightarrow> None | Some ms \<Rightarrow> selectFromChunks (ms_labels ms) (ms_chunks ms) p) = select_at s p sid"
    if sid: "sid \<in> set (Postings.Select (st_idx s) (selectorToIndexMatchers (sp_Selector p)))" for sid
  proof -
    obtain ms where ms: "map_of (st_series s) sid = Some ms" "matches (sp_Selector p) (ms_labels ms)"
      using sid unfolding index_select(1) [OF assms(1)] by blast
    have "selectFromChunks (ms_labels ms) (ms_chunks ms) p = select_spec (ms_labels ms) (ms_samples ms) p"
      using selectFromChunks_spec [OF series_chunks_ok(2) [OF assms(1) ms(1)] ms(2)] by (simp add: ms_samples_def)
    then show ?thesis by (simp add: ms(1) select_at_def holds_of_def)
  qed
  from map_filter_cong [OF this] show ?thesis using assms(2) by (simp add: StoreSelect_def)
qed

lemma per_series_at:
  assumes "mem_inv s" "map_of (st_series s) sid = Some ms" "matches (sp_Selector p) (ms_labels ms)"
  shows "per_series p s (sid, ms_labels ms) = select_at s p sid"
proof -
  have h: "Hash (ms_labels ms) = sid" "holds_of s sid = Some (ms_labels ms, ms_samples ms)"
    using series_chunks_ok(1) [OF assms(1,2)] assms(2) by (simp_all add: holds_of_def)
  have f: "filter (\<lambda>x. sm_ts x \<le>s sp_MinT p - 1) ss = filter (\<lambda>x. sm_ts x <s sp_MinT p) ss" if "MinInt64 <s sp_MinT p" for ss
  proof -
    have "sint MinInt64 = - (2 ^ 63)" by (simp add: MinInt64_def)
    moreover have "sint (sp_MinT p) < 2 ^ 63" using sint_range_size [of "sp_MinT p"] by (simp add: word_size)
    ultimately have "sint (sp_MinT p - 1) = sint (sp_MinT p) - 1"
      using that sint_sub_fits [of "sp_MinT p" 1] by (simp add: word_sless_alt)
    then show ?thesis by (simp add: word_sle_eq word_sless_alt)
  qed
  have "(if sp_Anchor p \<and> MinInt64 <s sp_MinT p then latest (filter (\<lambda>x. sm_ts x \<le>s sp_MinT p - 1) (ms_samples ms)) else None)
      = latest (filter (before_range p) (ms_samples ms))"
    using f [of "ms_samples ms"] by (simp add: before_range_def [abs_def] MinInt64_less)
  then show ?thesis
    unfolding per_series_def select_at_def select_spec_def Let_def snd_conv h QueryRange_spec [OF assms(1)] QueryInstant_spec [OF assms(1)]
      option.case option.map prod.case bind.simps
    using assms(3) by (simp add: in_range_ts_def [abs_def])
qed

lemma lookup_map_filter:
  assumes "distinct ids" "\<And>sid sd. g sid = Some sd \<Longrightarrow> sd_hash sd = sid"
  shows "lookup_sd (List.map_filter g ids) h = (if h \<in> set ids then g h else None)"
    "distinct (map sd_hash (List.map_filter g ids))" "sd_hash ` set (List.map_filter g ids) \<subseteq> set ids"
  using assms
  by (induction ids) (auto simp: List.map_filter_simps lookup_sd_def dest: assms(2) split: option.splits)

lemma holds_of_ok: "mem_inv s \<Longrightarrow> holdings_ok (holds_of s)"
  using series_chunks_ok(1) by (fastforce simp: holdings_ok_def holds_of_def ms_samples_def chunk_samples_def)

lemma store_answers:
  assumes "mem_inv s" "ValidateSelect p"
  shows "answers (holds_of s) p (the (StoreSelect p s))"
proof -
  have g: "sd_hash sd = sid" if "select_at s p sid = Some sd" for sid sd
    using that holds_of_ok [OF assms(1)] select_spec_hash
    by (fastforce simp: select_at_def holdings_ok_def sd_hash_def split: option.splits)
  have "select_at s p h = None" if "h \<notin> set (Postings.Select (st_idx s) (selectorToIndexMatchers (sp_Selector p)))" for h
    using that unfolding index_select(1) [OF assms(1)]
    by (auto simp: select_at_def holds_of_def select_spec_def split: option.splits)
  then show ?thesis
    unfolding answers_def StoreSelect_at [OF assms] option.sel select_at_def [symmetric]
    using lookup_map_filter(1,2) [where g = "select_at s p", OF index_select(2) [OF assms(1), of "sp_Selector p"] g] by auto
qed

interpretation head: source mem_inv holds_of "\<lambda>s p. the (StoreSelect p s)"
  by unfold_locales (simp_all add: holds_of_ok store_answers)


section \<open>The counters\<close>

definition active_of :: "MemoryStore \<Rightarrow> string \<Rightarrow> u64 set" where
  "active_of s t = {sid. \<exists>ms. map_of (st_series s) sid = Some ms \<and> ms_chunks ms \<noteq> [] \<and> TenantOf (ms_labels ms) = t}"

lemma act_card:
  assumes "mem_inv s"
  shows "act t (st_series s) = card (active_of s t)" "finite (active_of s t)"
proof -
  let ?L = "map fst (filter (\<lambda>x. ms_chunks (snd x) \<noteq> [] \<and> TenantOf (ms_labels (snd x)) = t) (st_series s))"
  have d: "distinct (map fst (st_series s))" using assms by (rule mem_invD)
  have "active_of s t = set ?L" unfolding active_of_def using d by (force simp: image_iff)
  moreover have "distinct ?L" using d by (rule distinct_map_filter)
  ultimately show "act t (st_series s) = card (active_of s t)" "finite (active_of s t)"
    using distinct_card [of ?L] by (simp_all add: act_def)
qed

lemma TenantSeries_card: "mem_inv s \<Longrightarrow> TenantSeries s t = card (active_of s t)"
  using mem_invD(5) [of s] act_card(1) [of s t] by (auto simp: TenantSeries_def tenant_count_def counts_ok_def split: option.splits)

interpretation head_counter: active_counter mem_inv TenantSeries HasSeries active_of
  by unfold_locales (auto simp: act_card TenantSeries_card HasSeries_def active_of_def split: option.splits)

section \<open>Sealed chunks never change\<close>

definition chunk_list :: "(u64 \<times> memorySeries) list \<Rightarrow> (cptr \<times> u64 \<times> chunk) list" where
  "chunk_list xs = concat (map (\<lambda>(sid, ms). map (\<lambda>(p, c). (p, sid, c)) (ms_chunks ms)) xs)"

lemma chunk_list_iff: "(p, sid, c) \<in> set (chunk_list xs) \<longleftrightarrow> (\<exists>ms. (sid, ms) \<in> set xs \<and> (p, c) \<in> set (ms_chunks ms))"
  by (force simp: chunk_list_def)

lemma chunk_list_mono: "set xs \<subseteq> set ys \<Longrightarrow> set (chunk_list xs) \<subseteq> set (chunk_list ys)"
  unfolding chunk_list_def set_concat set_map by blast

lemma chunk_list_ptrs: "map fst (chunk_list xs) = ptrs xs"
  by (induction xs) (auto simp: chunk_list_def ptrs_def comp_def case_prod_beta)

lemma chunk_list_ptr_unique:
  "mem_inv s \<Longrightarrow> (p, sid, c) \<in> set (chunk_list (st_series s)) \<Longrightarrow> (p, sid', c') \<in> set (chunk_list (st_series s)) \<Longrightarrow> sid' = sid \<and> c' = c"
  using mem_invD(3) [of s] unfolding chunk_list_ptrs [symmetric] by (metis Pair_inject eq_key_imp_eq_value)

definition stable :: "MemoryStore \<Rightarrow> MemoryStore \<Rightarrow> bool" where
  "stable s s' \<longleftrightarrow> st_alloc s \<le> st_alloc s'
     \<and> (\<forall>p sid c'. (p, sid, c') \<in> set (chunk_list (st_series s')) \<longrightarrow> p < st_alloc s \<longrightarrow>
          (\<exists>c. (p, sid, c) \<in> set (chunk_list (st_series s)) \<and> (Sealed c \<longrightarrow> c' = c)))"

lemma stable_refl: "stable s s" by (auto simp: stable_def)

lemma stableD: "stable s s' \<Longrightarrow> (p, sid, c') \<in> set (chunk_list (st_series s')) \<Longrightarrow> p < st_alloc s \<Longrightarrow>
    \<exists>c. (p, sid, c) \<in> set (chunk_list (st_series s)) \<and> (Sealed c \<longrightarrow> c' = c)"
  unfolding stable_def by blast

lemma stable_trans:
  assumes "stable s s'" "stable s' s''"
  shows "stable s s''"
  unfolding stable_def
proof (intro conjI allI impI)
  show "st_alloc s \<le> st_alloc s''" using assms by (auto simp: stable_def)
  fix p sid c'' assume a: "(p, sid, c'') \<in> set (chunk_list (st_series s''))" "p < st_alloc s"
  have "p < st_alloc s'" using a(2) assms(1) by (simp add: stable_def)
  from stableD [OF assms(2) a(1) this] obtain c' where c': "(p, sid, c') \<in> set (chunk_list (st_series s'))" "Sealed c' \<longrightarrow> c'' = c'"
    by blast
  from stableD [OF assms(1) c'(1) a(2)] c'(2)
  show "\<exists>c. (p, sid, c) \<in> set (chunk_list (st_series s)) \<and> (Sealed c \<longrightarrow> c'' = c)" by blast
qed

lemma stable_sub:
  "set (chunk_list (st_series s')) \<subseteq> set (chunk_list (st_series s)) \<Longrightarrow> st_alloc s' = st_alloc s \<Longrightarrow> stable s s'"
  by (auto simp: stable_def)

lemma map_fst_mem: "map fst xs = map fst ys \<Longrightarrow> (p, c) \<in> set xs \<Longrightarrow> \<exists>c'. (p, c') \<in> set ys"
  by (metis fst_conv image_iff list.set_map prod.collapse)

lemma stable_append:
  assumes inv: "mem_inv s" and l: "labels_ok lbls" "no_collision lbls s" and gen: "\<not> gen <s 0"
  shows "stable s (snd (appendInternal now lbls ts v seg gen s))"
proof (cases "settle_generation now gen s")
  case (Inl e)
  then show ?thesis by (simp add: appendInternal_def stable_refl)
next
  case (Inr gs)
  obtain g s1 where gs: "gs = (g, s1)" by (cases gs)
  define ms where "ms = series_of lbls s"
  define s' where "s' = snd (appendInternal now lbls ts v seg gen s)"
  obtain ms' a' where A: "st_series s' = AList.update (Hash lbls) ms' (st_series s)" "st_alloc s' = a'"
    "a' = st_alloc s \<and> map fst (ms_chunks ms') = map fst (ms_chunks ms)
     \<or> a' = st_alloc s + 1 \<and> map fst (ms_chunks ms') = map fst (ms_chunks ms) @ [st_alloc s]"
    "\<forall>pc \<in> set (ms_chunks ms). Sealed (snd pc) \<longrightarrow> pc \<in> set (ms_chunks ms')"
    by (rule append_effect [OF inv l gen Inr [unfolded gs], where ts = ts and v = v and seg = seg, folded s'_def ms_def])
      (rule that; (assumption | blast))
  have inv': "mem_inv s'" unfolding s'_def by (rule mem_inv_append [OF inv l gen])
  have msin: "(Hash lbls, ms) \<in> set (st_series s)" if "ms_chunks ms \<noteq> []"
    using that by (auto simp: ms_def series_of_def split: option.splits dest!: map_of_SomeD)
  have ms'in: "(Hash lbls, ms') \<in> set (st_series s')" unfolding A(1) by (metis map_of_SomeD update_Some_unfold)
  have "\<exists>c. (p, sid, c) \<in> set (chunk_list (st_series s)) \<and> (Sealed c \<longrightarrow> c' = c)"
    if pc: "(p, sid, c') \<in> set (chunk_list (st_series s'))" and p: "p < st_alloc s" for p sid c'
  proof -
    obtain m where m: "(sid, m) \<in> set (st_series s')" "(p, c') \<in> set (ms_chunks m)" using pc by (auto simp: chunk_list_iff)
    show ?thesis
    proof (cases "sid = Hash lbls")
      case True
      then have "m = ms'" using m(1) ms'in mem_invD(1) [OF inv'] by (metis eq_key_imp_eq_value)
      then obtain c where c: "(p, c) \<in> set (ms_chunks ms)"
        using m(2) A(3) p map_fst_mem [of "ms_chunks ms'" "ms_chunks ms"] map_fst_mem [of "ms_chunks ms'" "ms_chunks ms @ [(st_alloc s, NewChunk)]"]
        by fastforce
      then have in_s: "(p, sid, c) \<in> set (chunk_list (st_series s))" using msin True by (force simp: chunk_list_iff)
      have "c' = c" if "Sealed c"
        using that A(4) c chunk_list_ptr_unique [OF inv' pc] ms'in by (force simp: chunk_list_iff)
      then show ?thesis using in_s by blast
    next
      case False
      then have "(sid, m) \<in> set (st_series s)" using m(1) mem_invD(1) [OF inv] unfolding A(1) by (metis distinct_update map_of_SomeD map_of_is_SomeI update_conv' fun_upd_other)
      then show ?thesis using m(2) by (auto simp: chunk_list_iff)
    qed
  qed
  then show ?thesis using A(2,3) unfolding s'_def [symmetric] stable_def by auto
qed


lemma stable_step: "store_step s s' \<Longrightarrow> mem_inv s \<Longrightarrow> stable s s'"
proof (induction rule: store_step.induct)
  case (step_append lbls s gen now ts v seg)
  then show ?case by (intro stable_append)
next
  case (step_reserve now s g s')
  then show ?case by (auto simp: ReserveGeneration_def nextGenerationLocked_def Let_def intro!: stable_sub split: if_splits)
next
  case (step_floor s f)
  then show ?case by (auto simp: EnsureGenFloor_def intro!: stable_sub)
next
  case (step_seal s)
  have "\<exists>c. (p, c) \<in> set (ms_chunks ms) \<and> (Sealed c \<longrightarrow> c' = c)"
    if "(p, c') \<in> set (ms_chunks (snd (seal_last ms)))" for p c' ms
    using that by (cases "ms_chunks ms" rule: rev_cases)
      (auto simp: seal_last_def nth_append list_update_append Let_def split: if_splits)
  then show ?case by (fastforce simp: stable_def SealHeadChunks_def chunk_list_iff)
next
  case (step_fence s seg)
  then show ?case by (intro stable_sub) (fastforce simp: SetHeadFence_def chunk_list_iff)+
next
  case (step_remove s sid)
  have "set (st_series (snd (RemoveEmptySeries sid s))) \<subseteq> set (st_series s)"
    "st_alloc (snd (RemoveEmptySeries sid s)) = st_alloc s"
    by (auto simp: RemoveEmptySeries_def AList.delete_eq split: option.splits)
  then show ?case by (intro stable_sub chunk_list_mono)
next
  case (step_discard s d)
  then have "set (ms_chunks (snd (discard_series r ms))) \<subseteq> set (ms_chunks ms)" for r ms
    by (auto simp: discard_series_def Let_def dest: set_zip_leftD)
  then show ?case
    by (intro stable_sub) (fastforce simp: DiscardSealedChunks_def Let_def case_prod_beta discard_loop_series chunk_list_iff)+
qed

lemma stable_steps: "store_step\<^sup>*\<^sup>* s s' \<Longrightarrow> mem_inv s \<Longrightarrow> stable s s'"
proof (induction rule: rtranclp_induct)
  case (step s' s'')
  then show ?case using store_steps_inv [OF step.hyps(1)] stable_step stable_trans by blast
qed (rule stable_refl)

lemma snapshot_iff:
  "sc \<in> set (SealedChunksSnapshot s) \<and> (p, c) \<in> set (sc_Chunks sc) \<Longrightarrow>
    (p, sc_ID sc, c) \<in> set (chunk_list (st_series s)) \<and> Sealed c"
  by (force simp: SealedChunksSnapshot_def List.map_filter_def Let_def chunk_list_iff split: if_splits)


section \<open>Appends on holdings\<close>

definition held :: "holdings \<Rightarrow> u64 \<Rightarrow> sample list" where
  "held H sid = (case H sid of None \<Rightarrow> [] | Some (_, ss) \<Rightarrow> ss)"

lemma held_append:
  "held (H(sid \<mapsto> (l, ss))) sid' = (if sid' = sid then ss else held H sid')"
  by (simp add: held_def)

lemma holds_of_append:
  assumes inv: "mem_inv s" and l: "labels_ok lbls" "no_collision lbls s" and gen: "\<not> gen <s 0"
    and settle: "settle_generation now gen s = Inr (g, s1)"
  shows "fst (appendInternal now lbls ts v seg gen s) = None"
    "holds_of (snd (appendInternal now lbls ts v seg gen s)) = (holds_of s)(Hash lbls \<mapsto>
       (lbls, held (holds_of s) (Hash lbls) @ [\<lparr>sm_id = Hash lbls, sm_ts = ts, sm_val = v, sm_gen = g\<rparr>]))"
    "st_nextGen (snd (appendInternal now lbls ts v seg gen s)) = st_nextGen s1"
proof -
  define s' where "s' = snd (appendInternal now lbls ts v seg gen s)"
  obtain ms' where A: "fst (appendInternal now lbls ts v seg gen s) = None" "st_nextGen s' = st_nextGen s1"
    "st_series s' = AList.update (Hash lbls) ms' (st_series s)" "ms_labels ms' = lbls"
    "ms_samples ms' = ms_samples (series_of lbls s) @ [\<lparr>sm_id = Hash lbls, sm_ts = ts, sm_val = v, sm_gen = g\<rparr>]"
    by (rule append_effect [OF inv l gen settle, where ts = ts and v = v and seg = seg, folded s'_def]) (rule that)
  have "ms_samples (series_of lbls s) = held (holds_of s) (Hash lbls)"
    by (simp add: series_of_def held_def holds_of_def ms_samples_def split: option.splits)
  then have "holds_of s' = (holds_of s)(Hash lbls \<mapsto>
       (lbls, held (holds_of s) (Hash lbls) @ [\<lparr>sm_id = Hash lbls, sm_ts = ts, sm_val = v, sm_gen = g\<rparr>]))"
    by (auto simp: holds_of_def [of s'] holds_of_def [of s] A(3,4,5) update_conv' fun_eq_iff)
  then show "fst (appendInternal now lbls ts v seg gen s) = None"
    "holds_of (snd (appendInternal now lbls ts v seg gen s)) = (holds_of s)(Hash lbls \<mapsto>
       (lbls, held (holds_of s) (Hash lbls) @ [\<lparr>sm_id = Hash lbls, sm_ts = ts, sm_val = v, sm_gen = g\<rparr>]))"
    "st_nextGen (snd (appendInternal now lbls ts v seg gen s)) = st_nextGen s1"
    using A(1,2) by (simp_all add: s'_def)
qed

lemma held_gens:
  assumes "mem_inv s" "x \<in> set (held (holds_of s) sid)"
  shows "sm_gen x <s st_nextGen s" "sm_id x = sid"
proof -
  obtain ms where ms: "map_of (st_series s) sid = Some ms" "x \<in> set (ms_samples ms)"
    using assms(2) by (cases "map_of (st_series s) sid") (auto simp: held_def holds_of_def)
  note C = series_chunks_ok [OF assms(1) ms(1)]
  obtain pc where pc: "pc \<in> set (ms_chunks ms)" "x \<in> set (chunk_samples sid (snd pc))"
    using ms(2) C(1) by (auto simp: ms_samples_def)
  obtain ss where ss: "chunk_rep (snd pc) ss" "\<forall>x \<in> set ss. sgen x <s st_nextGen s"
    using C(2) [OF pc(1)] by (auto simp: chunk_ok_def)
  show "sm_gen x <s st_nextGen s" "sm_id x = sid"
    using pc(2) ss(2) unfolding chunk_samples_rep [OF ss(1)] by auto
qed

lemma sortAndDedup_winner:
  assumes "\<forall>x \<in> set (xs @ [y]). sm_id x = sid \<and> sm_ts x = ts" "\<forall>x \<in> set xs. \<not> beats x y"
  shows "sortAndDedup (xs @ [y]) = [y]"
proof (rule sortAndDedup_eqI [where sid = sid])
  show "samples.winners (set (xs @ [y])) [y]"
    using assms samples.better_irrefl [of y] by (auto simp: samples.winners_def ts_key_def)
qed (use assms in auto)

section \<open>Replicas\<close>

text \<open>A write as the gateway stamps it: labels, timestamp, value and generation.\<close>

type_synonym stamped = "Labels \<times> i64 \<times> float64 \<times> i64"

definition apply_writes :: "MemoryStore \<Rightarrow> stamped list \<Rightarrow> MemoryStore" where
  "apply_writes s ws = foldl (\<lambda>s (l, ts, v, g). snd (AppendGen 0 l ts v g s)) s ws"

definition writes_ok :: "stamped set \<Rightarrow> bool" where
  "writes_ok W \<longleftrightarrow> (\<forall>(l, ts, v, g) \<in> W. labels_ok l \<and> gen_ok g \<and> g \<noteq> 0)
     \<and> (\<forall>w \<in> W. \<forall>w' \<in> W. Hash (fst w) = Hash (fst w') \<longrightarrow> fst w = fst w')"

definition write_sample :: "stamped \<Rightarrow> sample" where
  "write_sample w = (case w of (l, ts, v, g) \<Rightarrow> \<lparr>sm_id = Hash l, sm_ts = ts, sm_val = v, sm_gen = g\<rparr>)"

definition written :: "stamped list \<Rightarrow> holdings" where
  "written ws sid = (case filter (\<lambda>w. Hash (fst w) = sid) ws of
     [] \<Rightarrow> None | w # ws' \<Rightarrow> Some (fst w, map write_sample (w # ws')))"

lemma written_iff:
  "writes_ok (set ws) \<Longrightarrow> written ws sid = Some (l, ss) \<Longrightarrow>
     (\<exists>w \<in> set ws. Hash (fst w) = sid \<and> l = fst w) \<and> set ss = write_sample ` {w \<in> set ws. Hash (fst w) = sid}"
proof -
  assume "written ws sid = Some (l, ss)"
  then obtain w ws' where f: "filter (\<lambda>w. Hash (fst w) = sid) ws = w # ws'" "l = fst w" "ss = map write_sample (w # ws')"
    by (auto simp: written_def split: list.splits)
  have "w \<in> set ws \<and> Hash (fst w) = sid" using arg_cong [OF f(1), of set] by auto
  moreover have "set ss = write_sample ` {w \<in> set ws. Hash (fst w) = sid}" using arg_cong [OF f(1), of set] f(3) by auto
  ultimately show ?thesis using f(2) by blast
qed

lemma apply_writes_holds:
  assumes "writes_ok (set ws)" "mem_inv s0" "st_series s0 = []"
  shows "mem_inv (apply_writes s0 ws) \<and> holds_of (apply_writes s0 ws) = written ws"
  using assms(1)
proof (induction ws rule: rev_induct)
  case Nil
  then show ?case using assms(2,3) by (simp add: apply_writes_def holds_of_def written_def fun_eq_iff)
next
  case (snoc w ws)
  obtain l ts v g where w: "w = (l, ts, v, g)" by (cases w)
  let ?s = "apply_writes s0 ws"
  have ok: "writes_ok (set ws)" "labels_ok l" "gen_ok g" "g \<noteq> 0" using snoc.prems by (auto simp: writes_ok_def w)
  have inv: "mem_inv ?s" and H: "holds_of ?s = written ws" using snoc.IH [OF ok(1)] by auto
  have same: "l' = l" if h: "holds_of ?s (Hash l) = Some (l', ss)" for l' ss
  proof -
    obtain u where u: "u \<in> set ws" "Hash (fst u) = Hash l" "l' = fst u"
      using written_iff [OF ok(1), of "Hash l" l' ss] h unfolding H by blast
    have inj: "fst a = fst b" if "a \<in> set (ws @ [w])" "b \<in> set (ws @ [w])" "Hash (fst a) = Hash (fst b)" for a b
      using snoc.prems that unfolding writes_ok_def by blast
    have "fst u = fst w" using u(1,2) w by (intro inj) auto
    then show ?thesis using u(3) w by simp
  qed
  then have nc: "no_collision l ?s" by (auto simp: no_collision_def holds_of_def)
  obtain s1 where st: "settle_generation 0 g ?s = Inr (g, s1)"
    using ok(3,4) by (auto simp: settle_generation_def gen_ok_def)
  have g0: "\<not> g <s 0" using ok(3) by (simp add: gen_ok_def)
  note A = holds_of_append(2) [OF inv ok(2) nc g0 st, of ts v 0]
  have "apply_writes s0 (ws @ [w]) = snd (AppendGen 0 l ts v g ?s)" by (simp add: apply_writes_def w)
  moreover have "holds_of (snd (AppendGen 0 l ts v g ?s)) = written (ws @ [w])"
    unfolding AppendGen_def A
  proof
    fix sid
    show "((holds_of ?s)(Hash l \<mapsto> (l, held (holds_of ?s) (Hash l) @ [\<lparr>sm_id = Hash l, sm_ts = ts, sm_val = v, sm_gen = g\<rparr>]))) sid
        = written (ws @ [w]) sid"
      using same [unfolded H] unfolding H
      by (auto simp: written_def held_def w write_sample_def split: list.splits)
  qed
  ultimately show ?case using mem_inv_append [OF inv ok(2) nc g0] by (simp add: AppendGen_def)
qed

section \<open>Properties\<close>

text \<open>
  C8: the head's state is always consistent. In every state reachable from an empty head by any
  sequence of appends, reservations, generation floors, seals, fences, removals and discards,
  a tenant's counter is exactly the number of its series that hold samples, the counters list exactly
  the tenants with one, the index finds exactly the series that carry a selector's pairs, and every
  sample in memory has a generation below the next one to be assigned.
\<close>

theorem MemoryStore_invariant:
  assumes "store_step\<^sup>*\<^sup>* NewMemoryStore s"
  shows "TenantSeries s t = card (active_of s t)
    \<and> map_of (TenantSeriesCounts s) t = (if active_of s t = {} then None else Some (card (active_of s t)))
    \<and> (HasSeries s sid \<longleftrightarrow> (\<exists>t. sid \<in> active_of s t))
    \<and> set (SelectSeries sel s) = {(sid, ms_labels ms) | sid ms. map_of (st_series s) sid = Some ms \<and> matches sel (ms_labels ms)}
    \<and> (\<forall>x \<in> set (held (holds_of s) sid). sm_gen x <s NextGeneration s)"
proof (intro conjI)
  have inv: "mem_inv s" using store_steps_inv [OF assms mem_inv_new] .
  show "TenantSeries s t = card (active_of s t)" by (rule head_counter.cnt_active [OF inv])
  show "HasSeries s sid \<longleftrightarrow> (\<exists>t. sid \<in> active_of s t)" by (rule head_counter.has_active [OF inv])
  show "map_of (TenantSeriesCounts s) t = (if active_of s t = {} then None else Some (card (active_of s t)))"
    using mem_invD(5) [OF inv] act_card [OF inv, of t] by (simp add: TenantSeriesCounts_def counts_ok_def)
  show "set (SelectSeries sel s) = {(sid, ms_labels ms) | sid ms. map_of (st_series s) sid = Some ms \<and> matches sel (ms_labels ms)}"
    unfolding SelectSeries_def List.map_filter_def using index_select(1) [OF inv] by force
  show "\<forall>x \<in> set (held (holds_of s) sid). sm_gen x <s NextGeneration s"
    using held_gens(1) [OF inv] by (simp add: NextGeneration_def)
qed

text \<open>
  C7: an append is one write on what the head holds. \<^verbatim>\<open>Append\<close> fails only when the generation space is
  used up, and then changes nothing; otherwise it adds exactly one sample to exactly one series, with a
  generation above every one in memory, and the next read of that timestamp returns it whatever was
  stored there before.
\<close>

theorem Append_refines:
  fixes now ts :: i64 and v :: float64
  assumes "store_step\<^sup>*\<^sup>* NewMemoryStore s" "labels_ok lbls" "no_collision lbls s"
  defines "gen \<equiv> smax (NextGeneration s) now"
  defines "x \<equiv> \<lparr>sm_id = Hash lbls, sm_ts = ts, sm_val = v, sm_gen = gen\<rparr>"
  shows "if MaxGeneration <s gen then AppendNow now lbls ts v s = (Some ErrGenerationExhausted, s)
    else fst (AppendNow now lbls ts v s) = None
      \<and> holds_of (snd (AppendNow now lbls ts v s)) = (holds_of s)(Hash lbls \<mapsto> (lbls, held (holds_of s) (Hash lbls) @ [x]))
      \<and> QueryRange (Hash lbls) ts ts (snd (AppendNow now lbls ts v s)) = Some [x]
      \<and> NextGeneration (snd (AppendNow now lbls ts v s)) = gen + 1"
proof (cases "MaxGeneration <s gen")
  case True
  then show ?thesis
    by (simp add: AppendNow_def appendInternal_def settle_generation_def nextGenerationLocked_def gen_def NextGeneration_def)
next
  case False
  let ?s1 = "s\<lparr>st_nextGen := gen + 1\<rparr>" and ?s' = "snd (AppendNow now lbls ts v s)"
  have inv: "mem_inv s" using store_steps_inv [OF assms(1) mem_inv_new] .
  have settle: "settle_generation now 0 s = Inr (gen, ?s1)"
    using False by (simp add: settle_generation_def nextGenerationLocked_def gen_def NextGeneration_def Let_def)
  note A = holds_of_append [OF inv assms(2,3) _ settle, of ts v 0, folded AppendNow_def x_def, simplified]
  have inv': "mem_inv ?s'" unfolding AppendNow_def using mem_inv_append [OF inv assms(2,3)] by simp
  let ?P = "\<lambda>x. ts \<le>s sm_ts x \<and> sm_ts x \<le>s ts" and ?H = "held (holds_of s) (Hash lbls)"
  have P: "?P y \<longleftrightarrow> sm_ts y = ts" for y by (auto simp: word_sle_eq) (metis antisym signed_word_eqI)
  have "\<not> beats y x" if "y \<in> set ?H" for y
    using held_gens(1) [OF inv that] settle_generation_ok(5) [OF inv _ settle]
    by (auto simp: beats_def Outranks_def x_def word_sless_alt word_sle_eq)
  then have "sortAndDedup (filter ?P ?H @ [x]) = [x]"
    using held_gens(2) [OF inv, of _ "Hash lbls"] unfolding P
    by (intro sortAndDedup_winner [where sid = "Hash lbls" and ts = ts]) (auto simp: x_def)
  then have "QueryRange (Hash lbls) ts ts ?s' = Some [x]"
    unfolding QueryRange_spec [OF inv'] A(2) by (simp add: x_def)
  then show ?thesis using False A by (simp add: NextGeneration_def)
qed


text \<open>
  C6: the native select is the reference select. For every reachable head and every parameters,
  \<^verbatim>\<open>MemoryStore.Select\<close>, which skips chunks by their bounds and scans the rest once, returns what
  \<^verbatim>\<open>perSeriesSource.Select\<close> returns through \<^verbatim>\<open>SelectSeries\<close>, \<^verbatim>\<open>QueryRange\<close> and \<^verbatim>\<open>QueryInstant\<close>,
  in the same order, errors included.
\<close>

theorem Select_is_reference:
  assumes "store_step\<^sup>*\<^sup>* NewMemoryStore s"
  shows "StoreSelect p s = perSeriesSelect p s"
proof (cases "ValidateSelect p")
  case True
  have inv: "mem_inv s" using store_steps_inv [OF assms mem_inv_new] .
  have "select_at s p sid = Option.bind (map_option (\<lambda>ms. (sid, ms_labels ms)) (map_of (st_series s) sid)) (per_series p s)"
    if sid: "sid \<in> set (Postings.Select (st_idx s) (selectorToIndexMatchers (sp_Selector p)))" for sid
  proof -
    obtain ms where "map_of (st_series s) sid = Some ms" "matches (sp_Selector p) (ms_labels ms)"
      using sid unfolding index_select(1) [OF inv] by blast
    then show ?thesis using per_series_at [OF inv] by simp
  qed
  from map_filter_cong [OF this] show ?thesis
    unfolding StoreSelect_at [OF inv True] perSeriesSelect_def SelectSeries_def map_filter_comp using True by simp
qed (simp add: StoreSelect_def perSeriesSelect_def)

text \<open>
  Merged heads lose and invent nothing. Reading two reachable heads that agree on the labels of the
  series they share and merging the answers is the exact answer for everything both hold.
\<close>

lemma merged_heads_exact:
  assumes "store_step\<^sup>*\<^sup>* NewMemoryStore s" "store_step\<^sup>*\<^sup>* NewMemoryStore t"
    "same_labels (holds_of s) (holds_of t)" "ValidateSelect p"
  shows "answers (merge_holdings (holds_of s) (holds_of t)) p (mergeSelect (the (StoreSelect p s)) (the (StoreSelect p t)))"
  using assms store_steps_inv [OF _ mem_inv_new] by (intro head.merged_source) auto

text \<open>
  C11: a flush drops only what its snapshot holds. If a snapshot of the sealed chunks is taken, any
  operations run on the head in between, and the snapshot is then discarded, every sample the head held
  is still in the head or is, unchanged and under the same series, in the snapshot.
\<close>

theorem discard_loses_nothing:
  assumes "store_step\<^sup>*\<^sup>* NewMemoryStore s" "store_step\<^sup>*\<^sup>* s s'"
    "map_of (st_series s') sid = Some ms" "(p, c) \<in> set (ms_chunks ms)"
  shows "(\<exists>ms'. map_of (st_series (DiscardSealedChunks (SealedChunksSnapshot s) s')) sid = Some ms' \<and> (p, c) \<in> set (ms_chunks ms'))
     \<or> (\<exists>sc \<in> set (SealedChunksSnapshot s). sc_ID sc = sid \<and> (p, c) \<in> set (sc_Chunks sc))"
proof -
  let ?d = "SealedChunksSnapshot s"
  let ?r = "concat (map (\<lambda>sc. map fst (sc_Chunks sc)) ?d)"
  have inv: "mem_inv s" "mem_inv s'"
    using store_steps_inv [OF assms(1) mem_inv_new] store_steps_inv [OF assms(2)] by auto
  have here: "(p, sid, c) \<in> set (chunk_list (st_series s'))"
    using assms(3,4) by (auto simp: chunk_list_iff dest: map_of_SomeD)
  have len: "length (ms_chunkSegs ms) = length (ms_chunks ms)"
    using mem_invD(2) [OF inv(2) map_of_SomeD [OF assms(3)]] by (simp add: series_ok_def)
  show ?thesis
  proof (cases "p \<in> set ?r")
    case False
    then have "(p, c) \<in> set (ms_chunks (snd (discard_series ?r ms)))"
      using assms(4) by (simp add: discard_series_simps(2) [OF len])
    then show ?thesis using assms(3)
      by (simp add: DiscardSealedChunks_def Let_def case_prod_beta discard_loop_series map_of_map_snd)
  next
    case True
    then obtain sc c0 where sc: "sc \<in> set ?d" "(p, c0) \<in> set (sc_Chunks sc)" by auto
    note S = snapshot_iff [OF conjI, OF sc]
    have "p \<in> set (ptrs (st_series s))" using S unfolding chunk_list_ptrs [symmetric] by force
    then have "p < st_alloc s" using mem_invD(4) [OF inv(1)] by blast
    from stableD [OF stable_steps [OF assms(2) inv(1)] here this]
    obtain c1 where "(p, sid, c1) \<in> set (chunk_list (st_series s))" "Sealed c1 \<longrightarrow> c = c1" by blast
    with S chunk_list_ptr_unique [OF inv(1)] have "sc_ID sc = sid" "c = c0" by blast+
    then show ?thesis using sc by blast
  qed
qed

text \<open>
  C28: admission counts right. Whatever the head went through, the per-tenant gate admits a batch
  exactly when every limited tenant either adds no new active series or stays within its limit.
\<close>

theorem head_admission:
  assumes "store_step\<^sup>*\<^sup>* NewMemoryStore s" "distinct (map fst keys)"
    "\<forall>(t, ids) \<in> set keys. \<forall>x \<in> set ids. \<forall>t'. x \<in> active_of s t' \<longrightarrow> t' = t"
  shows "Admit limit (TenantSeries s) (HasSeries s) keys = None \<longleftrightarrow>
      (\<forall>(t, ids) \<in> set keys. limit t > 0 \<longrightarrow>
         set ids \<subseteq> active_of s t \<or> int (card (active_of s t \<union> set ids)) \<le> limit t)"
  using store_steps_inv [OF assms(1) mem_inv_new] assms(2,3) by (rule head_counter.Admit_spec)


text \<open>
  C12: replicas converge. Two heads that received the same stamped writes, in any order and any number of
  times each, return identical samples for every series and range.
\<close>

theorem replicas_converge:
  assumes "writes_ok (set ws)" "set ws' = set ws"
  shows "QueryRange sid a b (apply_writes NewMemoryStore ws) = QueryRange sid a b (apply_writes NewMemoryStore ws')"
proof -
  have ok': "writes_ok (set ws')" using assms by simp
  have e: "st_series NewMemoryStore = []" by (simp add: NewMemoryStore_def)
  note A = apply_writes_holds [OF assms(1) mem_inv_new e] and A' = apply_writes_holds [OF ok' mem_inv_new e]
  have none: "written ws sid = None \<longleftrightarrow> written ws' sid = None"
    using assms(2) by (auto simp: written_def filter_empty_conv split: list.splits)
  show ?thesis
  proof (cases "written ws sid")
    case None
    then show ?thesis using none A A' by (simp add: QueryRange_spec)
  next
    case (Some lss)
    then obtain l ss l' ss' where W: "written ws sid = Some (l, ss)" "written ws' sid = Some (l', ss')"
      using none by (metis not_None_eq surj_pair)
    have S: "set ss = set ss'" using written_iff [OF assms(1) W(1)] written_iff [OF ok' W(2)] assms(2) by simp
    have "\<forall>x \<in> set ss. sm_id x = sid" using written_iff [OF assms(1) W(1)] by (auto simp: write_sample_def)
    then have "sortAndDedup (filter P ss) = sortAndDedup (filter P ss')" for P
      using S by (intro sortAndDedup_cong [where sid = sid]) auto
    then show ?thesis using A A' W by (simp add: QueryRange_spec)
  qed
qed

section \<open>Witnesses\<close>

definition demo_labels :: Labels where "demo_labels = build [(''__name__'', ''up''), (''job'', ''node'')]"

definition demo_head :: MemoryStore where "demo_head = snd (AppendNow 5 demo_labels 10 7 NewMemoryStore)"

lemma demo_labels_ok: "labels_ok demo_labels" "no_collision demo_labels NewMemoryStore"
  by (auto simp: demo_labels_def gomap_ok_def no_collision_def NewMemoryStore_def)

lemma demo_head_reachable: "store_step\<^sup>*\<^sup>* NewMemoryStore demo_head"
  unfolding demo_head_def AppendNow_def
  using step_append [OF demo_labels_ok, of 0 5 10 7 0] by (auto simp: word_sless_alt)

theorem MemoryStore_invariant_witness:
  "card (active_of demo_head ''anonymous'') = 1"
proof -
  have "TenantSeries demo_head ''anonymous'' = 1" by code_simp
  then show ?thesis using MemoryStore_invariant [OF demo_head_reachable, of "''anonymous''"] by simp
qed

theorem Append_refines_witness:
  "QueryRange (Hash demo_labels) 10 10 (snd (AppendNow 5 demo_labels 10 7 NewMemoryStore)) =
     Some [\<lparr>sm_id = Hash demo_labels, sm_ts = 10, sm_val = 7, sm_gen = 5\<rparr>]"
  using Append_refines [OF rtranclp.rtrancl_refl demo_labels_ok, of 5 10 7]
  by (simp add: NextGeneration_def NewMemoryStore_def smax_def MaxGeneration_def word_sless_alt)

definition demo_params :: SelectParams where
  "demo_params = \<lparr>sp_Selector = \<lparr>sel_MetricName = ''up'', sel_Matchers = []\<rparr>, sp_MinT = 0, sp_MaxT = 20,
     sp_Anchor = True, sp_SeriesOnly = False, sp_AnyTime = False\<rparr>"

theorem Select_is_reference_witness:
  "perSeriesSelect demo_params demo_head = Some [\<lparr>sd_Labels = demo_labels, sd_Anchor = None,
     sd_Samples = [\<lparr>sm_id = Hash demo_labels, sm_ts = 10, sm_val = 7, sm_gen = 5\<rparr>]\<rparr>]"
  unfolding Select_is_reference [OF demo_head_reachable, symmetric] by code_simp

theorem discard_loses_nothing_witness:
  "\<exists>p c. (p, c) \<in> set (ms_chunks (series_of demo_labels demo_head))
     \<and> ((\<exists>ms'. map_of (st_series (DiscardSealedChunks (SealedChunksSnapshot demo_head) demo_head)) (Hash demo_labels) = Some ms' \<and> (p, c) \<in> set (ms_chunks ms'))
     \<or> (\<exists>sc \<in> set (SealedChunksSnapshot demo_head). sc_ID sc = Hash demo_labels \<and> (p, c) \<in> set (sc_Chunks sc)))"
proof -
  have "map_of (st_series demo_head) (Hash demo_labels) \<noteq> None" "ms_chunks (series_of demo_labels demo_head) \<noteq> []"
    by code_simp+
  then obtain ms p c where m: "map_of (st_series demo_head) (Hash demo_labels) = Some ms" "(p, c) \<in> set (ms_chunks ms)"
    by (auto simp: series_of_def split: option.splits) (metis list.set_intros(1) neq_Nil_conv surj_pair)
  from discard_loses_nothing [OF demo_head_reachable rtranclp.rtrancl_refl this] m show ?thesis
    by (intro exI [of _ p] exI [of _ c]) (simp add: series_of_def)
qed

theorem head_admission_witness:
  "Admit (\<lambda>_. 1) (TenantSeries NewMemoryStore) (HasSeries NewMemoryStore) [(''anonymous'', [1])] = None"
  using head_admission [OF rtranclp.rtrancl_refl, of "[(''anonymous'', [1])]" "\<lambda>_. 1"]
  by (simp add: active_of_def NewMemoryStore_def)

theorem replicas_converge_witness:
  "let l = demo_labels; w1 = (l, 10, 7, 3); w2 = (l, 10, 8, 4) in
   QueryRange (Hash l) 0 20 (apply_writes NewMemoryStore [w1, w2]) = QueryRange (Hash l) 0 20 (apply_writes NewMemoryStore [w2, w1, w2])"
  unfolding Let_def
  by (rule replicas_converge) (auto simp: writes_ok_def demo_labels_ok gen_ok_def MaxGeneration_def word_sless_alt)

end
