(* ===== verification/Segments.thy ===== *)
theory Segments
  imports Labels
begin

text \<open>
  What the metrics WAL (\<^verbatim>\<open>internal/storage/wal\<close>) and the log WAL
  (\<^verbatim>\<open>internal/storage/logwal\<close>) have in common: segment file names, the segment writer with its
  sync and rotation rules, and the replay loop with the repair of a torn tail. The record type
  is a parameter; the locale \<^verbatim>\<open>framed_log\<close> states what the loop needs of the record codec and
  holds the recovery theorems, which \<^verbatim>\<open>Wal\<close> and \<^verbatim>\<open>LogWal\<close> interpret on their codecs.
  An I/O failure of the operating system is an input of the operation (\<^verbatim>\<open>wfaults\<close>).
\<close>

section \<open>Segment names\<close>

text \<open>\<^verbatim>\<open>fmt.Sprintf("%06d.wal", idx)\<close> and \<^verbatim>\<open>strconv.Atoi\<close> on a name without its suffix.\<close>

definition digit_char :: "nat \<Rightarrow> char" where "digit_char d = char_of (48 + d)"
definition char_digit :: "char \<Rightarrow> nat" where "char_digit c = of_char c - 48"

fun decimal :: "nat \<Rightarrow> string" where
  "decimal n = (if n < 10 then [digit_char n] else decimal (n div 10) @ [digit_char (n mod 10)])"

declare decimal.simps [simp del]

definition fmt06d :: "nat \<Rightarrow> string" where
  "fmt06d n = replicate (6 - length (decimal n)) (CHR ''0'') @ decimal n"

definition digits_val :: "string \<Rightarrow> nat" where
  "digits_val s = foldl (\<lambda>v c. v * 10 + char_digit c) 0 s"

definition segmentName :: "nat \<Rightarrow> string" where "segmentName idx = fmt06d idx @ ''.wal''"

definition Atoi :: "string \<Rightarrow> int option" where
  "Atoi s =
     (let neg = (s \<noteq> [] \<and> hd s = CHR ''-'');
          ds = (if s \<noteq> [] \<and> (hd s = CHR ''-'' \<or> hd s = CHR ''+'') then tl s else s);
          v = (if neg then - int (digits_val ds) else int (digits_val ds))
      in if ds \<noteq> [] \<and> list_all is_digit ds \<and> - (2 ^ 63) \<le> v \<and> v < 2 ^ 63 then Some v else None)"

definition has_suffix :: "string \<Rightarrow> string \<Rightarrow> bool" where
  "has_suffix s suf \<longleftrightarrow> length suf \<le> length s \<and> drop (length s - length suf) s = suf"

definition trim_wal :: "string \<Rightarrow> string" where
  "trim_wal s = (if has_suffix s ''.wal'' then take (length s - 4) s else s)"

section \<open>Framing and the replay loop\<close>

definition frame :: "bytes \<Rightarrow> bytes" where
  "frame body = put_u32 (of_nat (length body)) @ body"

datatype replay_error = ErrReadLength | ErrOversized | ErrReadBody | ErrCorrupt
datatype replay_end = ReplayDone | ReplayTruncated nat | ReplayFailed replay_error

text \<open>
  The loop of \<^verbatim>\<open>replaySegment\<close> on the bytes not yet read. \<^verbatim>\<open>io.ReadFull\<close> returns
  \<^verbatim>\<open>io.EOF\<close> when it could read no byte and \<^verbatim>\<open>io.ErrUnexpectedEOF\<close> when it could read some but
  not all, and reading into an empty buffer always succeeds. The result is the list of records
  passed to the callback and how the loop ended; \<^verbatim>\<open>ReplayTruncated off\<close> means that the file
  was truncated to \<^verbatim>\<open>off\<close> bytes.
\<close>

function replay_loop :: "(bytes \<Rightarrow> 'r option) \<Rightarrow> nat \<Rightarrow> bool \<Rightarrow> nat \<Rightarrow> bytes \<Rightarrow> 'r list \<times> replay_end" where
  "replay_loop dec maxBody isLast offset bs =
     (if bs = [] then ([], ReplayDone)
      else if length bs < 4 then
        ([], if isLast then ReplayTruncated offset else ReplayFailed ErrReadLength)
      else
        let bodyLen = unat (get_be (take 4 bs) :: u32); rest = drop 4 bs in
        if bodyLen > maxBody then
          ([], if isLast then ReplayTruncated offset else ReplayFailed ErrOversized)
        else if length rest < bodyLen then
          ([], if rest \<noteq> [] \<and> isLast then ReplayTruncated offset else ReplayFailed ErrReadBody)
        else
          case dec (take bodyLen rest) of
            None \<Rightarrow> ([], ReplayFailed ErrCorrupt)
          | Some r \<Rightarrow>
            (let (rs, e) = replay_loop dec maxBody isLast (offset + 4 + bodyLen) (drop bodyLen rest)
             in (r # rs, e)))"
  by pat_completeness auto
termination
  by (relation "measure (\<lambda>(_, _, _, _, bs). length bs)") auto

declare replay_loop.simps [simp del]

definition replaySegment :: "(bytes \<Rightarrow> 'r option) \<Rightarrow> nat \<Rightarrow> bool \<Rightarrow> bytes \<Rightarrow> 'r list \<times> replay_end" where
  "replaySegment dec maxBody isLast bs = replay_loop dec maxBody isLast 0 bs"

definition repaired :: "bytes \<Rightarrow> replay_end \<Rightarrow> bytes" where
  "repaired bs e = (case e of ReplayTruncated off \<Rightarrow> take off bs | _ \<Rightarrow> bs)"

text \<open>
  The loop over the ordered segment files: the records seen, the files after repair, and the
  error if one stopped it.
\<close>

fun replay_files :: "(bytes \<Rightarrow> 'r option) \<Rightarrow> nat \<Rightarrow> bytes list \<Rightarrow> 'r list \<times> bytes list \<times> replay_error option" where
  "replay_files dec maxBody [] = ([], [], None)"
| "replay_files dec maxBody (bs # rest) =
     (let (rs, e) = replaySegment dec maxBody (rest = []) bs in
      case e of
        ReplayFailed err \<Rightarrow> (rs, bs # rest, Some err)
      | _ \<Rightarrow> (let (rs', files', err) = replay_files dec maxBody rest
              in (rs @ rs', repaired bs e # files', err)))"

section \<open>The segment writer\<close>

record wfile =
  f_data :: bytes
  f_synced :: nat

record wfaults =
  ft_write :: "nat option"
  ft_sync :: bool
  ft_rotsync :: bool
  ft_close :: bool
  ft_open :: bool
  ft_syncdir :: bool

definition no_faults :: wfaults where
  "no_faults = \<lparr>ft_write = None, ft_sync = False, ft_rotsync = False, ft_close = False,
     ft_open = False, ft_syncdir = False\<rparr>"

datatype werror = WClosed | WBroken | WLabels | WWrite | WSync | WRotateSync | WRotateClose | WOpen | WSyncDir | WRemove

record SegWriter =
  sw_segMaxBytes :: int
  sw_syncEveryN :: int
  sw_open :: bool
  sw_segIndex :: nat
  sw_written :: nat
  sw_sinceSynced :: nat
  sw_broken :: bool
  sw_autoSyncs :: nat
  sw_preRotationSyncs :: nat
  sw_dir :: "(nat \<times> wfile) list"

definition upd_cur :: "(wfile \<Rightarrow> wfile) \<Rightarrow> SegWriter \<Rightarrow> SegWriter" where
  "upd_cur g w = w\<lparr>sw_dir := map (\<lambda>(i, f). if i = sw_segIndex w then (i, g f) else (i, f)) (sw_dir w)\<rparr>"

definition cur_append :: "bytes \<Rightarrow> SegWriter \<Rightarrow> SegWriter" where
  "cur_append data = upd_cur (\<lambda>f. f\<lparr>f_data := f_data f @ data\<rparr>)"

definition cur_sync :: "SegWriter \<Rightarrow> SegWriter" where
  "cur_sync = upd_cur (\<lambda>f. f\<lparr>f_synced := length (f_data f)\<rparr>)"

text \<open>\<^verbatim>\<open>O_CREATE|O_APPEND\<close>: an existing file is opened for appending, a missing one is created.\<close>

definition openSegment :: "wfaults \<Rightarrow> nat \<Rightarrow> SegWriter \<Rightarrow> SegWriter \<times> werror option" where
  "openSegment ft idx w =
     (if ft_open ft then (w, Some WOpen)
      else
        let w1 = (if idx \<in> fst ` set (sw_dir w) then w
                  else w\<lparr>sw_dir := sw_dir w @ [(idx, \<lparr>f_data = [], f_synced = 0\<rparr>)]\<rparr>)
        in if ft_syncdir ft then (w1, Some WSyncDir)
           else (w1\<lparr>sw_open := True, sw_segIndex := idx, sw_written := 0, sw_sinceSynced := 0\<rparr>, None))"

text \<open>The part of \<^verbatim>\<open>WriteRecordGen\<close> and \<^verbatim>\<open>WriteRecord\<close> after the record has been encoded.\<close>

definition rotateSegment :: "wfaults \<Rightarrow> SegWriter \<Rightarrow> SegWriter \<times> werror option" where
  "rotateSegment ft w =
     (if int (sw_written w) \<ge> sw_segMaxBytes w then
        (if ft_rotsync ft then (w, Some WRotateSync)
         else
           let w1 = (cur_sync w)\<lparr>sw_preRotationSyncs := sw_preRotationSyncs w + 1\<rparr> in
           if ft_close ft then (w1, Some WRotateClose)
           else
             case openSegment ft (sw_segIndex w1 + 1) (w1\<lparr>sw_broken := True\<rparr>) of
               (w2, Some e) \<Rightarrow> (w2, Some e)
             | (w2, None) \<Rightarrow> (w2\<lparr>sw_broken := False\<rparr>, None))
      else (w, None))"

definition writeData :: "wfaults \<Rightarrow> bytes \<Rightarrow> SegWriter \<Rightarrow> SegWriter \<times> werror option" where
  "writeData ft data w =
     (case ft_write ft of
        Some k \<Rightarrow> (cur_append (take k data) w, Some WWrite)
      | None \<Rightarrow>
        let w1 = (cur_append data w)\<lparr>sw_written := sw_written w + length data,
                    sw_sinceSynced := sw_sinceSynced w + 1\<rparr>
        in if sw_syncEveryN w1 > 0 \<and> int (sw_sinceSynced w1) \<ge> sw_syncEveryN w1 then
             (if ft_sync ft then (w1, Some WSync)
              else rotateSegment ft ((cur_sync w1)\<lparr>sw_sinceSynced := 0, sw_autoSyncs := sw_autoSyncs w1 + 1\<rparr>))
           else rotateSegment ft w1)"

definition Sync :: "bool \<Rightarrow> SegWriter \<Rightarrow> SegWriter \<times> werror option" where
  "Sync fault w =
     (if sw_broken w then (w, Some WBroken)
      else if fault then (w, Some WSync) else (cur_sync w, None))"

definition maxIndex :: "(nat \<times> wfile) list \<Rightarrow> nat" where
  "maxIndex d = foldl (\<lambda>m (i, f). if i > m then i else m) 0 d"

definition OpenDir :: "wfaults \<Rightarrow> (nat \<times> wfile) list \<Rightarrow> int \<Rightarrow> int \<Rightarrow> SegWriter \<times> werror option" where
  "OpenDir ft d segMaxBytes syncEveryN =
     openSegment ft (maxIndex d + 1)
       \<lparr>sw_segMaxBytes = segMaxBytes, sw_syncEveryN = syncEveryN, sw_open = False,
        sw_segIndex = maxIndex d + 1, sw_written = 0, sw_sinceSynced = 0, sw_broken = False,
        sw_autoSyncs = 0, sw_preRotationSyncs = 0, sw_dir = d\<rparr>"

text \<open>
  A crash of the host keeps of every file at least the synced bytes and possibly more, up to
  what had been written.
\<close>

definition crashed :: "(nat \<times> wfile) list \<Rightarrow> bytes list \<Rightarrow> bool" where
  "crashed d files \<longleftrightarrow> list_all2 (\<lambda>(i, f) bs. \<exists>k. f_synced f \<le> k \<and> bs = take k (f_data f)) d files"

section \<open>Recovery of framed records\<close>

definition frames :: "('r \<Rightarrow> bytes) \<Rightarrow> 'r list \<Rightarrow> bytes" where
  "frames enc rs = concat (map (\<lambda>r. frame (enc r)) rs)"

lemma frames_simps [simp]:
  "frames enc [] = []" "frames enc (r # rs) = frame (enc r) @ frames enc rs"
  "frames enc (rs @ rs') = frames enc rs @ frames enc rs'"
  by (simp_all add: frames_def)

lemma length_frame [simp]: "length (frame b) = 4 + length b"
  by (simp add: frame_def)

text \<open>
  The cut of a segment after which replay does not recover: exactly the length prefix of a
  record is left.
\<close>

definition bad_cut :: "('r \<Rightarrow> bytes) \<Rightarrow> 'r list \<Rightarrow> nat \<Rightarrow> bool" where
  "bad_cut enc rs k \<longleftrightarrow> (\<exists>j < length rs. k = length (frames enc (take j rs)) + 4)"

lemma bad_cut_Cons:
  "bad_cut enc (r # rs) k \<longleftrightarrow> k = 4 \<or> (4 + length (enc r) \<le> k \<and> bad_cut enc rs (k - (4 + length (enc r))))"
proof
  assume "bad_cut enc (r # rs) k"
  then obtain j where j: "j < Suc (length rs)" "k = length (frames enc (take j (r # rs))) + 4"
    by (auto simp: bad_cut_def)
  then show "k = 4 \<or> (4 + length (enc r) \<le> k \<and> bad_cut enc rs (k - (4 + length (enc r))))"
    by (cases j) (auto simp: bad_cut_def)
next
  assume "k = 4 \<or> (4 + length (enc r) \<le> k \<and> bad_cut enc rs (k - (4 + length (enc r))))"
  then show "bad_cut enc (r # rs) k"
  proof
    assume "k = 4"
    then show ?thesis by (auto simp: bad_cut_def intro!: exI [of _ 0])
  next
    assume a: "4 + length (enc r) \<le> k \<and> bad_cut enc rs (k - (4 + length (enc r)))"
    then obtain j where "j < length rs" "k - (4 + length (enc r)) = length (frames enc (take j rs)) + 4"
      by (auto simp: bad_cut_def)
    then show ?thesis using a by (auto simp: bad_cut_def intro!: exI [of _ "Suc j"])
  qed
qed

text \<open>
  The state of a writer that has seen no failure: \<^verbatim>\<open>rss\<close> are the records of the completed
  segments, all synced; \<^verbatim>\<open>rs\<close> are those of the current one, of which at most the last
  \<^verbatim>\<open>sinceSynced\<close> are not synced.
\<close>

definition seg_rep :: "('r \<Rightarrow> bytes) \<Rightarrow> SegWriter \<Rightarrow> 'r list list \<Rightarrow> 'r list \<Rightarrow> bool" where
  "seg_rep enc w rss rs \<longleftrightarrow> \<not> sw_broken w \<and> sw_open w
     \<and> (\<exists>full cur. sw_dir w = full @ [(sw_segIndex w, cur)]
         \<and> ascending (map fst full @ [sw_segIndex w])
         \<and> map (\<lambda>(i, f). f_data f) full = map (frames enc) rss
         \<and> (\<forall>(i, f) \<in> set full. f_synced f = length (f_data f))
         \<and> f_data cur = frames enc rs
         \<and> length (frames enc (take (length rs - sw_sinceSynced w) rs)) \<le> f_synced cur
         \<and> f_synced cur \<le> length (frames enc rs))
     \<and> (sw_syncEveryN w > 0 \<longrightarrow> int (sw_sinceSynced w) < sw_syncEveryN w)"

lemma upd_cur_dir:
  assumes "sw_dir w = full @ [(sw_segIndex w, cur)]" "ascending (map fst full @ [sw_segIndex w])"
  shows "sw_dir (upd_cur g w) = full @ [(sw_segIndex w, g cur)]"
proof -
  have "\<forall>x \<in> set full. fst x < sw_segIndex w" using assms(2) by (simp add: sorted_wrt_append)
  then have "map (\<lambda>(i, f). if i = sw_segIndex w then (i, g f) else (i, f)) full = full"
    by (intro map_idI) auto
  then show ?thesis by (simp add: upd_cur_def assms(1))
qed

lemma upd_cur_sel [simp]:
  "sw_segMaxBytes (upd_cur g w) = sw_segMaxBytes w" "sw_syncEveryN (upd_cur g w) = sw_syncEveryN w"
  "sw_open (upd_cur g w) = sw_open w" "sw_segIndex (upd_cur g w) = sw_segIndex w"
  "sw_written (upd_cur g w) = sw_written w" "sw_sinceSynced (upd_cur g w) = sw_sinceSynced w"
  "sw_broken (upd_cur g w) = sw_broken w"
  by (simp_all add: upd_cur_def)

lemma seg_rep_append:
  assumes "seg_rep enc w rss rs"
  shows "seg_rep enc ((cur_append (frame (enc r)) w)\<lparr>sw_written := n, sw_sinceSynced := sw_sinceSynced w + 1, sw_syncEveryN := 0\<rparr>)
     rss (rs @ [r])"
proof -
  obtain full cur where D: "sw_dir w = full @ [(sw_segIndex w, cur)]" "ascending (map fst full @ [sw_segIndex w])"
    "map (\<lambda>(i, f). f_data f) full = map (frames enc) rss" "\<forall>(i, f) \<in> set full. f_synced f = length (f_data f)"
    "f_data cur = frames enc rs" "length (frames enc (take (length rs - sw_sinceSynced w) rs)) \<le> f_synced cur"
    "f_synced cur \<le> length (frames enc rs)"
    using assms by (auto simp: seg_rep_def)
  show ?thesis using assms D upd_cur_dir [OF D(1,2)]
    by (auto simp: seg_rep_def cur_append_def intro!: exI [of _ full])
qed

lemma seg_rep_sync:
  assumes "seg_rep enc (w\<lparr>sw_syncEveryN := 0\<rparr>) rss rs"
  shows "seg_rep enc ((cur_sync w)\<lparr>sw_sinceSynced := 0, sw_autoSyncs := n\<rparr>) rss rs"
proof -
  obtain full cur where D: "sw_dir w = full @ [(sw_segIndex w, cur)]" "ascending (map fst full @ [sw_segIndex w])"
    "map (\<lambda>(i, f). f_data f) full = map (frames enc) rss" "\<forall>(i, f) \<in> set full. f_synced f = length (f_data f)"
    "f_data cur = frames enc rs"
    using assms by (auto simp: seg_rep_def)
  show ?thesis using assms D upd_cur_dir [OF D(1,2)]
    by (auto simp: seg_rep_def cur_sync_def intro!: exI [of _ full])
qed

lemma seg_rep_rotate:
  assumes "seg_rep enc w rss rs"
  obtains w' rss' rs' where "rotateSegment no_faults w = (w', None)" "seg_rep enc w' rss' rs'"
    "concat rss' @ rs' = concat rss @ rs" "sw_syncEveryN w' = sw_syncEveryN w"
proof (cases "int (sw_written w) \<ge> sw_segMaxBytes w")
  case True
  obtain full cur where D: "sw_dir w = full @ [(sw_segIndex w, cur)]" "ascending (map fst full @ [sw_segIndex w])"
    "map (\<lambda>(i, f). f_data f) full = map (frames enc) rss" "\<forall>(i, f) \<in> set full. f_synced f = length (f_data f)"
    "f_data cur = frames enc rs"
    using assms by (auto simp: seg_rep_def)
  have cs: "sw_dir (cur_sync w) = full @ [(sw_segIndex w, cur\<lparr>f_synced := length (f_data cur)\<rparr>)]"
    unfolding cur_sync_def by (rule upd_cur_dir [OF D(1,2)])
  have new: "Suc (sw_segIndex w) \<notin> fst ` set full" using D(2) by (auto simp: sorted_wrt_append)
  have lt: "a < Suc (sw_segIndex w)" if "(a, b) \<in> set full" for a b
    using D(2) that by (fastforce simp: sorted_wrt_append)
  obtain w' where w': "rotateSegment no_faults w = (w', None)" by (simp add: rotateSegment_def True no_faults_def openSegment_def Let_def)
  moreover have "seg_rep enc w' (rss @ [rs]) []"
    using w' D new assms cs lt
    by (auto simp: rotateSegment_def True no_faults_def openSegment_def Let_def seg_rep_def cur_sync_def sorted_wrt_append)
  ultimately show ?thesis
    using that [of w' "rss @ [rs]" "[]"] by (auto simp: rotateSegment_def True no_faults_def openSegment_def Let_def cur_sync_def)
next
  case False
  then show ?thesis using that [of w rss rs] assms by (simp add: rotateSegment_def)
qed

lemma writeData_rep:
  assumes "seg_rep enc w rss rs"
  obtains w' rss' rs' where "writeData no_faults (frame (enc r)) w = (w', None)" "seg_rep enc w' rss' rs'"
    "concat rss' @ rs' = concat rss @ rs @ [r]" "sw_syncEveryN w' = sw_syncEveryN w"
proof -
  define w1 where "w1 = (cur_append (frame (enc r)) w)\<lparr>sw_written := sw_written w + length (frame (enc r)),
      sw_sinceSynced := sw_sinceSynced w + 1\<rparr>"
  have r1: "seg_rep enc (w1\<lparr>sw_syncEveryN := 0\<rparr>) rss (rs @ [r])"
    unfolding w1_def using seg_rep_append [OF assms] by simp
  have n1: "sw_syncEveryN w1 = sw_syncEveryN w" by (simp add: w1_def cur_append_def)
  define w2 where "w2 = (if sw_syncEveryN w1 > 0 \<and> int (sw_sinceSynced w1) \<ge> sw_syncEveryN w1
      then (cur_sync w1)\<lparr>sw_sinceSynced := 0, sw_autoSyncs := sw_autoSyncs w1 + 1\<rparr> else w1)"
  have "seg_rep enc w2 rss (rs @ [r])"
    using r1 seg_rep_sync [OF r1] unfolding w2_def by (auto simp: seg_rep_def)
  then obtain w' rss' rs' where W: "rotateSegment no_faults w2 = (w', None)" "seg_rep enc w' rss' rs'"
    "concat rss' @ rs' = concat rss @ (rs @ [r])" "sw_syncEveryN w' = sw_syncEveryN w2"
    by (rule seg_rep_rotate)
  moreover have "writeData no_faults (frame (enc r)) w = rotateSegment no_faults w2"
    by (simp add: writeData_def no_faults_def w2_def w1_def Let_def)
  moreover have "sw_syncEveryN w2 = sw_syncEveryN w" by (simp add: w2_def n1 cur_sync_def)
  ultimately show ?thesis using that by simp
qed

lemma crashed_rep:
  assumes "seg_rep enc w rss rs" "crashed (sw_dir w) files"
  obtains k where "files = map (frames enc) rss @ [take k (frames enc rs)]"
    "length (frames enc (take (length rs - sw_sinceSynced w) rs)) \<le> k" "k = length (last files)"
proof -
  obtain full cur where D: "sw_dir w = full @ [(sw_segIndex w, cur)]"
    "map (\<lambda>(i, f). f_data f) full = map (frames enc) rss" "\<forall>(i, f) \<in> set full. f_synced f = length (f_data f)"
    "f_data cur = frames enc rs" "length (frames enc (take (length rs - sw_sinceSynced w) rs)) \<le> f_synced cur"
    "f_synced cur \<le> length (frames enc rs)"
    using assms(1) by (auto simp: seg_rep_def)
  obtain fs k where F: "files = fs @ [take k (f_data cur)]" "f_synced cur \<le> k" 
    "list_all2 (\<lambda>(i, f) bs. \<exists>k. f_synced f \<le> k \<and> bs = take k (f_data f)) full fs"
    using assms(2) by (auto simp: crashed_def D(1) list_all2_append1 list_all2_Cons1)
  have "fs = map (\<lambda>(i, f). f_data f) full"
    using F(3) D(3) by (induction full fs rule: list_all2_induct) auto
  then have "files = map (frames enc) rss @ [take (min k (length (frames enc rs))) (frames enc rs)]"
    using F(1) D(2,4) by (simp add: min_def)
  then show ?thesis using D(5,6) F(2) by (intro that [of "min k (length (frames enc rs))"]) auto
qed

locale framed_log =
  fixes enc :: "'r \<Rightarrow> bytes" and dec :: "bytes \<Rightarrow> 'r option" and maxBody :: nat and ok :: "'r \<Rightarrow> bool"
  assumes dec_enc: "ok r \<Longrightarrow> dec (enc r) = Some r"
    and enc_size: "ok r \<Longrightarrow> 0 < length (enc r) \<and> length (enc r) \<le> maxBody"
    and max_u32: "maxBody < 2 ^ 32"
begin

lemma body_len:
  assumes "ok r"
  shows "unat (of_nat (length (enc r)) :: u32) = length (enc r)"
  using enc_size [OF assms] max_u32 by (simp only: unat_of_nat) (simp add: take_bit_nat_eq_self)

lemma replay_frame:
  assumes "ok r"
  shows "replay_loop dec maxBody il off (frame (enc r) @ bs) =
    apfst ((#) r) (replay_loop dec maxBody il (off + (4 + length (enc r))) bs)"
  using enc_size [OF assms] body_len [OF assms] dec_enc [OF assms]
  by (subst replay_loop.simps) (auto simp: frame_def Let_def add.assoc split: prod.splits)

lemma replay_frames:
  assumes "\<forall>r \<in> set rs. ok r"
  shows "replay_loop dec maxBody il off (frames enc rs @ bs) =
    apfst ((@) rs) (replay_loop dec maxBody il (off + length (frames enc rs)) bs)"
  using assms by (induction rs arbitrary: off) (auto simp: replay_frame add.assoc apfst_def map_prod_def split: prod.splits)

lemma replay_torn:
  assumes "ok r" "0 < k" "k < 4 + length (enc r)"
  shows "replay_loop dec maxBody il off (take k (frame (enc r))) =
    ([], if il \<and> k \<noteq> 4 then ReplayTruncated off
         else ReplayFailed (if k < 4 then ErrReadLength else ErrReadBody))"
proof -
  have l: "length (take k (frame (enc r))) = k" using assms by simp
  then have ne: "take k (frame (enc r)) \<noteq> []" using assms(2) by (metis list.size(3) less_irrefl)
  show ?thesis
  proof (cases "k < 4")
  case True
  then show ?thesis using assms ne l by (subst replay_loop.simps) simp
next
  case False
  have t0: "take 4 (frame (enc r)) = put_u32 (of_nat (length (enc r)))" by (simp add: frame_def)
  have t: "take 4 (take k (frame (enc r))) = put_u32 (of_nat (length (enc r)))"
    "drop 4 (take k (frame (enc r))) = take (k - 4) (enc r)"
    using False assms by (simp_all add: frame_def min_def take_drop [symmetric] drop_take)
  have "\<not> length (enc r) \<le> k - 4" using assms False by simp
  then show ?thesis
    using ne False assms enc_size [OF assms(1)] body_len [OF assms(1)] l
    by (subst replay_loop.simps) (simp add: t t0 Let_def min_def)
  qed
qed

lemma replay_cut:
  assumes "\<forall>r \<in> set rs. ok r" "\<not> bad_cut enc rs k"
  shows "\<exists>j e. replay_loop dec maxBody True off (take k (frames enc rs)) = (take j rs, e) \<and> j \<le> length rs
    \<and> (e = ReplayDone \<and> take k (frames enc rs) = frames enc (take j rs)
       \<or> e = ReplayTruncated (off + length (frames enc (take j rs)))
         \<and> take (length (frames enc (take j rs))) (take k (frames enc rs)) = frames enc (take j rs))
    \<and> (\<forall>i \<le> length rs. length (frames enc (take i rs)) \<le> k \<longrightarrow> i \<le> j)"
  using assms
proof (induction rs arbitrary: off k)
  case Nil
  then show ?case by (auto simp: replay_loop.simps)
next
  case (Cons r rs)
  let ?n = "4 + length (enc r)"
  have r: "ok r" using Cons.prems by simp
  show ?case
  proof (cases "?n \<le> k")
    case True
    then have t: "take k (frames enc (r # rs)) = frame (enc r) @ take (k - ?n) (frames enc rs)" by simp
    have nb: "\<not> bad_cut enc rs (k - ?n)" using Cons.prems(2) True by (simp add: bad_cut_Cons)
    obtain j e where IH: "replay_loop dec maxBody True (off + ?n) (take (k - ?n) (frames enc rs)) = (take j rs, e)"
      "j \<le> length rs"
      "e = ReplayDone \<and> take (k - ?n) (frames enc rs) = frames enc (take j rs)
       \<or> e = ReplayTruncated (off + ?n + length (frames enc (take j rs)))
         \<and> take (length (frames enc (take j rs))) (take (k - ?n) (frames enc rs)) = frames enc (take j rs)"
      "\<forall>i \<le> length rs. length (frames enc (take i rs)) \<le> k - ?n \<longrightarrow> i \<le> j"
      using Cons.IH [of "k - ?n" "off + ?n"] Cons.prems(1) nb by auto
    have "i \<le> Suc j" if "i \<le> length (r # rs)" "length (frames enc (take i (r # rs))) \<le> k" for i
      using that IH(4) by (cases i) auto
    moreover have "replay_loop dec maxBody True off (take k (frames enc (r # rs))) = (take (Suc j) (r # rs), e)"
      unfolding t replay_frame [OF r] IH(1) by simp
    ultimately show ?thesis using IH(2,3) t by (intro exI [of _ "Suc j"] exI [of _ e]) auto
  next
    case False
    then have t: "take k (frames enc (r # rs)) = take k (frame (enc r))" by simp
    have small: "i \<le> 0" if "length (frames enc (take i (r # rs))) \<le> k" for i
      using that False by (cases i) auto
    show ?thesis
    proof (cases "k = 0")
      case True
      then show ?thesis using small t by (intro exI [of _ 0] exI [of _ ReplayDone]) (auto simp: replay_loop.simps)
    next
      case k: False
      have "k \<noteq> 4" using Cons.prems(2) by (simp add: bad_cut_Cons)
      then have "replay_loop dec maxBody True off (take k (frames enc (r # rs))) = ([], ReplayTruncated off)"
        unfolding t using replay_torn [OF r, of k True off] k False by simp
      then show ?thesis using small by (intro exI [of _ 0] exI [of _ "ReplayTruncated off"]) auto
    qed
  qed
qed

lemma replay_whole:
  assumes "\<forall>r \<in> set rs. ok r"
  shows "replaySegment dec maxBody il (frames enc rs) = (rs, ReplayDone)"
  using replay_frames [OF assms, of il 0 "[]"] by (simp add: replaySegment_def replay_loop.simps)

lemma replay_files_whole:
  assumes "\<forall>rs \<in> set rss. \<forall>r \<in> set rs. ok r"
  shows "replay_files dec maxBody (map (frames enc) rss) = (concat rss, map (frames enc) rss, None)"
  using assms by (induction rss) (auto simp: replay_whole repaired_def)

lemma replay_files_crash:
  assumes "\<forall>rs \<in> set (rss @ [rs]). \<forall>r \<in> set rs. ok r" "\<not> bad_cut enc rs k"
  shows "\<exists>j \<le> length rs. replay_files dec maxBody (map (frames enc) rss @ [take k (frames enc rs)]) =
      (concat rss @ take j rs, map (frames enc) (rss @ [take j rs]), None)
    \<and> (\<forall>i \<le> length rs. length (frames enc (take i rs)) \<le> k \<longrightarrow> i \<le> j)"
  using assms(1)
proof (induction rss)
  case Nil
  obtain j e where J: "replay_loop dec maxBody True 0 (take k (frames enc rs)) = (take j rs, e)" "j \<le> length rs"
      "e = ReplayDone \<and> take k (frames enc rs) = frames enc (take j rs)
       \<or> e = ReplayTruncated (length (frames enc (take j rs)))
         \<and> take (length (frames enc (take j rs))) (take k (frames enc rs)) = frames enc (take j rs)"
      "\<forall>i \<le> length rs. length (frames enc (take i rs)) \<le> k \<longrightarrow> i \<le> j"
    using replay_cut [of rs k 0] Nil assms(2) by auto
  then show ?case by (intro exI [of _ j]) (auto simp: replaySegment_def repaired_def)
next
  case (Cons rs0 rss)
  then obtain j where "j \<le> length rs" "replay_files dec maxBody (map (frames enc) rss @ [take k (frames enc rs)]) =
      (concat rss @ take j rs, map (frames enc) (rss @ [take j rs]), None)"
     "\<forall>i \<le> length rs. length (frames enc (take i rs)) \<le> k \<longrightarrow> i \<le> j" by auto
  then show ?case using Cons.prems by (intro exI [of _ j]) (auto simp: replay_whole repaired_def)
qed


lemma crash_recovery:
  assumes "seg_rep enc w rss rs" "\<forall>r \<in> set (concat rss @ rs). ok r" "crashed (sw_dir w) files"
    and "\<not> bad_cut enc rs (length (last files))"
  shows "\<exists>j files'. replay_files dec maxBody files = (take j (concat rss @ rs), files', None)
      \<and> length (concat rss @ rs) \<le> j + sw_sinceSynced w
      \<and> replay_files dec maxBody (files' @ [[]]) = (take j (concat rss @ rs), files' @ [[]], None)"
proof -
  obtain k where k: "files = map (frames enc) rss @ [take k (frames enc rs)]"
      "length (frames enc (take (length rs - sw_sinceSynced w) rs)) \<le> k" "k = length (last files)"
    using crashed_rep [OF assms(1,3)] by blast
  have oks: "\<forall>rs' \<in> set (rss @ [rs]). \<forall>r \<in> set rs'. ok r" using assms(2) by auto
  have nb: "\<not> bad_cut enc rs k" using assms(4) unfolding k(3) .
  obtain j where j: "j \<le> length rs"
      "replay_files dec maxBody files = (concat rss @ take j rs, map (frames enc) (rss @ [take j rs]), None)"
      "\<forall>i \<le> length rs. length (frames enc (take i rs)) \<le> k \<longrightarrow> i \<le> j"
    using replay_files_crash [OF oks nb] unfolding k(1) by blast
  have n: "length (concat rss @ rs) \<le> length (concat rss) + j + sw_sinceSynced w"
    using j(3) [rule_format, of "length rs - sw_sinceSynced w"] k(2) by simp
  have t: "take (length (concat rss) + j) (concat rss @ rs) = concat rss @ take j rs" by simp
  have "\<forall>rs' \<in> set (rss @ [take j rs, []]). \<forall>r \<in> set rs'. ok r"
    using oks by (auto dest: in_set_takeD)
  from replay_files_whole [OF this]
  have w: "replay_files dec maxBody (map (frames enc) (rss @ [take j rs]) @ [[]]) =
      (concat rss @ take j rs, map (frames enc) (rss @ [take j rs]) @ [[]], None)" by simp
  show ?thesis
    by (rule exI [of _ "length (concat rss) + j"], rule exI [of _ "map (frames enc) (rss @ [take j rs])"],
        unfold t, intro conjI, rule j(2), rule n, rule w)
qed

lemma replay_bad_cut_prefix:
  assumes "\<forall>r \<in> set rs. ok r" "bad_cut enc rs k"
  shows "\<exists>j \<le> length rs. replay_loop dec maxBody True off (take k (frames enc rs)) = (take j rs, ReplayFailed ErrReadBody)
    \<and> (\<forall>i \<le> length rs. length (frames enc (take i rs)) \<le> k \<longrightarrow> i \<le> j)"
proof -
  obtain j where j: "j < length rs" "k = length (frames enc (take j rs)) + 4"
    using assms(2) by (auto simp: bad_cut_def)
  have f: "frames enc rs = frames enc (take j rs) @ frame (enc (rs ! j)) @ frames enc (drop (Suc j) rs)"
    using id_take_nth_drop [OF j(1)] by (metis append.assoc frames_simps(2,3))
  have r: "ok (rs ! j)" using assms(1) j by simp
  have "take k (frames enc rs) = frames enc (take j rs) @ take 4 (frame (enc (rs ! j)))"
    unfolding f j(2) by simp
  moreover have "\<forall>r \<in> set (take j rs). ok r" using assms(1) by (meson in_set_takeD)
  ultimately have "replay_loop dec maxBody True off (take k (frames enc rs)) = (take j rs, ReplayFailed ErrReadBody)"
    using replay_torn [OF r, of 4 True] enc_size [OF r] by (auto simp: replay_frames)
  moreover have "i \<le> j" if i: "i \<le> length rs" "length (frames enc (take i rs)) \<le> k" for i
  proof (rule ccontr)
    assume "\<not> i \<le> j"
    then have "j < length (take i rs)" using j(1) by simp
    moreover have "take j (take i rs) = take j rs" "take i rs ! j = rs ! j" using \<open>\<not> i \<le> j\<close> by (simp_all add: min_def)
    ultimately obtain zs where "take i rs = take j rs @ rs ! j # zs"
      using id_take_nth_drop [of j "take i rs"] by auto
    then show False using i(2) j(2) enc_size [OF r] by simp
  qed
  ultimately show ?thesis using j(1) by (intro exI [of _ j]) simp
qed

lemma replay_files_bad_cut:
  assumes "\<forall>rs \<in> set (rss @ [rs]). \<forall>r \<in> set rs. ok r" "bad_cut enc rs k"
  shows "\<exists>j \<le> length rs. replay_files dec maxBody (map (frames enc) rss @ [take k (frames enc rs)]) =
      (concat rss @ take j rs, map (frames enc) rss @ [take k (frames enc rs)], Some ErrReadBody)
    \<and> (\<forall>i \<le> length rs. length (frames enc (take i rs)) \<le> k \<longrightarrow> i \<le> j)"
  using assms(1)
proof (induction rss)
  case Nil
  obtain j where "j \<le> length rs" "replay_loop dec maxBody True 0 (take k (frames enc rs)) = (take j rs, ReplayFailed ErrReadBody)"
      "\<forall>i \<le> length rs. length (frames enc (take i rs)) \<le> k \<longrightarrow> i \<le> j"
    using replay_bad_cut_prefix [of rs k 0] Nil assms(2) by auto
  then show ?case by (intro exI [of _ j]) (simp add: replaySegment_def)
next
  case (Cons rs0 rss)
  then obtain j where "j \<le> length rs" "replay_files dec maxBody (map (frames enc) rss @ [take k (frames enc rs)]) =
      (concat rss @ take j rs, map (frames enc) rss @ [take k (frames enc rs)], Some ErrReadBody)"
     "\<forall>i \<le> length rs. length (frames enc (take i rs)) \<le> k \<longrightarrow> i \<le> j" by auto
  then show ?case using Cons.prems by (intro exI [of _ j]) (auto simp: replay_whole repaired_def)
qed

text \<open>Recovery for every cut: the one cut that replay does not repair is an error, on the same prefix.\<close>

lemma crash_recovery_any:
  assumes "seg_rep enc w rss rs" "\<forall>r \<in> set (concat rss @ rs). ok r" "crashed (sw_dir w) files"
  shows "\<exists>j files'. replay_files dec maxBody files =
        (take j (concat rss @ rs), files', if bad_cut enc rs (length (last files)) then Some ErrReadBody else None)
      \<and> length (concat rss @ rs) \<le> j + sw_sinceSynced w
      \<and> (if bad_cut enc rs (length (last files)) then files' = files
         else replay_files dec maxBody (files' @ [[]]) = (take j (concat rss @ rs), files' @ [[]], None))"
proof (cases "bad_cut enc rs (length (last files))")
  case False
  with crash_recovery [OF assms] show ?thesis by auto
next
  case True
  obtain k where k: "files = map (frames enc) rss @ [take k (frames enc rs)]"
      "length (frames enc (take (length rs - sw_sinceSynced w) rs)) \<le> k" "k = length (last files)"
    using crashed_rep [OF assms(1,3)] by blast
  have oks: "\<forall>rs' \<in> set (rss @ [rs]). \<forall>r \<in> set rs'. ok r" using assms(2) by auto
  obtain j where j: "j \<le> length rs"
      "replay_files dec maxBody files = (concat rss @ take j rs, files, Some ErrReadBody)"
      "\<forall>i \<le> length rs. length (frames enc (take i rs)) \<le> k \<longrightarrow> i \<le> j"
    using replay_files_bad_cut [OF oks True [folded k(3)]] unfolding k(1) by blast
  have "length (concat rss @ rs) \<le> length (concat rss) + j + sw_sinceSynced w"
    using j(3) [rule_format, of "length rs - sw_sinceSynced w"] k(2) by simp
  moreover have "take (length (concat rss) + j) (concat rss @ rs) = concat rss @ take j rs" by simp
  ultimately show ?thesis using j(2) True by (intro exI [of _ "length (concat rss) + j"] exI [of _ files]) simp
qed

end

section \<open>Order of segment names\<close>

lemma char_digit_char [simp]: "d < 10 \<Longrightarrow> char_digit (digit_char d) = d"
  by (simp add: char_digit_def digit_char_def)

lemma is_digit_digit_char [simp]: "d < 10 \<Longrightarrow> is_digit (digit_char d)"
  by (simp add: is_digit_def digit_char_def less_eq_char_def)

lemma char_digit_less [simp]: "is_digit c \<Longrightarrow> char_digit c < 10"
  by (auto simp: is_digit_def char_digit_def less_eq_char_def)

lemma is_digit_order: "is_digit c \<Longrightarrow> is_digit d \<Longrightarrow> c < d \<longleftrightarrow> char_digit c < char_digit d"
  by (auto simp: is_digit_def char_digit_def less_eq_char_def less_char_def)

lemma is_digit_inj: "is_digit c \<Longrightarrow> is_digit d \<Longrightarrow> char_digit c = char_digit d \<longleftrightarrow> c = d"
  by (metis is_digit_order linorder_neq_iff)

lemma digits_val_snoc [simp]: "digits_val (s @ [c]) = digits_val s * 10 + char_digit c"
  by (simp add: digits_val_def)

lemma digits_val_Nil [simp]: "digits_val [] = 0" by (simp add: digits_val_def)

lemma foldl_digits: "foldl (\<lambda>v c. v * 10 + char_digit c) a s = a * 10 ^ length s + digits_val s"
  by (induction s rule: rev_induct) (simp_all add: algebra_simps)

lemma digits_val_Cons: "digits_val (c # s) = char_digit c * 10 ^ length s + digits_val s"
  using foldl_digits [of "char_digit c" s] by (simp add: digits_val_def)

lemma digits_val_append: "digits_val (s @ t) = digits_val s * 10 ^ length t + digits_val t"
  by (induction t rule: rev_induct) (simp_all add: algebra_simps flip: append_assoc)

lemma digits_val_bound: "list_all is_digit s \<Longrightarrow> digits_val s < 10 ^ length s"
proof (induction s rule: rev_induct)
  case (snoc c s)
  then have "digits_val s + 1 \<le> 10 ^ length s" "char_digit c < 10" by simp_all
  then show ?case by simp
qed simp

lemma lex_digits:
  "length s = length t \<Longrightarrow> list_all is_digit s \<Longrightarrow> list_all is_digit t \<Longrightarrow> s @ x < t @ x \<longleftrightarrow> digits_val s < digits_val t"
proof (induction s t rule: list_induct2)
  case (Cons c s d t)
  have b: "digits_val s < 10 ^ length t" "digits_val t < 10 ^ length t"
    using Cons digits_val_bound [of s] digits_val_bound [of t] by simp_all
  consider "c = d" | "char_digit c < char_digit d" | "char_digit d < char_digit c"
    using is_digit_inj [of c d] Cons.prems by (auto simp: linorder_neq_iff)
  then show ?case
  proof cases
    case 1 then show ?thesis using Cons by (simp add: digits_val_Cons)
  next
    case 2
    then have "(char_digit c + 1) * 10 ^ length t \<le> char_digit d * 10 ^ length t" by (intro mult_right_mono) simp_all
    then show ?thesis using 2 b Cons is_digit_order [of c d] by (simp add: digits_val_Cons algebra_simps)
  next
    case 3
    then have "(char_digit d + 1) * 10 ^ length t \<le> char_digit c * 10 ^ length t" by (intro mult_right_mono) simp_all
    then show ?thesis using 3 b Cons is_digit_order [of c d] by (auto simp: digits_val_Cons algebra_simps)
  qed
qed simp

lemma decimal_digits: "list_all is_digit (decimal n) \<and> digits_val (decimal n) = n"
proof (induction n rule: decimal.induct)
  case (1 n)
  then show ?case by (subst (1 2) decimal.simps) (auto simp: digits_val_Cons)
qed

lemma length_decimal: "n < 10 ^ Suc k \<Longrightarrow> length (decimal n) \<le> Suc k"
proof (induction k arbitrary: n)
  case 0
  then show ?case by (simp add: decimal.simps)
next
  case (Suc k)
  then have "length (decimal (n div 10)) \<le> Suc k" by (intro Suc.IH) (simp add: less_mult_imp_div_less)
  then show ?case by (subst decimal.simps) simp
qed

lemma digits_val_zeros: "digits_val (replicate k (CHR ''0'')) = 0"
  by (induction k) (simp_all add: digits_val_Cons char_digit_def)

lemma fmt06d_ok:
  "list_all is_digit (fmt06d n)" "digits_val (fmt06d n) = n" "n < 1000000 \<Longrightarrow> length (fmt06d n) = 6"
  using decimal_digits [of n] length_decimal [of n 5]
  by (auto simp: fmt06d_def digits_val_append digits_val_zeros list_all_iff is_digit_def less_eq_char_def)

lemma segmentName_order:
  assumes "i < 1000000" "j < 1000000"
  shows "segmentName i < segmentName j \<longleftrightarrow> i < j"
  unfolding segmentName_def using lex_digits [of "fmt06d i" "fmt06d j"] assms by (simp add: fmt06d_ok)

lemma Atoi_segmentName:
  assumes "n < 2 ^ 63"
  shows "has_suffix (segmentName n) ''.wal'' \<and> Atoi (trim_wal (segmentName n)) = Some (int n)"
proof -
  have ne: "fmt06d n \<noteq> []" using decimal.simps [of n] by (simp add: fmt06d_def)
  then have d: "is_digit (hd (fmt06d n))" "fmt06d n \<noteq> []" using fmt06d_ok(1) [of n] by (simp_all add: list_all_iff)
  then have "hd (fmt06d n) \<noteq> CHR ''-''" "hd (fmt06d n) \<noteq> CHR ''+''" by (auto simp: is_digit_def less_eq_char_def)
  moreover have "int n < 2 ^ 63" using assms by simp
  ultimately show ?thesis using d
    by (simp add: segmentName_def has_suffix_def trim_wal_def Atoi_def fmt06d_ok Let_def)
qed

end
