(* ===== verification/Wal.thy ===== *)
theory Wal
  imports Segments
begin

text \<open>
  The metrics WAL: record codec (\<^verbatim>\<open>internal/storage/wal/record.go\<close>), writer
  (\<^verbatim>\<open>wal.go\<close>) and replay (\<^verbatim>\<open>replay.go\<close>). The writer and the replay loop are those of
  \<^verbatim>\<open>Segments\<close>, applied to this codec; this theory shows that the codec satisfies the
  interface \<^verbatim>\<open>framed_log\<close> and draws the recovery properties from it.
\<close>

section \<open>Records\<close>

definition recordTypeSample :: u8 where "recordTypeSample = 1"
definition recordTypeSampleGen :: u8 where "recordTypeSampleGen = 2"

definition maxRecordBodyBytes :: nat where
  "maxRecordBodyBytes = 255 * (1 + 255 + 2 + 65535) + 2 + 16 + 8"

type_synonym wal_record = "label list \<times> i64 \<times> float64 \<times> i64"

definition validateLabels :: "label list \<Rightarrow> bool" where
  "validateLabels ls \<longleftrightarrow> length ls \<le> 255 \<and> list_all (\<lambda>(n, v). length n \<le> 255 \<and> length v \<le> 65535) ls"

definition encodeLabels :: "label list \<Rightarrow> bytes" where
  "encodeLabels ls = concat (map (\<lambda>(n, v).
     of_nat (length n) # str_bytes n @ put_u16 (of_nat (length v)) @ str_bytes v) ls)"

definition encodeBody :: "u8 \<Rightarrow> label list \<Rightarrow> i64 \<Rightarrow> float64 \<Rightarrow> i64 \<Rightarrow> bytes" where
  "encodeBody typ ls tsMs value gen =
     [typ, of_nat (length ls)] @ encodeLabels ls @ put_u64 tsMs @ put_u64 value
       @ (if typ = recordTypeSampleGen then put_u64 gen else [])"

definition encodeRecord :: "label list \<Rightarrow> i64 \<Rightarrow> float64 \<Rightarrow> bytes" where
  "encodeRecord ls tsMs value = frame (encodeBody recordTypeSample ls tsMs value 0)"

definition encodeRecordGen :: "label list \<Rightarrow> i64 \<Rightarrow> float64 \<Rightarrow> i64 \<Rightarrow> bytes" where
  "encodeRecordGen ls tsMs value gen = frame (encodeBody recordTypeSampleGen ls tsMs value gen)"

text \<open>The label loop of \<^verbatim>\<open>decodeRecord\<close> on the bytes from \<^verbatim>\<open>pos\<close> on; it returns the rest.\<close>

fun decodeLabels :: "nat \<Rightarrow> bytes \<Rightarrow> (label list \<times> bytes) option" where
  "decodeLabels 0 b = Some ([], b)"
| "decodeLabels (Suc k) b =
     (case b of [] \<Rightarrow> None
      | n # b1 \<Rightarrow>
        if length b1 < unat n then None
        else
          let name = bytes_str (take (unat n) b1); b2 = drop (unat n) b1 in
          if length b2 < 2 then None
          else
            let m = unat (get_be (take 2 b2) :: u16); b3 = drop 2 b2 in
            if length b3 < m then None
            else map_option (apfst ((#) (name, bytes_str (take m b3)))) (decodeLabels k (drop m b3)))"

definition decodeRecord :: "bytes \<Rightarrow> wal_record option" where
  "decodeRecord b =
     (if length b < 2 then None
      else
        let typ = b ! 0; labelCount = unat (b ! 1) in
        if typ \<noteq> recordTypeSample \<and> typ \<noteq> recordTypeSampleGen then None
        else
          case decodeLabels labelCount (drop 2 b) of None \<Rightarrow> None
          | Some (ls, t) \<Rightarrow>
            let tail = (if typ = recordTypeSampleGen then 24 else 16) in
            if length t \<noteq> tail then None
            else Some (ls, get_be (take 8 t), get_be (take 8 (drop 8 t)),
                   if typ = recordTypeSampleGen then get_be (take 8 (drop 16 t)) else 0))"

section \<open>Writer and replay\<close>

definition WriteRecordGen :: "wfaults \<Rightarrow> wal_record \<Rightarrow> SegWriter \<Rightarrow> SegWriter \<times> werror option" where
  "WriteRecordGen ft r w =
     (case r of (ls, tsMs, value, gen) \<Rightarrow>
      if sw_broken w then (w, Some WBroken)
      else if \<not> validateLabels ls then (w, Some WLabels)
      else writeData ft (encodeRecordGen ls tsMs value gen) w)"

definition WriteRecord :: "wfaults \<Rightarrow> label list \<Rightarrow> i64 \<Rightarrow> float64 \<Rightarrow> SegWriter \<Rightarrow> SegWriter \<times> werror option" where
  "WriteRecord ft ls tsMs value w = WriteRecordGen ft (ls, tsMs, value, 0) w"

text \<open>
  \<^verbatim>\<open>segmentPaths\<close> keeps the directory's entries with the suffix \<^verbatim>\<open>.wal\<close> and sorts them by
  name; \<^verbatim>\<open>ReplayFromGen\<close> skips names that are not numbers or not above \<^verbatim>\<open>afterSegment\<close>.
\<close>

definition segmentPaths :: "(string \<times> bytes) list \<Rightarrow> (string \<times> bytes) list" where
  "segmentPaths entries = sort_key fst (filter (\<lambda>(name, _). has_suffix name ''.wal'') entries)"

definition ReplayFromGen :: "int \<Rightarrow> (string \<times> bytes) list \<Rightarrow> wal_record list \<times> bytes list \<times> replay_error option" where
  "ReplayFromGen afterSegment entries =
     replay_files decodeRecord maxRecordBodyBytes
       (map snd (filter (\<lambda>(name, _). case Atoi (trim_wal name) of
            None \<Rightarrow> False | Some idx \<Rightarrow> idx > afterSegment) (segmentPaths entries)))"

definition Replay :: "(string \<times> bytes) list \<Rightarrow> wal_record list \<times> bytes list \<times> replay_error option" where
  "Replay entries = ReplayFromGen 0 entries"

text \<open>\<^verbatim>\<open>DirStats\<close> and \<^verbatim>\<open>DirSize\<close> (\<^verbatim>\<open>size.go\<close>) on a directory that exists.\<close>

definition DirStats :: "(string \<times> bytes) list \<Rightarrow> nat \<times> nat" where
  "DirStats entries =
     (let segs = filter (\<lambda>(name, _). has_suffix name ''.wal'') entries
      in (sum_list (map (length \<circ> snd) segs), length segs))"

definition DirSize :: "(string \<times> bytes) list option \<Rightarrow> nat" where
  "DirSize dir = (case dir of None \<Rightarrow> 0 | Some entries \<Rightarrow> fst (DirStats entries))"

section \<open>The codec satisfies the framing interface\<close>

definition recBody :: "wal_record \<Rightarrow> bytes" where
  "recBody r = (case r of (ls, ts, v, g) \<Rightarrow> encodeBody recordTypeSampleGen ls ts v g)"

definition recOk :: "wal_record \<Rightarrow> bool" where
  "recOk r = validateLabels (fst r)"

lemma unat_of_nat_small: "n < 2 ^ LENGTH('a::len) \<Longrightarrow> unat (of_nat n :: 'a word) = n"
  by (simp add: unat_of_nat take_bit_nat_eq_self)

lemma decodeLabels_encode:
  assumes "list_all (\<lambda>(n, v). length n \<le> 255 \<and> length v \<le> 65535) ls"
  shows "decodeLabels (length ls) (encodeLabels ls @ t) = Some (ls, t)"
  using assms
proof (induction ls)
  case (Cons nv ls)
  obtain n v where nv: "nv = (n, v)" by (cases nv)
  have "unat (of_nat (length n) :: u8) = length n" "unat (of_nat (length v) :: u16) = length v"
    using Cons.prems by (auto simp: nv intro!: unat_of_nat_small)
  then show ?case using Cons by (simp add: nv encodeLabels_def Let_def)
qed (simp add: encodeLabels_def)

lemma length_encodeLabels:
  "list_all (\<lambda>(n, v). length n \<le> 255 \<and> length v \<le> 65535) ls \<Longrightarrow> length (encodeLabels ls) \<le> length ls * 65793"
  by (induction ls) (auto simp: encodeLabels_def)

lemma decodeRecord_body:
  assumes "validateLabels ls" "typ = recordTypeSample \<or> typ = recordTypeSampleGen"
  shows "decodeRecord (encodeBody typ ls ts v g) = Some (ls, ts, v, if typ = recordTypeSampleGen then g else 0)"
proof -
  have l: "list_all (\<lambda>(n, v). length n \<le> 255 \<and> length v \<le> 65535) ls"
    "unat (of_nat (length ls) :: u8) = length ls"
    using assms(1) by (auto simp: validateLabels_def intro!: unat_of_nat_small)
  show ?thesis using assms(2) l decodeLabels_encode [OF l(1)]
    by (auto simp: decodeRecord_def encodeBody_def Let_def recordTypeSample_def recordTypeSampleGen_def)
qed

interpretation wal: framed_log recBody decodeRecord maxRecordBodyBytes recOk
proof unfold_locales
  fix r assume "recOk r"
  obtain ls ts v g where r: "r = (ls, ts, v, g)" by (cases r)
  have ok: "validateLabels ls" using \<open>recOk r\<close> by (simp add: recOk_def r)
  then show "decodeRecord (recBody r) = Some r" by (simp add: recBody_def r decodeRecord_body)
  have "length (encodeLabels ls) \<le> length ls * 65793" "length ls \<le> 255"
    using ok length_encodeLabels [of ls] by (auto simp: validateLabels_def)
  then show "0 < length (recBody r) \<and> length (recBody r) \<le> maxRecordBodyBytes"
    by (simp add: recBody_def r encodeBody_def maxRecordBodyBytes_def)
qed (simp add: maxRecordBodyBytes_def)

section \<open>Writing many records\<close>

fun write_all :: "wal_record list \<Rightarrow> SegWriter \<Rightarrow> SegWriter \<times> werror option" where
  "write_all [] w = (w, None)"
| "write_all (r # rs) w =
     (case WriteRecordGen no_faults r w of (w', Some e) \<Rightarrow> (w', Some e) | (w', None) \<Rightarrow> write_all rs w')"

lemma WriteRecordGen_writeData:
  assumes "recOk r" "\<not> sw_broken w"
  shows "WriteRecordGen ft r w = writeData ft (frame (recBody r)) w"
  using assms by (cases r) (simp add: WriteRecordGen_def recOk_def recBody_def encodeRecordGen_def)

lemma write_all_rep:
  assumes "seg_rep recBody w rss rs" "\<forall>r \<in> set rs'. recOk r"
  shows "\<exists>w' rss2 rs2. write_all rs' w = (w', None) \<and> seg_rep recBody w' rss2 rs2
    \<and> concat rss2 @ rs2 = concat rss @ rs @ rs' \<and> sw_syncEveryN w' = sw_syncEveryN w"
  using assms
proof (induction rs' arbitrary: w rss rs)
  case Nil
  then show ?case by (auto intro!: exI [of _ rss])
next
  case (Cons r rs')
  obtain w1 rss1 rs1 where W: "writeData no_faults (frame (recBody r)) w = (w1, None)"
      "seg_rep recBody w1 rss1 rs1" "concat rss1 @ rs1 = concat rss @ rs @ [r]" "sw_syncEveryN w1 = sw_syncEveryN w"
    using writeData_rep [OF Cons.prems(1)] by blast
  have "WriteRecordGen no_faults r w = (w1, None)"
    using WriteRecordGen_writeData [of r w no_faults] Cons.prems W(1) by (simp add: seg_rep_def)
  moreover obtain w' rss2 rs2 where "write_all rs' w1 = (w', None)" "seg_rep recBody w' rss2 rs2"
      "concat rss2 @ rs2 = concat rss1 @ rs1 @ rs'" "sw_syncEveryN w' = sw_syncEveryN w1"
    using Cons.IH [OF W(2)] Cons.prems(2) by auto
  ultimately show ?case using W(3,4)
    by (intro exI [of _ w'] exI [of _ rss2] exI [of _ rs2]) (metis (no_types, lifting) append.assoc append_Cons append_Nil case_prod_conv option.simps(4) write_all.simps(2))
qed

lemma OpenDir_rep:
  assumes "OpenDir no_faults [] m n = (w, e)"
  shows "e = None \<and> seg_rep enc w [] [] \<and> sw_syncEveryN w = n \<and> map fst (sw_dir w) = [1]"
  using assms by (auto simp: OpenDir_def openSegment_def no_faults_def maxIndex_def seg_rep_def Let_def)

lemma dir_upd_cur: "map fst (sw_dir (upd_cur g w)) = map fst (sw_dir w)"
  by (auto simp: upd_cur_def)

lemma dir_rotate:
  "rotateSegment ft w = (w', e) \<Longrightarrow> 0 \<notin> set (map fst (sw_dir w)) \<Longrightarrow> 0 \<notin> set (map fst (sw_dir w'))"
  by (auto simp: rotateSegment_def openSegment_def cur_sync_def Let_def dir_upd_cur simp del: set_map
      split: if_splits prod.splits option.splits)

lemma dir_names_pos:
  "writeData ft d w = (w', e) \<Longrightarrow> 0 \<notin> set (map fst (sw_dir w)) \<Longrightarrow> 0 \<notin> set (map fst (sw_dir w'))"
  by (auto simp: writeData_def cur_append_def cur_sync_def Let_def dir_upd_cur simp del: set_map
      split: option.splits if_splits dest!: dir_rotate)

lemma write_all_pos:
  "write_all rs w = (w', e) \<Longrightarrow> 0 \<notin> set (map fst (sw_dir w)) \<Longrightarrow> 0 \<notin> set (map fst (sw_dir w'))"
proof (induction rs w rule: write_all.induct)
  case (2 r rs w)
  obtain w1 e1 where s: "WriteRecordGen no_faults r w = (w1, e1)" by (cases "WriteRecordGen no_faults r w")
  have "0 \<notin> set (map fst (sw_dir w1))"
    using s 2(3) dir_names_pos by (simp add: WriteRecordGen_def split: prod.splits if_splits)
  then show ?case using 2 s by (cases e1) auto
qed simp

text \<open>A directory listing in any order is replayed in segment order.\<close>

lemma segmentPaths_ascending:
  assumes "ascending idxs" "\<forall>i \<in> set idxs. 0 < i \<and> i < 1000000" "length files = length idxs"
    and "mset entries = mset (zip (map segmentName idxs) files)"
  shows "ReplayFromGen 0 entries = replay_files decodeRecord maxRecordBodyBytes files"
proof -
  let ?es = "zip (map segmentName idxs) files"
  have suf: "has_suffix (segmentName i) ''.wal'' \<and> Atoi (trim_wal (segmentName i)) = Some (int i)"
    if "i < 1000000" for i using that by (intro Atoi_segmentName) simp
  have mem: "\<exists>i \<in> set idxs. fst e = segmentName i" if "e \<in> set ?es" for e
    using that by (auto simp: set_zip)
  have all: "has_suffix (fst e) ''.wal'' \<and> (\<exists>i. 0 < i \<and> Atoi (trim_wal (fst e)) = Some (int i))" if "e \<in> set ?es" for e
    using mem [OF that] suf assms(2) by metis
  have "ascending (map segmentName idxs)"
    using assms(1,2) by (induction idxs) (auto simp: segmentName_order)
  then have asc: "ascending (map fst ?es)" using assms(3) by simp
  have me: "set entries = set ?es" using assms(4) by (metis set_mset_mset)
  have "segmentPaths entries = sort_key fst entries"
    unfolding segmentPaths_def by (intro arg_cong [of _ _ "sort_key fst"] filter_True) (use all me in \<open>auto simp: case_prod_beta\<close>)
  also have "\<dots> = ?es"
  proof (rule map_sorted_distinct_set_unique [where f = fst])
    have d: "distinct (map fst ?es)" using asc by (simp add: strict_sorted_iff)
    then show "distinct (map fst ?es)" .
    have "mset (map fst (sort_key fst entries)) = mset (map fst ?es)" by (simp only: mset_map mset_sort assms(4))
    then show "distinct (map fst (sort_key fst entries))" using d by (metis mset_eq_imp_distinct_iff)
    show "sorted (map fst ?es)" using asc by (simp add: strict_sorted_iff)
    show "set (sort_key fst entries) = set ?es" using me by simp
    then show "inj_on fst (set (sort_key fst entries) \<union> set ?es)" using d by (simp add: distinct_map)
  qed simp
  finally have "segmentPaths entries = ?es" .
  moreover have "filter (\<lambda>(name, _). case Atoi (trim_wal name) of None \<Rightarrow> False | Some idx \<Rightarrow> idx > 0) ?es = ?es"
    using all by (intro filter_True) fastforce
  ultimately show ?thesis using assms(3) by (simp add: ReplayFromGen_def)
qed


section \<open>Properties\<close>

text \<open>
  C26: record round trip. A body written by the current encoder, or by the pre-6.2 encoder (type 1,
  whose generation reads back as 0), decodes to the labels, timestamp, value and generation
  that were written, whenever the labels pass \<^const>\<open>validateLabels\<close>.
\<close>

theorem wal_record_roundtrip:
  assumes "validateLabels ls" "typ = recordTypeSample \<or> typ = recordTypeSampleGen"
  shows "decodeRecord (encodeBody typ ls ts v g) = Some (ls, ts, v, if typ = recordTypeSampleGen then g else 0)"
  using assms by (rule decodeRecord_body)

theorem wal_record_roundtrip_witness:
  "decodeRecord (encodeBody recordTypeSampleGen [(''a'', ''b'')] 7 8 9) = Some ([(''a'', ''b'')], 7, 8, 9)"
  using wal_record_roundtrip [of "[(''a'', ''b'')]" recordTypeSampleGen 7 8 9] by (simp add: validateLabels_def)

text \<open>
  C4: crash recovery. Records are written without I/O errors to a fresh WAL that syncs every
  \<^verbatim>\<open>n\<close> records and has not reached segment 1000000; then the host crashes, keeping of every segment
  at least what had been synced. Replay of the directory, its entries listed in any order, yields a prefix
  of the records written that misses fewer than \<^verbatim>\<open>n\<close> of them, so with \<^verbatim>\<open>n = 1\<close> every acknowledged record
  survives; and it succeeds exactly unless the last segment was cut right after a length prefix, in which
  case it reports that the body could not be read.
\<close>

theorem wal_crash_recovery:
  assumes "0 < n" "\<forall>r \<in> set rs. recOk r"
    and "OpenDir no_faults [] m n = (w0, e0)" "write_all rs w0 = (w, e)"
    and "crashed (sw_dir w) files" "mset entries = mset (zip (map (segmentName \<circ> fst) (sw_dir w)) files)"
    and "sw_segIndex w < 1000000"
  shows "e = None \<and> (\<exists>cs j files'. f_data (snd (last (sw_dir w))) = frames recBody cs
    \<and> Replay entries = (take j rs, files', if bad_cut recBody cs (length (last files)) then Some ErrReadBody else None)
    \<and> int (length rs) < int j + n)"
proof -
  note O = OpenDir_rep [OF assms(3), where enc = recBody]
  obtain rss cs where R: "e = None" "seg_rep recBody w rss cs" "concat rss @ cs = rs" "sw_syncEveryN w = n"
    using write_all_rep [of w0 "[]" "[]" rs] O assms(2,4) by auto
  obtain full cur where D: "sw_dir w = full @ [(sw_segIndex w, cur)]" "ascending (map fst full @ [sw_segIndex w])"
      "f_data cur = frames recBody cs" using R(2) by (auto simp: seg_rep_def)
  have oks: "\<forall>r \<in> set (concat rss @ cs). recOk r" using assms(2) R(3) by simp
  obtain j files' where J: "replay_files decodeRecord maxRecordBodyBytes files =
      (take j rs, files', if bad_cut recBody cs (length (last files)) then Some ErrReadBody else None)"
      "length rs \<le> j + sw_sinceSynced w"
    using wal.crash_recovery_any [OF R(2) oks assms(5)] R(3) by auto
  have "0 \<notin> set (map fst (sw_dir w))" using write_all_pos [OF assms(4)] O by simp
  moreover have "i \<le> sw_segIndex w" if "i \<in> set (map fst (sw_dir w))" for i
    using that D(1,2) by (auto simp: sorted_wrt_append less_imp_le)
  ultimately have "\<forall>i \<in> set (map fst (sw_dir w)). 0 < i \<and> i < 1000000"
    using assms(7) by (metis bot_nat_0.not_eq_extremum le_less_trans)
  then have "ReplayFromGen 0 entries = replay_files decodeRecord maxRecordBodyBytes files"
    using D(1,2) assms(6) list_all2_lengthD [OF assms(5) [unfolded crashed_def]]
    by (intro segmentPaths_ascending [of "map fst (sw_dir w)"]) auto
  moreover have "int (sw_sinceSynced w) < n" using R(2,4) assms(1) by (simp add: seg_rep_def)
  ultimately show ?thesis using J R(1) D(1,3) unfolding Replay_def
    by (intro conjI exI [of _ cs] exI [of _ j] exI [of _ files']) auto
qed

lemma bad_cut_whole:
  assumes "\<And>r. enc r \<noteq> []"
  shows "\<not> bad_cut enc cs (length (frames enc cs))"
proof
  assume "bad_cut enc cs (length (frames enc cs))"
  then obtain j where j: "j < length cs" "length (frames enc cs) = length (frames enc (take j cs)) + 4"
    by (auto simp: bad_cut_def)
  have "frames enc cs = frames enc (take j cs) @ frame (enc (cs ! j)) @ frames enc (drop (Suc j) cs)"
    using id_take_nth_drop [OF j(1)] by (metis append.assoc frames_simps(2,3))
  then show False using j(2) assms [of "cs ! j"] by simp
qed

theorem wal_crash_recovery_witness:
  "\<exists>files. crashed (sw_dir (fst (write_all [([], 1, 2, 3)] (fst (OpenDir no_faults [] 1000 1))))) files
     \<and> (\<exists>files'. Replay (zip [segmentName 1] files) = ([([], 1, 2, 3)], files', None))"
proof -
  let ?op = "fst (OpenDir no_faults [] 1000 1)"
  let ?w = "fst (write_all [([], 1, 2, 3)] ?op)"
  let ?bs = "frame (recBody ([], 1, 2, 3))"
  have D: "sw_dir ?w = [(1, \<lparr>f_data = ?bs, f_synced = 30\<rparr>)] \<and> sw_segIndex ?w = 1 \<and> length ?bs = 30" by code_simp
  have c: "crashed (sw_dir ?w) [?bs]" using D by (auto simp: crashed_def simp del: write_all.simps length_frame intro!: exI [of _ 30])
  have "\<exists>cs j files'. f_data (snd (last (sw_dir ?w))) = frames recBody cs
    \<and> Replay (zip [segmentName 1] [?bs]) = (take j [([], 1, 2, 3)], files', if bad_cut recBody cs (length (last [?bs])) then Some ErrReadBody else None)
    \<and> int (length [([], 1, 2, 3) :: label list \<times> i64 \<times> u64 \<times> i64]) < int j + 1"
    using wal_crash_recovery [where n = 1 and rs = "[([], 1, 2, 3)]" and m = 1000 and ?w0.0 = ?op
        and ?e0.0 = "snd (OpenDir no_faults [] 1000 1)" and w = ?w and e = "snd (write_all [([], 1, 2, 3)] ?op)"
        and files = "[?bs]" and entries = "zip [segmentName 1] [?bs]"] c
    by (auto simp: D recOk_def validateLabels_def simp del: write_all.simps length_frame)
  then obtain cs j files' where J: "f_data (snd (last (sw_dir ?w))) = frames recBody cs"
    "Replay (zip [segmentName 1] [?bs]) = (take j [([], 1, 2, 3)], files', if bad_cut recBody cs (length (last [?bs])) then Some ErrReadBody else None)"
    "0 < j" by auto
  have "recBody r \<noteq> []" for r by (cases r) (simp add: recBody_def encodeBody_def)
  moreover have "length (last [?bs]) = length (frames recBody cs)" using J(1) D by simp
  ultimately have "\<not> bad_cut recBody cs (length (last [?bs]))" using bad_cut_whole [of recBody cs] by metis
  then have "Replay (zip [segmentName 1] [?bs]) = ([([], 1, 2, 3)], files', None)" using J(2,3) by (cases j) auto
  with c show ?thesis by blast
qed

text \<open>
  C27: a torn tail that replay does not tolerate. When a crash leaves exactly the 4-byte length
  prefix of the last record, \<^verbatim>\<open>io.ReadFull\<close> of the body reports \<^verbatim>\<open>io.EOF\<close>, and replay of the
  final segment fails although every shorter or longer cut of the same record is repaired.
\<close>

theorem wal_torn_prefix_fails:
  assumes "\<forall>r \<in> set rs. recOk r" "recOk r" "0 < k" "k < length (frame (recBody r))"
  shows "replaySegment decodeRecord maxRecordBodyBytes True (frames recBody rs @ take k (frame (recBody r))) =
    (rs, if k = 4 then ReplayFailed ErrReadBody else ReplayTruncated (length (frames recBody rs)))"
  using wal.replay_frames [OF assms(1), of True 0 "take k (frame (recBody r))"]
    wal.replay_torn [OF assms(2), of k True "length (frames recBody rs)"] assms(3,4)
  by (simp add: replaySegment_def)

theorem wal_torn_prefix_fails_witness:
  "replaySegment decodeRecord maxRecordBodyBytes True (take 4 (frame (recBody ([], 1, 2, 3)))) = ([], ReplayFailed ErrReadBody)"
  using wal_torn_prefix_fails [of "[]" "([], 1, 2, 3)" 4]
  by (simp add: recOk_def validateLabels_def recBody_def encodeBody_def)

definition short_write_run :: "SegWriter \<times> werror option \<times> werror option" where
  "short_write_run =
     (let (w0, _) = OpenDir no_faults [] 1000 1;
          (w1, e1) = WriteRecordGen (no_faults\<lparr>ft_write := Some 6\<rparr>) ([], 1, 2, 3) w0;
          (w2, e2) = WriteRecordGen no_faults ([], 4, 5, 6) w1
      in (w2, e1, e2))"


lemma short_write_bytes:
  "sw_dir (fst short_write_run) = [(1, \<lparr>f_data = [0, 0, 0, 26, 2, 0, 0, 0, 0, 26, 2, 0, 0, 0, 0, 0, 0, 0, 0, 4,
     0, 0, 0, 0, 0, 0, 0, 5, 0, 0, 0, 0, 0, 0, 0, 6], f_synced = 36\<rparr>)]"
  by code_simp

text \<open>
  a short write is not contained. After a write that failed midway the writer is not marked
  broken, so the next write appends behind the partial record and is acknowledged and synced;
  replay of that segment then fails on a corrupt record and does not return the acknowledged one.
\<close>

lemma wal_short_write_poisons:
  "fst (snd short_write_run) = Some WWrite \<and> snd (snd short_write_run) = None
   \<and> (let files = map (\<lambda>(i, f). (segmentName i, take (f_synced f) (f_data f))) (sw_dir (fst short_write_run))
      in Replay files = ([([], 111702704128, 262144, 327680)], map snd files, Some ErrCorrupt))"
proof (intro conjI)
  let ?bs = "[0, 0, 0, 26, 2, 0, 0, 0, 0, 26, 2, 0, 0, 0, 0, 0, 0, 0, 0, 4, 0, 0, 0, 0, 0, 0, 0, 5, 0, 0, 0, 0, 0, 0, 0, 6] :: bytes"
  have "replay_files decodeRecord maxRecordBodyBytes [?bs] = ([([], 111702704128, 262144, 327680)], [?bs], Some ErrCorrupt)"
    by (simp add: replaySegment_def replay_loop.simps maxRecordBodyBytes_def decodeRecord_def get_be_def recordTypeSample_def recordTypeSampleGen_def Let_def)
  then show "let files = map (\<lambda>(i, f). (segmentName i, take (f_synced f) (f_data f))) (sw_dir (fst short_write_run))
      in Replay files = ([([], 111702704128, 262144, 327680)], map snd files, Some ErrCorrupt)"
    using segmentPaths_ascending [of "[1]" "[?bs]" "[(segmentName 1, ?bs)]"]
    by (simp add: short_write_bytes Replay_def)
qed (code_simp, code_simp)

end
