(* ===== verification/HeadStore.thy ===== *)
theory HeadStore
  imports MemStore Wal
begin

text \<open>
  \<^verbatim>\<open>internal/metrics/headstore.go\<close>: the ingester's head, which sends sealed chunks to a block sink in
  batches and drops a batch once the sink has it. The batching loop is a function on the snapshot;
  the flush is a function of the sink, whose state and answers are a parameter.
\<close>

section \<open>Wire sizes\<close>

definition chunkFramingBytes :: int where "chunkFramingBytes = 3"
definition seriesFramingBytes :: int where "seriesFramingBytes = 32"
definition labelFramingBytes :: int where "labelFramingBytes = 2"

text \<open>\<^verbatim>\<open>base64.StdEncoding.EncodedLen\<close>.\<close>

definition EncodedLen :: "nat \<Rightarrow> int" where "EncodedLen n = (int n + 2) div 3 * 4"

definition chunkWireBytes :: "nat \<Rightarrow> int" where
  "chunkWireBytes rawLen = EncodedLen rawLen + chunkFramingBytes"

text \<open>
  The width \<^verbatim>\<open>utf8.DecodeRuneInString\<close> reports at the head of a string that starts with a byte of at
  least \<^verbatim>\<open>0x80\<close>: the length of a well-formed sequence, or 1.
\<close>

definition cont :: "char \<Rightarrow> bool" where "cont c = in_range 0x80 0xBF c"

definition rune_width :: "string \<Rightarrow> nat" where
  "rune_width s =
     (case s of
        c # d # _ \<Rightarrow>
          if in_range 0xC2 0xDF c \<and> cont d then 2
          else (case s of
            _ # _ # e # _ \<Rightarrow>
              if cont e \<and> (of_char c = (0xE0::nat) \<and> in_range 0xA0 0xBF d \<or> in_range 0xE1 0xEC c \<and> cont d
                   \<or> of_char c = (0xED::nat) \<and> in_range 0x80 0x9F d \<or> in_range 0xEE 0xEF c \<and> cont d) then 3
              else (case s of
                _ # _ # _ # f # _ \<Rightarrow>
                  if cont e \<and> cont f \<and> (of_char c = (0xF0::nat) \<and> in_range 0x90 0xBF d \<or> in_range 0xF1 0xF3 c \<and> cont d
                       \<or> of_char c = (0xF4::nat) \<and> in_range 0x80 0x8F d) then 4 else 1
              | _ \<Rightarrow> 1)
          | _ \<Rightarrow> 1)
      | _ \<Rightarrow> 1)"

lemma rune_width_pos: "0 < rune_width s"
  by (auto simp: rune_width_def split: list.splits)

text \<open>U+2028 and U+2029 are the sequences \<^verbatim>\<open>E2 80 A8\<close> and \<^verbatim>\<open>E2 80 A9\<close>.\<close>

definition line_separator :: "string \<Rightarrow> bool" where
  "line_separator s = (take 3 (map (of_char :: char \<Rightarrow> nat) s) \<in> {[0xE2, 0x80, 0xA8], [0xE2, 0x80, 0xA9]})"

function json_loop :: "string \<Rightarrow> int" where
  "json_loop [] = 0"
| "json_loop (c # s) =
     (let b = of_char c :: nat in
      if b < 0x80 then
        (if b = 8 \<or> b = 9 \<or> b = 10 \<or> b = 12 \<or> b = 13 then 2
         else if b = 34 \<or> b = 92 then 2
         else if b < 0x20 then 6 else 1) + json_loop s
      else (if line_separator (c # s) then 6 else int (rune_width (c # s))) + json_loop (drop (rune_width (c # s)) (c # s)))"
  by pat_completeness auto
termination
  by (relation "measure length") (auto simp: rune_width_pos diff_less)

definition jsonStringBytes :: "string \<Rightarrow> int" where
  "jsonStringBytes s = 2 + json_loop s"

definition seriesOpenWireBytes :: "Labels \<Rightarrow> int" where
  "seriesOpenWireBytes l = seriesFramingBytes
     + sum_list (map (\<lambda>(name, value). labelFramingBytes + jsonStringBytes name + jsonStringBytes value) (Map l))"

section \<open>Batching\<close>

definition MaxChunksPerSeries :: nat where "MaxChunksPerSeries = 10000"

definition chunk_cost :: "cptr \<times> chunk \<Rightarrow> int" where
  "chunk_cost pc = chunkWireBytes (length (Bytes (snd pc)))"

type_synonym batch_acc = "SeriesChunks list list \<times> SeriesChunks list \<times> int"

fun batch_chunks :: "int \<Rightarrow> nat \<Rightarrow> SeriesChunks \<Rightarrow> batch_acc \<Rightarrow> (cptr \<times> chunk) list \<Rightarrow> int \<Rightarrow> (cptr \<times> chunk) list
    \<Rightarrow> batch_acc \<times> (cptr \<times> chunk) list" where
  "batch_chunks limit maxc sc acc part opn [] = (acc, part)"
| "batch_chunks limit maxc sc (batches, cur, sz) part opn (c # cs) =
     (let n = chunk_cost c + opn in
      if (sz > 0 \<and> sz + n > limit) \<or> length part \<ge> maxc then
        (if part \<noteq> [] then
           batch_chunks limit maxc sc
             (batches @ [cur @ [sc\<lparr>sc_Chunks := part\<rparr>]], [], chunk_cost c + seriesOpenWireBytes (sc_Labels sc)) [c] 0 cs
         else batch_chunks limit maxc sc (batches @ [cur], [], n) [c] 0 cs)
      else batch_chunks limit maxc sc (batches, cur, sz + n) (part @ [c]) 0 cs)"

fun batch_series :: "int \<Rightarrow> nat \<Rightarrow> batch_acc \<Rightarrow> SeriesChunks list \<Rightarrow> batch_acc" where
  "batch_series limit maxc acc [] = acc"
| "batch_series limit maxc acc (sc # rest) =
     (let ((batches, cur, sz), part) = batch_chunks limit maxc sc acc [] (seriesOpenWireBytes (sc_Labels sc)) (sc_Chunks sc)
      in batch_series limit maxc (batches, if part \<noteq> [] then cur @ [sc\<lparr>sc_Chunks := part\<rparr>] else cur, sz) rest)"

definition batchSeriesChunks :: "SeriesChunks list \<Rightarrow> int \<Rightarrow> nat \<Rightarrow> SeriesChunks list list" where
  "batchSeriesChunks series limit maxc =
     (let (batches, cur, _) = batch_series limit maxc ([], [], 0) series in
      if cur \<noteq> [] then batches @ [cur] else batches)"

definition BatchSeriesChunks :: "SeriesChunks list \<Rightarrow> int \<Rightarrow> SeriesChunks list list" where
  "BatchSeriesChunks series limit = batchSeriesChunks series limit MaxChunksPerSeries"

text \<open>The chunks of a batch with the series they belong to, in order, and its wire bytes.\<close>

definition flat :: "SeriesChunks list \<Rightarrow> ((u64 \<times> Labels) \<times> cptr \<times> chunk) list" where
  "flat g = concat (map (\<lambda>sc. map (Pair (sc_ID sc, sc_Labels sc)) (sc_Chunks sc)) g)"

definition part_bytes :: "SeriesChunks \<Rightarrow> int" where
  "part_bytes sc = seriesOpenWireBytes (sc_Labels sc) + sum_list (map chunk_cost (sc_Chunks sc))"

definition group_bytes :: "SeriesChunks list \<Rightarrow> int" where
  "group_bytes g = sum_list (map part_bytes g)"

definition good_batch :: "int \<Rightarrow> nat \<Rightarrow> SeriesChunks list \<Rightarrow> bool" where
  "good_batch limit maxc g \<longleftrightarrow> g \<noteq> [] \<and> distinct (map sc_ID g)
     \<and> (\<forall>sc \<in> set g. sc_Chunks sc \<noteq> [] \<and> length (sc_Chunks sc) \<le> maxc)
     \<and> (group_bytes g \<le> limit \<or> length (flat g) = 1)"

lemma json_loop_nonneg: "0 \<le> json_loop s"
  by (induction s rule: json_loop.induct) (auto simp: Let_def)

lemma jsonStringBytes_pos: "0 < jsonStringBytes s"
  using json_loop_nonneg [of s] by (simp add: jsonStringBytes_def)

lemma open_pos: "0 < seriesOpenWireBytes l"
proof -
  have "0 \<le> sum_list (map (\<lambda>(name, value). labelFramingBytes + jsonStringBytes name + jsonStringBytes value) (Map l))"
    using jsonStringBytes_pos by (intro sum_list_nonneg) (force simp: labelFramingBytes_def intro: less_imp_le add_nonneg_nonneg)
  then show ?thesis by (simp add: seriesOpenWireBytes_def seriesFramingBytes_def)
qed

lemma chunk_cost_pos: "0 < chunk_cost c"
proof -
  have "0 \<le> (int n + 2) div 3" for n by (simp add: pos_imp_zdiv_nonneg_iff)
  then show ?thesis by (simp add: chunk_cost_def chunkWireBytes_def EncodedLen_def chunkFramingBytes_def add_nonneg_pos)
qed

definition with_part :: "SeriesChunks \<Rightarrow> SeriesChunks list \<Rightarrow> (cptr \<times> chunk) list \<Rightarrow> SeriesChunks list" where
  "with_part sc cur part = (if part \<noteq> [] then cur @ [sc\<lparr>sc_Chunks := part\<rparr>] else cur)"

definition acc_ok :: "int \<Rightarrow> nat \<Rightarrow> SeriesChunks list list \<Rightarrow> SeriesChunks list \<Rightarrow> int \<Rightarrow> bool" where
  "acc_ok limit maxc batches cur sz \<longleftrightarrow> (\<forall>g \<in> set batches. good_batch limit maxc g) \<and> sz = group_bytes cur
     \<and> (cur = [] \<or> good_batch limit maxc cur)"

lemma group_bytes_simps [simp]:
  "group_bytes [] = 0" "group_bytes (a @ b) = group_bytes a + group_bytes b" "group_bytes [sc] = part_bytes sc"
  by (simp_all add: group_bytes_def)

lemma flat_simps [simp]:
  "flat [] = []" "flat (a @ b) = flat a @ flat b" "flat [sc] = map (Pair (sc_ID sc, sc_Labels sc)) (sc_Chunks sc)"
  by (simp_all add: flat_def)

lemma flat_Cons: "flat (sc # g) = map (Pair (sc_ID sc, sc_Labels sc)) (sc_Chunks sc) @ flat g"
  by (simp add: flat_def)

lemma flat_with_part [simp]: "flat (with_part sc cur part) = flat cur @ map (Pair (sc_ID sc, sc_Labels sc)) part"
  by (simp add: with_part_def)

lemma part_bytes_pos: "0 < part_bytes sc"
  unfolding part_bytes_def using open_pos less_imp_le [OF chunk_cost_pos]
  by (intro add_pos_nonneg sum_list_nonneg) auto

lemma group_bytes_pos: "g \<noteq> [] \<Longrightarrow> 0 < group_bytes g"
proof (cases g)
  case (Cons a g')
  have "0 \<le> sum_list (map part_bytes g')" using less_imp_le [OF part_bytes_pos] by (intro sum_list_nonneg) auto
  then show ?thesis using part_bytes_pos [of a] by (simp add: Cons group_bytes_def)
qed simp

lemma batch_chunks_ok:
  assumes "acc_ok limit maxc batches (with_part sc cur part) sz" "0 < maxc" "sc_ID sc \<notin> sc_ID ` set cur"
    "length part \<le> maxc" "opn = (if part = [] then seriesOpenWireBytes (sc_Labels sc) else 0)"
    "batch_chunks limit maxc sc (batches, cur, sz) part opn cs = ((batches', cur', sz'), part')"
  shows "acc_ok limit maxc batches' (with_part sc cur' part') sz' \<and> set cur' \<subseteq> set cur
    \<and> concat (map flat batches') @ flat (with_part sc cur' part') =
      concat (map flat batches) @ flat (with_part sc cur part) @ map (Pair (sc_ID sc, sc_Labels sc)) cs"
  using assms
proof (induction cs arbitrary: batches cur sz part opn)
  case Nil
  then show ?case by simp
next
  case (Cons c cs)
  note P = Cons.prems and pos = chunk_cost_pos [of c] open_pos [of "sc_Labels sc"]
  let ?sc = "\<lambda>part. sc\<lparr>sc_Chunks := part\<rparr>" and ?n = "chunk_cost c + opn"
  have pb: "part_bytes (?sc [c]) = chunk_cost c + seriesOpenWireBytes (sc_Labels sc)"
    "part_bytes (?sc (part @ [c])) = (if part = [] then 0 else part_bytes (?sc part)) + ?n"
    using P(5) by (simp_all add: part_bytes_def)
  have one: "good_batch limit maxc [?sc [c]]" using P(2) by (simp add: good_batch_def)
  show ?case
  proof (cases "(sz > 0 \<and> sz + ?n > limit) \<or> length part \<ge> maxc")
    case True
    define sz1 where "sz1 = chunk_cost c + seriesOpenWireBytes (sc_Labels sc)"
    define batches1 where "batches1 = batches @ [with_part sc cur part]"
    have nonempty: "with_part sc cur part \<noteq> []"
      using True P(1,2) by (auto simp: with_part_def acc_ok_def)
    have "batch_chunks limit maxc sc (batches1, [], sz1) [c] 0 cs = ((batches', cur', sz'), part')"
      using P(5,6) True by (auto simp: Let_def with_part_def batches1_def sz1_def split: if_splits)
    moreover have "acc_ok limit maxc batches1 (with_part sc [] [c]) sz1"
      using P(1) nonempty one pb(1) by (auto simp: acc_ok_def batches1_def with_part_def sz1_def)
    ultimately show ?thesis using Cons.IH [where batches = batches1 and cur = "[]" and sz = sz1 and part = "[c]" and opn = 0] P(2)
      by (auto simp: batches1_def)
  next
    case False
    have fit: "acc_ok limit maxc batches (with_part sc cur (part @ [c])) (sz + ?n)"
    proof -
      have szeq: "sz + ?n = group_bytes (with_part sc cur (part @ [c]))"
        using P(1) pb(2) by (auto simp: acc_ok_def with_part_def)
      have "sz = 0 \<longleftrightarrow> with_part sc cur part = []"
        using P(1) group_bytes_pos [of "with_part sc cur part"] unfolding acc_ok_def
        by (cases "with_part sc cur part = []") auto
      moreover have "0 \<le> sz" using P(1) group_bytes_pos [of "with_part sc cur part"]
        by (cases "with_part sc cur part = []") (auto simp: acc_ok_def)
      ultimately have "group_bytes (with_part sc cur (part @ [c])) \<le> limit \<or> length (flat (with_part sc cur (part @ [c]))) = 1"
        using False szeq by (auto simp: with_part_def split: if_splits)
      moreover have "distinct (map sc_ID (with_part sc cur (part @ [c])))"
        "\<forall>sc \<in> set (with_part sc cur (part @ [c])). sc_Chunks sc \<noteq> [] \<and> length (sc_Chunks sc) \<le> maxc"
        using P(1,3) False by (auto simp: acc_ok_def with_part_def good_batch_def split: if_splits)
      ultimately have "good_batch limit maxc (with_part sc cur (part @ [c]))"
        by (auto simp: good_batch_def with_part_def)
      then show ?thesis using P(1) szeq by (simp add: acc_ok_def)
    qed
    show ?thesis using Cons.IH [OF fit P(2,3)] P(6) False by (auto simp: Let_def with_part_def)
  qed
qed

lemma insert_disjoint: "A \<subseteq> insert x B \<Longrightarrow> B \<subseteq> C \<Longrightarrow> x \<notin> D \<Longrightarrow> C \<inter> D = {} \<Longrightarrow> A \<inter> D = {}"
  by blast

lemma batch_series_ok:
  assumes "acc_ok limit maxc batches cur sz" "0 < maxc" "distinct (map sc_ID series)"
    "sc_ID ` set cur \<inter> sc_ID ` set series = {}"
    "batch_series limit maxc (batches, cur, sz) series = (batches', cur', sz')"
  shows "acc_ok limit maxc batches' cur' sz'
    \<and> concat (map flat batches') @ flat cur' = concat (map flat batches) @ flat cur @ flat series"
  using assms
proof (induction series arbitrary: batches cur sz)
  case (Cons sc rest)
  obtain b1 c1 s1 part where B: "batch_chunks limit maxc sc (batches, cur, sz) [] (seriesOpenWireBytes (sc_Labels sc)) (sc_Chunks sc)
      = ((b1, c1, s1), part)" by (metis prod.exhaust_sel)
  have ok: "acc_ok limit maxc b1 (with_part sc c1 part) s1 \<and> set c1 \<subseteq> set cur
    \<and> concat (map flat b1) @ flat (with_part sc c1 part) =
      concat (map flat batches) @ flat (with_part sc cur []) @ map (Pair (sc_ID sc, sc_Labels sc)) (sc_Chunks sc)"
    using Cons.prems(1,2,4) by (intro batch_chunks_ok [OF _ _ _ _ _ B]) (auto simp: with_part_def)
  have "sc_ID ` set (with_part sc c1 part) \<inter> sc_ID ` set rest = {}"
  proof -
    have a: "sc_ID ` set c1 \<subseteq> sc_ID ` set cur" using ok by blast
    have b: "sc_ID ` set (with_part sc c1 part) \<subseteq> insert (sc_ID sc) (sc_ID ` set c1)" by (auto simp: with_part_def)
    have c: "sc_ID sc \<notin> sc_ID ` set rest" "sc_ID ` set cur \<inter> sc_ID ` set rest = {}" using Cons.prems(3,4) by auto
    show ?thesis by (rule insert_disjoint [OF b a c])
  qed
  moreover have "batch_series limit maxc (b1, with_part sc c1 part, s1) rest = (batches', cur', sz')"
    using Cons.prems(5) B by (simp add: with_part_def)
  ultimately have "acc_ok limit maxc batches' cur' sz'
      \<and> concat (map flat batches') @ flat cur' = (concat (map flat b1) @ flat (with_part sc c1 part)) @ flat rest"
    using Cons.IH [of b1 "with_part sc c1 part" s1] ok Cons.prems(2,3) by simp
  moreover have "concat (map flat b1) @ flat (with_part sc c1 part) =
      concat (map flat batches) @ flat cur @ map (Pair (sc_ID sc, sc_Labels sc)) (sc_Chunks sc)" using ok by simp
  ultimately show ?case by (simp only: flat_Cons append_assoc simp_thms)
qed simp

lemma batchSeriesChunks_ok:
  assumes "0 < maxc" "distinct (map sc_ID series)"
  shows "(\<forall>g \<in> set (batchSeriesChunks series limit maxc). good_batch limit maxc g)
    \<and> concat (map flat (batchSeriesChunks series limit maxc)) = flat series"
proof -
  obtain b c s where B: "batch_series limit maxc ([], [], 0) series = (b, c, s)" by (metis prod.exhaust_sel)
  from batch_series_ok [OF _ assms _ B] show ?thesis
    by (auto simp: batchSeriesChunks_def B acc_ok_def)
qed


section \<open>The flush\<close>

text \<open>
  \<^verbatim>\<open>hs_floor\<close> is the content of the generation-floor file, absent on a fresh ingester. A sink is a
  function of its own state and a batch that says whether it acknowledged.
\<close>

record HeadStore =
  hs_mem :: MemoryStore
  hs_floor :: "string option"
  hs_batchBytes :: int

type_synonym 'k sink = "'k \<Rightarrow> SeriesChunks list \<Rightarrow> bool \<times> 'k"

datatype flush_error = FlushWait | FlushFloor | FlushSink

definition FormatInt :: "int \<Rightarrow> string" where
  "FormatInt v = (if v < 0 then ''-'' else []) @ decimal (nat (abs v))"

definition writeGenFloor :: "i64 \<Rightarrow> string" where
  "writeGenFloor v = FormatInt (sint v) @ [CHR 0x0A]"

text \<open>A missing file is floor 1; \<^const>\<open>None\<close> is the error for a malformed one.\<close>

definition readGenFloor :: "string option \<Rightarrow> i64 option" where
  "readGenFloor file =
     (case file of
        None \<Rightarrow> Some 1
      | Some raw \<Rightarrow>
        case Atoi (TrimSpace raw) of
          None \<Rightarrow> None
        | Some v \<Rightarrow> if v < 1 then None else Some (word_of_int v))"

definition DefaultFlushBatchBytes :: int where "DefaultFlushBatchBytes = 16777216"

definition OpenHeadStore :: "string option \<Rightarrow> int \<Rightarrow> HeadStore option" where
  "OpenHeadStore file batchBytes =
     map_option (\<lambda>floor. \<lparr>hs_mem = EnsureGenFloor floor NewMemoryStore, hs_floor = file,
       hs_batchBytes = (if batchBytes \<le> 0 then DefaultFlushBatchBytes else batchBytes)\<rparr>) (readGenFloor file)"

fun flush_batches :: "'k sink \<Rightarrow> 'k \<Rightarrow> MemoryStore \<Rightarrow> bool \<Rightarrow> SeriesChunks list list \<Rightarrow> (bool \<times> bool) \<times> 'k \<times> MemoryStore" where
  "flush_batches sink k mem sent [] = ((True, sent), k, mem)"
| "flush_batches sink k mem sent (batch # rest) =
     (case sink k batch of
        (False, k1) \<Rightarrow> ((False, sent), k1, mem)
      | (True, k1) \<Rightarrow> flush_batches sink k1 (DiscardSealedChunks batch mem) True rest)"

definition remove_empty :: "MemoryStore \<Rightarrow> MemoryStore" where
  "remove_empty mem = foldl (\<lambda>m sid. snd (RemoveEmptySeries sid m)) mem (EmptyHeadSeriesIDs mem)"

text \<open>
  \<^verbatim>\<open>locked\<close> says whether the flush lock was taken within the deadline, \<^verbatim>\<open>floorOk\<close> whether the floor
  file could be written.
\<close>

definition FlushBlockContext :: "bool \<Rightarrow> bool \<Rightarrow> 'k sink \<Rightarrow> 'k \<Rightarrow> HeadStore \<Rightarrow> (flush_error \<times> bool + bool) \<times> 'k \<times> HeadStore" where
  "FlushBlockContext locked floorOk sink k h =
     (if \<not> locked then (Inl (FlushWait, False), k, h)
      else
        let snapshot = SealedChunksSnapshot (hs_mem h) in
        if snapshot = [] then (Inr False, k, h)
        else if \<not> floorOk then (Inl (FlushFloor, False), k, h)
        else
          let h1 = h\<lparr>hs_floor := Some (writeGenFloor (NextGeneration (hs_mem h)))\<rparr>;
              ((ok, sent), k1, mem) = flush_batches sink k (hs_mem h) False (BatchSeriesChunks snapshot (hs_batchBytes h))
          in if ok then (Inr True, k1, h1\<lparr>hs_mem := remove_empty mem\<rparr>)
             else (Inl (FlushSink, sent), k1, h1\<lparr>hs_mem := mem\<rparr>))"

section \<open>What a flush leaves\<close>

definition batch_ptrs :: "SeriesChunks list \<Rightarrow> cptr list" where
  "batch_ptrs d = concat (map (\<lambda>sc. map fst (sc_Chunks sc)) d)"

lemma chunk_list_Cons: "chunk_list ((sid, ms) # xs) = map (\<lambda>(p, c). (p, sid, c)) (ms_chunks ms) @ chunk_list xs"
  by (simp add: chunk_list_def)

lemma chunk_list_discard:
  assumes "mem_inv s"
  shows "chunk_list (st_series (DiscardSealedChunks d s)) = filter (\<lambda>x. fst x \<notin> set (batch_ptrs d)) (chunk_list (st_series s))"
proof -
  have "chunk_list (map (\<lambda>(sid, ms). (sid, snd (discard_series r ms))) xs) = filter (\<lambda>x. fst x \<notin> set r) (chunk_list xs)"
    if "\<forall>x \<in> set xs. length (ms_chunkSegs (snd x)) = length (ms_chunks (snd x))" for r and xs :: "(u64 \<times> memorySeries) list"
    using that
  proof (induction xs)
    case (Cons x xs)
    then show ?case
      by (cases x) (simp add: chunk_list_Cons discard_series_simps(2) filter_map comp_def case_prod_beta)
  qed (simp add: chunk_list_def)
  moreover have "\<forall>x \<in> set (st_series s). length (ms_chunkSegs (snd x)) = length (ms_chunks (snd x))"
    using mem_invD(2) [OF assms] by (auto simp: series_ok_def)
  ultimately show ?thesis by (simp add: DiscardSealedChunks_def Let_def case_prod_beta discard_loop_series batch_ptrs_def)
qed

lemma chunk_list_discards:
  "mem_inv s \<Longrightarrow> mem_inv (foldl (\<lambda>m b. DiscardSealedChunks b m) s bs)
    \<and> chunk_list (st_series (foldl (\<lambda>m b. DiscardSealedChunks b m) s bs)) =
      filter (\<lambda>x. fst x \<notin> set (concat (map batch_ptrs bs))) (chunk_list (st_series s))"
proof (induction bs rule: rev_induct)
  case (snoc b bs)
  then show ?case by (auto simp: mem_inv_discard chunk_list_discard intro: filter_cong)
qed simp

lemma flush_batches_acked:
  assumes "\<And>k b. fst (sink k b)"
  shows "\<exists>k'. flush_batches sink k mem sent bs = ((True, sent \<or> bs \<noteq> []), k', foldl (\<lambda>m b. DiscardSealedChunks b m) mem bs)"
proof (induction bs arbitrary: k mem sent)
  case (Cons b bs)
  obtain k1 where "sink k b = (True, k1)" using assms [of k b] by (metis prod.collapse)
  then show ?case using Cons [of k1 "DiscardSealedChunks b mem" True] by simp
qed simp

lemma flat_ptrs: "map (\<lambda>x. fst (snd x)) (flat g) = batch_ptrs g"
  by (induction g) (auto simp: flat_def batch_ptrs_def comp_def)

lemma snapshot_alt: "SealedChunksSnapshot s = List.map_filter (\<lambda>x.
    if filter (\<lambda>pc. Sealed (snd pc)) (ms_chunks (snd x)) = [] then None
    else Some \<lparr>sc_ID = fst x, sc_Labels = ms_labels (snd x), sc_Chunks = filter (\<lambda>pc. Sealed (snd pc)) (ms_chunks (snd x))\<rparr>) (st_series s)"
  unfolding SealedChunksSnapshot_def Let_def case_prod_beta ..

lemma snapshot_ids:
  assumes "mem_inv s"
  shows "distinct (map sc_ID (SealedChunksSnapshot s))"
proof -
  have "map sc_ID (List.map_filter (\<lambda>x. if f x = [] then None else Some \<lparr>sc_ID = fst x, sc_Labels = g x, sc_Chunks = f x\<rparr>) xs)
      = map fst (filter (\<lambda>x. f x \<noteq> []) xs)" for f g and xs :: "(u64 \<times> memorySeries) list"
    by (induction xs) (auto simp: List.map_filter_simps)
  then show ?thesis using mem_invD(1) [OF assms] by (simp add: snapshot_alt distinct_map_filter)
qed

lemma snapshot_ptrs: "set (batch_ptrs (SealedChunksSnapshot s)) = {p. \<exists>sid c. (p, sid, c) \<in> set (chunk_list (st_series s)) \<and> Sealed c}"
proof -
  have "batch_ptrs (List.map_filter (\<lambda>x. if f x = [] then None else Some \<lparr>sc_ID = fst x, sc_Labels = g x, sc_Chunks = f x\<rparr>) xs)
      = concat (map (\<lambda>x. map fst (f x)) xs)" for f g and xs :: "(u64 \<times> memorySeries) list"
    by (induction xs) (auto simp: List.map_filter_simps batch_ptrs_def)
  then show ?thesis unfolding snapshot_alt by (force simp: chunk_list_iff)
qed


section \<open>The generation floor\<close>

lemma space_facts:
  "list_all (\<lambda>e. e \<noteq> [] \<and> \<not> is_digit (hd e) \<and> \<not> is_digit (hd (rev e)) \<and> (hd (rev e) = CHR 0x0A \<longrightarrow> e = [CHR 0x0A])) space_encodings"
  "[CHR 0x0A] \<in> set space_encodings"
  by code_simp+

lemma find_SomeD: "find P xs = Some x \<Longrightarrow> x \<in> set xs \<and> P x"
  by (induction xs) (auto split: if_splits)

lemma trim_left_digit:
  assumes "\<forall>e \<in> set encs. e \<noteq> [] \<and> \<not> is_digit (hd e)" "is_digit c"
  shows "trim_left encs n (c # s) = c # s"
proof (cases n)
  case (Suc m)
  have "find (\<lambda>e. take (length e) (c # s) = e) encs = None"
    using assms by (fastforce simp: find_None_iff take_Cons' neq_Nil_conv split: if_splits)
  then show ?thesis by (simp add: Suc)
qed simp

lemma TrimSpace_digits:
  assumes "ds \<noteq> []" "list_all is_digit ds"
  shows "TrimSpace (ds @ [CHR 0x0A]) = ds"
proof -
  let ?R = "map rev space_encodings"
  have e: "\<forall>e \<in> set space_encodings. e \<noteq> [] \<and> \<not> is_digit (hd e)" "\<forall>e \<in> set ?R. e \<noteq> [] \<and> \<not> is_digit (hd e)"
    "\<forall>e \<in> set ?R. hd e = CHR 0x0A \<longrightarrow> e = [CHR 0x0A]" "[CHR 0x0A] \<in> set ?R"
  proof -
    have all: "e \<noteq> [] \<and> \<not> is_digit (hd e) \<and> \<not> is_digit (hd (rev e)) \<and> (hd (rev e) = CHR 0x0A \<longrightarrow> e = [CHR 0x0A])"
      if "e \<in> set space_encodings" for e using space_facts(1) that unfolding list_all_iff by blast
    show "\<forall>e \<in> set space_encodings. e \<noteq> [] \<and> \<not> is_digit (hd e)" using all by blast
    show "\<forall>e \<in> set ?R. e \<noteq> [] \<and> \<not> is_digit (hd e)" "\<forall>e \<in> set ?R. hd e = CHR 0x0A \<longrightarrow> e = [CHR 0x0A]"
      using all unfolding set_map ball_simps(9) by (auto dest: all)
    show "[CHR 0x0A] \<in> set ?R" using space_facts(2) imageI [of _ _ rev] by force
  qed
  obtain r d where ds: "ds = r @ [d]" using assms(1) by (cases ds rule: rev_cases) auto
  then have r: "rev ds = d # rev r" "is_digit d" using assms(2) by simp_all
  have left: "trim_left space_encodings n (ds @ [CHR 0x0A]) = ds @ [CHR 0x0A]" for n
    using assms trim_left_digit [OF e(1)] by (cases ds) auto
  obtain x where x: "find (\<lambda>e. take (length e) (CHR 0x0A # rev ds) = e) ?R = Some x"
    using e(4) by (cases "find (\<lambda>e. take (length e) (CHR 0x0A # rev ds) = e) ?R") (force simp: find_None_iff)+
  note X = find_SomeD [OF x, THEN conjunct1] find_SomeD [OF x, THEN conjunct2]
  obtain y ys where y: "x = y # ys" using e(2) X(1) by (metis neq_Nil_conv)
  then have "hd x = CHR 0x0A" using X(2) by simp
  then have "x = [CHR 0x0A]" using e(3) X(1) by blast
  then have "trim_left ?R (Suc (length ds)) (CHR 0x0A # rev ds) = rev ds"
    using x trim_left_digit [OF e(2) r(2)] by (simp add: r(1))
  then show ?thesis unfolding TrimSpace_def Let_def left by (simp del: trim_left.simps)
qed

lemma genfloor_roundtrip:
  assumes "1 \<le> sint v"
  shows "readGenFloor (Some (writeGenFloor v)) = Some v"
proof -
  let ?ds = "decimal (nat (sint v))"
  have d: "list_all is_digit ?ds" "digits_val ?ds = nat (sint v)" using decimal_digits by blast+
  have ne: "?ds \<noteq> []" using d(2) assms by auto
  have h: "hd ?ds \<noteq> CHR ''-'' \<and> hd ?ds \<noteq> CHR ''+''"
    using d(1) ne by (cases ?ds) (auto simp: is_digit_def)
  have "sint v < 2 ^ 63" using sint_range_size [of v] by (simp add: word_size)
  then have "Atoi ?ds = Some (sint v)" using d ne h assms by (simp add: Atoi_def Let_def)
  moreover have "TrimSpace (writeGenFloor v) = ?ds"
    using TrimSpace_digits [OF ne d(1)] assms by (simp add: writeGenFloor_def FormatInt_def)
  ultimately show ?thesis using assms by (simp add: readGenFloor_def)
qed

section \<open>Runs of a head store\<close>

text \<open>
  A run of the ingester over any number of process lives. The state pairs the head store with the
  log of the batches handed to the sink so far, in every life; the sink may answer anything, and its answer may depend
  on the log. A failed \<^verbatim>\<open>writeGenFloor\<close> leaves the old file, or the new one when only the last directory
  sync failed (\<^verbatim>\<open>floor_published\<close>). A crash loses the memory at any moment: after a batch was handed over
  and not answered it is a flush whose sink fails from there on, followed by \<^verbatim>\<open>reopen\<close>.
\<close>

definition logging_sink :: "(SeriesChunks list list \<Rightarrow> SeriesChunks list \<Rightarrow> bool) \<Rightarrow> SeriesChunks list list sink" where
  "logging_sink answer log batch = (answer log batch, log @ [batch])"

inductive head_step :: "HeadStore \<times> SeriesChunks list list \<Rightarrow> HeadStore \<times> SeriesChunks list list \<Rightarrow> bool" where
  head_store: "store_step (hs_mem h) m \<Longrightarrow> head_step (h, log) (h\<lparr>hs_mem := m\<rparr>, log)"
| head_flush: "FlushBlockContext locked floorOk (logging_sink answer) log h = (r, log', h') \<Longrightarrow> head_step (h, log) (h', log')"
| floor_published: "head_step (h, log) (h\<lparr>hs_floor := Some (writeGenFloor (NextGeneration (hs_mem h)))\<rparr>, log)"
| reopen: "OpenHeadStore (hs_floor h) b = Some h0 \<Longrightarrow> head_step (h, log) (h0, log)"

text \<open>The samples a log of batches carries.\<close>

definition shipped :: "SeriesChunks list list \<Rightarrow> sample set" where
  "shipped log = (\<Union>batch \<in> set log. \<Union>sc \<in> set batch. \<Union>pc \<in> set (sc_Chunks sc). set (chunk_samples (sc_ID sc) (snd pc)))"

definition floor_inv :: "HeadStore \<times> SeriesChunks list list \<Rightarrow> bool" where
  "floor_inv st \<longleftrightarrow> (case st of (h, log) \<Rightarrow> mem_inv (hs_mem h)
     \<and> (\<exists>f. readGenFloor (hs_floor h) = Some f \<and> 1 \<le> sint f \<and> f \<le>s NextGeneration (hs_mem h)
          \<and> (\<forall>x \<in> shipped log. sm_gen x <s f)))"

lemma shipped_simps [simp]:
  "shipped [] = {}" "shipped (a @ b) = shipped a \<union> shipped b"
  by (auto simp: shipped_def)

lemma map_series_nextGen [simp]:
  "NextGeneration (snd (SealHeadChunks s)) = NextGeneration s" "NextGeneration (SetHeadFence seg s) = NextGeneration s"
  "NextGeneration (snd (RemoveEmptySeries sid s)) = NextGeneration s" "NextGeneration (DiscardSealedChunks d s) = NextGeneration s"
  by (auto simp: NextGeneration_def SealHeadChunks_def SetHeadFence_def RemoveEmptySeries_def DiscardSealedChunks_def Let_def
      split: prod.splits option.splits if_splits)

lemma store_step_nextGen:
  assumes "store_step s s'" "mem_inv s"
  shows "NextGeneration s \<le>s NextGeneration s'"
  using assms(1)
proof cases
  case (step_append lbls gen now ts v seg)
  show ?thesis
  proof (cases "settle_generation now gen s")
    case (Inl e)
    then show ?thesis by (simp add: step_append(1) appendInternal_def word_sle_eq)
  next
    case (Inr gs)
    obtain g s1 where gs: "gs = (g, s1)" by (cases gs)
    note S = Inr [unfolded gs]
    obtain ms' where "st_nextGen s' = st_nextGen s1"
      by (rule append_effect [OF assms(2) step_append(2-4) S, where ts = ts and v = v and seg = seg, folded step_append(1)]) (rule that)
    then show ?thesis using settle_generation_ok(3) [OF assms(2) step_append(4) S] by (simp add: NextGeneration_def)
  qed
next
  case (step_reserve now g)
  have "settle_generation now 0 s = Inr (g, s')" using step_reserve by (simp add: settle_generation_def ReserveGeneration_def)
  from settle_generation_ok(3) [OF assms(2) _ this] show ?thesis by (simp add: NextGeneration_def)
next
  case (step_floor f)
  then show ?thesis by (auto simp: NextGeneration_def EnsureGenFloor_def word_sle_eq word_sless_alt)
qed (simp_all add: word_sle_eq)

lemma flush_batches_log:
  assumes "flush_batches (logging_sink answer) log m sent bs = ((ok, sent'), log', m')" "mem_inv m"
  shows "NextGeneration m' = NextGeneration m \<and> mem_inv m' \<and> (\<exists>n. log' = log @ take n bs)"
  using assms
proof (induction bs arbitrary: log m sent)
  case (Cons b bs)
  show ?case
  proof (cases "answer log b")
    case True
    then have "flush_batches (logging_sink answer) (log @ [b]) (DiscardSealedChunks b m) True bs = ((ok, sent'), log', m')"
      using Cons.prems(1) by (simp add: logging_sink_def [abs_def])
    from Cons.IH [OF this mem_inv_discard [OF Cons.prems(2)]] obtain n where
      "NextGeneration m' = NextGeneration m" "mem_inv m'" "log' = (log @ [b]) @ take n bs" by auto
    then show ?thesis by (intro conjI exI [of _ "Suc n"]) simp_all
  next
    case False
    then show ?thesis using Cons.prems by (auto simp: logging_sink_def intro: exI [of _ 1])
  qed
qed simp

lemma remove_empty_nextGen: "mem_inv m \<Longrightarrow> mem_inv (remove_empty m) \<and> NextGeneration (remove_empty m) = NextGeneration m"
proof -
  have "mem_inv m \<Longrightarrow> mem_inv (foldl (\<lambda>m sid. snd (RemoveEmptySeries sid m)) m sids)
    \<and> NextGeneration (foldl (\<lambda>m sid. snd (RemoveEmptySeries sid m)) m sids) = NextGeneration m" for sids
    by (induction sids arbitrary: m) (auto simp: mem_inv_remove)
  then show "mem_inv m \<Longrightarrow> mem_inv (remove_empty m) \<and> NextGeneration (remove_empty m) = NextGeneration m"
    by (simp add: remove_empty_def)
qed

lemma shipped_from_head:
  assumes "mem_inv m" "x \<in> shipped (BatchSeriesChunks (SealedChunksSnapshot m) limit)"
  shows "sm_gen x <s NextGeneration m"
proof -
  let ?bs = "BatchSeriesChunks (SealedChunksSnapshot m) limit"
  obtain batch sc p c where b: "batch \<in> set ?bs" "sc \<in> set batch" "(p, c) \<in> set (sc_Chunks sc)" "x \<in> set (chunk_samples (sc_ID sc) c)"
    using assms(2) by (auto simp: shipped_def)
  have "concat (map flat ?bs) = flat (SealedChunksSnapshot m)"
    unfolding BatchSeriesChunks_def
    by (rule batchSeriesChunks_ok [THEN conjunct2]) (simp_all add: MaxChunksPerSeries_def snapshot_ids [OF assms(1)])
  moreover have "((sc_ID sc, sc_Labels sc), p, c) \<in> set (concat (map flat ?bs))"
    using b(1-3) by (auto simp: flat_def)
  ultimately obtain sc' where "sc' \<in> set (SealedChunksSnapshot m)" "sc_ID sc' = sc_ID sc" "(p, c) \<in> set (sc_Chunks sc')"
    by (auto simp: flat_def)
  then obtain ms where ms: "(sc_ID sc, ms) \<in> set (st_series m)" "(p, c) \<in> set (ms_chunks ms)"
    unfolding snapshot_alt by (auto simp: List.map_filter_def split: if_splits)
  have s: "map_of (st_series m) (sc_ID sc) = Some ms" using ms(1) mem_invD(1) [OF assms(1)] by simp
  note C = series_chunks_ok [OF assms(1) s]
  have "x \<in> set (held (holds_of m) (sc_ID sc))"
    using ms(2) b(4) C(1) by (force simp: held_def holds_of_def s ms_samples_def)
  from held_gens(1) [OF assms(1) this] show ?thesis by (simp add: NextGeneration_def)
qed

lemma reopened_generation:
  assumes "readGenFloor file = Some f" "1 \<le> sint f"
  shows "\<exists>h0. OpenHeadStore file b = Some h0 \<and> hs_floor h0 = file \<and> mem_inv (hs_mem h0) \<and> NextGeneration (hs_mem h0) = f"
proof -
  have "NextGeneration (EnsureGenFloor f NewMemoryStore) = f"
  proof -
    have "f = 1" if "\<not> 1 < sint f" using that assms(2) signed_word_eqI [of f 1] by simp
    then show ?thesis by (auto simp: NextGeneration_def EnsureGenFloor_def NewMemoryStore_def word_sless_alt)
  qed
  then show ?thesis using assms(1) mem_inv_floor [OF mem_inv_new] by (simp add: OpenHeadStore_def)
qed

lemma floor_inv_flush:
  assumes "FlushBlockContext locked floorOk (logging_sink answer) log h = (r, log', h')" "floor_inv (h, log)"
  shows "floor_inv (h', log')"
proof (cases "locked \<and> floorOk \<and> SealedChunksSnapshot (hs_mem h) \<noteq> []")
  case False
  then have "h' = h \<and> log' = log" using assms(1) by (auto simp: FlushBlockContext_def Let_def split: if_splits)
  then show ?thesis using assms(2) by simp
next
  case True
  let ?bs = "BatchSeriesChunks (SealedChunksSnapshot (hs_mem h)) (hs_batchBytes h)" and ?f' = "NextGeneration (hs_mem h)"
  obtain f where f: "readGenFloor (hs_floor h) = Some f" "f \<le>s ?f'" "\<forall>x \<in> shipped log. sm_gen x <s f" and inv: "mem_inv (hs_mem h)"
    using assms(2) by (auto simp: floor_inv_def)
  obtain ok sent l1 m where B: "flush_batches (logging_sink answer) log (hs_mem h) False ?bs = ((ok, sent), l1, m)" by (metis prod.exhaust)
  from flush_batches_log [OF B inv] obtain n where
    m: "NextGeneration m = ?f'" "mem_inv m" "l1 = log @ take n ?bs" by blast
  have h': "log' = l1" "hs_floor h' = Some (writeGenFloor ?f')" "hs_mem h' = m \<or> hs_mem h' = remove_empty m"
    using assms(1) True B by (auto simp: FlushBlockContext_def Let_def split: if_splits)
  have ng: "1 \<le> sint ?f'" using mem_invD(7) [OF inv] by (simp add: NextGeneration_def word_sle_eq)
  have "sm_gen x <s ?f'" if "x \<in> shipped l1" for x
  proof (cases "x \<in> shipped log")
    case True
    then show ?thesis using f(2,3) by (auto simp: word_sless_alt word_sle_eq)
  next
    case False
    then have "x \<in> shipped (take n ?bs)" using that m(3) by simp
    then have "x \<in> shipped ?bs" by (auto simp: shipped_def dest: in_set_takeD)
    then show ?thesis by (rule shipped_from_head [OF inv])
  qed
  then show ?thesis using h' m remove_empty_nextGen [OF m(2)] genfloor_roundtrip [OF ng] ng
    by (auto simp: floor_inv_def word_sle_eq)
qed

lemma floor_inv_step: "head_step st st' \<Longrightarrow> floor_inv st \<Longrightarrow> floor_inv st'"
proof (induction rule: head_step.induct)
  case (head_store h m log)
  then show ?case using store_step_nextGen [OF head_store.hyps] store_step_inv [OF head_store.hyps]
    by (fastforce simp: floor_inv_def word_sle_eq)
next
  case (head_flush locked floorOk answer log h r log' h')
  then show ?case by (rule floor_inv_flush)
next
  case (floor_published h log)
  then have ng: "1 \<le> sint (NextGeneration (hs_mem h))" using mem_invD(7) by (auto simp: floor_inv_def NextGeneration_def word_sle_eq)
  show ?case using floor_published genfloor_roundtrip [OF ng] ng
    by (auto simp: floor_inv_def word_sle_eq word_sless_alt)
next
  case (reopen h b h0 log)
  then obtain f where f: "readGenFloor (hs_floor h) = Some f" "1 \<le> sint f" "\<forall>x \<in> shipped log. sm_gen x <s f"
    by (auto simp: floor_inv_def)
  then show ?case using reopened_generation [OF f(1,2), of b] reopen.hyps by (auto simp: floor_inv_def word_sle_eq)
qed

lemma floor_inv_run:
  assumes "head_step\<^sup>*\<^sup>* (h0, []) st" "OpenHeadStore None b = Some h0"
  shows "floor_inv st"
  using assms(1)
proof (induction rule: rtranclp_induct)
  case base
  show ?case using assms(2) reopened_generation [of None 1 b] by (auto simp: floor_inv_def readGenFloor_def word_sle_eq)
qed (rule floor_inv_step)

lemma reserved_generation:
  assumes "ReserveGeneration now s = Inr (g, s')" "mem_inv s"
  shows "NextGeneration s \<le>s g"
proof -
  have "settle_generation now 0 s = Inr (g, s')" using assms(1) by (simp add: settle_generation_def ReserveGeneration_def)
  from settle_generation_ok(5) [OF assms(2) _ this] show ?thesis by (simp add: NextGeneration_def)
qed

lemma head_store_run: "store_step\<^sup>*\<^sup>* m m' \<Longrightarrow> head_step\<^sup>*\<^sup>* (h\<lparr>hs_mem := m\<rparr>, log) (h\<lparr>hs_mem := m'\<rparr>, log)"
proof (induction rule: rtranclp_induct)
  case (step y z)
  have "head_step (h\<lparr>hs_mem := y\<rparr>, log) (h\<lparr>hs_mem := z\<rparr>, log)"
    using head_store [of "h\<lparr>hs_mem := y\<rparr>" z log] step.hyps(2) by simp
  with step.IH show ?case by (rule rtranclp.rtrancl_into_rtrancl)
qed simp


section \<open>Properties\<close>

text \<open>
  batching loses nothing and respects every bound. For a snapshot with distinct series, the groups
  hold exactly the snapshot's chunks, in order and under their series; no group is empty or names a
  series twice; no series has more than \<^verbatim>\<open>maxChunksPerSeries\<close> chunks in a group; and a group's estimated
  bytes stay within the limit unless it is a single chunk.
\<close>

lemma batchSeriesChunks_correct:
  assumes "0 < maxc" "distinct (map sc_ID series)"
  shows "concat (map flat (batchSeriesChunks series limit maxc)) = flat series
    \<and> (\<forall>g \<in> set (batchSeriesChunks series limit maxc). g \<noteq> [] \<and> distinct (map sc_ID g)
        \<and> (\<forall>sc \<in> set g. sc_Chunks sc \<noteq> [] \<and> length (sc_Chunks sc) \<le> maxc)
        \<and> (group_bytes g \<le> limit \<or> length (flat g) = 1))"
  using batchSeriesChunks_ok [OF assms, of limit] by (auto simp: good_batch_def)

text \<open>
  C9: a restarted ingester outranks everything it ever shipped. In every run of writes, seals and
  other head operations, flushes with any sink answers and any failure to take the lock or to write the floor, and
  restarts, in any order: opening the head from the floor file succeeds, and the generation of every
  sample ever handed to a sink, in this life or an earlier one, is below the next generation of the
  reopened head and of the running one, and below every generation either assigns.
\<close>

theorem flush_floor_outranks:
  assumes "OpenHeadStore None batchBytes = Some fresh" "head_step\<^sup>*\<^sup>* (fresh, []) (h, log)"
  shows "\<exists>h0. OpenHeadStore (hs_floor h) b = Some h0
    \<and> (\<forall>m \<in> {hs_mem h, hs_mem h0}. \<forall>x \<in> shipped log. sm_gen x <s NextGeneration m
         \<and> (\<forall>now g m'. ReserveGeneration now m = Inr (g, m') \<longrightarrow> sm_gen x <s g))"
proof -
  obtain f where f: "readGenFloor (hs_floor h) = Some f" "1 \<le> sint f" "f \<le>s NextGeneration (hs_mem h)" "\<forall>x \<in> shipped log. sm_gen x <s f"
    and inv: "mem_inv (hs_mem h)"
    using floor_inv_run [OF assms(2,1)] by (auto simp: floor_inv_def)
  obtain h0 where h0: "OpenHeadStore (hs_floor h) b = Some h0" "mem_inv (hs_mem h0)" "NextGeneration (hs_mem h0) = f"
    using reopened_generation [OF f(1,2), of b] by blast
  have "mem_inv m \<and> f \<le>s NextGeneration m" if "m \<in> {hs_mem h, hs_mem h0}" for m
    using that h0 f(3) inv by (auto simp: word_sle_eq)
  then show ?thesis using h0(1) f(4) reserved_generation
    by (intro exI [of _ h0] conjI ballI allI impI) (force simp: word_sle_eq word_sless_alt)+
qed

definition demo_store :: HeadStore where
  "demo_store = \<lparr>hs_mem = snd (SealHeadChunks demo_head), hs_floor = None, hs_batchBytes = 1000\<rparr>"

lemma demo_store_reachable: "store_step\<^sup>*\<^sup>* NewMemoryStore (hs_mem demo_store)"
  using demo_head_reachable step_seal [of demo_head] by (simp add: demo_store_def)

definition demo_sent :: "(flush_error \<times> bool + bool) \<times> SeriesChunks list list \<times> HeadStore" where
  "demo_sent = FlushBlockContext True True (logging_sink (\<lambda>log b. True)) [] demo_store"

theorem flush_floor_outranks_witness:
  "(\<exists>x \<in> shipped (fst (snd demo_sent)). sm_gen x = 5) \<and> st_series (hs_mem (snd (snd demo_sent))) = []
    \<and> (\<exists>h0. OpenHeadStore (hs_floor (snd (snd demo_sent))) 0 = Some h0 \<and> 5 <s NextGeneration (hs_mem h0))"
proof -
  let ?fresh = "\<lparr>hs_mem = NewMemoryStore, hs_floor = None, hs_batchBytes = 1000\<rparr>"
  have fresh: "OpenHeadStore None 1000 = Some ?fresh" by code_simp
  have "head_step\<^sup>*\<^sup>* (?fresh, []) (demo_store, [])"
    using head_store_run [OF demo_store_reachable, of ?fresh "[]"] by (simp add: demo_store_def)
  moreover obtain r log h where d: "demo_sent = (r, log, h)" by (metis prod_cases3)
  then have "head_step (demo_store, []) (h, log)" unfolding demo_sent_def by (rule head_flush)
  ultimately have run: "head_step\<^sup>*\<^sup>* (?fresh, []) (h, log)" by (rule rtranclp.rtrancl_into_rtrancl)
  have x: "5 \<in> sm_gen ` shipped (fst (snd demo_sent))" by code_simp
  have e: "st_series (hs_mem (snd (snd demo_sent))) = []" by code_simp
  have "\<exists>h0. OpenHeadStore (hs_floor h) 0 = Some h0 \<and> 5 <s NextGeneration (hs_mem h0)"
    using flush_floor_outranks [OF fresh run, of 0] x by (auto simp: d)
  then show ?thesis using x e by (auto simp: d)
qed

end
