(* ===== verification/WalStore.thy ===== *)
theory WalStore
  imports HeadStore
begin

text \<open>
  \<^verbatim>\<open>internal/metrics/walstore.go\<close> with the restart of \<^verbatim>\<open>internal/app/storage.go\<close>: every sample is written to
  the WAL before it reaches the head, a flush moves sealed chunks to the sink, and the checkpoint deletes
  the WAL segments no chunk in memory needs. The store is the head of \<^verbatim>\<open>HeadStore\<close> beside the segment
  writer of \<^verbatim>\<open>Segments\<close>; the mutex \<^verbatim>\<open>appendMu\<close> makes an append and the choice of a boundary atomic,
  everything else interleaves, which the step relation \<^verbatim>\<open>wal_step\<close> says.
\<close>

section \<open>Appending\<close>

definition labelsToWALPairs :: "Labels \<Rightarrow> label list" where
  "labelsToWALPairs l = sort_key fst (Map l)"

datatype wal_store_error = HeadErr store_error | WalErr werror | GenOutOfRange

definition write_then_append :: "wfaults \<Rightarrow> i64 \<Rightarrow> Labels \<Rightarrow> i64 \<Rightarrow> float64 \<Rightarrow> i64 \<Rightarrow> MemoryStore \<times> SegWriter
    \<Rightarrow> wal_store_error option \<times> MemoryStore \<times> SegWriter" where
  "write_then_append ft now l tsMs v gen hw =
     (case hw of (h, w) \<Rightarrow>
      let walSeg = int (sw_segIndex w) in
      case WriteRecordGen ft (labelsToWALPairs l, tsMs, v, gen) w of
        (w1, Some e) \<Rightarrow> (Some (WalErr e), h, w1)
      | (w1, None) \<Rightarrow>
        case AppendTrackedGen now l tsMs v gen walSeg h of (e, h1) \<Rightarrow> (map_option HeadErr e, h1, w1))"

definition WALAppend :: "wfaults \<Rightarrow> i64 \<Rightarrow> Labels \<Rightarrow> i64 \<Rightarrow> float64 \<Rightarrow> MemoryStore \<times> SegWriter
    \<Rightarrow> wal_store_error option \<times> MemoryStore \<times> SegWriter" where
  "WALAppend ft now l tsMs v hw =
     (case hw of (h, w) \<Rightarrow>
      case ReserveGeneration now h of
        Inl e \<Rightarrow> (Some (HeadErr e), h, w)
      | Inr (gen, h1) \<Rightarrow> write_then_append ft now l tsMs v gen (h1, w))"

definition AppendWithGeneration :: "wfaults \<Rightarrow> i64 \<Rightarrow> Labels \<Rightarrow> i64 \<Rightarrow> float64 \<Rightarrow> i64 \<Rightarrow> MemoryStore \<times> SegWriter
    \<Rightarrow> wal_store_error option \<times> MemoryStore \<times> SegWriter" where
  "AppendWithGeneration ft now l tsMs v gen hw =
     (if gen = 0 then WALAppend ft now l tsMs v hw
      else if gen <s 0 \<or> MaxGeneration <s gen then (Some GenOutOfRange, hw)
      else write_then_append ft now l tsMs v gen hw)"

section \<open>Checkpoint\<close>

definition safe_delete :: "MemoryStore \<Rightarrow> SegWriter \<Rightarrow> int" where
  "safe_delete h w =
     (let headFence = OldestHeadSegment h in
      if headFence < 0 then int (sw_segIndex w) - 1 else headFence - 1)"

definition deleteWALSegmentsUpTo :: "int \<Rightarrow> (nat \<times> wfile) list \<Rightarrow> (nat \<times> wfile) list" where
  "deleteWALSegmentsUpTo maxIdx d =
     filter (\<lambda>(i, f). case Atoi (trim_wal (segmentName i)) of None \<Rightarrow> True | Some idx \<Rightarrow> \<not> idx \<le> maxIdx) d"

definition ReadCheckpoint :: "string option \<Rightarrow> int" where
  "ReadCheckpoint file =
     (case file of None \<Rightarrow> 0 | Some s \<Rightarrow> (case Atoi (TrimSpace s) of None \<Rightarrow> 0 | Some n \<Rightarrow> n))"

section \<open>Flush and drain\<close>

record WALStore =
  ws_head :: HeadStore
  ws_wal :: SegWriter
  ws_checkpoint :: "string option"

datatype wal_flush_error = FlushFailed flush_error | CheckpointWrite | CheckpointDelete

text \<open>
  One flush with nothing interleaved. \<^verbatim>\<open>ckOk\<close> and \<^verbatim>\<open>delOk\<close> say whether writing the checkpoint file and
  deleting the segments succeeded.
\<close>

definition flushBlock :: "bool \<Rightarrow> bool \<Rightarrow> bool \<Rightarrow> bool \<Rightarrow> 'k sink \<Rightarrow> 'k \<Rightarrow> WALStore \<Rightarrow> (wal_flush_error + bool) \<times> 'k \<times> WALStore" where
  "flushBlock locked floorOk ckOk delOk sink k s =
     (case FlushBlockContext locked floorOk sink k (ws_head s) of
        (Inl (e, _), k1, h) \<Rightarrow> (Inl (FlushFailed e), k1, s\<lparr>ws_head := h\<rparr>)
      | (Inr False, k1, h) \<Rightarrow> (Inr False, k1, s\<lparr>ws_head := h\<rparr>)
      | (Inr True, k1, h) \<Rightarrow>
        let d = safe_delete (hs_mem h) (ws_wal s); s1 = s\<lparr>ws_head := h\<rparr> in
        if \<not> ckOk then (Inl CheckpointWrite, k1, s1)
        else
          let s2 = s1\<lparr>ws_checkpoint := Some (FormatInt d)\<rparr> in
          if \<not> delOk then (Inl CheckpointDelete, k1, s2)
          else (Inr True, k1, s2\<lparr>ws_wal := (ws_wal s)\<lparr>sw_dir := deleteWALSegmentsUpTo d (sw_dir (ws_wal s))\<rparr>\<rparr>))"

datatype drain_error = DrainFlush wal_flush_error | ErrDrainIncomplete

text \<open>The loop of \<^verbatim>\<open>Drain\<close>, which ends when nothing is sealed, nothing was written or a flush fails.\<close>

partial_function (option) drain_loop :: "bool \<Rightarrow> bool \<Rightarrow> bool \<Rightarrow> bool \<Rightarrow> 'k sink \<Rightarrow> 'k \<Rightarrow> WALStore
    \<Rightarrow> (drain_error option \<times> 'k \<times> WALStore) option" where
  "drain_loop locked floorOk ckOk delOk sink k s =
     (if SealedChunkCount (hs_mem (ws_head s)) > 0 then
        (case flushBlock locked floorOk ckOk delOk sink k s of
           (Inl e, k1, s1) \<Rightarrow> Some (Some (DrainFlush e), k1, s1)
         | (Inr wrote, k1, s1) \<Rightarrow>
           if wrote then drain_loop locked floorOk ckOk delOk sink k1 s1
           else Some (if OldestHeadSegment (hs_mem (ws_head s1)) \<ge> 0 then Some ErrDrainIncomplete else None, k1, s1))
      else Some (if OldestHeadSegment (hs_mem (ws_head s)) \<ge> 0 then Some ErrDrainIncomplete else None, k, s))"

definition Drain :: "bool \<Rightarrow> bool \<Rightarrow> bool \<Rightarrow> bool \<Rightarrow> 'k sink \<Rightarrow> 'k \<Rightarrow> WALStore
    \<Rightarrow> (drain_error option \<times> 'k \<times> WALStore) option" where
  "Drain locked floorOk ckOk delOk sink k s =
     drain_loop locked floorOk ckOk delOk sink k
       (s\<lparr>ws_head := (ws_head s)\<lparr>hs_mem := snd (SealHeadChunks (hs_mem (ws_head s)))\<rparr>\<rparr>)"

section \<open>Restart\<close>

definition pairs_map :: "label list \<Rightarrow> gomap" where
  "pairs_map ps = foldl (\<lambda>m p. AList.update (fst p) (snd p) m) [] ps"

definition replay_record :: "i64 \<Rightarrow> MemoryStore \<times> nat \<Rightarrow> wal_record \<Rightarrow> MemoryStore \<times> nat" where
  "replay_record now acc r =
     (case acc of (h, restored) \<Rightarrow> case r of (pairs, tsMs, v, gen) \<Rightarrow>
      case NewStoredLabels (pairs_map pairs) of
        Inl _ \<Rightarrow> (h, restored)
      | Inr l \<Rightarrow>
        (case AppendGen now l tsMs v gen h of
           (Some _, h1) \<Rightarrow> (h1, restored)
         | (None, h1) \<Rightarrow> (h1, restored + 1)))"

definition replayMetricsWAL :: "i64 \<Rightarrow> int \<Rightarrow> (string \<times> bytes) list \<Rightarrow> MemoryStore \<Rightarrow> MemoryStore \<times> nat \<times> replay_error option" where
  "replayMetricsWAL now checkpoint entries h =
     (case ReplayFromGen checkpoint entries of (rs, _, e) \<Rightarrow>
      case foldl (replay_record now) (h, 0) rs of (h1, restored) \<Rightarrow> (h1, restored, e))"

section \<open>The segment directory\<close>

definition dir_data :: "(nat \<times> wfile) list \<Rightarrow> nat \<Rightarrow> bytes option" where
  "dir_data d i = map_option f_data (map_of d i)"

definition seg_recs :: "(nat \<times> wfile) list \<Rightarrow> nat \<Rightarrow> wal_record list" where
  "seg_recs d i = (case dir_data d i of None \<Rightarrow> []
     | Some bs \<Rightarrow> fst (replaySegment decodeRecord maxRecordBodyBytes False bs))"

definition dir_ok :: "SegWriter \<Rightarrow> bool" where
  "dir_ok w \<longleftrightarrow> distinct (map fst (sw_dir w)) \<and> sw_segIndex w \<in> fst ` set (sw_dir w)
     \<and> (\<forall>i \<in> fst ` set (sw_dir w). i \<le> sw_segIndex w \<or> sw_broken w \<and> i = sw_segIndex w + 1)
     \<and> (\<forall>i bs. dir_data (sw_dir w) i = Some bs \<longrightarrow> (\<exists>rs. bs = frames recBody rs \<and> (\<forall>r \<in> set rs. recOk r)))"

lemma map_of_upd_cur: "map_of (sw_dir (upd_cur g w)) i = map_option (\<lambda>f. if i = sw_segIndex w then g f else f) (map_of (sw_dir w) i)"
proof -
  have "map_of (map (\<lambda>(i, f). if i = k then (i, g f) else (i, f)) d) i = map_option (\<lambda>f. if i = k then g f else f) (map_of d i)" for k d
    by (induction d) auto
  then show ?thesis by (simp add: upd_cur_def)
qed

lemma dir_data_cur:
  "dir_data (sw_dir (cur_sync w)) = dir_data (sw_dir w)"
  "dir_data (sw_dir (cur_append bs w)) i = map_option (\<lambda>d. if i = sw_segIndex w then d @ bs else d) (dir_data (sw_dir w) i)"
  by (auto simp: dir_data_def cur_sync_def cur_append_def map_of_upd_cur fun_eq_iff option.map_comp comp_def intro!: option.map_cong0)

lemma dir_keys: "fst ` set (sw_dir w) = {i. dir_data (sw_dir w) i \<noteq> None}"
  by (simp add: dir_data_def map_of_eq_None_iff set_eq_iff del: not_None_eq)

lemma rotate_dir:
  assumes "rotateSegment ft w = (w', None)" "\<forall>i \<in> fst ` set (sw_dir w). i \<le> sw_segIndex w" "distinct (map fst (sw_dir w))"
  shows "distinct (map fst (sw_dir w')) \<and>
    (sw_segIndex w' = sw_segIndex w \<and> dir_data (sw_dir w') = dir_data (sw_dir w)
     \<or> sw_segIndex w' = sw_segIndex w + 1 \<and> dir_data (sw_dir w') = (dir_data (sw_dir w))(sw_segIndex w + 1 \<mapsto> []))"
proof -
  have k: "map fst (sw_dir (cur_sync w)) = map fst (sw_dir w)" by (simp add: cur_sync_def dir_upd_cur)
  have new: "sw_segIndex w + 1 \<notin> fst ` set (sw_dir (cur_sync w))"
    using assms(2) arg_cong [OF k, of set] by force
  show ?thesis
  proof (cases "int (sw_written w) \<ge> sw_segMaxBytes w")
    case False
    then show ?thesis using assms by (auto simp: rotateSegment_def)
  next
    case True
    have n: "map_of (sw_dir (cur_sync w)) (sw_segIndex w + 1) = None" using new by (simp add: map_of_eq_None_iff)
    have si: "sw_segIndex (cur_sync w) = sw_segIndex w" by (simp add: cur_sync_def)
    have "sw_segIndex w' = sw_segIndex w + 1"
      "sw_dir w' = sw_dir (cur_sync w) @ [(sw_segIndex w + 1, \<lparr>f_data = [], f_synced = 0\<rparr>)]"
      using assms(1) True new si
      by (auto simp: rotateSegment_def openSegment_def Let_def split: if_splits)
    moreover have "dir_data (sw_dir (cur_sync w) @ [(sw_segIndex w + 1, \<lparr>f_data = [], f_synced = 0\<rparr>)])
        = (dir_data (sw_dir (cur_sync w)))(sw_segIndex w + 1 \<mapsto> [])"
      using n by (auto simp: dir_data_def fun_eq_iff map_add_def split: option.splits)
    ultimately show ?thesis using new assms(3) k by (auto simp: dir_data_cur simp flip: set_map)
  qed
qed


lemma seg_recs_frames:
  "dir_data d i = Some (frames recBody rs) \<Longrightarrow> \<forall>r \<in> set rs. recOk r \<Longrightarrow> seg_recs d i = rs"
  by (simp add: seg_recs_def wal.replay_whole)

text \<open>A write that reports success puts its record at the end of the segment that was current.\<close>

lemma write_dir:
  assumes ok: "dir_ok w" and wr: "WriteRecordGen ft r w = (w', None)"
  shows "dir_ok w'" "sw_segIndex w \<le> sw_segIndex w'"
    "seg_recs (sw_dir w') i = seg_recs (sw_dir w) i @ (if i = sw_segIndex w then [r] else [])"
proof -
  let ?k = "sw_segIndex w"
  obtain ls ts v g where r: "r = (ls, ts, v, g)" by (cases r)
  have rok: "recOk r" and wd: "writeData ft (frame (recBody r)) w = (w', None)" and nb: "\<not> sw_broken w"
    using wr by (auto simp: WriteRecordGen_def r recOk_def recBody_def encodeRecordGen_def split: if_splits)
  obtain w1 where w1: "rotateSegment ft w1 = (w', None)" "sw_segIndex w1 = ?k"
    "map fst (sw_dir w1) = map fst (sw_dir w)" "dir_data (sw_dir w1) = dir_data (sw_dir (cur_append (frame (recBody r)) w))"
  proof -
    let ?w1 = "(cur_append (frame (recBody r)) w)\<lparr>sw_written := sw_written w + length (frame (recBody r)),
                    sw_sinceSynced := sw_sinceSynced w + 1\<rparr>"
    have "rotateSegment ft ?w1 = (w', None) \<or> rotateSegment ft ((cur_sync ?w1)\<lparr>sw_sinceSynced := 0, sw_autoSyncs := sw_autoSyncs ?w1 + 1\<rparr>) = (w', None)"
      using wd by (auto simp: writeData_def Let_def split: option.splits if_splits)
    moreover have "sw_segIndex ?w1 = ?k" "map fst (sw_dir ?w1) = map fst (sw_dir w)" by (simp_all add: cur_append_def dir_upd_cur)
    moreover have "sw_segIndex (cur_sync ?w1) = ?k" "map fst (sw_dir (cur_sync ?w1)) = map fst (sw_dir w)"
      by (simp_all add: cur_append_def cur_sync_def dir_upd_cur)
    ultimately show thesis using that [of ?w1] that [of "(cur_sync ?w1)\<lparr>sw_sinceSynced := 0, sw_autoSyncs := sw_autoSyncs ?w1 + 1\<rparr>"]
      by (auto simp: dir_data_cur(1))
  qed
  have keys: "fst ` set (sw_dir w1) = fst ` set (sw_dir w)" using arg_cong [OF w1(3), of set] by simp
  note D = ok [unfolded dir_ok_def, simplified nb, simplified]
  have rot: "distinct (map fst (sw_dir w'))"
    "sw_segIndex w' = ?k \<and> dir_data (sw_dir w') = dir_data (sw_dir w1)
     \<or> sw_segIndex w' = ?k + 1 \<and> dir_data (sw_dir w') = (dir_data (sw_dir w1))(?k + 1 \<mapsto> [])"
    using rotate_dir [OF w1(1)] D unfolding w1(2) keys w1(3) by auto
  have "?k \<in> {i. dir_data (sw_dir w) i \<noteq> None}" using D unfolding dir_keys [symmetric] by blast
  then obtain bs where bs: "dir_data (sw_dir w) ?k = Some bs" by blast
  moreover from bs obtain rs where "bs = frames recBody rs" "\<forall>r \<in> set rs. recOk r" using D by blast
  ultimately obtain rs where rs: "dir_data (sw_dir w) ?k = Some (frames recBody rs)" "\<forall>r \<in> set rs. recOk r" by blast
  have w1d: "dir_data (sw_dir w1) j = (if j = ?k then Some (frames recBody (rs @ [r])) else dir_data (sw_dir w) j)" for j
    using rs(1) by (simp add: w1(4) dir_data_cur(2) option.map_ident)
  have notk: "dir_data (sw_dir w) (?k + 1) = None"
  proof -
    have "?k + 1 \<notin> fst ` set (sw_dir w)" using ok nb unfolding dir_ok_def by fastforce
    then show ?thesis unfolding dir_keys by blast
  qed
  have data: "dir_data (sw_dir w') j = (if j = ?k then Some (frames recBody (rs @ [r]))
      else if j = sw_segIndex w' then Some [] else dir_data (sw_dir w) j)" for j
    using rot(2) by (auto simp: w1d)
  have rsok: "\<forall>r \<in> set (rs @ [r]). recOk r" using rs(2) rok by simp
  show "sw_segIndex w \<le> sw_segIndex w'" using rot(2) by auto
  show "dir_ok w'"
    unfolding dir_ok_def
  proof (intro conjI rot(1))
    have k': "fst ` set (sw_dir w') = insert ?k (insert (sw_segIndex w') (fst ` set (sw_dir w)))"
      unfolding dir_keys set_eq_iff mem_Collect_eq insert_iff by (simp add: data)
    show "sw_segIndex w' \<in> fst ` set (sw_dir w')" unfolding k' by simp
    show "\<forall>i \<in> fst ` set (sw_dir w'). i \<le> sw_segIndex w' \<or> sw_broken w' \<and> i = sw_segIndex w' + 1"
      unfolding k' using D rot(2) by fastforce
    show "\<forall>i bs. dir_data (sw_dir w') i = Some bs \<longrightarrow> (\<exists>rs. bs = frames recBody rs \<and> (\<forall>r \<in> set rs. recOk r))"
    proof (intro allI impI)
      fix i bs assume "dir_data (sw_dir w') i = Some bs"
      then have "bs = frames recBody (rs @ [r]) \<or> bs = frames recBody [] \<or> dir_data (sw_dir w) i = Some bs"
        unfolding data frames_simps(1) by (metis option.inject)
      moreover have "\<exists>rs'. frames recBody rs'' = frames recBody rs' \<and> (\<forall>r \<in> set rs'. recOk r)" if "\<forall>r \<in> set rs''. recOk r" for rs''
        using that by blast
      ultimately show "\<exists>rs. bs = frames recBody rs \<and> (\<forall>r \<in> set rs. recOk r)"
        using D rsok by (metis empty_iff list.set(1))
    qed
  qed
  show "seg_recs (sw_dir w') i = seg_recs (sw_dir w) i @ (if i = sw_segIndex w then [r] else [])"
  proof (cases "i = ?k")
    case True
    then show ?thesis using seg_recs_frames [OF rs] seg_recs_frames [of "sw_dir w'" i "rs @ [r]"] rsok data [of i] by simp
  next
    case False
    have "seg_recs (sw_dir w') i = []" if "i = sw_segIndex w'"
      using seg_recs_frames [of "sw_dir w'" i "[]"] data [of i] that False by simp
    moreover have "seg_recs (sw_dir w) i = []" if "i = sw_segIndex w'"
      using that False rot(2) notk by (simp add: seg_recs_def)
    ultimately show ?thesis using False data [of i] by (auto simp: seg_recs_def)
  qed
qed

text \<open>
  A write that fails after the record's bytes are out, in a sync or in the rotation, leaves the record
  in the segment; a failed rotation may leave one empty segment beyond the current one.
\<close>

lemma write_dir_failed:
  assumes ok: "dir_ok w" and wr: "WriteRecordGen ft r w = (w', Some e)" and nt: "ft_write ft = None"
  shows "dir_ok w' \<and> sw_segIndex w' = sw_segIndex w \<and>
    (\<exists>out. \<forall>i. seg_recs (sw_dir w') i = seg_recs (sw_dir w) i @ (if out \<and> i = sw_segIndex w then [r] else []))"
proof (cases "w' = w")
  case True
  then show ?thesis using ok by (intro conjI exI [of _ False]) simp_all
next
  case False
  let ?k = "sw_segIndex w"
  obtain ls ts v g where r: "r = (ls, ts, v, g)" by (cases r)
  have rok: "recOk r" and wd: "writeData ft (frame (recBody r)) w = (w', Some e)" and nb: "\<not> sw_broken w"
    using wr False by (auto simp: WriteRecordGen_def r recOk_def recBody_def encodeRecordGen_def split: if_splits)
  let ?c = "dir_data (sw_dir (cur_append (frame (recBody r)) w))"
  have kc: "sw_segIndex (cur_append bs w) = sw_segIndex w" "sw_segIndex (cur_sync w) = sw_segIndex w"
    "map fst (sw_dir (cur_append bs w)) = map fst (sw_dir w)" "map fst (sw_dir (cur_sync w)) = map fst (sw_dir w)" for bs w
    by (simp_all add: cur_append_def cur_sync_def dir_upd_cur)
  have rot: "sw_segIndex w2 = sw_segIndex w1 \<and> (map fst (sw_dir w2) = map fst (sw_dir w1) \<and> dir_data (sw_dir w2) = dir_data (sw_dir w1)
      \<or> sw_broken w2 \<and> map fst (sw_dir w2) = map fst (sw_dir w1) @ [sw_segIndex w1 + 1]
        \<and> dir_data (sw_dir w2) = (dir_data (sw_dir w1))(sw_segIndex w1 + 1 \<mapsto> []))"
    if h: "rotateSegment ft w1 = (w2, Some e)" "sw_segIndex w1 + 1 \<notin> fst ` set (sw_dir w1)" for w1 w2
  proof -
    have n: "sw_segIndex w1 + 1 \<notin> fst ` set (sw_dir (cur_sync w1))" using h(2) arg_cong [OF kc(4) [of w1], of set] by force
    then have "map_of (sw_dir (cur_sync w1)) (sw_segIndex w1 + 1) = None" by (simp only: map_of_eq_None_iff) simp
    then have "dir_data (sw_dir (cur_sync w1) @ [(sw_segIndex w1 + 1, \<lparr>f_data = [], f_synced = 0\<rparr>)])
        = (dir_data (sw_dir (cur_sync w1)))(sw_segIndex w1 + 1 \<mapsto> [])"
      by (auto simp: dir_data_def fun_eq_iff map_add_def split: option.splits)
    then show ?thesis using h(1) n
      by (auto simp: rotateSegment_def openSegment_def Let_def kc dir_data_cur(1) split: if_splits)
  qed
  have le: "i \<le> ?k" if "i \<in> fst ` set (sw_dir w)" for i using ok nb that unfolding dir_ok_def by blast
  have new: "sw_segIndex w1 + 1 \<notin> fst ` set (sw_dir w1)" if "map fst (sw_dir w1) = map fst (sw_dir w)" "sw_segIndex w1 = ?k" for w1
  proof -
    have "fst ` set (sw_dir w1) = fst ` set (sw_dir w)" using arg_cong [OF that(1), of set] by simp
    then show ?thesis using le [of "?k + 1"] that(2) by auto
  qed
  have W: "sw_segIndex w' = ?k \<and> (map fst (sw_dir w') = map fst (sw_dir w) \<and> dir_data (sw_dir w') = ?c
      \<or> sw_broken w' \<and> map fst (sw_dir w') = map fst (sw_dir w) @ [?k + 1] \<and> dir_data (sw_dir w') = ?c(?k + 1 \<mapsto> []))"
  proof -
    let ?w1 = "(cur_append (frame (recBody r)) w)\<lparr>sw_written := sw_written w + length (frame (recBody r)),
                    sw_sinceSynced := sw_sinceSynced w + 1\<rparr>"
    let ?w2 = "(cur_sync ?w1)\<lparr>sw_sinceSynced := 0, sw_autoSyncs := sw_autoSyncs ?w1 + 1\<rparr>"
    have a: "w' = ?w1 \<or> rotateSegment ft ?w1 = (w', Some e) \<or> rotateSegment ft ?w2 = (w', Some e)"
      using wd nt by (auto simp: writeData_def Let_def split: if_splits)
    have b: "sw_segIndex ?w1 = ?k" "map fst (sw_dir ?w1) = map fst (sw_dir w)" "dir_data (sw_dir ?w1) = ?c"
      "sw_segIndex ?w2 = ?k" "map fst (sw_dir ?w2) = map fst (sw_dir w)" "dir_data (sw_dir ?w2) = ?c"
      by (simp_all add: kc dir_data_cur(1))
    from a show ?thesis
    proof (elim disjE)
      assume "w' = ?w1"
      then show ?thesis using b(1-3) by simp
    next
      assume "rotateSegment ft ?w1 = (w', Some e)"
      from rot [OF this new [OF b(2,1)]] show ?thesis unfolding b(1-3) .
    next
      assume "rotateSegment ft ?w2 = (w', Some e)"
      from rot [OF this new [OF b(5,4)]] show ?thesis unfolding b(4-6) .
    qed
  qed
  note D = ok [unfolded dir_ok_def]
  have "?k \<in> {i. dir_data (sw_dir w) i \<noteq> None}" using D unfolding dir_keys [symmetric] by blast
  then obtain rs where rs: "dir_data (sw_dir w) ?k = Some (frames recBody rs)" "\<forall>r \<in> set rs. recOk r" using D by blast
  have notk: "dir_data (sw_dir w) (?k + 1) = None" using le [of "?k + 1"] unfolding dir_keys by (cases "dir_data (sw_dir w) (?k + 1)") auto
  have c: "?c j = (if j = ?k then Some (frames recBody (rs @ [r])) else dir_data (sw_dir w) j)" for j
    using rs(1) by (simp add: dir_data_cur(2) option.map_ident)
  have data: "dir_data (sw_dir w') j = Some bs \<Longrightarrow> bs = frames recBody (rs @ [r]) \<or> bs = frames recBody [] \<or> dir_data (sw_dir w) j = Some bs" for j bs
    using W c [of j] by (auto split: if_splits)
  have "dir_ok w'"
    unfolding dir_ok_def
  proof (intro conjI)
    have "map fst (sw_dir w') = map fst (sw_dir w) \<or> sw_broken w' \<and> map fst (sw_dir w') = map fst (sw_dir w) @ [?k + 1]"
      using W by blast
    then have km: "fst ` set (sw_dir w') = fst ` set (sw_dir w) \<or> sw_broken w' \<and> fst ` set (sw_dir w') = insert (?k + 1) (fst ` set (sw_dir w))"
      unfolding set_map [symmetric] by (elim disjE conjE) (simp_all del: set_map)
    have "?k + 1 \<notin> fst ` set (sw_dir w)" using le [of "?k + 1"] by auto
    then show "distinct (map fst (sw_dir w'))" using W D unfolding set_map [symmetric] by (elim disjE conjE) (simp_all del: set_map)
    show "sw_segIndex w' \<in> fst ` set (sw_dir w')" using km W D unfolding set_map by auto
    show "\<forall>i \<in> fst ` set (sw_dir w'). i \<le> sw_segIndex w' \<or> sw_broken w' \<and> i = sw_segIndex w' + 1"
      using km W le unfolding set_map by (metis insert_iff)
    show "\<forall>i bs. dir_data (sw_dir w') i = Some bs \<longrightarrow> (\<exists>rs. bs = frames recBody rs \<and> (\<forall>r \<in> set rs. recOk r))"
    proof (intro allI impI)
      fix i bs assume "dir_data (sw_dir w') i = Some bs"
      from data [OF this] show "\<exists>rs. bs = frames recBody rs \<and> (\<forall>r \<in> set rs. recOk r)"
      proof (elim disjE)
        assume "bs = frames recBody (rs @ [r])"
        then show ?thesis using rs(2) rok by (intro exI [of _ "rs @ [r]"]) simp
      next
        assume "bs = frames recBody []"
        then show ?thesis by (intro exI [of _ "[]"]) simp
      next
        assume "dir_data (sw_dir w) i = Some bs"
        then show ?thesis using D by blast
      qed
    qed
  qed
  moreover have "seg_recs (sw_dir w') i = seg_recs (sw_dir w) i @ (if True \<and> i = ?k then [r] else [])" for i
  proof -
    have fr: "seg_recs (sw_dir w) ?k = rs" by (rule seg_recs_frames [OF rs])
    have "dir_data (sw_dir w') i = ?c i \<or> dir_data (sw_dir w') i = Some (frames recBody []) \<and> ?c i = None \<and> i \<noteq> ?k"
      using W c [of i] notk by (cases "i = ?k + 1") auto
    then show ?thesis
    proof
      assume e: "dir_data (sw_dir w') i = ?c i"
      show ?thesis
      proof (cases "i = ?k")
        case True
        then show ?thesis using seg_recs_frames [of "sw_dir w'" i "rs @ [r]"] rs(2) rok fr e c [of i] by simp
      next
        case False
        then show ?thesis using e c [of i] by (simp add: seg_recs_def)
      qed
    next
      assume e: "dir_data (sw_dir w') i = Some (frames recBody []) \<and> ?c i = None \<and> i \<noteq> ?k"
      then show ?thesis using seg_recs_frames [of "sw_dir w'" i "[]"] c [of i] by (auto simp: seg_recs_def)
    qed
  qed
  ultimately show ?thesis using W by blast
qed

lemma delete_dir:
  assumes "dir_ok w" "d < int (sw_segIndex w)" "sw_segIndex w + 1 < 2 ^ 63"
  defines "w' \<equiv> w\<lparr>sw_dir := deleteWALSegmentsUpTo d (sw_dir w)\<rparr>"
  shows "dir_ok w'" "d < int i \<Longrightarrow> seg_recs (sw_dir w') i = seg_recs (sw_dir w) i"
    "set (seg_recs (sw_dir w') i) \<subseteq> set (seg_recs (sw_dir w) i)"
proof -
  note D = assms(1) [unfolded dir_ok_def]
  have "Atoi (trim_wal (segmentName i)) = Some (int i)" if "i \<in> fst ` set (sw_dir w)" for i
    using that D assms(3) Atoi_segmentName [of i] by fastforce
  then have del: "deleteWALSegmentsUpTo d (sw_dir w) = filter (\<lambda>x. d < int (fst x)) (sw_dir w)"
    unfolding deleteWALSegmentsUpTo_def by (intro filter_cong) (auto simp: rev_image_eqI)
  have mo: "map_of (filter (\<lambda>x. P (fst x)) xs) i = (if P i then map_of xs i else None)" for P i and xs :: "(nat \<times> wfile) list"
    by (induction xs) auto
  have data: "dir_data (sw_dir w') i = (if d < int i then dir_data (sw_dir w) i else None)" for i
    by (simp add: w'_def del dir_data_def mo [of "\<lambda>i. d < int i"])
  show "dir_ok w'"
    unfolding dir_ok_def
  proof (intro conjI)
    show "distinct (map fst (sw_dir w'))" using D by (simp add: w'_def del distinct_map_filter)
    show "sw_segIndex w' \<in> fst ` set (sw_dir w')" using D assms(2) by (auto simp: w'_def del image_iff)
    show "\<forall>i \<in> fst ` set (sw_dir w'). i \<le> sw_segIndex w' \<or> sw_broken w' \<and> i = sw_segIndex w' + 1"
      using D by (auto simp: w'_def del)
    show "\<forall>i bs. dir_data (sw_dir w') i = Some bs \<longrightarrow> (\<exists>rs. bs = frames recBody rs \<and> (\<forall>r \<in> set rs. recOk r))"
      using D by (simp add: data)
  qed
  show "d < int i \<Longrightarrow> seg_recs (sw_dir w') i = seg_recs (sw_dir w) i" by (simp add: seg_recs_def data)
  show "set (seg_recs (sw_dir w') i) \<subseteq> set (seg_recs (sw_dir w) i)" by (simp add: seg_recs_def data)
qed


section \<open>The store as a state machine\<close>

text \<open>
  A running store: the head, the WAL, the batches of a flush in progress, the boundaries chosen by
  flushes so far, the checkpoint file; and, only for the statements, the samples the sink has
  acknowledged and the writes the store has accepted, with the generation each got. A host crash, which
  may also cut the tail of the last segment, is the subject of \<^verbatim>\<open>Wal\<close>; a restart here is of the process.
\<close>

record wal_state =
  wt_head :: MemoryStore
  wt_wal :: SegWriter
  wt_batches :: "SeriesChunks list list"
  wt_marks :: "int list"
  wt_checkpoint :: "string option"
  wt_sent :: "sample list"
  wt_acc :: "stamped list"

definition batch_samples :: "SeriesChunks list \<Rightarrow> sample list" where
  "batch_samples b = concat (map (\<lambda>x. chunk_samples (fst (fst x)) (snd (snd x))) (flat b))"

text \<open>The label sets in use: valid when stored, and without a fingerprint collision.\<close>

definition universe_ok :: "Labels set \<Rightarrow> bool" where
  "universe_ok U \<longleftrightarrow> inj_on Hash U \<and> (\<forall>l \<in> U. labels_ok l \<and> NewStoredLabels (l_pairs l) = Inr l)"

inductive wal_step :: "Labels set \<Rightarrow> int \<Rightarrow> wal_state \<Rightarrow> wal_state \<Rightarrow> bool"
  for U :: "Labels set" and limit :: int where
  ws_append: "l \<in> U \<Longrightarrow> WALAppend ft now l ts v (wt_head s, wt_wal s) = (None, h, w)
     \<Longrightarrow> g = smax (NextGeneration (wt_head s)) now
     \<Longrightarrow> wal_step U limit s (s\<lparr>wt_head := h, wt_wal := w, wt_acc := (l, ts, v, g) # wt_acc s\<rparr>)"
| ws_stamped: "l \<in> U \<Longrightarrow> AppendWithGeneration ft now l ts v g (wt_head s, wt_wal s) = (None, h, w) \<Longrightarrow> g \<noteq> 0
     \<Longrightarrow> wal_step U limit s (s\<lparr>wt_head := h, wt_wal := w, wt_acc := (l, ts, v, g) # wt_acc s\<rparr>)"
| ws_failed: "l \<in> U \<Longrightarrow> ft_write ft = None
     \<Longrightarrow> WALAppend ft now l ts v (wt_head s, wt_wal s) = (Some e, h, w)
       \<or> AppendWithGeneration ft now l ts v g (wt_head s, wt_wal s) = (Some e, h, w)
     \<Longrightarrow> wal_step U limit s (s\<lparr>wt_head := h, wt_wal := w\<rparr>)"
| ws_snapshot: "wt_batches s = []
     \<Longrightarrow> wal_step U limit s (s\<lparr>wt_batches := BatchSeriesChunks (SealedChunksSnapshot (wt_head s)) limit\<rparr>)"
| ws_ack: "wt_batches s = b # bs
     \<Longrightarrow> wal_step U limit s (s\<lparr>wt_head := DiscardSealedChunks b (wt_head s), wt_batches := bs, wt_sent := batch_samples b @ wt_sent s\<rparr>)"
| ws_abort: "wal_step U limit s (s\<lparr>wt_batches := []\<rparr>)"
| ws_gc: "wal_step U limit s (s\<lparr>wt_head := snd (RemoveEmptySeries sid (wt_head s))\<rparr>)"
| ws_seal: "wal_step U limit s (s\<lparr>wt_head := snd (SealHeadChunks (wt_head s))\<rparr>)"
| ws_boundary: "wal_step U limit s (s\<lparr>wt_marks := safe_delete (wt_head s) (wt_wal s) # wt_marks s\<rparr>)"
| ws_checkpoint: "d \<in> set (wt_marks s) \<Longrightarrow> sw_segIndex (wt_wal s) + 1 < 2 ^ 63 \<Longrightarrow> wal_step U limit s (s\<lparr>wt_checkpoint := Some (FormatInt d)\<rparr>)"
| ws_delete: "d \<in> set (wt_marks s) \<Longrightarrow> sw_segIndex (wt_wal s) + 1 < 2 ^ 63
     \<Longrightarrow> wal_step U limit s (s\<lparr>wt_wal := (wt_wal s)\<lparr>sw_dir := deleteWALSegmentsUpTo d (sw_dir (wt_wal s))\<rparr>\<rparr>)"
| ws_restart: "mset entries = mset (map (\<lambda>(i, f). (segmentName i, f_data f)) (sw_dir (wt_wal s)))
     \<Longrightarrow> sw_segIndex (wt_wal s) + 1 < 2 ^ 63
     \<Longrightarrow> replayMetricsWAL now (ReadCheckpoint (wt_checkpoint s)) entries (EnsureGenFloor f NewMemoryStore) = (h, n, e)
     \<Longrightarrow> OpenDir no_faults (sw_dir (wt_wal s)) segMaxBytes syncEveryN = (w, e')
     \<Longrightarrow> wal_step U limit s (s\<lparr>wt_head := SetHeadFence (ReadCheckpoint (wt_checkpoint s) + 1) h, wt_wal := w,
           wt_batches := [], wt_marks := []\<rparr>)"

definition wal_init :: "int \<Rightarrow> int \<Rightarrow> i64 \<Rightarrow> wal_state" where
  "wal_init segMaxBytes syncEveryN floor =
     \<lparr>wt_head = EnsureGenFloor floor NewMemoryStore, wt_wal = fst (OpenDir no_faults [] segMaxBytes syncEveryN),
      wt_batches = [], wt_marks = [], wt_checkpoint = None, wt_sent = [], wt_acc = []\<rparr>"

section \<open>Invariant\<close>

text \<open>Each chunk in memory: series, labels, samples, and the WAL segment recorded for it.\<close>

definition fences :: "(u64 \<times> memorySeries) list \<Rightarrow> (u64 \<times> Labels \<times> sample list \<times> int) list" where
  "fences xs = concat (map (\<lambda>(sid, ms). map (\<lambda>((p, c), k). (sid, ms_labels ms, chunk_samples sid c, k))
     (zip (ms_chunks ms) (ms_chunkSegs ms))) xs)"

definition on_disk :: "SegWriter \<Rightarrow> int \<Rightarrow> Labels \<Rightarrow> sample \<Rightarrow> bool" where
  "on_disk w k l x \<longleftrightarrow> (\<exists>i. k \<le> int i \<and> (l_pairs l, sm_ts x, sm_val x, sm_gen x) \<in> set (seg_recs (sw_dir w) i))"

definition fence_ok :: "Labels set \<Rightarrow> int set \<Rightarrow> SegWriter \<Rightarrow> (u64 \<times> memorySeries) list \<Rightarrow> bool" where
  "fence_ok U D w xs \<longleftrightarrow> (\<forall>(sid, l, ss, k) \<in> set (fences xs).
     (\<forall>d \<in> D. d < k) \<and> k \<le> int (sw_segIndex w) \<and> (\<forall>x \<in> set ss. on_disk w k l x))"

definition recs_ok :: "Labels set \<Rightarrow> SegWriter \<Rightarrow> bool" where
  "recs_ok U w \<longleftrightarrow> (\<forall>i. \<forall>(ps, ts, v, g) \<in> set (seg_recs (sw_dir w) i). gen_ok g \<and> g \<noteq> 0 \<and> (\<exists>l \<in> U. ps = l_pairs l))"

definition batches_ok :: "SeriesChunks list list \<Rightarrow> MemoryStore \<Rightarrow> bool" where
  "batches_ok bs h \<longleftrightarrow> (\<forall>b \<in> set bs. \<forall>((sid, l), p, c) \<in> set (flat b). Sealed c \<and> p < st_alloc h
     \<and> (\<forall>sid' c'. (p, sid', c') \<in> set (chunk_list (st_series h)) \<longrightarrow> sid' = sid \<and> c' = c))"

definition bounds_ok :: "int set \<Rightarrow> SegWriter \<Rightarrow> bool" where
  "bounds_ok D w \<longleftrightarrow> (\<forall>d \<in> D. 0 \<le> d \<and> d < int (sw_segIndex w))"

definition limits_of :: "wal_state \<Rightarrow> int set" where
  "limits_of s = insert (ReadCheckpoint (wt_checkpoint s)) (set (wt_marks s))"

definition wal_inv :: "Labels set \<Rightarrow> wal_state \<Rightarrow> bool" where
  "wal_inv U s \<longleftrightarrow> mem_inv (wt_head s) \<and> dir_ok (wt_wal s) \<and> recs_ok U (wt_wal s)
     \<and> (\<forall>x \<in> set (st_series (wt_head s)). ms_labels (snd x) \<in> U)
     \<and> fence_ok U (limits_of s) (wt_wal s) (st_series (wt_head s)) \<and> bounds_ok (limits_of s) (wt_wal s)
     \<and> batches_ok (wt_batches s) (wt_head s)
     \<and> (\<forall>w \<in> set (wt_acc s). write_sample w \<in> set (held (holds_of (wt_head s)) (Hash (fst w))) \<union> set (wt_sent s))"

lemma fences_series: "set (fences xs) = {(sid, ms_labels ms, chunk_samples sid c, k) | sid ms p c k.
    (sid, ms) \<in> set xs \<and> ((p, c), k) \<in> set (zip (ms_chunks ms) (ms_chunkSegs ms))}"
  unfolding fences_def set_concat set_map by (auto simp: case_prod_beta) force+

lemma fences_mono:
  "set xs \<subseteq> set ys \<Longrightarrow> set (fences xs) \<subseteq> set (fences ys)"
  unfolding fences_series by blast

lemma held_iff:
  assumes "mem_inv h"
  shows "x \<in> set (held (holds_of h) sid) \<longleftrightarrow> (\<exists>l ss k. (sid, l, ss, k) \<in> set (fences (st_series h)) \<and> x \<in> set ss)"
proof
  assume "x \<in> set (held (holds_of h) sid)"
  then obtain ms where ms: "map_of (st_series h) sid = Some ms" "x \<in> set (ms_samples ms)"
    by (cases "map_of (st_series h) sid") (auto simp: held_def holds_of_def)
  have ok: "series_ok (st_nextGen h) sid ms" using mem_invD(2) [OF assms map_of_SomeD [OF ms(1)]] .
  obtain p c where pc: "(p, c) \<in> set (ms_chunks ms)" "x \<in> set (chunk_samples sid c)"
    using ms(2) ok by (auto simp: ms_samples_def series_ok_def)
  then obtain k where "((p, c), k) \<in> set (zip (ms_chunks ms) (ms_chunkSegs ms))"
    using ok by (metis in_set_impl_in_set_zip1 series_ok_def)
  then show "\<exists>l ss k. (sid, l, ss, k) \<in> set (fences (st_series h)) \<and> x \<in> set ss"
    unfolding fences_series using map_of_SomeD [OF ms(1)] pc(2) by blast
next
  assume "\<exists>l ss k. (sid, l, ss, k) \<in> set (fences (st_series h)) \<and> x \<in> set ss"
  then obtain ms p c k where f: "(sid, ms) \<in> set (st_series h)" "((p, c), k) \<in> set (zip (ms_chunks ms) (ms_chunkSegs ms))"
    "x \<in> set (chunk_samples sid c)" unfolding fences_series by blast
  have m: "map_of (st_series h) sid = Some ms" using f(1) mem_invD(1) [OF assms] by simp
  have "x \<in> set (ms_samples ms)"
    using f(3) set_zip_leftD [OF f(2)] series_chunks_ok(1) [OF assms m] by (force simp: ms_samples_def)
  then show "x \<in> set (held (holds_of h) sid)" using m by (simp add: held_def holds_of_def)
qed


lemma labelsToWALPairs_eq: "labels_ok l \<Longrightarrow> labelsToWALPairs l = l_pairs l"
  using Map_pairs [of l] gomap_ok_Map [of l]
  unfolding labelsToWALPairs_def labels_ok_def gomap_ok_def labelsToIndexPairs_def
  by (intro map_sorted_distinct_set_unique [where f = fst]) (auto simp: distinct_map)

lemma universe_no_collision:
  assumes "universe_ok U" "mem_inv h" "\<forall>x \<in> set (st_series h). ms_labels (snd x) \<in> U" "l \<in> U"
  shows "no_collision l h"
  unfolding no_collision_def
proof (intro allI impI)
  fix ms assume m: "map_of (st_series h) (Hash l) = Some ms"
  have "Hash (ms_labels ms) = Hash l" by (rule series_chunks_ok(1) [OF assms(2) m])
  moreover have "ms_labels ms \<in> U" using assms(3) map_of_SomeD [OF m] by force
  ultimately show "ms_labels ms = l" using assms(1,4) by (auto simp: universe_ok_def dest: inj_onD)
qed

lemma on_disk_mono:
  "on_disk w k l x \<Longrightarrow> (\<And>i. k \<le> int i \<Longrightarrow> set (seg_recs (sw_dir w) i) \<subseteq> set (seg_recs (sw_dir w') i)) \<Longrightarrow> on_disk w' k l x"
  unfolding on_disk_def by blast

lemma fenceD:
  "fence_ok U D w xs \<Longrightarrow> (sid, l, ss, k) \<in> set (fences xs) \<Longrightarrow>
     (\<forall>d \<in> D. d < k) \<and> k \<le> int (sw_segIndex w) \<and> (\<forall>x \<in> set ss. on_disk w k l x)"
  unfolding fence_ok_def by fast

lemma fence_okI:
  "(\<And>sid l ss k. (sid, l, ss, k) \<in> set (fences xs) \<Longrightarrow>
     (\<forall>d \<in> D. d < k) \<and> k \<le> int (sw_segIndex w) \<and> (\<forall>x \<in> set ss. on_disk w k l x)) \<Longrightarrow> fence_ok U D w xs"
  unfolding fence_ok_def by fast

lemma fence_ok_writer:
  assumes "fence_ok U D w xs" "sw_segIndex w \<le> sw_segIndex w'"
    "\<And>i. \<forall>d \<in> D. d < int i \<Longrightarrow> set (seg_recs (sw_dir w) i) \<subseteq> set (seg_recs (sw_dir w') i)"
  shows "fence_ok U D w' xs"
proof (rule fence_okI)
  fix sid l ss k assume f: "(sid, l, ss, k) \<in> set (fences xs)"
  note F = fenceD [OF assms(1) f]
  have "on_disk w' k l x" if "x \<in> set ss" for x
  proof (rule on_disk_mono)
    show "on_disk w k l x" using F that by blast
    fix i assume "k \<le> int i"
    then have "\<forall>d \<in> D. d < int i" using F by fastforce
    then show "set (seg_recs (sw_dir w) i) \<subseteq> set (seg_recs (sw_dir w') i)" by (rule assms(3))
  qed
  then show "(\<forall>d \<in> D. d < k) \<and> k \<le> int (sw_segIndex w') \<and> (\<forall>x \<in> set ss. on_disk w' k l x)"
    using F assms(2) by auto
qed

text \<open>The fences after an append: those before, with the sample added to the last chunk of its series or to a new one.\<close>

lemma fences_append:
  assumes inv: "mem_inv h" and l: "labels_ok lbls" "no_collision lbls h" and gen: "\<not> gen <s 0"
    and settle: "settle_generation now gen h = Inr (g, h1)"
    and f: "(sid, l', ss, k) \<in> set (fences (st_series (snd (appendInternal now lbls ts v seg gen h))))"
  shows "(sid, l', ss, k) \<in> set (fences (st_series h))
    \<or> sid = Hash lbls \<and> l' = lbls \<and> (\<exists>ss0. ss = ss0 @ [\<lparr>sm_id = Hash lbls, sm_ts = ts, sm_val = v, sm_gen = g\<rparr>]
        \<and> (k = seg \<and> ss0 = [] \<or> (sid, l', ss0, k) \<in> set (fences (st_series h))))"
proof -
  let ?X = "\<lparr>sm_id = Hash lbls, sm_ts = ts, sm_val = v, sm_gen = g\<rparr>"
  define M where "M = series_of lbls h"
  define h' where "h' = snd (appendInternal now lbls ts v seg gen h)"
  obtain ms' where A: "st_series h' = AList.update (Hash lbls) ms' (st_series h)" "ms_labels ms' = lbls"
    "\<exists>Z p c1 k. zip (ms_chunks ms') (ms_chunkSegs ms') = Z @ [((p, c1), k)]
       \<and> (zip (ms_chunks M) (ms_chunkSegs M) = Z \<and> k = seg \<and> chunk_samples (Hash lbls) c1 = [?X]
         \<or> (\<exists>c0. zip (ms_chunks M) (ms_chunkSegs M) = Z @ [((p, c0), k)] \<and> chunk_samples (Hash lbls) c1 = chunk_samples (Hash lbls) c0 @ [?X]))"
    by (rule append_effect [OF inv l gen settle, where ts = ts and v = v and seg = seg, folded h'_def M_def])
      (rule that; assumption)
  have old: "(Hash lbls, lbls, chunk_samples (Hash lbls) c, k) \<in> set (fences (st_series h))"
    if z: "((p, c), k) \<in> set (zip (ms_chunks M) (ms_chunkSegs M))" for p c k
  proof -
    obtain m where "map_of (st_series h) (Hash lbls) = Some m" "M = m"
      using z by (cases "map_of (st_series h) (Hash lbls)") (auto simp: M_def series_of_def)
    then have "(Hash lbls, M) \<in> set (st_series h)" "ms_labels M = lbls"
      using l(2) by (auto simp: no_collision_def dest: map_of_SomeD)
    then show ?thesis unfolding fences_series using z by blast
  qed
  obtain m p c where m: "(sid, m) \<in> set (st_series h')" "((p, c), k) \<in> set (zip (ms_chunks m) (ms_chunkSegs m))"
    "l' = ms_labels m" "ss = chunk_samples sid c"
    using f unfolding h'_def [symmetric] fences_series by blast
  have "map_of (st_series h') sid = Some m"
    using m(1) distinct_update [OF mem_invD(1) [OF inv]] by (simp add: A(1))
  then have mm: "(if sid = Hash lbls then m = ms' else (sid, m) \<in> set (st_series h))"
    by (auto simp: A(1) update_conv' dest: map_of_SomeD)
  show ?thesis
  proof (cases "sid = Hash lbls")
    case False
    then have "(sid, m) \<in> set (st_series h)" using mm by simp
    then show ?thesis unfolding fences_series using m by blast
  next
    case True
    then have "m = ms'" using mm by simp
    obtain Z q c1 k1 where Z: "zip (ms_chunks ms') (ms_chunkSegs ms') = Z @ [((q, c1), k1)]"
      "zip (ms_chunks M) (ms_chunkSegs M) = Z \<and> k1 = seg \<and> chunk_samples (Hash lbls) c1 = [?X]
       \<or> (\<exists>c0. zip (ms_chunks M) (ms_chunkSegs M) = Z @ [((q, c0), k1)] \<and> chunk_samples (Hash lbls) c1 = chunk_samples (Hash lbls) c0 @ [?X])"
      using A(3) by blast
    consider "((p, c), k) \<in> set Z" | "p = q" "c = c1" "k = k1" using m(2) Z(1) unfolding \<open>m = ms'\<close> by auto
    then show ?thesis
    proof cases
      case 1
      then have "((p, c), k) \<in> set (zip (ms_chunks M) (ms_chunkSegs M))" using Z(2) by auto
      then show ?thesis using old m(3,4) True A(2) \<open>m = ms'\<close> by simp
    next
      case 2
      have lab: "l' = lbls" using m(3) A(2) \<open>m = ms'\<close> by simp
      from Z(2) show ?thesis
      proof
        assume "zip (ms_chunks M) (ms_chunkSegs M) = Z \<and> k1 = seg \<and> chunk_samples (Hash lbls) c1 = [?X]"
        then show ?thesis using 2 m(4) True lab by simp
      next
        assume "\<exists>c0. zip (ms_chunks M) (ms_chunkSegs M) = Z @ [((q, c0), k1)] \<and> chunk_samples (Hash lbls) c1 = chunk_samples (Hash lbls) c0 @ [?X]"
        then obtain c0 where c0: "zip (ms_chunks M) (ms_chunkSegs M) = Z @ [((q, c0), k1)]"
          "chunk_samples (Hash lbls) c1 = chunk_samples (Hash lbls) c0 @ [?X]" by blast
        have "(Hash lbls, lbls, chunk_samples (Hash lbls) c0, k1) \<in> set (fences (st_series h))"
          using c0(1) by (intro old [of q c0 k1]) simp
        then show ?thesis using 2 m(4) True lab c0(2) by auto
      qed
    qed
  qed
qed


lemma wal_invD:
  assumes "wal_inv U s"
  shows "mem_inv (wt_head s)" "dir_ok (wt_wal s)" "recs_ok U (wt_wal s)" "\<forall>x \<in> set (st_series (wt_head s)). ms_labels (snd x) \<in> U"
    "fence_ok U (limits_of s) (wt_wal s) (st_series (wt_head s))" "bounds_ok (limits_of s) (wt_wal s)"
    "batches_ok (wt_batches s) (wt_head s)"
    "\<forall>w \<in> set (wt_acc s). write_sample w \<in> set (held (holds_of (wt_head s)) (Hash (fst w))) \<union> set (wt_sent s)"
  using assms unfolding wal_inv_def by blast+

lemma batches_ok_stable:
  assumes "batches_ok bs h" "stable h h'"
  shows "batches_ok bs h'"
proof -
  have "p < st_alloc h' \<and> (\<forall>sid' c'. (p, sid', c') \<in> set (chunk_list (st_series h')) \<longrightarrow> sid' = sid \<and> c' = c)"
    if "Sealed c" "p < st_alloc h" "\<forall>sid' c'. (p, sid', c') \<in> set (chunk_list (st_series h)) \<longrightarrow> sid' = sid \<and> c' = c" for p sid c
  proof (intro conjI allI impI)
    show "p < st_alloc h'" using that(2) assms(2) by (simp add: stable_def)
    fix sid' c' assume "(p, sid', c') \<in> set (chunk_list (st_series h'))"
    from stableD [OF assms(2) this that(2)] that(1,3) show "sid' = sid" "c' = c" by blast+
  qed
  then show ?thesis using assms(1) unfolding batches_ok_def by fast
qed

lemma set_update_subset: "set (AList.update k v xs) \<subseteq> insert (k, v) (set xs)"
  by (induction xs) auto

lemma wal_inv_write:
  assumes inv: "wal_inv U s" and U: "universe_ok U" "l \<in> U"
    and h1: "mem_inv h1" "st_series h1 = st_series (wt_head s)" "st_alloc h1 = st_alloc (wt_head s)"
    and g: "gen_ok g" "g \<noteq> 0"
    and wr: "write_then_append ft now l ts v g (h1, wt_wal s) = (None, h', w')"
  shows "wal_inv U (s\<lparr>wt_head := h', wt_wal := w', wt_acc := (l, ts, v, g) # wt_acc s\<rparr>)"
proof -
  note I = wal_invD [OF inv]
  let ?w = "wt_wal s" and ?X = "\<lparr>sm_id = Hash l, sm_ts = ts, sm_val = v, sm_gen = g\<rparr>"
  let ?seg = "int (sw_segIndex ?w)" and ?r = "(labelsToWALPairs l, ts, v, g)"
  have lok: "labels_ok l" using U by (auto simp: universe_ok_def)
  have W: "WriteRecordGen ft ?r ?w = (w', None)" and A: "AppendTrackedGen now l ts v g ?seg h1 = (None, h')"
    using wr by (auto simp: write_then_append_def Let_def split: prod.splits option.splits)
  note D = write_dir [OF I(2) W, unfolded labelsToWALPairs_eq [OF lok]]
  have nc: "no_collision l h1" using I(4) h1(1,2) U by (intro universe_no_collision [OF U(1)]) auto
  have g0: "\<not> g <s 0" using g(1) by (simp add: gen_ok_def)
  obtain h2 where st: "settle_generation now g h1 = Inr (g, h2)" using g by (auto simp: settle_generation_def gen_ok_def)
  have h': "h' = snd (appendInternal now l ts v ?seg g h1)" using A by (simp add: AppendTrackedGen_def)
  note F = fences_append [OF h1(1) lok nc g0 st, where ts = ts and v = v and seg = ?seg, folded h']
  have H: "holds_of h' = (holds_of h1)(Hash l \<mapsto> (l, held (holds_of h1) (Hash l) @ [?X]))"
    using holds_of_append(2) [OF h1(1) lok nc g0 st, of ts v ?seg] h' by simp
  have inv': "mem_inv h'" unfolding h' by (rule mem_inv_append [OF h1(1) lok nc g0])
  have grow: "set (seg_recs (sw_dir ?w) i) \<subseteq> set (seg_recs (sw_dir w') i)" for i unfolding D(3) by auto
  have new: "on_disk w' k l ?X" if "k \<le> ?seg" for k
    unfolding on_disk_def using that D(3) [of "sw_segIndex ?w"] by (intro exI [of _ "sw_segIndex ?w"]) auto
  have lim: "limits_of (s\<lparr>wt_head := h', wt_wal := w', wt_acc := (l, ts, v, g) # wt_acc s\<rparr>) = limits_of s"
    by (simp add: limits_of_def)
  have "fence_ok U (limits_of s) w' (st_series h')"
  proof (rule fence_okI)
    fix sid l' ss k assume f: "(sid, l', ss, k) \<in> set (fences (st_series h'))"
    have W': "fence_ok U (limits_of s) w' (st_series h1)" unfolding h1(2)
      using I(5) D(2) grow by (rule fence_ok_writer)
    from F [OF f] show "(\<forall>d \<in> limits_of s. d < k) \<and> k \<le> int (sw_segIndex w') \<and> (\<forall>x \<in> set ss. on_disk w' k l' x)"
    proof (elim disjE conjE exE)
      assume "(sid, l', ss, k) \<in> set (fences (st_series h1))"
      then show ?thesis by (rule fenceD [OF W'])
    next
      fix ss0 assume a: "l' = l" "ss = ss0 @ [?X]" "k = ?seg" "ss0 = []"
      then show ?thesis using I(6) D(2) new by (auto simp: bounds_ok_def)
    next
      fix ss0 assume a: "l' = l" "ss = ss0 @ [?X]" "(sid, l', ss0, k) \<in> set (fences (st_series h1))"
      have "k \<le> ?seg" using fenceD [OF I(5)] a(3) unfolding h1(2) by blast
      then show ?thesis using fenceD [OF W' a(3)] new a(1,2) by auto
    qed
  qed
  moreover have "bounds_ok (limits_of s) w'" using I(6) D(2) by (fastforce simp: bounds_ok_def)
  moreover have "recs_ok U w'"
  proof -
    have "case ?r of (ps, ts, v, g) \<Rightarrow> gen_ok g \<and> g \<noteq> 0 \<and> (\<exists>l \<in> U. ps = l_pairs l)"
      using g U(2) labelsToWALPairs_eq [OF lok] by auto
    then show ?thesis using I(3) unfolding recs_ok_def D(3) labelsToWALPairs_eq [OF lok] by auto
  qed
  moreover have "\<forall>x \<in> set (st_series h'). ms_labels (snd x) \<in> U"
  proof -
    obtain ms' where "st_series h' = AList.update (Hash l) ms' (st_series h1)" "ms_labels ms' = l"
      unfolding h' by (rule append_effect [OF h1(1) lok nc g0 st, where ts = ts and v = v and seg = ?seg])
    moreover have "set (AList.update (Hash l) ms' (st_series h1)) \<subseteq> insert (Hash l, ms') (set (st_series h1))"
      by (rule set_update_subset)
    ultimately show ?thesis using I(4) U(2) h1(2) by fastforce
  qed
  moreover have "batches_ok (wt_batches s) h'"
  proof (rule batches_ok_stable)
    show "batches_ok (wt_batches s) h1" using I(7) by (simp add: batches_ok_def h1(2,3))
    show "stable h1 h'" unfolding h' by (rule stable_append [OF h1(1) lok nc g0])
  qed
  moreover have "\<forall>w \<in> set ((l, ts, v, g) # wt_acc s). write_sample w \<in> set (held (holds_of h') (Hash (fst w))) \<union> set (wt_sent s)"
  proof -
    have "holds_of h1 = holds_of (wt_head s)" by (simp add: holds_of_def h1(2) fun_eq_iff)
    then show ?thesis using I(8) unfolding H by (auto simp: held_append write_sample_def)
  qed
  ultimately show ?thesis using D(1) inv' unfolding wal_inv_def lim by simp
qed


text \<open>A write that fails leaves at most its record in the log, and a head whose generation may have moved.\<close>

lemma wal_inv_failed:
  assumes inv: "wal_inv U s" and U: "universe_ok U" "l \<in> U"
    and h1: "mem_inv h1" "st_series h1 = st_series (wt_head s)" "st_alloc h1 = st_alloc (wt_head s)"
    and g: "gen_ok g" "g \<noteq> 0" and nt: "ft_write ft = None"
    and wr: "write_then_append ft now l ts v g (h1, wt_wal s) = (Some e, h', w')"
  shows "wal_inv U (s\<lparr>wt_head := h', wt_wal := w'\<rparr>)"
proof -
  note I = wal_invD [OF inv]
  let ?w = "wt_wal s" and ?r = "(labelsToWALPairs l, ts, v, g)"
  have lok: "labels_ok l" using U by (auto simp: universe_ok_def)
  have nc: "no_collision l h1" using I(4) h1(1,2) U by (intro universe_no_collision [OF U(1)]) auto
  have g0: "\<not> g <s 0" using g(1) by (simp add: gen_ok_def)
  obtain h2 where st: "settle_generation now g h1 = Inr (g, h2)" using g by (auto simp: settle_generation_def gen_ok_def)
  have "fst (AppendTrackedGen now l ts v g seg h1) = None" for seg
    using holds_of_append(1) [OF h1(1) lok nc g0 st] by (simp add: AppendTrackedGen_def)
  then obtain e' where W: "WriteRecordGen ft ?r ?w = (w', Some e')" and h': "h' = h1"
    using wr by (auto simp: write_then_append_def Let_def split: prod.splits option.splits) (metis fst_conv option.distinct(1))
  obtain out where D: "dir_ok w'" "sw_segIndex w' = sw_segIndex ?w"
    "\<And>i. seg_recs (sw_dir w') i = seg_recs (sw_dir ?w) i @ (if out \<and> i = sw_segIndex ?w then [?r] else [])"
    using write_dir_failed [OF I(2) W nt] by blast
  have "fence_ok U (limits_of s) w' (st_series h')"
    unfolding h' h1(2) by (intro fence_ok_writer [OF I(5)]) (auto simp: D(2,3))
  moreover have "recs_ok U w'"
  proof -
    have "case ?r of (ps, ts, v, g) \<Rightarrow> gen_ok g \<and> g \<noteq> 0 \<and> (\<exists>l \<in> U. ps = l_pairs l)"
      using g U(2) labelsToWALPairs_eq [OF lok] by auto
    then show ?thesis using I(3) unfolding recs_ok_def D(3) labelsToWALPairs_eq [OF lok] by auto
  qed
  moreover have "bounds_ok (limits_of s) w'" using I(6) by (simp add: bounds_ok_def D(2))
  moreover have "batches_ok (wt_batches s) h'" using I(7) by (simp add: batches_ok_def h' h1(2,3))
  moreover have "holds_of h' = holds_of (wt_head s)" by (simp add: holds_of_def h' h1(2) fun_eq_iff)
  moreover have "limits_of (s\<lparr>wt_head := h', wt_wal := w'\<rparr>) = limits_of s" by (simp add: limits_of_def)
  ultimately show ?thesis using I h1(1) D(1) h' h1(2) unfolding wal_inv_def by simp
qed

text \<open>Steps that only take chunks out of the head, or seal them.\<close>

lemma wal_inv_head:
  assumes inv: "wal_inv U s" and h: "store_step (wt_head s) h"
    and f: "set (fences (st_series h)) \<subseteq> set (fences (st_series (wt_head s)))"
    and l: "\<forall>x \<in> set (st_series h). ms_labels (snd x) \<in> U"
    and bs: "set bs \<subseteq> set (wt_batches s)"
    and held: "\<And>sid. set (held (holds_of (wt_head s)) sid) \<subseteq> set (held (holds_of h) sid) \<union> set sent" "set (wt_sent s) \<subseteq> set sent"
  shows "wal_inv U (s\<lparr>wt_head := h, wt_batches := bs, wt_sent := sent\<rparr>)"
proof -
  note I = wal_invD [OF inv]
  have "fence_ok U (limits_of s) (wt_wal s) (st_series h)"
    using fenceD [OF I(5)] f by (intro fence_okI) blast
  moreover have "batches_ok bs h"
    using batches_ok_stable [OF I(7) stable_step [OF h I(1)]] bs unfolding batches_ok_def by blast
  moreover have "\<forall>w \<in> set (wt_acc s). write_sample w \<in> set (held (holds_of h) (Hash (fst w))) \<union> set sent"
    using I(8) held by blast
  moreover have "limits_of (s\<lparr>wt_head := h, wt_batches := bs, wt_sent := sent\<rparr>) = limits_of s" by (simp add: limits_of_def)
  ultimately show ?thesis using I store_step_inv [OF h I(1)] l unfolding wal_inv_def by simp
qed

lemma holds_remove:
  assumes "mem_inv h"
  shows "set (held (holds_of h) sid') \<subseteq> set (held (holds_of (snd (RemoveEmptySeries sid h))) sid')"
  by (cases "map_of (st_series h) sid")
    (auto simp: RemoveEmptySeries_def held_def holds_of_def delete_conv' ms_samples_def split: if_splits)

lemma seal_zip:
  assumes "series_ok ng sid ms"
  shows "map (\<lambda>((p, c), k). (sid, ms_labels ms, chunk_samples sid c, k)) (zip (ms_chunks (snd (seal_last ms))) (ms_chunkSegs ms))
    = map (\<lambda>((p, c), k). (sid, ms_labels ms, chunk_samples sid c, k)) (zip (ms_chunks ms) (ms_chunkSegs ms))"
proof (cases "ms_chunks ms" rule: rev_cases)
  case Nil
  then show ?thesis by (simp add: seal_last_def)
next
  case (snoc cs pc)
  obtain p c where pc: "pc = (p, c)" by (cases pc)
  have ok: "chunk_ok ng c" "length (ms_chunkSegs ms) = length (cs @ [pc])" using assms by (auto simp: series_ok_def snoc pc)
  then obtain ks k where ks: "ms_chunkSegs ms = ks @ [k]" "length ks = length cs"
    by (cases "ms_chunkSegs ms" rule: rev_cases) auto
  have "\<exists>c'. ms_chunks (snd (seal_last ms)) = cs @ [(p, c')] \<and> chunk_samples sid c' = chunk_samples sid c"
    using chunk_samples_Seal [OF ok(1)] by (auto simp: seal_last_def snoc pc nth_append list_update_append Let_def)
  then show ?thesis using ks by (auto simp: snoc pc)
qed

lemma fences_seal:
  assumes "mem_inv h"
  shows "fences (st_series (snd (SealHeadChunks h))) = fences (st_series h)"
proof -
  have "fences (map (\<lambda>(sid, ms). (sid, snd (seal_last ms))) xs) = fences xs"
    if "\<forall>x \<in> set xs. series_ok (st_nextGen h) (fst x) (snd x)" for xs
    using that
  proof (induction xs)
    case (Cons x xs)
    obtain sid ms where x: "x = (sid, ms)" by (cases x)
    have ok: "series_ok (st_nextGen h) sid ms" using Cons.prems by (simp add: x)
    show ?case using Cons seal_zip [OF ok] seal_last_ok [OF ok] by (simp add: fences_def x)
  qed (simp add: fences_def)
  then show ?thesis using mem_invD(2) [OF assms] by (simp add: SealHeadChunks_def)
qed

lemma held_fences: 
  assumes "mem_inv h" "mem_inv h'" "set (fences (st_series h)) \<subseteq> set (fences (st_series h'))"
  shows "set (held (holds_of h) sid) \<subseteq> set (held (holds_of h') sid)"
proof
  fix x assume "x \<in> set (held (holds_of h) sid)"
  then obtain l ss k where "(sid, l, ss, k) \<in> set (fences (st_series h))" "x \<in> set ss" using held_iff [OF assms(1)] by blast
  then show "x \<in> set (held (holds_of h') sid)" using held_iff [OF assms(2)] assms(3) by blast
qed

lemma wal_inv_seal: "wal_inv U s \<Longrightarrow> wal_inv U (s\<lparr>wt_head := snd (SealHeadChunks (wt_head s))\<rparr>)"
proof -
  assume inv: "wal_inv U s"
  note I = wal_invD [OF inv]
  have "\<forall>x \<in> set (st_series (snd (SealHeadChunks (wt_head s)))). ms_labels (snd x) \<in> U"
    using I(4) mem_invD(2) [OF I(1)] by (fastforce simp: SealHeadChunks_def seal_last_ok)
  then have "wal_inv U (s\<lparr>wt_head := snd (SealHeadChunks (wt_head s)), wt_batches := wt_batches s, wt_sent := wt_sent s\<rparr>)"
    using held_fences [OF I(1) mem_inv_seal [OF I(1)]] fences_seal [OF I(1)]
    by (intro wal_inv_head [OF inv step_seal]) auto
  then show ?thesis by simp
qed

lemma wal_inv_gc: "wal_inv U s \<Longrightarrow> wal_inv U (s\<lparr>wt_head := snd (RemoveEmptySeries sid (wt_head s))\<rparr>)"
proof -
  assume inv: "wal_inv U s"
  note I = wal_invD [OF inv]
  have sub: "set (st_series (snd (RemoveEmptySeries sid (wt_head s)))) \<subseteq> set (st_series (wt_head s))"
    by (auto simp: RemoveEmptySeries_def AList.delete_eq split: option.splits)
  have "wal_inv U (s\<lparr>wt_head := snd (RemoveEmptySeries sid (wt_head s)), wt_batches := wt_batches s, wt_sent := wt_sent s\<rparr>)"
    using fences_mono [OF sub] sub I(4) holds_remove [OF I(1)]
    by (intro wal_inv_head [OF inv step_remove]) blast+
  then show ?thesis by simp
qed


lemma discard_zip:
  "zip (ms_chunks (snd (discard_series r ms))) (ms_chunkSegs (snd (discard_series r ms)))
    = filter (\<lambda>((p, c), k). p \<notin> set r) (zip (ms_chunks ms) (ms_chunkSegs ms))"
  by (simp add: discard_series_def Let_def zip_map_fst_snd)

lemma fences_discard:
  "set (fences (st_series (DiscardSealedChunks d h))) \<subseteq> set (fences (st_series h))"
  "(sid, ms) \<in> set (st_series h) \<Longrightarrow> ((p, c), k) \<in> set (zip (ms_chunks ms) (ms_chunkSegs ms)) \<Longrightarrow> p \<notin> set (batch_ptrs d) \<Longrightarrow>
    (sid, ms_labels ms, chunk_samples sid c, k) \<in> set (fences (st_series (DiscardSealedChunks d h)))"
proof -
  have S: "st_series (DiscardSealedChunks d h) = map (\<lambda>(sid, ms). (sid, snd (discard_series (batch_ptrs d) ms))) (st_series h)"
    by (simp add: DiscardSealedChunks_def Let_def case_prod_beta discard_loop_series batch_ptrs_def)
  show "set (fences (st_series (DiscardSealedChunks d h))) \<subseteq> set (fences (st_series h))"
    unfolding fences_series S using discard_zip [of "batch_ptrs d"] discard_series_simps(1) [of "batch_ptrs d"] by fastforce
  assume a: "(sid, ms) \<in> set (st_series h)" "((p, c), k) \<in> set (zip (ms_chunks ms) (ms_chunkSegs ms))" "p \<notin> set (batch_ptrs d)"
  let ?ms = "snd (discard_series (batch_ptrs d) ms)"
  have "(sid, ?ms) \<in> set (st_series (DiscardSealedChunks d h))" unfolding S using a(1) by force
  moreover have "((p, c), k) \<in> set (zip (ms_chunks ?ms) (ms_chunkSegs ?ms))" unfolding discard_zip using a(2,3) by simp
  ultimately have "(sid, ms_labels ?ms, chunk_samples sid c, k) \<in> set (fences (st_series (DiscardSealedChunks d h)))"
    unfolding fences_series by blast
  then show "(sid, ms_labels ms, chunk_samples sid c, k) \<in> set (fences (st_series (DiscardSealedChunks d h)))"
    by (simp add: discard_series_simps(1))
qed

lemma wal_inv_ack:
  assumes inv: "wal_inv U s" and b: "wt_batches s = b # bs"
  shows "wal_inv U (s\<lparr>wt_head := DiscardSealedChunks b (wt_head s), wt_batches := bs, wt_sent := batch_samples b @ wt_sent s\<rparr>)"
proof (rule wal_inv_head [OF inv step_discard fences_discard(1)])
  note I = wal_invD [OF inv]
  let ?h = "wt_head s" and ?h' = "DiscardSealedChunks b (wt_head s)"
  have inv': "mem_inv ?h'" by (rule mem_inv_discard [OF I(1)])
  show "\<forall>x \<in> set (st_series ?h'). ms_labels (snd x) \<in> U"
    using I(4) discard_series_simps(1) by (fastforce simp: DiscardSealedChunks_def Let_def case_prod_beta discard_loop_series)
  show "set bs \<subseteq> set (wt_batches s)" using b by auto
  show "set (wt_sent s) \<subseteq> set (batch_samples b @ wt_sent s)" by simp
  fix sid
  show "set (held (holds_of ?h) sid) \<subseteq> set (held (holds_of ?h') sid) \<union> set (batch_samples b @ wt_sent s)"
  proof
    fix x assume "x \<in> set (held (holds_of ?h) sid)"
    then obtain ms p c k where m: "(sid, ms) \<in> set (st_series ?h)" "((p, c), k) \<in> set (zip (ms_chunks ms) (ms_chunkSegs ms))"
      "x \<in> set (chunk_samples sid c)"
      unfolding held_iff [OF I(1)] fences_series by blast
    show "x \<in> set (held (holds_of ?h') sid) \<union> set (batch_samples b @ wt_sent s)"
    proof (cases "p \<in> set (batch_ptrs b)")
      case False
      then have "x \<in> set (held (holds_of ?h') sid)"
        using fences_discard(2) [OF m(1,2)] m(3) held_iff [OF inv'] by blast
      then show ?thesis by blast
    next
      case True
      then obtain il c0 where f: "(il, p, c0) \<in> set (flat b)" unfolding flat_ptrs [symmetric] by (force simp: image_iff)
      obtain sid0 l0 where il: "il = (sid0, l0)" by (cases il)
      have "(p, sid, c) \<in> set (chunk_list (st_series ?h))" using m(1) set_zip_leftD [OF m(2)] by (auto simp: chunk_list_iff)
      moreover have "\<forall>sid' c'. (p, sid', c') \<in> set (chunk_list (st_series ?h)) \<longrightarrow> sid' = sid0 \<and> c' = c0"
        using I(7) f unfolding b il batches_ok_def by fastforce
      ultimately have "sid = sid0" "c = c0" by blast+
      then have "x \<in> set (batch_samples b)" unfolding batch_samples_def using f m(3) il by force
      then show ?thesis by simp
    qed
  qed
qed

lemma wal_inv_snapshot:
  assumes inv: "wal_inv U s"
  shows "wal_inv U (s\<lparr>wt_batches := BatchSeriesChunks (SealedChunksSnapshot (wt_head s)) limit\<rparr>)"
proof -
  note I = wal_invD [OF inv]
  let ?h = "wt_head s" and ?snap = "SealedChunksSnapshot (wt_head s)"
  have fl: "concat (map flat (BatchSeriesChunks ?snap limit)) = flat ?snap"
    using batchSeriesChunks_ok [of MaxChunksPerSeries ?snap limit] snapshot_ids [OF I(1)]
    by (simp add: BatchSeriesChunks_def MaxChunksPerSeries_def)
  have "batches_ok (BatchSeriesChunks ?snap limit) ?h"
    unfolding batches_ok_def
  proof (intro ballI)
    fix b x assume "b \<in> set (BatchSeriesChunks ?snap limit)" "x \<in> set (flat b)"
    then have "x \<in> set (flat ?snap)" unfolding fl [symmetric] by auto
    then obtain sc p c where sc: "sc \<in> set ?snap" "(p, c) \<in> set (sc_Chunks sc)" "x = ((sc_ID sc, sc_Labels sc), p, c)"
      by (auto simp: flat_def)
    note S = snapshot_iff [OF conjI, OF sc(1,2)]
    have "p \<in> set (ptrs (st_series ?h))" using S unfolding chunk_list_ptrs [symmetric] by force
    then have "p < st_alloc ?h" using mem_invD(4) [OF I(1)] by blast
    then show "(\<lambda>((sid, l), p, c). Sealed c \<and> p < st_alloc ?h
        \<and> (\<forall>sid' c'. (p, sid', c') \<in> set (chunk_list (st_series ?h)) \<longrightarrow> sid' = sid \<and> c' = c)) x"
      using S chunk_list_ptr_unique [OF I(1)] unfolding sc(3) prod.case by blast
  qed
  then show ?thesis using inv unfolding wal_inv_def limits_of_def by simp
qed

lemma oldest_fold:
  "0 \<le> a \<Longrightarrow> \<forall>k \<in> set ks. 0 \<le> k \<Longrightarrow>
    foldl (\<lambda>oldest seg. if oldest < 0 \<or> seg < oldest then seg else oldest) a ks = Min (insert a (set ks))" for a :: int
proof (induction ks arbitrary: a)
  case (Cons k ks)
  have "Min (insert (if k < a then k else a) (set ks)) = Min (insert a (set (k # ks)))"
  proof -
    have "insert a (set (k # ks)) = {a, k} \<union> set ks" by auto
    then show ?thesis by (cases "ks = []") (auto simp: Min_insert2 Min.union min_def)
  qed
  then show ?case using Cons by auto
qed simp

lemma OldestHeadSegment_spec:
  assumes "mem_inv h" "\<And>f. f \<in> set (fences (st_series h)) \<Longrightarrow> 0 \<le> snd (snd (snd f))"
  shows "if fences (st_series h) = [] then OldestHeadSegment h = -1
    else OldestHeadSegment h = Min ((\<lambda>f. snd (snd (snd f))) ` set (fences (st_series h)))"
proof -
  have "map (\<lambda>f. snd (snd (snd f))) (fences xs) = concat (map (\<lambda>(_, ms). ms_chunkSegs ms) xs)"
    if "\<forall>x \<in> set xs. series_ok (st_nextGen h) (fst x) (snd x)" for xs
    using that by (induction xs) (auto simp: fences_def series_ok_def comp_def case_prod_beta map_snd_zip [unfolded map_eq_conv])
  then have k: "concat (map (\<lambda>(_, ms). ms_chunkSegs ms) (st_series h)) = map (\<lambda>f. snd (snd (snd f))) (fences (st_series h))"
    using mem_invD(2) [OF assms(1)] by simp
  show ?thesis
  proof (cases "fences (st_series h)")
    case Nil
    then show ?thesis by (simp add: OldestHeadSegment_def k)
  next
    case (Cons f fs)
    have "\<forall>k \<in> set (map (\<lambda>f. snd (snd (snd f))) (f # fs)). 0 \<le> k" using assms(2) unfolding Cons by auto
    then show ?thesis
      using oldest_fold [of "snd (snd (snd f))" "map (\<lambda>f. snd (snd (snd f))) fs"] by (simp add: OldestHeadSegment_def k Cons)
  qed
qed


lemma TrimSpace_word:
  assumes "ds \<noteq> []" "list_all is_digit ds"
  shows "TrimSpace ds = ds"
proof -
  have e: "\<forall>e \<in> set space_encodings. e \<noteq> [] \<and> \<not> is_digit (hd e)"
    "\<forall>e \<in> set (map rev space_encodings). e \<noteq> [] \<and> \<not> is_digit (hd e)"
    using space_facts(1) unfolding list_all_iff set_map ball_simps(9) by auto
  obtain r d where ds: "ds = r @ [d]" using assms(1) by (cases ds rule: rev_cases) auto
  then have r: "rev ds = d # rev r" "is_digit d" using assms(2) by simp_all
  have "trim_left space_encodings n ds = ds" for n using assms trim_left_digit [OF e(1)] by (cases ds) auto
  moreover have "trim_left (map rev space_encodings) n (rev ds) = rev ds" for n
    unfolding r(1) by (rule trim_left_digit [OF e(2) r(2)])
  ultimately show ?thesis by (simp add: TrimSpace_def)
qed

lemma checkpoint_roundtrip:
  assumes "0 \<le> d" "d < 2 ^ 63"
  shows "ReadCheckpoint (Some (FormatInt d)) = d"
proof -
  let ?ds = "decimal (nat d)"
  have d: "list_all is_digit ?ds" "digits_val ?ds = nat d" using decimal_digits by blast+
  have ne: "?ds \<noteq> []" by (subst decimal.simps) simp
  have h: "hd ?ds \<noteq> CHR ''-'' \<and> hd ?ds \<noteq> CHR ''+''"
    using d(1) ne by (cases ?ds) (auto simp: is_digit_def)
  then have "Atoi ?ds = Some d" using d ne assms by (simp add: Atoi_def Let_def)
  then show ?thesis using TrimSpace_word [OF ne d(1)] assms by (simp add: ReadCheckpoint_def FormatInt_def)
qed

lemma wal_inv_boundary:
  assumes inv: "wal_inv U s"
  shows "wal_inv U (s\<lparr>wt_marks := safe_delete (wt_head s) (wt_wal s) # wt_marks s\<rparr>)"
proof -
  note I = wal_invD [OF inv]
  let ?F = "fences (st_series (wt_head s))" and ?k = "\<lambda>f :: u64 \<times> Labels \<times> sample list \<times> int. snd (snd (snd f))"
  let ?d = "safe_delete (wt_head s) (wt_wal s)"
  have ck: "ReadCheckpoint (wt_checkpoint s) \<in> limits_of s" by (simp add: limits_of_def)
  have k: "0 < ?k f \<and> ?k f \<le> int (sw_segIndex (wt_wal s))" if "f \<in> set ?F" for f
  proof -
    obtain sid l ss k where f: "f = (sid, l, ss, k)" by (metis prod_cases4)
    show ?thesis using fenceD [OF I(5), of sid l ss k] that ck I(6) unfolding f bounds_ok_def by fastforce
  qed
  have old: "if ?F = [] then OldestHeadSegment (wt_head s) = -1 else OldestHeadSegment (wt_head s) = Min (?k ` set ?F)"
    using k by (intro OldestHeadSegment_spec [OF I(1)]) fastforce
  have "0 \<le> ?d \<and> ?d < int (sw_segIndex (wt_wal s)) \<and> (\<forall>f \<in> set ?F. ?d < ?k f)"
  proof (cases "?F = []")
    case True
    then show ?thesis using old ck I(6) by (auto simp: safe_delete_def bounds_ok_def)
  next
    case False
    then have m: "OldestHeadSegment (wt_head s) \<in> ?k ` set ?F" "\<forall>f \<in> set ?F. OldestHeadSegment (wt_head s) \<le> ?k f"
      using old by simp_all
    then show ?thesis using k by (fastforce simp: safe_delete_def)
  qed
  moreover have "limits_of (s\<lparr>wt_marks := ?d # wt_marks s\<rparr>) = insert ?d (limits_of s)" by (auto simp: limits_of_def)
  ultimately have "fence_ok U (limits_of (s\<lparr>wt_marks := ?d # wt_marks s\<rparr>)) (wt_wal s) (st_series (wt_head s))"
    "bounds_ok (limits_of (s\<lparr>wt_marks := ?d # wt_marks s\<rparr>)) (wt_wal s)"
    using I(5,6) by (fastforce simp: fence_ok_def bounds_ok_def)+
  then show ?thesis using I unfolding wal_inv_def by simp
qed

lemma wal_inv_checkpoint:
  assumes inv: "wal_inv U s" and d: "d \<in> set (wt_marks s)" "sw_segIndex (wt_wal s) + 1 < 2 ^ 63"
  shows "wal_inv U (s\<lparr>wt_checkpoint := Some (FormatInt d)\<rparr>)"
proof -
  note I = wal_invD [OF inv]
  have b: "0 \<le> d" "d < int (sw_segIndex (wt_wal s))" using I(6) d(1) by (auto simp: bounds_ok_def limits_of_def)
  have "sw_segIndex (wt_wal s) < 2 ^ 63" using d(2) by linarith
  then have "int (sw_segIndex (wt_wal s)) < 2 ^ 63" by (metis of_nat_less_iff of_nat_numeral of_nat_power)
  then have "ReadCheckpoint (Some (FormatInt d)) = d" using b by (intro checkpoint_roundtrip) linarith+
  then have "limits_of (s\<lparr>wt_checkpoint := Some (FormatInt d)\<rparr>) \<subseteq> limits_of s" using d(1) by (auto simp: limits_of_def)
  then have "fence_ok U (limits_of (s\<lparr>wt_checkpoint := Some (FormatInt d)\<rparr>)) (wt_wal s) (st_series (wt_head s))"
    "bounds_ok (limits_of (s\<lparr>wt_checkpoint := Some (FormatInt d)\<rparr>)) (wt_wal s)"
    using I(5,6) by (fastforce simp: fence_ok_def bounds_ok_def)+
  then show ?thesis using I unfolding wal_inv_def by simp
qed

lemma wal_inv_delete:
  assumes inv: "wal_inv U s" and d: "d \<in> set (wt_marks s)" "sw_segIndex (wt_wal s) + 1 < 2 ^ 63"
  shows "wal_inv U (s\<lparr>wt_wal := (wt_wal s)\<lparr>sw_dir := deleteWALSegmentsUpTo d (sw_dir (wt_wal s))\<rparr>\<rparr>)"
proof -
  note I = wal_invD [OF inv]
  let ?w = "(wt_wal s)\<lparr>sw_dir := deleteWALSegmentsUpTo d (sw_dir (wt_wal s))\<rparr>"
  have dl: "d \<in> limits_of s" using d(1) by (simp add: limits_of_def)
  then have "d < int (sw_segIndex (wt_wal s))" using I(6) by (simp add: bounds_ok_def)
  note D = delete_dir [OF I(2) this d(2)]
  have "fence_ok U (limits_of s) ?w (st_series (wt_head s))"
  proof (rule fence_ok_writer [OF I(5)])
    fix i assume "\<forall>d \<in> limits_of s. d < int i"
    then have "d < int i" using dl by blast
    then show "set (seg_recs (sw_dir (wt_wal s)) i) \<subseteq> set (seg_recs (sw_dir ?w) i)"
      using D(2) [of i] by (metis order_refl)
  qed simp
  moreover have "recs_ok U ?w" using I(3) D(3) unfolding recs_ok_def by blast
  moreover have "bounds_ok (limits_of s) ?w" using I(6) by (simp add: bounds_ok_def)
  moreover have "limits_of (s\<lparr>wt_wal := ?w\<rparr>) = limits_of s" by (simp add: limits_of_def)
  ultimately show ?thesis using I D(1) unfolding wal_inv_def by simp
qed


section \<open>Restart\<close>

lemma maxIndex_spec: "(\<forall>i \<in> fst ` set d. i \<le> maxIndex d) \<and> (d \<noteq> [] \<longrightarrow> 0 < maxIndex d \<longrightarrow> maxIndex d \<in> fst ` set d)"
proof -
  have "foldl (\<lambda>m (i, f). if i > m then i else m) a d = Max (insert a (fst ` set d))" for a
  proof (induction d arbitrary: a)
    case (Cons x d)
    have "Max (insert (if fst x > a then fst x else a) (fst ` set d)) = Max (insert a (fst ` set (x # d)))"
      by (cases "d = []") (auto simp: Max_insert2 max_def)
    then show ?case using Cons by (cases x) (auto split: if_splits)
  qed simp
  then have m: "maxIndex d = Max (insert 0 (fst ` set d))" by (simp add: maxIndex_def)
  have "Max (insert 0 (fst ` set d)) \<in> insert 0 (fst ` set d)" by (rule Max_in) auto
  then show ?thesis unfolding m by auto
qed

lemma OpenDir_dir:
  assumes ok: "dir_ok w" and op: "OpenDir no_faults (sw_dir w) m n = (w', e)"
  shows "dir_ok w'" "sw_segIndex w < sw_segIndex w'" "seg_recs (sw_dir w') i = seg_recs (sw_dir w) i" "e = None"
proof -
  note D = ok [unfolded dir_ok_def]
  have ne: "sw_dir w \<noteq> []" using D by auto
  define k where "k = maxIndex (sw_dir w) + 1"
  have k: "\<forall>i \<in> fst ` set (sw_dir w). i < k" using maxIndex_spec [of "sw_dir w"] by (auto simp: k_def less_Suc_eq_le)
  then have new: "k \<notin> fst ` set (sw_dir w)" and kk: "sw_segIndex w < k" using D by auto
  have w': "sw_dir w' = sw_dir w @ [(k, \<lparr>f_data = [], f_synced = 0\<rparr>)]" "sw_segIndex w' = k" "e = None"
    using op new unfolding k_def by (auto simp: OpenDir_def openSegment_def no_faults_def Let_def)
  have "map_of (sw_dir w) k = None" using new by (simp only: map_of_eq_None_iff) simp
  then have data: "dir_data (sw_dir w') j = (if j = k then Some [] else dir_data (sw_dir w) j)" for j
    by (auto simp: dir_data_def w' map_add_def split: option.splits)
  have e0: "dir_data (sw_dir w) k = None" using new by (simp add: dir_data_def map_of_eq_None_iff)
  have fr: "\<exists>rs. [] = frames recBody rs \<and> (\<forall>r \<in> set rs. recOk r)" by (intro exI [of _ "[]"]) simp
  show "dir_ok w'" unfolding dir_ok_def
  proof (intro conjI)
    show "distinct (map fst (sw_dir w'))" using D new by (simp add: w')
    show "sw_segIndex w' \<in> fst ` set (sw_dir w')" by (simp add: w')
    show "\<forall>i \<in> fst ` set (sw_dir w'). i \<le> sw_segIndex w' \<or> sw_broken w' \<and> i = sw_segIndex w' + 1"
      using k by (fastforce simp: w')
    show "\<forall>i bs. dir_data (sw_dir w') i = Some bs \<longrightarrow> (\<exists>rs. bs = frames recBody rs \<and> (\<forall>r \<in> set rs. recOk r))"
      using D fr by (simp add: data)
  qed
  show "sw_segIndex w < sw_segIndex w'" "e = None" using w' kk by simp_all
  show "seg_recs (sw_dir w') i = seg_recs (sw_dir w) i"
    using e0 seg_recs_frames [of "sw_dir w'" i "[]"] by (cases "i = k") (simp_all add: seg_recs_def data)
qed

lemma replay_entries:
  assumes ok: "dir_ok w" and n: "sw_segIndex w + 1 < 2 ^ 63"
    and entries: "mset entries = mset (map (\<lambda>(i, f). (segmentName i, f_data f)) (sw_dir w))"
  shows "\<exists>rs files. ReplayFromGen ck entries = (rs, files, None) \<and> set rs = (\<Union>i \<in> {i. ck < int i}. set (seg_recs (sw_dir w) i))"
proof -
  note D = ok [unfolded dir_ok_def]
  define F where "F = map snd (filter (\<lambda>(name, _). case Atoi (trim_wal name) of
            None \<Rightarrow> False | Some idx \<Rightarrow> idx > ck) (segmentPaths entries))"
  define R where "R = (\<lambda>bs. fst (replaySegment decodeRecord maxRecordBodyBytes False bs))"
  have E: "set entries = (\<lambda>(i, f). (segmentName i, f_data f)) ` set (sw_dir w)"
    using arg_cong [OF entries, of set_mset] by simp
  have nm: "has_suffix (segmentName i) ''.wal'' \<and> Atoi (trim_wal (segmentName i)) = Some (int i)" if "(i, f) \<in> set (sw_dir w)" for i f
    using that D n by (intro Atoi_segmentName) fastforce
  have F: "set F = f_data ` {f. \<exists>i. (i, f) \<in> set (sw_dir w) \<and> ck < int i}"
    unfolding F_def segmentPaths_def using nm by (force simp: E)
  have fr: "\<exists>rs. f_data f = frames recBody rs \<and> (\<forall>r \<in> set rs. recOk r) \<and> R (f_data f) = rs \<and> seg_recs (sw_dir w) i = rs"
    if f: "(i, f) \<in> set (sw_dir w)" for i f
  proof -
    have dd: "dir_data (sw_dir w) i = Some (f_data f)" using f D by (simp add: dir_data_def)
    then obtain rs where rs: "f_data f = frames recBody rs" "\<forall>r \<in> set rs. recOk r" using D by blast
    then show ?thesis using seg_recs_frames [of "sw_dir w" i rs] dd by (auto simp: R_def wal.replay_whole)
  qed
  have Fm: "map (frames recBody) (map R F) = F"
  proof -
    have "frames recBody (R bs) = bs" if "bs \<in> set F" for bs using that fr unfolding F by fastforce
    then show ?thesis by (simp add: map_idI)
  qed
  have "\<forall>rs \<in> set (map R F). \<forall>r \<in> set rs. recOk r" using fr unfolding set_map F by fastforce
  from wal.replay_files_whole [OF this] have "ReplayFromGen ck entries = (concat (map R F), F, None)"
    unfolding ReplayFromGen_def F_def [symmetric] Fm .
  moreover have "set (concat (map R F)) = (\<Union>i \<in> {i. ck < int i}. set (seg_recs (sw_dir w) i))"
  proof -
    have "set (concat (map R F)) = (\<Union>bs \<in> set F. set (R bs))" by simp
    also have "\<dots> = (\<Union>x \<in> {x \<in> set (sw_dir w). ck < int (fst x)}. set (seg_recs (sw_dir w) (fst x)))"
      unfolding F using fr by (force simp: Bex_def)
    also have "\<dots> = (\<Union>i \<in> {i. ck < int i}. set (seg_recs (sw_dir w) i))"
    proof -
      have "seg_recs (sw_dir w) i = []" if "i \<notin> fst ` set (sw_dir w)" for i
      proof -
        have "map_of (sw_dir w) i = None" using that by (simp only: map_of_eq_None_iff) simp
        then show ?thesis by (simp add: seg_recs_def dir_data_def)
      qed
      then show ?thesis by force
    qed
    finally show ?thesis .
  qed
  ultimately show ?thesis by blast
qed


lemma pairs_map_distinct: "distinct (map fst ps) \<Longrightarrow> pairs_map ps = ps"
proof -
  have "foldl (\<lambda>m p. AList.update (fst p) (snd p) m) m ps = m @ ps" if "distinct (map fst (m @ ps))" for m
    using that
  proof (induction ps arbitrary: m)
    case (Cons p ps)
    have "AList.update (fst p) (snd p) m = m @ [p]"
      using Cons.prems alist_update_new [of m "fst p" "snd p"] by (auto simp: map_of_eq_None_iff)
    then show ?case using Cons.IH [of "m @ [p]"] Cons.prems by simp
  qed simp
  from this [of "[]"] show "distinct (map fst ps) \<Longrightarrow> pairs_map ps = ps" by (simp add: pairs_map_def)
qed

definition stamp_of :: "wal_record \<Rightarrow> stamped" where
  "stamp_of r = (case r of (ps, ts, v, g) \<Rightarrow> (projr (NewStoredLabels (pairs_map ps)), ts, v, g))"

definition rec_ok :: "Labels set \<Rightarrow> wal_record \<Rightarrow> bool" where
  "rec_ok U r \<longleftrightarrow> (case r of (ps, ts, v, g) \<Rightarrow> gen_ok g \<and> g \<noteq> 0 \<and> (\<exists>l \<in> U. ps = l_pairs l))"

lemma stored_pairs:
  assumes "universe_ok U" "l \<in> U"
  shows "NewStoredLabels (pairs_map (l_pairs l)) = Inr l"
proof -
  have "NewStoredLabels (l_pairs l) = Inr l" "distinct (map fst (l_pairs l))"
    using assms by (auto simp: universe_ok_def labels_ok_def)
  then show ?thesis by (simp add: pairs_map_distinct)
qed

text \<open>Replaying records the store itself wrote appends each with the generation it had.\<close>

lemma replay_apply:
  assumes U: "universe_ok U"
  shows "\<forall>r \<in> set rs. rec_ok U r \<Longrightarrow> fst (foldl (replay_record now) (h, n) rs) = apply_writes h (map stamp_of rs)"
proof (induction rs arbitrary: h n)
  case (Cons r rs)
  obtain l ts v g where r: "r = (l_pairs l, ts, v, g)" "l \<in> U" "g \<noteq> 0"
    using Cons.prems by (cases r) (auto simp: rec_ok_def)
  have "fst (replay_record now (h, n) r) = snd (AppendGen 0 l ts v g h)"
    using r(3) by (auto simp: replay_record_def r(1) stored_pairs [OF U r(2)] AppendGen_def appendInternal_def
      settle_generation_def split: option.splits prod.splits)
  moreover have "apply_writes h (map stamp_of (r # rs)) = apply_writes (snd (AppendGen 0 l ts v g h)) (map stamp_of rs)"
    by (simp add: apply_writes_def stamp_of_def r(1) stored_pairs [OF U r(2)])
  ultimately show ?case using Cons by (cases "replay_record now (h, n) r") simp
qed (simp add: apply_writes_def)

lemma stamps_ok:
  assumes U: "universe_ok U" and rs: "\<forall>r \<in> set rs. rec_ok U r"
  shows "writes_ok (stamp_of ` set rs)" "r \<in> set rs \<Longrightarrow> fst (stamp_of r) \<in> U"
    "r \<in> set rs \<Longrightarrow> r = (l_pairs (fst (stamp_of r)), snd (stamp_of r))"
proof -
  have st: "\<exists>l ts v g. l \<in> U \<and> r = (l_pairs l, ts, v, g) \<and> stamp_of r = (l, ts, v, g) \<and> gen_ok g \<and> g \<noteq> 0" if "r \<in> set rs" for r
  proof -
    obtain ps ts v g where r: "r = (ps, ts, v, g)" by (cases r)
    with rs that obtain l where "l \<in> U" "ps = l_pairs l" "gen_ok g" "g \<noteq> 0" by (fastforce simp: rec_ok_def)
    then show ?thesis using stored_pairs [OF U] by (auto simp: r stamp_of_def)
  qed
  show "r \<in> set rs \<Longrightarrow> fst (stamp_of r) \<in> U" using st by fastforce
  show "r \<in> set rs \<Longrightarrow> r = (l_pairs (fst (stamp_of r)), snd (stamp_of r))" using st by fastforce
  show "writes_ok (stamp_of ` set rs)"
    unfolding writes_ok_def
  proof (intro conjI ballI impI)
    fix x assume "x \<in> stamp_of ` set rs"
    then show "case x of (l, ts, v, g) \<Rightarrow> labels_ok l \<and> gen_ok g \<and> g \<noteq> 0"
      using st U by (fastforce simp: universe_ok_def)
  next
    fix x y assume "x \<in> stamp_of ` set rs" "y \<in> stamp_of ` set rs" "Hash (fst x) = Hash (fst y)"
    moreover from this have "fst x \<in> U" "fst y \<in> U" using st by fastforce+
    ultimately show "fst x = fst y" using U by (auto simp: universe_ok_def dest: inj_onD)
  qed
qed

lemma SetHeadFence_series:
  "(sid, l, ss, k') \<in> set (fences (st_series (SetHeadFence k h))) \<Longrightarrow>
     k' = k \<and> (\<exists>k0. (sid, l, ss, k0) \<in> set (fences (st_series h)))"
  unfolding fences_series by (force simp: SetHeadFence_def zip_map2)

lemma holds_of_fence: "holds_of (SetHeadFence k h) = holds_of h"
  by (auto simp: holds_of_def SetHeadFence_def map_of_map_snd fun_eq_iff ms_samples_def option.map_comp comp_def
    intro!: option.map_cong0)


lemma wal_inv_restart:
  assumes inv: "wal_inv U s" and U: "universe_ok U"
    and entries: "mset entries = mset (map (\<lambda>(i, f). (segmentName i, f_data f)) (sw_dir (wt_wal s)))"
    and n: "sw_segIndex (wt_wal s) + 1 < 2 ^ 63"
    and rep: "replayMetricsWAL now (ReadCheckpoint (wt_checkpoint s)) entries (EnsureGenFloor f NewMemoryStore) = (h, n, e)"
    and op: "OpenDir no_faults (sw_dir (wt_wal s)) segMaxBytes syncEveryN = (w, e')"
  shows "wal_inv U (s\<lparr>wt_head := SetHeadFence (ReadCheckpoint (wt_checkpoint s) + 1) h, wt_wal := w, wt_batches := [], wt_marks := []\<rparr>)"
    "e = None" "e' = None"
proof -
  note I = wal_invD [OF inv]
  let ?ck = "ReadCheckpoint (wt_checkpoint s)" and ?fresh = "EnsureGenFloor f NewMemoryStore"
  let ?h = "SetHeadFence (?ck + 1) h" and ?dir = "sw_dir (wt_wal s)"
  note O = OpenDir_dir [OF I(2) op]
  obtain rs files where rs: "ReplayFromGen ?ck entries = (rs, files, None)" "set rs = (\<Union>i \<in> {i. ?ck < int i}. set (seg_recs ?dir i))"
    using replay_entries [OF I(2) n entries] by blast
  have rok: "\<forall>r \<in> set rs. rec_ok U r" using I(3) unfolding rs(2) recs_ok_def rec_ok_def by blast
  note S = stamps_ok [OF U rok]
  have h: "h = apply_writes ?fresh (map stamp_of rs)" and e: "e = None"
    using rep replay_apply [OF U rok, of now ?fresh 0] by (auto simp: replayMetricsWAL_def rs(1) split: prod.splits)
  have h0: "mem_inv ?fresh" "st_series ?fresh = []"
    using mem_inv_floor [OF mem_inv_new, of f] by (simp_all add: EnsureGenFloor_def NewMemoryStore_def)
  have W: "writes_ok (set (map stamp_of rs))" using S(1) by simp
  have inv_h: "mem_inv h" and H: "holds_of h = written (map stamp_of rs)"
    using apply_writes_holds [OF W h0] unfolding h by blast+
  have inv': "mem_inv ?h" by (rule mem_inv_fence [OF inv_h])
  have new: "x \<in> set (held (holds_of ?h) sid) \<longleftrightarrow> (\<exists>r \<in> set rs. x = write_sample (stamp_of r) \<and> Hash (fst (stamp_of r)) = sid)" for x sid
  proof (cases "written (map stamp_of rs) sid")
    case None
    then have "\<not> (\<exists>r \<in> set rs. Hash (fst (stamp_of r)) = sid)"
      by (auto simp: written_def filter_empty_conv split: list.splits)
    then show ?thesis using None by (auto simp: holds_of_fence H held_def)
  next
    case (Some lss)
    then have "set (snd lss) = write_sample ` {w \<in> set (map stamp_of rs). Hash (fst w) = sid}"
      using written_iff [OF W, of sid "fst lss" "snd lss"] by simp
    moreover have "held (holds_of ?h) sid = snd lss"
      using Some by (simp add: holds_of_fence H held_def case_prod_beta)
    ultimately show ?thesis by auto
  qed
  have lab: "ms_labels (snd x) \<in> U" if x: "x \<in> set (st_series h)" for x
  proof -
    have "map_of (st_series h) (fst x) = Some (snd x)" using x mem_invD(1) [OF inv_h] by simp
    then have "holds_of h (fst x) = Some (ms_labels (snd x), ms_samples (snd x))" by (simp add: holds_of_def)
    then obtain w where "w \<in> set (map stamp_of rs)" "ms_labels (snd x) = fst w"
      using written_iff [OF W, of "fst x"] unfolding H by blast
    then show ?thesis using S(2) by auto
  qed
  have "fence_ok U {?ck} w (st_series ?h)"
  proof (rule fence_okI)
    fix sid l ss k assume f: "(sid, l, ss, k) \<in> set (fences (st_series ?h))"
    then have k: "k = ?ck + 1" using SetHeadFence_series by blast
    have ck: "?ck < int (sw_segIndex (wt_wal s))" using I(6) by (simp add: bounds_ok_def limits_of_def)
    have "on_disk w k l x" if x: "x \<in> set ss" for x
    proof -
      obtain ms p c where m: "(sid, ms) \<in> set (st_series ?h)" "l = ms_labels ms" using f unfolding fences_series by blast
      have mo: "map_of (st_series ?h) sid = Some ms" using m(1) mem_invD(1) [OF inv'] by simp
      have "x \<in> set (held (holds_of ?h) sid)" using f x held_iff [OF inv'] by blast
      then obtain r where r: "r \<in> set rs" "x = write_sample (stamp_of r)" "Hash (fst (stamp_of r)) = sid" using new by blast
      have "holds_of h sid = Some (ms_labels ms, ms_samples ms)"
        using mo holds_of_fence [of "?ck + 1" h] by (metis (no_types, lifting) holds_of_def option.simps(9) split_conv comp_apply)
      then obtain u where "u \<in> set (map stamp_of rs)" "l = fst u" "Hash (fst u) = sid"
        using written_iff [OF W, of sid] unfolding H m(2) by blast
      then have "l \<in> U" "Hash l = sid" using S(2) by auto
      then have l: "fst (stamp_of r) = l" using S(2) [OF r(1)] r(3) U by (auto simp: universe_ok_def dest: inj_onD)
      then have "r = (l_pairs l, sm_ts x, sm_val x, sm_gen x)"
        using S(3) [OF r(1)] r(2) by (cases "stamp_of r") (auto simp: write_sample_def)
      moreover obtain i where "?ck < int i" "r \<in> set (seg_recs ?dir i)" using r(1) rs(2) by blast
      ultimately show ?thesis unfolding on_disk_def O(3) k by (intro exI [of _ i]) auto
    qed
    then show "(\<forall>d \<in> {?ck}. d < k) \<and> k \<le> int (sw_segIndex w) \<and> (\<forall>x \<in> set ss. on_disk w k l x)"
      using k ck O(2) by simp
  qed
  moreover have "bounds_ok {?ck} w" using I(6) O(2) by (simp add: bounds_ok_def limits_of_def)
  moreover have "recs_ok U w" using I(3) unfolding recs_ok_def O(3) .
  moreover have "\<forall>x \<in> set (st_series ?h). ms_labels (snd x) \<in> U"
    using lab by (fastforce simp: SetHeadFence_def)
  moreover have "\<forall>u \<in> set (wt_acc s). write_sample u \<in> set (held (holds_of ?h) (Hash (fst u))) \<union> set (wt_sent s)"
  proof
    fix u assume u: "u \<in> set (wt_acc s)"
    show "write_sample u \<in> set (held (holds_of ?h) (Hash (fst u))) \<union> set (wt_sent s)"
    proof (cases "write_sample u \<in> set (wt_sent s)")
      case False
      then have "write_sample u \<in> set (held (holds_of (wt_head s)) (Hash (fst u)))" using I(8) u by blast
      then obtain l ss k where fk: "(Hash (fst u), l, ss, k) \<in> set (fences (st_series (wt_head s)))" "write_sample u \<in> set ss"
        using held_iff [OF I(1)] by blast
      then obtain ms where ms: "(Hash (fst u), ms) \<in> set (st_series (wt_head s))" "l = ms_labels ms" unfolding fences_series by blast
      then have l: "l \<in> U" "Hash l = Hash (fst u)" using I(4) mem_invD(2) [OF I(1)] by (fastforce simp: series_ok_def)+
      let ?r = "(l_pairs l, sm_ts (write_sample u), sm_val (write_sample u), sm_gen (write_sample u))"
      obtain i where i: "k \<le> int i" "?r \<in> set (seg_recs ?dir i)"
        using fenceD [OF I(5) fk(1)] fk(2) unfolding on_disk_def by blast
      have "?ck < int i" using fenceD [OF I(5) fk(1)] i(1) by (auto simp: limits_of_def)
      then have "?r \<in> set rs" using i(2) rs(2) by blast
      moreover have "stamp_of ?r = (l, sm_ts (write_sample u), sm_val (write_sample u), sm_gen (write_sample u))"
        by (simp add: stamp_of_def stored_pairs [OF U l(1)])
      moreover have "write_sample (stamp_of ?r) = write_sample u"
        using l(2) unfolding calculation(2) by (cases u) (simp add: write_sample_def)
      ultimately have "write_sample u \<in> set (held (holds_of ?h) (Hash (fst u)))"
        unfolding new using l(2) by (metis fst_conv)
      then show ?thesis by simp
    qed simp
  qed
  ultimately show "wal_inv U (s\<lparr>wt_head := ?h, wt_wal := w, wt_batches := [], wt_marks := []\<rparr>)"
    using inv' O(1) unfolding wal_inv_def limits_of_def by (simp add: batches_ok_def)
  show "e = None" "e' = None" using e O(4) by simp_all
qed

lemma wal_inv_init: "wal_inv U (wal_init segMaxBytes syncEveryN floor)"
proof -
  let ?s = "wal_init segMaxBytes syncEveryN floor"
  have h: "mem_inv (wt_head ?s)" "st_series (wt_head ?s) = []"
    using mem_inv_floor [OF mem_inv_new, of floor] by (auto simp: wal_init_def EnsureGenFloor_def NewMemoryStore_def)
  have w: "sw_dir (wt_wal ?s) = [(1, \<lparr>f_data = [], f_synced = 0\<rparr>)]" "sw_segIndex (wt_wal ?s) = 1"
    by (simp_all add: wal_init_def OpenDir_def openSegment_def no_faults_def maxIndex_def Let_def)
  have data: "dir_data (sw_dir (wt_wal ?s)) i = (if i = 1 then Some (frames recBody []) else None)" for i
    by (simp add: dir_data_def w)
  have recs: "seg_recs (sw_dir (wt_wal ?s)) i = []" for i
    using seg_recs_frames [of "sw_dir (wt_wal ?s)" i "[]"] by (cases "i = 1") (auto simp: data seg_recs_def)
  have "dir_ok (wt_wal ?s)"
    unfolding dir_ok_def
  proof (intro conjI)
    show "\<forall>i bs. dir_data (sw_dir (wt_wal ?s)) i = Some bs \<longrightarrow> (\<exists>rs. bs = frames recBody rs \<and> (\<forall>r \<in> set rs. recOk r))"
      unfolding data by (auto intro!: exI [of _ "[]"])
  qed (simp_all add: w)
  moreover have "limits_of ?s = {0}" "wt_batches ?s = []" "wt_acc ?s = []" by (simp_all add: wal_init_def limits_of_def ReadCheckpoint_def)
  ultimately show ?thesis
    using h w(2) recs unfolding wal_inv_def by (simp add: recs_ok_def fence_ok_def bounds_ok_def batches_ok_def fences_def)
qed

lemma reserve_facts:
  assumes inv: "mem_inv h" and r: "ReserveGeneration now h = Inr (g, h1)"
  shows "mem_inv h1" "st_series h1 = st_series h" "st_alloc h1 = st_alloc h" "gen_ok g" "g \<noteq> 0"
proof -
  have st: "settle_generation now 0 h = Inr (g, h1)" using r by (simp add: settle_generation_def ReserveGeneration_def)
  note S = settle_generation_ok [OF inv _ st]
  show "mem_inv h1" by (rule mem_inv_reserve [OF inv r])
  have "h1 = h\<lparr>st_nextGen := st_nextGen h1\<rparr>" "gen_ok g" "st_nextGen h \<le>s g" using S(1,4,5) by simp_all
  then show "st_series h1 = st_series h" "st_alloc h1 = st_alloc h" "gen_ok g"
    by (metis MemoryStore.select_convs(1) MemoryStore.surjective MemoryStore.update_convs(4))
      (metis \<open>h1 = h\<lparr>st_nextGen := st_nextGen h1\<rparr>\<close> MemoryStore.select_convs(5) MemoryStore.surjective MemoryStore.update_convs(4), fact)
  show "g \<noteq> 0" using \<open>st_nextGen h \<le>s g\<close> mem_invD(7) [OF inv] by (auto simp: word_sle_eq)
qed

lemma wal_inv_step:
  assumes U: "universe_ok U" and st: "wal_step U limit s s'" and inv: "wal_inv U s"
  shows "wal_inv U s'"
  using st
proof cases
  case (ws_append l ft now ts v h w g)
  obtain h1 where r: "ReserveGeneration now (wt_head s) = Inr (g, h1)" "write_then_append ft now l ts v g (h1, wt_wal s) = (None, h, w)"
    using ws_append(3,4) by (auto simp: WALAppend_def ReserveGeneration_def nextGenerationLocked_def NextGeneration_def Let_def
      split: sum.splits if_splits)
  note R = reserve_facts [OF wal_invD(1) [OF inv] r(1)]
  show ?thesis unfolding ws_append(1) by (rule wal_inv_write [OF inv U ws_append(2) R r(2)])
next
  case (ws_stamped l ft now ts v g h w)
  then have w: "write_then_append ft now l ts v g (wt_head s, wt_wal s) = (None, h, w)" and "gen_ok g"
    by (auto simp: AppendWithGeneration_def gen_ok_def word_sless_alt word_sle_eq MaxGeneration_def split: if_splits)
  then show ?thesis unfolding ws_stamped(1)
    using wal_inv_write [OF inv U ws_stamped(2) wal_invD(1) [OF inv] refl refl _ ws_stamped(4) w] by simp
next
  case (ws_failed l ft now ts v e h w g)
  have local: ?thesis if f: "WALAppend ft now l ts v (wt_head s, wt_wal s) = (Some e, h, w)"
  proof (cases "ReserveGeneration now (wt_head s)")
    case (Inl x)
    then show ?thesis using f inv by (auto simp: WALAppend_def ws_failed(1))
  next
    case (Inr r)
    obtain g1 h1 where r: "r = (g1, h1)" by (cases r)
    note R = reserve_facts [OF wal_invD(1) [OF inv] Inr [unfolded r]]
    have "write_then_append ft now l ts v g1 (h1, wt_wal s) = (Some e, h, w)" using f by (simp add: WALAppend_def Inr r)
    then show ?thesis unfolding ws_failed(1) by (rule wal_inv_failed [OF inv U ws_failed(2) R ws_failed(3)])
  qed
  from ws_failed(4) show ?thesis
  proof
    assume f: "AppendWithGeneration ft now l ts v g (wt_head s, wt_wal s) = (Some e, h, w)"
    consider "g = 0" | "g \<noteq> 0" "g <s 0 \<or> MaxGeneration <s g" | "g \<noteq> 0" "\<not> g <s 0" "\<not> MaxGeneration <s g" by blast
    then show ?thesis
    proof cases
      case 1
      then show ?thesis using f by (intro local) (simp add: AppendWithGeneration_def)
    next
      case 2
      then show ?thesis using f inv by (auto simp: AppendWithGeneration_def ws_failed(1))
    next
      case 3
      have "write_then_append ft now l ts v g (wt_head s, wt_wal s) = (Some e, h, w)" using f 3 by (simp add: AppendWithGeneration_def)
      moreover have "gen_ok g" using 3 by (simp add: gen_ok_def word_sless_alt word_sle_eq MaxGeneration_def)
      ultimately show ?thesis unfolding ws_failed(1)
        using wal_inv_failed [OF inv U ws_failed(2) wal_invD(1) [OF inv] refl refl _ 3(1) ws_failed(3)] by blast
    qed
  qed (rule local)
next
  case ws_abort
  then show ?thesis using inv unfolding wal_inv_def limits_of_def by (simp add: batches_ok_def)
next
  case (ws_restart entries now f h n e segMaxBytes syncEveryN w e')
  then show ?thesis using wal_inv_restart(1) [OF inv U ws_restart(2,3,4,5)] by simp
qed (auto intro: wal_inv_snapshot [OF inv] wal_inv_ack [OF inv] wal_inv_gc [OF inv] wal_inv_seal [OF inv]
  wal_inv_boundary [OF inv] wal_inv_checkpoint [OF inv] wal_inv_delete [OF inv])

lemma wal_inv_steps: "universe_ok U \<Longrightarrow> (wal_step U limit)\<^sup>*\<^sup>* s s' \<Longrightarrow> wal_inv U s \<Longrightarrow> wal_inv U s'"
proof -
  assume U: "universe_ok U" and inv: "wal_inv U s"
  assume "(wal_step U limit)\<^sup>*\<^sup>* s s'"
  then show "wal_inv U s'" by (induction rule: rtranclp_induct) (use inv wal_inv_step [OF U] in blast)+
qed

text \<open>
  C2: no accepted write is ever lost. From an empty store, through any interleaving of appends (locally
  or gateway stamped), appends that fail at a sync or while rotating, flush snapshots, acknowledged or aborted
  batches, seals, garbage collection, checkpoint boundaries chosen under the append lock, checkpoint
  writes and segment deletions at any boundary chosen so far, however late, and process restarts: every write the
  store has accepted is either in the head or among the samples the sink acknowledged; every sample in
  the head has its record in a WAL segment above the checkpoint and above every boundary chosen, so no
  pending deletion can remove it and the next restart replays it; and the replay never fails. Left out are
  short writes, whose torn bytes hide every later record of the segment from replay, and host crashes.
\<close>

theorem no_accepted_write_lost:
  assumes "universe_ok U" "(wal_step U limit)\<^sup>*\<^sup>* (wal_init segMaxBytes syncEveryN floor) s"
  shows "(\<forall>(l, ts, v, g) \<in> set (wt_acc s). \<lparr>sm_id = Hash l, sm_ts = ts, sm_val = v, sm_gen = g\<rparr>
        \<in> set (held (holds_of (wt_head s)) (Hash l)) \<union> set (wt_sent s))
    \<and> (\<forall>(sid, ms) \<in> set (st_series (wt_head s)). \<forall>x \<in> set (ms_samples ms).
        \<exists>i. (\<forall>d \<in> set (wt_marks s). d < int i) \<and> ReadCheckpoint (wt_checkpoint s) < int i
          \<and> (l_pairs (ms_labels ms), sm_ts x, sm_val x, sm_gen x) \<in> set (seg_recs (sw_dir (wt_wal s)) i))
    \<and> (\<forall>now entries. sw_segIndex (wt_wal s) + 1 < 2 ^ 63
        \<longrightarrow> mset entries = mset (map (\<lambda>(i, f). (segmentName i, f_data f)) (sw_dir (wt_wal s)))
        \<longrightarrow> snd (snd (replayMetricsWAL now (ReadCheckpoint (wt_checkpoint s)) entries (EnsureGenFloor floor NewMemoryStore))) = None)"
proof (intro conjI)
  have inv: "wal_inv U s" by (rule wal_inv_steps [OF assms wal_inv_init])
  note I = wal_invD [OF inv]
  show "\<forall>(l, ts, v, g) \<in> set (wt_acc s). \<lparr>sm_id = Hash l, sm_ts = ts, sm_val = v, sm_gen = g\<rparr>
        \<in> set (held (holds_of (wt_head s)) (Hash l)) \<union> set (wt_sent s)"
    using I(8) by (fastforce simp: write_sample_def)
  show "\<forall>(sid, ms) \<in> set (st_series (wt_head s)). \<forall>x \<in> set (ms_samples ms).
        \<exists>i. (\<forall>d \<in> set (wt_marks s). d < int i) \<and> ReadCheckpoint (wt_checkpoint s) < int i
          \<and> (l_pairs (ms_labels ms), sm_ts x, sm_val x, sm_gen x) \<in> set (seg_recs (sw_dir (wt_wal s)) i)"
  proof (intro ballI, clarify)
    fix sid ms x assume m: "(sid, ms) \<in> set (st_series (wt_head s))" and x: "x \<in> set (ms_samples ms)"
    have ok: "series_ok (st_nextGen (wt_head s)) sid ms" using mem_invD(2) [OF I(1) m] .
    obtain p c where pc: "(p, c) \<in> set (ms_chunks ms)" "x \<in> set (chunk_samples sid c)"
      using x ok by (auto simp: ms_samples_def series_ok_def)
    then obtain k where "((p, c), k) \<in> set (zip (ms_chunks ms) (ms_chunkSegs ms))"
      using ok by (metis in_set_impl_in_set_zip1 series_ok_def)
    then have "(sid, ms_labels ms, chunk_samples sid c, k) \<in> set (fences (st_series (wt_head s)))"
      unfolding fences_series using m by blast
    from fenceD [OF I(5) this] pc(2) obtain i where i: "\<forall>d \<in> limits_of s. d < k" "k \<le> int i"
      "(l_pairs (ms_labels ms), sm_ts x, sm_val x, sm_gen x) \<in> set (seg_recs (sw_dir (wt_wal s)) i)"
      unfolding on_disk_def by blast
    then show "\<exists>i. (\<forall>d \<in> set (wt_marks s). d < int i) \<and> ReadCheckpoint (wt_checkpoint s) < int i
          \<and> (l_pairs (ms_labels ms), sm_ts x, sm_val x, sm_gen x) \<in> set (seg_recs (sw_dir (wt_wal s)) i)"
      by (intro exI [of _ i]) (fastforce simp: limits_of_def)
  qed
  show "\<forall>now entries. sw_segIndex (wt_wal s) + 1 < 2 ^ 63
        \<longrightarrow> mset entries = mset (map (\<lambda>(i, f). (segmentName i, f_data f)) (sw_dir (wt_wal s)))
        \<longrightarrow> snd (snd (replayMetricsWAL now (ReadCheckpoint (wt_checkpoint s)) entries (EnsureGenFloor floor NewMemoryStore))) = None"
  proof (intro allI impI)
    fix now entries
    assume e: "sw_segIndex (wt_wal s) + 1 < 2 ^ 63" "mset entries = mset (map (\<lambda>(i, f). (segmentName i, f_data f)) (sw_dir (wt_wal s)))"
    obtain h n e where r: "replayMetricsWAL now (ReadCheckpoint (wt_checkpoint s)) entries (EnsureGenFloor floor NewMemoryStore) = (h, n, e)"
      by (metis prod_cases3)
    obtain w e' where o: "OpenDir no_faults (sw_dir (wt_wal s)) 0 0 = (w, e')" by (metis surj_pair)
    show "snd (snd (replayMetricsWAL now (ReadCheckpoint (wt_checkpoint s)) entries (EnsureGenFloor floor NewMemoryStore))) = None"
      using wal_inv_restart(2) [OF inv assms(1) e(2,1) r o] r by simp
  qed
qed

section \<open>Drain\<close>

lemma flush_batches_ok:
  "flush_batches sink k mem sent bs = ((True, sent'), k', mem') \<Longrightarrow> mem' = foldl (\<lambda>m b. DiscardSealedChunks b m) mem bs"
  by (induction sink k mem sent bs rule: flush_batches.induct) (auto split: prod.splits bool.splits)

lemma remove_empty_series: "set (st_series (remove_empty m)) \<subseteq> set (st_series m)"
proof -
  have one: "set (st_series (snd (RemoveEmptySeries sid m))) \<subseteq> set (st_series m)" for sid m
    by (auto simp: RemoveEmptySeries_def AList.delete_eq split: option.splits)
  have "set (st_series (foldl (\<lambda>m sid. snd (RemoveEmptySeries sid m)) m sids)) \<subseteq> set (st_series m)" for sids
    by (induction sids arbitrary: m) (use one in \<open>auto, blast\<close>)
  then show ?thesis by (simp add: remove_empty_def)
qed

lemma sealed_count_snapshot: "SealedChunkCount m > 0 \<longleftrightarrow> SealedChunksSnapshot m \<noteq> []"
proof -
  have "List.map_filter (\<lambda>x. if f x = [] then None else Some (g x)) xs = [] \<longleftrightarrow> (\<forall>x \<in> set xs. f x = [])"
    for f :: "u64 \<times> memorySeries \<Rightarrow> (cptr \<times> chunk) list" and g :: "u64 \<times> memorySeries \<Rightarrow> SeriesChunks" and xs
    by (induction xs) (simp_all add: List.map_filter_simps)
  then have "SealedChunksSnapshot m = [] \<longleftrightarrow> (\<forall>x \<in> set (st_series m). filter (\<lambda>pc. Sealed (snd pc)) (ms_chunks (snd x)) = [])"
    unfolding snapshot_alt .
  moreover have "SealedChunkCount m = 0 \<longleftrightarrow> (\<forall>x \<in> set (st_series m). filter (\<lambda>pc. Sealed (snd pc)) (ms_chunks (snd x)) = [])"
    unfolding SealedChunkCount_def case_prod_beta sum_list_eq_0_iff set_map by auto
  ultimately show ?thesis by auto
qed

lemma sealed_count_none:
  "SealedChunkCount m = 0 \<longleftrightarrow> (\<forall>(p, sid, c) \<in> set (chunk_list (st_series m)). \<not> Sealed c)"
proof -
  have "SealedChunkCount m = 0 \<longleftrightarrow> (\<forall>x \<in> set (st_series m). \<forall>pc \<in> set (ms_chunks (snd x)). \<not> Sealed (snd pc))"
    unfolding SealedChunkCount_def case_prod_beta sum_list_eq_0_iff set_map by (auto simp: filter_empty_conv)
  then show ?thesis unfolding chunk_list_def set_concat set_map by (auto simp: case_prod_beta)
qed

text \<open>A flush that succeeds takes every chunk that was sealed.\<close>

lemma flush_takes_sealed:
  assumes inv: "mem_inv (hs_mem h)" and f: "FlushBlockContext locked floorOk sink k h = (Inr True, k', h')"
  shows "\<forall>(p, sid, c) \<in> set (chunk_list (st_series (hs_mem h'))). \<not> Sealed c \<and> (p, sid, c) \<in> set (chunk_list (st_series (hs_mem h)))"
proof -
  let ?snap = "SealedChunksSnapshot (hs_mem h)"
  let ?bs = "BatchSeriesChunks ?snap (hs_batchBytes h)"
  obtain sent mem where b: "flush_batches sink k (hs_mem h) False ?bs = ((True, sent), k', mem)" "hs_mem h' = remove_empty mem"
    using f by (auto simp: FlushBlockContext_def Let_def split: if_splits prod.splits)
  have "concat (map flat ?bs) = flat ?snap"
    using batchSeriesChunks_ok [of MaxChunksPerSeries ?snap "hs_batchBytes h"] snapshot_ids [OF inv]
    by (simp add: BatchSeriesChunks_def MaxChunksPerSeries_def)
  then have "map (\<lambda>x. fst (snd x)) (concat (map flat ?bs)) = batch_ptrs ?snap" by (simp add: flat_ptrs)
  then have "concat (map batch_ptrs ?bs) = batch_ptrs ?snap" by (simp add: map_concat comp_def flat_ptrs)
  then have gone: "set (chunk_list (st_series (hs_mem h'))) \<subseteq> {x \<in> set (chunk_list (st_series (hs_mem h))). fst x \<notin> set (batch_ptrs ?snap)}"
    using chunk_list_mono [OF remove_empty_series [of mem]] chunk_list_discards [OF inv, of ?bs]
    unfolding flush_batches_ok [OF b(1)] b(2) by auto
  show ?thesis
  proof clarify
    fix p sid c assume "(p, sid, c) \<in> set (chunk_list (st_series (hs_mem h')))"
    then have "(p, sid, c) \<in> set (chunk_list (st_series (hs_mem h)))" "p \<notin> set (batch_ptrs ?snap)" using gone by auto
    then show "\<not> Sealed c \<and> (p, sid, c) \<in> set (chunk_list (st_series (hs_mem h)))" unfolding snapshot_ptrs by blast
  qed
qed

lemma seal_all:
  assumes "mem_inv m"
  shows "\<forall>(p, sid, c) \<in> set (chunk_list (st_series (snd (SealHeadChunks m)))). Sealed c"
  using mem_invD(2) [OF assms] seal_last_ok(5) by (fastforce simp: SealHeadChunks_def chunk_list_iff)

lemma no_chunks:
  assumes "mem_inv m" "chunk_list (st_series m) = []"
  shows "\<forall>(sid, ms) \<in> set (st_series m). ms_chunks ms = []" "OldestHeadSegment m = -1"
proof -
  show e: "\<forall>(sid, ms) \<in> set (st_series m). ms_chunks ms = []" using assms(2) by (auto simp: chunk_list_def)
  have "\<forall>(sid, ms) \<in> set (st_series m). ms_chunkSegs ms = []"
    using e mem_invD(2) [OF assms(1)] by (fastforce simp: series_ok_def)
  then have "concat (map (\<lambda>(_, ms). ms_chunkSegs ms) (st_series m)) = []" unfolding concat_eq_Nil_conv by auto
  then show "OldestHeadSegment m = -1" unfolding OldestHeadSegment_def by (simp only: foldl_Nil)
qed

lemma FlushBlockContext_inv:
  assumes "mem_inv (hs_mem h)" "FlushBlockContext locked floorOk sink k h = (r, k', h')"
  shows "mem_inv (hs_mem h')"
proof -
  have b: "mem_inv (snd (snd (flush_batches sink k m sent bs)))" if "mem_inv m" for k m sent bs
    using that by (induction sink k m sent bs rule: flush_batches.induct) (auto simp: mem_inv_discard split: prod.splits bool.splits)
  have "mem_inv (foldl (\<lambda>m sid. snd (RemoveEmptySeries sid m)) m sids)" if "mem_inv m" for m sids
    using that by (induction sids arbitrary: m) (auto simp: mem_inv_remove)
  then have e: "mem_inv (remove_empty m)" if "mem_inv m" for m using that by (simp add: remove_empty_def)
  show ?thesis
    using assms(2) b [OF assms(1), of k False "BatchSeriesChunks (SealedChunksSnapshot (hs_mem h)) (hs_batchBytes h)"] assms(1) e
    by (auto simp: FlushBlockContext_def Let_def split: if_splits prod.splits)
qed


lemma flushBlock_split:
  assumes "flushBlock locked floorOk ckOk delOk sink k s = (r, k', s')"
  shows "r = Inr False \<Longrightarrow> locked \<and> SealedChunksSnapshot (hs_mem (ws_head s)) = [] \<and> s' = s"
    "r = Inr True \<Longrightarrow> FlushBlockContext locked floorOk sink k (ws_head s) = (Inr True, k', ws_head s')"
    "locked \<Longrightarrow> floorOk \<Longrightarrow> ckOk \<Longrightarrow> delOk \<Longrightarrow> (\<And>k b. fst (sink k b)) \<Longrightarrow> \<exists>w. r = Inr w"
    "\<exists>r0. FlushBlockContext locked floorOk sink k (ws_head s) = (r0, k', ws_head s')"
proof -
  show "r = Inr False \<Longrightarrow> locked \<and> SealedChunksSnapshot (hs_mem (ws_head s)) = [] \<and> s' = s"
    using assms by (auto simp: flushBlock_def FlushBlockContext_def Let_def split: if_splits prod.splits sum.splits bool.splits)
  show "r = Inr True \<Longrightarrow> FlushBlockContext locked floorOk sink k (ws_head s) = (Inr True, k', ws_head s')"
    using assms by (auto simp: flushBlock_def Let_def split: if_splits prod.splits sum.splits bool.splits)
  show "\<exists>r0. FlushBlockContext locked floorOk sink k (ws_head s) = (r0, k', ws_head s')"
    using assms by (auto simp: flushBlock_def Let_def split: if_splits prod.splits sum.splits bool.splits)
  assume ok: "locked" "floorOk" "ckOk" "delOk" and ack: "\<And>k b. fst (sink k b)"
  obtain k1 where "flush_batches sink k (hs_mem (ws_head s)) False
      (BatchSeriesChunks (SealedChunksSnapshot (hs_mem (ws_head s))) (hs_batchBytes (ws_head s)))
    = ((True, False \<or> BatchSeriesChunks (SealedChunksSnapshot (hs_mem (ws_head s))) (hs_batchBytes (ws_head s)) \<noteq> []), k1,
       foldl (\<lambda>m b. DiscardSealedChunks b m) (hs_mem (ws_head s)) (BatchSeriesChunks (SealedChunksSnapshot (hs_mem (ws_head s))) (hs_batchBytes (ws_head s))))"
    using flush_batches_acked [where sink = sink, OF ack] by blast
  then show "\<exists>w. r = Inr w" using assms ok by (auto simp: flushBlock_def FlushBlockContext_def Let_def split: if_splits)
qed

lemma drain_loop_result:
  assumes inv: "mem_inv (hs_mem (ws_head s))" and sealed: "\<forall>(p, sid, c) \<in> set (chunk_list (st_series (hs_mem (ws_head s)))). Sealed c"
  shows "\<exists>e k' s'. drain_loop locked floorOk ckOk delOk sink k s = Some (e, k', s') \<and> e \<noteq> Some ErrDrainIncomplete
    \<and> (e = None \<longrightarrow> (\<forall>(sid, ms) \<in> set (st_series (hs_mem (ws_head s'))). ms_chunks ms = []))
    \<and> (locked \<and> floorOk \<and> ckOk \<and> delOk \<and> (\<forall>k b. fst (sink k b)) \<longrightarrow> e = None)"
proof -
  let ?m = "\<lambda>s. hs_mem (ws_head s)"
  have empty: "drain_loop locked floorOk ckOk delOk sink k s = Some (None, k, s) \<and> (\<forall>(sid, ms) \<in> set (st_series (?m s)). ms_chunks ms = [])"
    if inv: "mem_inv (?m s)" and e: "chunk_list (st_series (?m s)) = []" for k and s :: WALStore
  proof -
    have "\<not> SealedChunkCount (?m s) > 0" using e by (simp add: sealed_count_none)
    then show ?thesis using no_chunks [OF inv e] by (simp add: drain_loop.simps)
  qed
  show ?thesis
  proof (cases "SealedChunkCount (?m s) > 0")
    case False
    then have "chunk_list (st_series (?m s)) = []"
      using sealed by (cases "chunk_list (st_series (?m s))") (auto simp: sealed_count_none)
    from empty [OF inv this] show ?thesis by blast
  next
    case True
    obtain r k1 s1 where f: "flushBlock locked floorOk ckOk delOk sink k s = (r, k1, s1)" by (metis prod_cases3)
    note F = flushBlock_split [OF f]
    have notF: "r \<noteq> Inr False" using F(1) True sealed_count_snapshot by blast
    show ?thesis
    proof (cases r)
      case (Inl e)
      have "drain_loop locked floorOk ckOk delOk sink k s = Some (Some (DrainFlush e), k1, s1)"
        using True f Inl by (simp add: drain_loop.simps)
      moreover have "\<not> (locked \<and> floorOk \<and> ckOk \<and> delOk \<and> (\<forall>k b. fst (sink k b)))" using F(3) Inl by blast
      ultimately show ?thesis by blast
    next
      case (Inr w)
      then have w: "r = Inr True" using notF by (cases w) auto
      have inv1: "mem_inv (?m s1)" by (rule FlushBlockContext_inv [OF inv F(2) [OF w]])
      have "chunk_list (st_series (?m s1)) = []"
        using flush_takes_sealed [OF inv F(2) [OF w]] sealed by (cases "chunk_list (st_series (?m s1))") fastforce+
      note E = empty [OF inv1 this, of k1]
      have "drain_loop locked floorOk ckOk delOk sink k s = Some (None, k1, s1)"
        using True f w E by (subst drain_loop.simps) simp
      then show ?thesis using E by blast
    qed
  qed
qed

text \<open>
  C10: a drain ends, and ends right. With nothing appended meanwhile, and for any sink and any failure of
  the lock, the floor file, the checkpoint file or the segment deletion, \<^verbatim>\<open>Drain\<close> returns; it never reports an
  incomplete drain; when it reports success no chunk, open or sealed, is left in the head; and it does
  report success when nothing fails.
\<close>

theorem Drain_terminates_empty:
  assumes "store_step\<^sup>*\<^sup>* NewMemoryStore (hs_mem (ws_head s))"
  shows "\<exists>e k' s'. Drain locked floorOk ckOk delOk sink k s = Some (e, k', s') \<and> e \<noteq> Some ErrDrainIncomplete
    \<and> (e = None \<longrightarrow> (\<forall>(sid, ms) \<in> set (st_series (hs_mem (ws_head s'))). ms_chunks ms = []))
    \<and> (locked \<and> floorOk \<and> ckOk \<and> delOk \<and> (\<forall>k b. fst (sink k b)) \<longrightarrow> e = None)"
proof -
  have inv: "mem_inv (hs_mem (ws_head s))" using store_steps_inv [OF assms mem_inv_new] .
  let ?s = "s\<lparr>ws_head := (ws_head s)\<lparr>hs_mem := snd (SealHeadChunks (hs_mem (ws_head s)))\<rparr>\<rparr>"
  have "mem_inv (hs_mem (ws_head ?s))" using mem_inv_seal [OF inv] by simp
  moreover have "\<forall>(p, sid, c) \<in> set (chunk_list (st_series (hs_mem (ws_head ?s)))). Sealed c" using seal_all [OF inv] by simp
  ultimately show ?thesis unfolding Drain_def by (rule drain_loop_result)
qed

section \<open>Witnesses\<close>

definition demo_wal :: WALStore where
  "demo_wal = \<lparr>ws_head = \<lparr>hs_mem = demo_head, hs_floor = None, hs_batchBytes = 1000\<rparr>,
     ws_wal = fst (OpenDir no_faults [] 100 1), ws_checkpoint = None\<rparr>"

theorem Drain_terminates_empty_witness:
  "\<exists>k' s'. Drain True True True True (\<lambda>k b. (True, k + 1)) (0::nat) demo_wal = Some (None, k', s')
     \<and> (\<forall>(sid, ms) \<in> set (st_series (hs_mem (ws_head s'))). ms_chunks ms = [])"
  using Drain_terminates_empty [of demo_wal True True True True "\<lambda>k b. (True, k + 1)" "0::nat"] demo_head_reachable
  by (auto simp: demo_wal_def)

definition demo_run :: wal_state where
  "demo_run = (case WALAppend no_faults 5 demo_labels 10 7 (wt_head (wal_init 100 1 1), wt_wal (wal_init 100 1 1)) of
     (_, h, w) \<Rightarrow> (wal_init 100 1 1)\<lparr>wt_head := h, wt_wal := w, wt_acc := [(demo_labels, 10, 7, 5)]\<rparr>)"

lemma demo_pairs: "l_pairs demo_labels = [(''__name__'', ''up''), (''job'', ''node'')]"
  by code_simp

lemma demo_universe: "universe_ok {demo_labels}"
proof -
  have "validateMetricName (l_pairs demo_labels) = None" "validateLabelMap (l_pairs demo_labels) True = None"
    unfolding demo_pairs by (simp_all add: validateMetricName_def metric_name_re_def validateLabelMap_def validateLabel_def
      has_prefix_def label_name_re_def is_lower_def is_upper_def is_alnum_def is_digit_def in_range_def)
  moreover have "build (l_pairs demo_labels) = demo_labels" unfolding demo_pairs by (rule demo_labels_def [symmetric])
  ultimately have "NewStoredLabels (l_pairs demo_labels) = Inr demo_labels" by (simp add: NewStoredLabels_def NewStored_def)
  then show ?thesis by (simp add: universe_ok_def demo_labels_ok)
qed


lemma demo_run_step: "wal_step {demo_labels} 1000 (wal_init 100 1 1) demo_run"
proof -
  let ?h = "wt_head (wal_init 100 1 1)" and ?w = "wt_wal (wal_init 100 1 1)" and ?r = "(l_pairs demo_labels, 10, 7, 5)"
  obtain h w e where r: "WALAppend no_faults 5 demo_labels 10 7 (?h, ?w) = (e, h, w)" by (metis prod_cases3)
  have inv: "mem_inv ?h" using wal_invD(1) [OF wal_inv_init] .
  have res: "ReserveGeneration 5 ?h = Inr (5, ?h\<lparr>st_nextGen := 6\<rparr>)"
    by (simp add: wal_init_def ReserveGeneration_def nextGenerationLocked_def EnsureGenFloor_def NewMemoryStore_def smax_def
      MaxGeneration_def word_sless_alt)
  note R = reserve_facts [OF inv res]
  have nc: "no_collision demo_labels (?h\<lparr>st_nextGen := 6\<rparr>)"
    by (simp add: no_collision_def wal_init_def EnsureGenFloor_def NewMemoryStore_def)
  have st: "settle_generation 5 5 (?h\<lparr>st_nextGen := 6\<rparr>) = Inr (5, ?h\<lparr>st_nextGen := 6\<rparr>)"
    by (simp add: settle_generation_def MaxGeneration_def word_sless_alt word_sle_eq)
  have A: "fst (AppendTrackedGen 5 demo_labels 10 7 5 seg (?h\<lparr>st_nextGen := 6\<rparr>)) = None" for seg
    unfolding AppendTrackedGen_def by (rule holds_of_append(1) [OF R(1) demo_labels_ok(1) nc _ st]) (simp add: word_sless_alt)
  have "recOk ?r" by (simp add: recOk_def demo_pairs validateLabels_def)
  have "seg_rep recBody ?w [] []"
    using OpenDir_rep [of 100 1 ?w None recBody] by (simp add: wal_init_def OpenDir_def openSegment_def no_faults_def maxIndex_def Let_def)
  then obtain w1 where "WriteRecordGen no_faults ?r ?w = (w1, None)"
    using writeData_rep [of recBody ?w "[]" "[]" ?r] WriteRecordGen_writeData [OF \<open>recOk ?r\<close>, of ?w no_faults] by (auto simp: seg_rep_def)
  then have "fst (WALAppend no_faults 5 demo_labels 10 7 (?h, ?w)) = None"
    using A by (simp add: WALAppend_def res write_then_append_def Let_def labelsToWALPairs_eq demo_labels_ok case_prod_beta)
  then have "e = None" using r by simp
  moreover have "5 = smax (NextGeneration ?h) 5" using res
    by (simp add: ReserveGeneration_def nextGenerationLocked_def NextGeneration_def Let_def split: if_splits)
  ultimately have "wal_step {demo_labels} 1000 (wal_init 100 1 1)
      ((wal_init 100 1 1)\<lparr>wt_head := h, wt_wal := w, wt_acc := (demo_labels, 10, 7, 5) # wt_acc (wal_init 100 1 1)\<rparr>)"
    using r by (intro ws_append) auto
  moreover have "wt_acc (wal_init 100 1 1) = []" by (simp add: wal_init_def)
  ultimately show ?thesis by (simp add: demo_run_def r)
qed

theorem no_accepted_write_lost_witness:
  "\<lparr>sm_id = Hash demo_labels, sm_ts = 10, sm_val = 7, sm_gen = 5\<rparr>
     \<in> set (held (holds_of (wt_head demo_run)) (Hash demo_labels)) \<union> set (wt_sent demo_run)"
proof -
  have s: "(wal_step {demo_labels} 1000)\<^sup>*\<^sup>* (wal_init 100 1 1) demo_run" using demo_run_step by (rule r_into_rtranclp)
  have "(demo_labels, 10, 7, 5) \<in> set (wt_acc demo_run)" by (simp add: demo_run_def case_prod_beta)
  then show ?thesis using no_accepted_write_lost [OF demo_universe s] by fast
qed

end
