(* ===== verification/LogWal.thy ===== *)
theory LogWal
  imports Wal
begin

text \<open>
  The log WAL (\<^verbatim>\<open>internal/storage/logwal\<close>): the record codec with the log line, the writer with
  its closed state and its checkpoint, numeric ordering of the segments and replay. The label
  section of a record is encoded as in the metrics WAL, so its codec is shared with \<^verbatim>\<open>Wal\<close>.
\<close>

section \<open>Records\<close>

definition recordTypeLog :: u8 where "recordTypeLog = 1"

definition log_maxRecordBodyBytes :: nat where
  "log_maxRecordBodyBytes = 255 * (1 + 255 + 2 + 65535) + 2 + 8 + 4 + 256 * 1024"

type_synonym log_record = "label list \<times> i64 \<times> string"

definition log_body :: "log_record \<Rightarrow> bytes" where
  "log_body r = (case r of (ls, tsNs, line) \<Rightarrow>
     [recordTypeLog, of_nat (length ls)] @ encodeLabels ls @ put_u64 tsNs
       @ put_u32 (of_nat (length line)) @ str_bytes line)"

definition log_encodeRecord :: "log_record \<Rightarrow> bytes" where
  "log_encodeRecord r = frame (log_body r)"

definition log_decodeRecord :: "bytes \<Rightarrow> log_record option" where
  "log_decodeRecord b =
     (if length b < 2 then None
      else if b ! 0 \<noteq> recordTypeLog then None
      else
        case decodeLabels (unat (b ! 1)) (drop 2 b) of None \<Rightarrow> None
        | Some (ls, t) \<Rightarrow>
          if length t < 12 then None
          else
            let tsNs = get_be (take 8 t); lineLen = unat (get_be (take 4 (drop 8 t)) :: u32)
            in if length (drop 12 t) \<noteq> lineLen then None
               else Some (ls, tsNs, bytes_str (drop 12 t)))"

section \<open>Writer\<close>

definition log_WriteRecord :: "wfaults \<Rightarrow> log_record \<Rightarrow> SegWriter \<Rightarrow> SegWriter \<times> werror option" where
  "log_WriteRecord ft r w =
     (if \<not> sw_open w then (w, Some WClosed)
      else if sw_broken w then (w, Some WBroken)
      else if \<not> validateLabels (fst r) then (w, Some WLabels)
      else writeData ft (log_encodeRecord r) w)"

definition log_Sync :: "bool \<Rightarrow> SegWriter \<Rightarrow> SegWriter \<times> werror option" where
  "log_Sync fault w = (if \<not> sw_open w then (w, Some WClosed) else Sync fault w)"

text \<open>\<^verbatim>\<open>Close\<close> syncs and closes; the handle is dropped even when the sync fails.\<close>

definition log_Close :: "bool \<Rightarrow> SegWriter \<Rightarrow> SegWriter \<times> werror option" where
  "log_Close fault w =
     (if \<not> sw_open w then (w, None)
      else if fault then (w\<lparr>sw_open := False\<rparr>, Some WSync)
      else ((cur_sync w)\<lparr>sw_open := False\<rparr>, None))"


section \<open>Replay\<close>

definition log_segmentPaths :: "(string \<times> bytes) list \<Rightarrow> (string \<times> bytes) list" where
  "log_segmentPaths entries =
     sort_key (\<lambda>(name, _). the (Atoi (trim_wal name)))
       (filter (\<lambda>(name, _). has_suffix name ''.wal'' \<and> Atoi (trim_wal name) \<noteq> None) entries)"

definition log_Replay :: "(string \<times> bytes) list \<Rightarrow> log_record list \<times> bytes list \<times> replay_error option" where
  "log_Replay entries =
     replay_files log_decodeRecord log_maxRecordBodyBytes (map snd (log_segmentPaths entries))"

section \<open>The codec satisfies the framing interface\<close>

definition logOk :: "log_record \<Rightarrow> bool" where
  "logOk r \<longleftrightarrow> validateLabels (fst r) \<and> length (snd (snd r)) \<le> MaxLineBytes"

lemma log_decode_body:
  assumes "logOk r"
  shows "log_decodeRecord (log_body r) = Some r"
proof -
  obtain ls ts line where r: "r = (ls, ts, line)" by (cases r)
  have v: "list_all (\<lambda>(n, v). length n \<le> 255 \<and> length v \<le> 65535) ls"
    "unat (of_nat (length ls) :: u8) = length ls" "unat (of_nat (length line) :: u32) = length line"
    using assms by (auto simp: logOk_def r validateLabels_def MaxLineBytes_def intro!: unat_of_nat_small)
  show ?thesis using v decodeLabels_encode [OF v(1)]
    by (simp add: log_decodeRecord_def log_body_def r Let_def)
qed

interpretation logwal: framed_log log_body log_decodeRecord log_maxRecordBodyBytes logOk
proof unfold_locales
  fix r assume ok: "logOk r"
  then show "log_decodeRecord (log_body r) = Some r" by (rule log_decode_body)
  obtain ls ts line where r: "r = (ls, ts, line)" by (cases r)
  have "length (encodeLabels ls) \<le> length ls * 65793" "length ls \<le> 255" "length line \<le> 262144"
    using ok length_encodeLabels [of ls] by (auto simp: logOk_def r validateLabels_def MaxLineBytes_def)
  then show "0 < length (log_body r) \<and> length (log_body r) \<le> log_maxRecordBodyBytes"
    by (simp add: log_body_def r log_maxRecordBodyBytes_def)
qed (simp add: log_maxRecordBodyBytes_def)

lemma log_segmentPaths_ascending:
  assumes "ascending idxs" "\<forall>i \<in> set idxs. i < 2 ^ 63" "length files = length idxs"
    and "mset entries = mset (zip (map segmentName idxs) files)"
  shows "log_Replay entries = replay_files log_decodeRecord log_maxRecordBodyBytes files"
proof -
  let ?es = "zip (map segmentName idxs) files" and ?key = "\<lambda>(name, _ :: bytes). the (Atoi (trim_wal name))"
  have suf: "has_suffix (segmentName i) ''.wal'' \<and> Atoi (trim_wal (segmentName i)) = Some (int i)"
    if "i \<in> set idxs" for i using that assms(2) by (intro Atoi_segmentName) blast
  have "map ?key ?es = map int idxs"
    using assms(3) suf by (intro nth_equalityI) auto
  moreover have "ascending (map int idxs)" using assms(1) by (simp add: sorted_wrt_map)
  ultimately have asc: "ascending (map ?key ?es)" by simp
  have me: "set entries = set ?es" using assms(4) by (metis set_mset_mset)
  have "has_suffix (fst e) ''.wal'' \<and> Atoi (trim_wal (fst e)) \<noteq> None" if "e \<in> set ?es" for e
    using that suf by (auto simp: set_zip)
  then have "log_segmentPaths entries = sort_key ?key entries"
    unfolding log_segmentPaths_def
    by (intro arg_cong [of _ _ "sort_key ?key"] filter_True) (use me in \<open>auto simp: case_prod_beta\<close>)
  also have "\<dots> = ?es"
  proof (rule map_sorted_distinct_set_unique [where f = ?key])
    have d: "distinct (map ?key ?es)" using asc by (simp add: strict_sorted_iff)
    then show "distinct (map ?key ?es)" .
    have "mset (map ?key (sort_key ?key entries)) = mset (map ?key ?es)" by (simp only: mset_map mset_sort assms(4))
    then show "distinct (map ?key (sort_key ?key entries))" using d by (metis mset_eq_imp_distinct_iff)
    show "sorted (map ?key ?es)" using asc by (simp add: strict_sorted_iff)
    show "set (sort_key ?key entries) = set ?es" using me by simp
    then show "inj_on ?key (set (sort_key ?key entries) \<union> set ?es)" using d by (simp add: distinct_map)
  qed simp
  finally show ?thesis using assms(3) by (simp add: log_Replay_def)
qed

section \<open>Properties\<close>

text \<open>
  C16: one step of the log WAL under a crash. From any failure-free writer state (completed
  segments \<^verbatim>\<open>rss\<close>, current segment \<^verbatim>\<open>rs\<close>) a valid record is written without an I/O error, the host crashes and the
  directory is replayed, in numeric segment order whatever the number of digits (below \<^verbatim>\<open>2 ^ 63\<close>): a prefix of
  what was written comes back, missing at most the unsynced records. Replay succeeds exactly unless the
  last segment was cut right after a length prefix, in which case it reports an error and repairs nothing; when it succeeds,
  replaying the repaired directory again behind a newer segment gives the same records.
\<close>

theorem log_wal_crash_recovery:
  assumes "seg_rep log_body w rss rs" "\<forall>r \<in> set (concat rss @ rs @ [r]). logOk r"
    and "log_WriteRecord no_faults r w = (w', e)"
    and "crashed (sw_dir w') files" "mset entries = mset (zip (map (segmentName \<circ> fst) (sw_dir w')) files)"
    and "sw_segIndex w' < 2 ^ 63"
  shows "e = None \<and> (\<exists>cs j files'. f_data (snd (last (sw_dir w'))) = frames log_body cs
      \<and> log_Replay entries = (take j (concat rss @ rs @ [r]), files',
          if bad_cut log_body cs (length (last files)) then Some ErrReadBody else None)
      \<and> length (concat rss @ rs @ [r]) \<le> j + sw_sinceSynced w'
      \<and> (if bad_cut log_body cs (length (last files)) then files' = files
         else replay_files log_decodeRecord log_maxRecordBodyBytes (files' @ [[]]) =
          (take j (concat rss @ rs @ [r]), files' @ [[]], None)))"
proof -
  obtain w1 rss1 rs1 where W: "writeData no_faults (frame (log_body r)) w = (w1, None)"
      "seg_rep log_body w1 rss1 rs1" "concat rss1 @ rs1 = concat rss @ rs @ [r]"
    using writeData_rep [OF assms(1)] by blast
  have "log_WriteRecord no_faults r w = (w1, None)"
    using assms(1,2) W(1) by (simp add: log_WriteRecord_def seg_rep_def log_encodeRecord_def logOk_def)
  then have w': "w' = w1" "e = None" using assms(3) by simp_all
  obtain full cur where D: "sw_dir w1 = full @ [(sw_segIndex w1, cur)]" "ascending (map fst full @ [sw_segIndex w1])"
      "f_data cur = frames log_body rs1" using W(2) by (auto simp: seg_rep_def)
  have "\<forall>i \<in> set (map fst (sw_dir w1)). i < 2 ^ 63"
    using D(1,2) assms(6) w' by (auto simp: sorted_wrt_append)
  then have "log_Replay entries = replay_files log_decodeRecord log_maxRecordBodyBytes files"
    using D(1,2) assms(5) list_all2_lengthD [OF assms(4) [unfolded crashed_def]] w'
    by (intro log_segmentPaths_ascending [of "map fst (sw_dir w1)"]) auto
  moreover note logwal.crash_recovery_any [OF W(2), of files]
  moreover have "\<forall>r \<in> set (concat rss1 @ rs1). logOk r" using assms(2) by (auto simp: W(3))
  ultimately show ?thesis using assms(4) w' D(1,3) unfolding W(3) by (intro conjI exI [of _ rs1]) auto
qed


theorem log_wal_crash_recovery_witness:
  "\<exists>w files files'. log_WriteRecord no_faults ([], 1, ''x'') (fst (OpenDir no_faults [] 1000 1)) = (w, None)
     \<and> crashed (sw_dir w) files \<and> log_Replay (zip [segmentName 1] files) = ([([], 1, ''x'')], files', None)"
proof -
  let ?op = "fst (OpenDir no_faults [] 1000 1)"
  let ?w = "fst (log_WriteRecord no_faults ([], 1, ''x'') ?op)"
  let ?bs = "frame (log_body ([], 1, ''x''))"
  have D: "sw_dir ?w = [(1, \<lparr>f_data = ?bs, f_synced = 19\<rparr>)] \<and> sw_segIndex ?w = 1 \<and> length ?bs = 19
      \<and> sw_sinceSynced ?w = 0" by code_simp
  have nb: "log_body r \<noteq> []" for r by (cases r) (simp add: log_body_def)
  have c: "crashed (sw_dir ?w) [?bs]"
    using D by (auto simp: crashed_def simp del: length_frame intro!: exI [of _ 19])
  have r: "seg_rep log_body ?op [] []"
    using OpenDir_rep [of 1000 1 ?op "snd (OpenDir no_faults [] 1000 1)" log_body] by simp
  let ?rs = "concat [] @ [] @ [([], 1, ''x'')] :: log_record list"
  have ok: "\<forall>r \<in> set ?rs. logOk r" by (simp add: logOk_def validateLabels_def MaxLineBytes_def)
  have wr: "log_WriteRecord no_faults ([], 1, ''x'') ?op = (?w, snd (log_WriteRecord no_faults ([], 1, ''x'') ?op))" by simp
  have ent: "mset (zip [segmentName 1] [?bs]) = mset (zip (map (segmentName \<circ> fst) (sw_dir ?w)) [?bs])" by (simp add: D)
  have idx: "sw_segIndex ?w < 2 ^ 63" by (simp add: D)
  obtain cs j files' where J': "snd (log_WriteRecord no_faults ([], 1, ''x'') ?op) = None"
    "f_data (snd (last (sw_dir ?w))) = frames log_body cs"
    "log_Replay (zip [segmentName 1] [?bs]) = (take j ?rs, files', if bad_cut log_body cs (length (last [?bs])) then Some ErrReadBody else None)"
    "length ?rs \<le> j + sw_sinceSynced ?w"
    using log_wal_crash_recovery [OF r ok wr c ent idx] by blast
  then have J: "snd (log_WriteRecord no_faults ([], 1, ''x'') ?op) = None"
    "f_data (snd (last (sw_dir ?w))) = frames log_body cs"
    "log_Replay (zip [segmentName 1] [?bs]) = (take j [([], 1, ''x'')], files',
        if bad_cut log_body cs (length (last [?bs])) then Some ErrReadBody else None)" "1 \<le> j"
    using D by simp_all
  have "length (last [?bs]) = length (frames log_body cs)" using J(2) D by simp
  then have "\<not> bad_cut log_body cs (length (last [?bs]))" using bad_cut_whole [of log_body cs, OF nb] by metis
  then have "snd (log_WriteRecord no_faults ([], 1, ''x'') ?op) = None"
    "log_Replay (zip [segmentName 1] [?bs]) = (take j [([], 1, ''x'')], files', None)" "1 \<le> j" using J(1,3,4) by simp_all
  then have "log_WriteRecord no_faults ([], 1, ''x'') ?op = (?w, None)"
    "log_Replay (zip [segmentName 1] [?bs]) = ([([], 1, ''x'')], files', None)" by (auto simp: prod_eq_iff)
  with c show ?thesis by blast
qed


end
