(* ===== verification/LogChunk.thy ===== *)
theory LogChunk
  imports Prelude
begin

text \<open>
  The log chunk of \<^verbatim>\<open>internal/storage/logchunk/logchunk.go\<close>: an entry block of timestamps and lines, a
  header authenticated by a CRC of its own, and the DEFLATE-compressed block. \<^verbatim>\<open>compress/flate\<close> is a
  parameter: \<^verbatim>\<open>deflate\<close> is what its writer emits for a block, \<^verbatim>\<open>inflate\<close> the bytes its reader yields and
  whether the stream then ends with no error other than \<^verbatim>\<open>io.EOF\<close>. The CRC is defined here.
\<close>

section \<open>CRC-32/Castagnoli (hash/crc32)\<close>

definition crc_bit :: "u32 \<Rightarrow> u32" where
  "crc_bit c = (if bit c 0 then drop_bit 1 c XOR 0x82F63B78 else drop_bit 1 c)"

definition crc_byte :: "u32 \<Rightarrow> u8 \<Rightarrow> u32" where
  "crc_byte c b = (crc_bit ^^ 8) (c XOR ucast b)"

definition Checksum :: "bytes \<Rightarrow> u32" where
  "Checksum bs = NOT (foldl crc_byte (NOT 0) bs)"

section \<open>Chunks\<close>

record log_chunk =
  lc_minTs :: i64
  lc_maxTs :: i64
  lc_lastTs :: i64
  lc_entries :: "(i64 \<times> string) list"
  lc_uncompressed :: nat

definition NewLogChunk :: log_chunk where
  "NewLogChunk = \<lparr>lc_minTs = 0, lc_maxTs = 0, lc_lastTs = 0, lc_entries = [], lc_uncompressed = 0\<rparr>"

definition lc_Append :: "log_chunk \<Rightarrow> i64 \<times> string \<Rightarrow> log_chunk" where
  "lc_Append c e =
     (let (ts, line) = e;
          (d, mn, mx) =
            (if lc_entries c = [] then (ts, ts, ts)
             else (ts - lc_lastTs c, if ts <s lc_minTs c then ts else lc_minTs c, if lc_maxTs c <s ts then ts else lc_maxTs c))
      in \<lparr>lc_minTs = mn, lc_maxTs = mx, lc_lastTs = ts, lc_entries = lc_entries c @ [e],
          lc_uncompressed = lc_uncompressed c + length (put_varint d) + length (put_uvarint (of_nat (length line))) + length line\<rparr>)"

fun encode_loop :: "nat \<Rightarrow> i64 \<Rightarrow> (i64 \<times> string) list \<Rightarrow> bytes" where
  "encode_loop i prev [] = []"
| "encode_loop i prev ((ts, line) # es) =
     put_varint (if i = 0 then ts else ts - prev) @ put_uvarint (of_nat (length line)) @ str_bytes line
       @ encode_loop (i + 1) ts es"

definition encodeEntries :: "log_chunk \<Rightarrow> bytes" where
  "encodeEntries c = encode_loop 0 0 (lc_entries c)"

definition lc_magic :: bytes where "lc_magic = [0x9C, 0x4C, 0x43, 0x01]"
definition lc_version :: u8 where "lc_version = 2"
definition lc_headerLen :: nat where "lc_headerLen = 41"
definition lc_headerCRCScope :: nat where "lc_headerCRCScope = 33"
definition MaxUncompressedBytes :: nat where "MaxUncompressedBytes = 128 * 2 ^ 20"

definition lc_Bytes :: "(bytes \<Rightarrow> bytes) \<Rightarrow> log_chunk \<Rightarrow> bytes" where
  "lc_Bytes deflate c =
     (let block = encodeEntries c;
          compressed = deflate block;
          scope = lc_magic @ [lc_version] @ put_u64 (lc_minTs c) @ put_u64 (lc_maxTs c) @ put_u32 (of_nat (length (lc_entries c)))
            @ put_u32 (of_nat (length block)) @ put_u32 (of_nat (length compressed))
      in scope @ put_u32 (Checksum scope) @ put_u32 (Checksum compressed) @ compressed)"

datatype lc_error =
    LcFormat | LcVersion u8 | LcHeaderChecksum | LcTooLarge u32 | LcLength u32 | LcPayloadChecksum | LcDecompress | LcPayload
  | LcTimestamp nat | LcLineLength nat | LcLine nat | LcTrailing nat | LcBounds

definition sub_bytes :: "nat \<Rightarrow> nat \<Rightarrow> bytes \<Rightarrow> bytes" where
  "sub_bytes a b data = take (b - a) (drop a data)"

text \<open>The checks \<^verbatim>\<open>PeekBounds\<close> and \<^verbatim>\<open>FromBytes\<close> both start with.\<close>

definition check_header :: "bytes \<Rightarrow> lc_error option" where
  "check_header data =
     (if length data < lc_headerLen \<or> take 4 data \<noteq> lc_magic then Some LcFormat
      else if data ! 4 \<noteq> lc_version then Some (LcVersion (data ! 4))
      else if Checksum (take lc_headerCRCScope data) \<noteq> get_be (sub_bytes 33 37 data) then Some LcHeaderChecksum
      else None)"

definition PeekBounds :: "bytes \<Rightarrow> lc_error + i64 \<times> i64 \<times> nat \<times> nat" where
  "PeekBounds data =
     (case check_header data of
        Some e \<Rightarrow> Inl e
      | None \<Rightarrow> Inr (get_be (sub_bytes 5 13 data), get_be (sub_bytes 13 21 data),
          unat (get_be (sub_bytes 21 25 data) :: u32), unat (get_be (sub_bytes 29 33 data) :: u32)))"

fun decode_loop :: "nat \<Rightarrow> nat \<Rightarrow> i64 \<Rightarrow> log_chunk \<Rightarrow> bytes \<Rightarrow> lc_error + log_chunk \<times> bytes" where
  "decode_loop i 0 prev c b = Inr (c, b)"
| "decode_loop i (Suc n) prev c b =
     (case get_varint b of
        None \<Rightarrow> Inl (LcTimestamp i)
      | Some (d, m) \<Rightarrow>
        case get_uvarint (drop m b) of
          None \<Rightarrow> Inl (LcLineLength i)
        | Some (ll, m2) \<Rightarrow>
          let ts = (if i \<noteq> 0 then prev + d else d);
              b2 = drop m2 (drop m b)
          in if unat ll > length b2 then Inl (LcLine i)
             else decode_loop (i + 1) n ts (lc_Append c (ts, bytes_str (take (unat ll) b2))) (drop (unat ll) b2))"

definition decodeEntries :: "bytes \<Rightarrow> u32 \<Rightarrow> lc_error + log_chunk" where
  "decodeEntries block n =
     (case decode_loop 0 (unat n) 0 NewLogChunk block of
        Inl e \<Rightarrow> Inl e
      | Inr (c, rest) \<Rightarrow> if rest \<noteq> [] then Inl (LcTrailing (length rest)) else Inr c)"

definition lc_FromBytes :: "(bytes \<Rightarrow> bytes \<times> bool) \<Rightarrow> bytes \<Rightarrow> lc_error + log_chunk" where
  "lc_FromBytes inflate data =
     (case check_header data of
        Some e \<Rightarrow> Inl e
      | None \<Rightarrow>
        let uncompLen = get_be (sub_bytes 25 29 data) :: u32;
            compLen = get_be (sub_bytes 29 33 data) :: u32;
            payloadCRC = get_be (sub_bytes 37 41 data)
        in if unat uncompLen > MaxUncompressedBytes then Inl (LcTooLarge uncompLen)
           else if lc_headerLen + unat compLen \<noteq> length data then Inl (LcLength compLen)
           else
             let compressed = drop lc_headerLen data in
             if Checksum compressed \<noteq> payloadCRC then Inl LcPayloadChecksum
             else
               let (out, eof) = inflate compressed in
               if length out < unat uncompLen then Inl LcDecompress
               else if length out > unat uncompLen \<or> \<not> eof then Inl LcPayload
               else
                 case decodeEntries out (get_be (sub_bytes 21 25 data)) of
                   Inl e \<Rightarrow> Inl e
                 | Inr c \<Rightarrow>
                   if lc_minTs c \<noteq> get_be (sub_bytes 5 13 data) \<or> lc_maxTs c \<noteq> get_be (sub_bytes 13 21 data) then Inl LcBounds
                   else Inr c)"

text \<open>The check value of CRC-32/Castagnoli.\<close>

lemma crc_byte_steps:
  "crc_byte c b = crc_bit (crc_bit (crc_bit (crc_bit (crc_bit (crc_bit (crc_bit (crc_bit (c XOR ucast b))))))))"
  by (simp add: crc_byte_def eval_nat_numeral)

lemma Checksum_check: "Checksum (str_bytes ''123456789'') = 0xE3069283"
  by (simp add: Checksum_def str_bytes_def crc_byte_steps crc_bit_def)

section \<open>One corrupted byte changes the checksum\<close>

lemma xor_cancel: "a XOR k = b XOR k \<Longrightarrow> a = b" for a b :: "'a::len word"
proof -
  assume "a XOR k = b XOR k"
  then have "(a XOR k) XOR k = (b XOR k) XOR k" by (rule arg_cong)
  then show "a = b" by (simp add: xor.assoc)
qed

lemma crc_bit_inj: "inj crc_bit"
proof (rule injI)
  fix x y assume e: "crc_bit x = crc_bit y"
  have p: "bit (0x82F63B78 :: u32) 31" by code_simp
  have top: "bit (crc_bit z) 31 \<longleftrightarrow> bit z 0" for z
    using p by (auto simp: crc_bit_def bit_xor_iff bit_drop_bit_eq dest: bit_imp_le_length)
  have low: "bit x 0 \<longleftrightarrow> bit y 0" using top e by metis
  then have d: "drop_bit 1 x = drop_bit 1 y"
    using e xor_cancel by (auto simp: crc_bit_def low split: if_splits)
  show "x = y"
  proof (rule bit_word_eqI)
    fix n
    show "bit x n = bit y n"
    proof (cases n)
      case 0
      then show ?thesis using low by simp
    next
      case (Suc m)
      then show ?thesis using arg_cong [OF d, of "\<lambda>w. bit w m"] by (simp add: bit_drop_bit_eq)
    qed
  qed
qed

lemma crc_byte_inj: "crc_byte c b = crc_byte c' b \<Longrightarrow> c = c'" "crc_byte c b = crc_byte c b' \<Longrightarrow> b = b'"
proof -
  have i: "inj (crc_bit ^^ 8)" by (rule inj_fn [OF crc_bit_inj])
  show "c = c'" if "crc_byte c b = crc_byte c' b"
    by (rule xor_cancel [OF injD [OF i that [unfolded crc_byte_def]]])
  assume "crc_byte c b = crc_byte c b'"
  then have "c XOR ucast b = c XOR ucast b'" using injD [OF i] by (simp add: crc_byte_def)
  then have "(ucast b :: u32) XOR c = ucast b' XOR c" by (simp add: xor.commute)
  then have u: "(ucast b :: u32) = ucast b'" by (rule xor_cancel)
  have "ucast (ucast x :: u32) = x" for x :: u8 by (rule bit_word_eqI) (simp add: bit_simps)
  then show "b = b'" using u by metis
qed

lemma crc_fold_inj: "foldl crc_byte c bs = foldl crc_byte c' bs \<Longrightarrow> c = c'"
  by (induction bs arbitrary: c c') (auto dest: crc_byte_inj(1))

lemma Checksum_update:
  assumes "i < length bs" "b \<noteq> bs ! i"
  shows "Checksum (bs[i := b]) \<noteq> Checksum bs"
proof
  assume "Checksum (bs[i := b]) = Checksum bs"
  then have "foldl crc_byte (NOT 0) (take i bs @ b # drop (Suc i) bs) = foldl crc_byte (NOT 0) (take i bs @ bs ! i # drop (Suc i) bs)"
    using assms(1) by (simp add: Checksum_def upd_conv_take_nth_drop id_take_nth_drop [symmetric])
  then have "crc_byte (foldl crc_byte (NOT 0) (take i bs)) b = crc_byte (foldl crc_byte (NOT 0) (take i bs)) (bs ! i)"
    using crc_fold_inj by simp
  then show False using crc_byte_inj(2) assms(2) by blast
qed


section \<open>The entry block\<close>

definition lc_of :: "(i64 \<times> string) list \<Rightarrow> log_chunk" where
  "lc_of es = foldl lc_Append NewLogChunk es"

lemma lc_Append_entries: "lc_entries (lc_Append c e) = lc_entries c @ [e]"
  by (simp add: lc_Append_def Let_def split: prod.split)

lemma lc_of_snoc: "lc_of (es @ [e]) = lc_Append (lc_of es) e"
  by (simp add: lc_of_def)

lemma encode_loop_append:
  "encode_loop i prev (es @ fs) = encode_loop i prev es @ encode_loop (i + length es) (if es = [] then prev else fst (last es)) fs"
  by (induction i prev es rule: encode_loop.induct) auto

lemma lc_of_props:
  "lc_entries (lc_of es) = es" "lc_lastTs (lc_of es) = (if es = [] then 0 else fst (last es))"
  "lc_uncompressed (lc_of es) = length (encode_loop 0 0 es)"
proof (induction es rule: rev_induct)
  case Nil
  show "lc_entries (lc_of []) = []" "lc_lastTs (lc_of []) = (if [] = [] then 0 else fst (last ([] :: (i64 \<times> string) list)))"
    "lc_uncompressed (lc_of []) = length (encode_loop 0 0 [])"
    by (simp_all add: lc_of_def NewLogChunk_def)
next
  case (snoc e es)
  obtain ts line where e: "e = (ts, line)" by (cases e)
  show "lc_entries (lc_of (es @ [e])) = es @ [e]" by (simp add: lc_of_snoc lc_Append_entries snoc)
  show "lc_lastTs (lc_of (es @ [e])) = (if es @ [e] = [] then 0 else fst (last (es @ [e])))"
    by (simp add: lc_of_snoc lc_Append_def Let_def e)
  show "lc_uncompressed (lc_of (es @ [e])) = length (encode_loop 0 0 (es @ [e]))"
    using snoc by (simp add: lc_of_snoc lc_Append_def Let_def e encode_loop_append)
qed

lemma lc_of_bounds:
  "es \<noteq> [] \<Longrightarrow> lc_minTs (lc_of es) \<in> fst ` set es \<and> lc_maxTs (lc_of es) \<in> fst ` set es
    \<and> (\<forall>e \<in> set es. lc_minTs (lc_of es) \<le>s fst e \<and> fst e \<le>s lc_maxTs (lc_of es))"
proof (induction es rule: rev_induct)
  case (snoc e es)
  show ?case
  proof (cases "es = []")
    case True
    then show ?thesis by (simp add: lc_of_def lc_Append_def NewLogChunk_def Let_def word_sle_eq split: prod.split)
  next
    case False
    note IH = snoc.IH [OF False]
    have "lc_entries (lc_of es) \<noteq> []" using False by (simp add: lc_of_props)
    then have m: "lc_minTs (lc_of (es @ [e])) = (if fst e <s lc_minTs (lc_of es) then fst e else lc_minTs (lc_of es))"
      "lc_maxTs (lc_of (es @ [e])) = (if lc_maxTs (lc_of es) <s fst e then fst e else lc_maxTs (lc_of es))"
      by (simp_all add: lc_of_snoc lc_Append_def Let_def split: prod.split)
    show ?thesis using IH unfolding m by (auto simp: word_sle_eq word_sless_alt)
  qed
qed simp

lemma put_uvarint_nonempty: "0 < length (put_uvarint x)"
  by (subst put_uvarint.simps) simp

lemma two_more: "2 * n \<le> x \<Longrightarrow> 0 < a \<Longrightarrow> 0 < b \<Longrightarrow> 2 * Suc n \<le> a + (b + (l + x))" for a b l x n :: nat
  by simp

lemma encode_loop_size: "2 * length es \<le> length (encode_loop i prev es)"
  "(ts, line) \<in> set es \<Longrightarrow> length line < length (encode_loop i prev es)"
proof (induction i prev es rule: encode_loop.induct)
  case (2 i prev t l es)
  have p: "0 < length (put_varint x)" for x unfolding put_varint_def by (rule put_uvarint_nonempty)
  show "2 * length ((t, l) # es) \<le> length (encode_loop i prev ((t, l) # es))"
    using 2(1) p [of "if i = 0 then t else t - prev"] put_uvarint_nonempty [of "of_nat (length l)"]
    unfolding encode_loop.simps length_append length_Cons by (intro two_more)
  show "length line < length (encode_loop i prev ((t, l) # es))" if "(ts, line) \<in> set ((t, l) # es)"
  proof (cases "(ts, line) = (t, l)")
    case True
    then show ?thesis using p [of "if i = 0 then t else t - prev"]
      unfolding encode_loop.simps length_append length_str_bytes by simp
  next
    case False
    then show ?thesis using 2(2) that unfolding encode_loop.simps length_append by fastforce
  qed
qed simp_all

lemma decode_encode:
  "\<forall>(ts, line) \<in> set es. length line < 2 ^ 64 \<Longrightarrow>
    decode_loop i (length es) prev c (encode_loop i prev es @ rest) = Inr (foldl lc_Append c es, rest)"
proof (induction i prev es arbitrary: c rule: encode_loop.induct)
  case (2 i prev ts line es)
  have l: "unat (of_nat (length line) :: u64) = length line" using 2(2) by (simp add: unat_of_nat take_bit_nat_eq_self)
  have t: "(if i \<noteq> 0 then prev + (if i = 0 then ts else ts - prev) else if i = 0 then ts else ts - prev) = ts" by simp
  show ?case using 2 l t by (simp add: Let_def)
qed simp

lemma decode_loop_entries:
  "decode_loop i n prev c b = Inr (c', rest) \<Longrightarrow> \<exists>es. length es = n \<and> c' = foldl lc_Append c es"
proof (induction i n prev c b rule: decode_loop.induct)
  case (2 i n prev c b)
  then obtain ts line b' where "decode_loop (i + 1) n ts (lc_Append c (ts, line)) b' = Inr (c', rest)"
    "\<exists>es. length es = n \<and> c' = foldl lc_Append (lc_Append c (ts, line)) es"
    by (auto simp: Let_def split: option.splits if_splits)
  then obtain es where "length es = n" "c' = foldl lc_Append c ((ts, line) # es)" by auto
  then show ?case by (intro exI [of _ "(ts, line) # es"]) simp
qed simp


section \<open>The header\<close>

lemma sub_bytes_append: "a = length xs \<Longrightarrow> b = length xs + length ys \<Longrightarrow> sub_bytes a b (xs @ ys @ zs) = ys"
  by (simp add: sub_bytes_def)

lemma sub_bytes_take: "b \<le> n \<Longrightarrow> sub_bytes a b (take n data) = sub_bytes a b data"
  by (simp add: sub_bytes_def drop_take take_take min_def)

lemma check_header_take: "lc_headerLen \<le> length data \<Longrightarrow> check_header (take lc_headerLen data) = check_header data"
  by (simp add: check_header_def sub_bytes_take lc_headerLen_def lc_headerCRCScope_def min_def)

lemma PeekBounds_take:
  assumes "lc_headerLen \<le> length data"
  shows "PeekBounds (take lc_headerLen data) = PeekBounds data"
proof -
  have "sub_bytes a b (take lc_headerLen data) = sub_bytes a b data" if "b \<le> 41" for a b
    using that by (intro sub_bytes_take) (simp add: lc_headerLen_def)
  then show ?thesis unfolding PeekBounds_def check_header_take [OF assms] by (cases "check_header data") simp_all
qed

lemma lc_Bytes_fields:
  fixes deflate c
  defines "data \<equiv> lc_Bytes deflate c" and "block \<equiv> encodeEntries c"
  shows "check_header data = None" "length data = lc_headerLen + length (deflate block)"
    "sub_bytes 5 13 data = put_u64 (lc_minTs c)" "sub_bytes 13 21 data = put_u64 (lc_maxTs c)"
    "sub_bytes 21 25 data = put_u32 (of_nat (length (lc_entries c)))" "sub_bytes 25 29 data = put_u32 (of_nat (length block))"
    "sub_bytes 29 33 data = put_u32 (of_nat (length (deflate block)))" "sub_bytes 37 41 data = put_u32 (Checksum (deflate block))"
    "drop lc_headerLen data = deflate block"
proof -
  define A where "A = lc_magic @ [lc_version]"
  define B1 B2 B3 B4 B5 where "B1 = put_u64 (lc_minTs c)" and "B2 = put_u64 (lc_maxTs c)"
    and "B3 = put_u32 (of_nat (length (lc_entries c)))" and "B4 = put_u32 (of_nat (length block))"
    and "B5 = put_u32 (of_nat (length (deflate block)))"
  define S where "S = A @ B1 @ B2 @ B3 @ B4 @ B5"
  define H P where "H = put_u32 (Checksum S)" and "P = put_u32 (Checksum (deflate block))"
  have data: "data = A @ B1 @ B2 @ B3 @ B4 @ B5 @ H @ P @ deflate block"
    by (simp add: data_def lc_Bytes_def Let_def A_def B1_def B2_def B3_def B4_def B5_def S_def H_def P_def block_def)
  have len: "length A = 5" "length B1 = 8" "length B2 = 8" "length B3 = 4" "length B4 = 4" "length B5 = 4" "length H = 4" "length P = 4"
    by (simp_all add: A_def B1_def B2_def B3_def B4_def B5_def H_def P_def lc_magic_def)
  have S: "take 33 data = S" "sub_bytes 33 37 data = H" "take 4 data = lc_magic" "data ! 4 = lc_version"
    using len by (simp_all add: data S_def sub_bytes_def) (simp_all add: A_def lc_magic_def)
  show "check_header data = None"
    using S len by (simp add: check_header_def lc_headerLen_def lc_headerCRCScope_def H_def) (simp add: data H_def)
  show "length data = lc_headerLen + length (deflate block)" using len by (simp add: data lc_headerLen_def)
  show "sub_bytes 5 13 data = put_u64 (lc_minTs c)" "sub_bytes 13 21 data = put_u64 (lc_maxTs c)"
    "sub_bytes 21 25 data = put_u32 (of_nat (length (lc_entries c)))" "sub_bytes 25 29 data = put_u32 (of_nat (length block))"
    "sub_bytes 29 33 data = put_u32 (of_nat (length (deflate block)))" "sub_bytes 37 41 data = put_u32 (Checksum (deflate block))"
    "drop lc_headerLen data = deflate block"
    using len by (simp_all add: data sub_bytes_def lc_headerLen_def flip: B1_def B2_def B3_def B4_def B5_def P_def)
qed

text \<open>What \<^verbatim>\<open>FromBytes\<close> accepted.\<close>

lemma FromBytes_accepted:
  assumes "lc_FromBytes inflate data = Inr c"
  shows "check_header data = None" "lc_headerLen \<le> length data"
    "lc_headerLen + unat (get_be (sub_bytes 29 33 data) :: u32) = length data"
    "Checksum (drop lc_headerLen data) = get_be (sub_bytes 37 41 data)"
    "\<exists>es. length es = unat (get_be (sub_bytes 21 25 data) :: u32) \<and> c = lc_of es"
    "lc_minTs c = get_be (sub_bytes 5 13 data)" "lc_maxTs c = get_be (sub_bytes 13 21 data)"
proof -
  note F = assms [unfolded lc_FromBytes_def Let_def]
  show h: "check_header data = None" using F by (auto split: option.splits)
  show "lc_headerLen \<le> length data" using h by (auto simp: check_header_def split: if_splits)
  note G = F [unfolded h option.case]
  show "lc_headerLen + unat (get_be (sub_bytes 29 33 data) :: u32) = length data"
    "Checksum (drop lc_headerLen data) = get_be (sub_bytes 37 41 data)"
    using G by (auto split: if_splits)
  obtain out where D: "decodeEntries out (get_be (sub_bytes 21 25 data)) = Inr c"
    "lc_minTs c = get_be (sub_bytes 5 13 data)" "lc_maxTs c = get_be (sub_bytes 13 21 data)"
    using G by (auto split: if_splits prod.splits sum.splits)
  show "lc_minTs c = get_be (sub_bytes 5 13 data)" "lc_maxTs c = get_be (sub_bytes 13 21 data)" by fact+
  show "\<exists>es. length es = unat (get_be (sub_bytes 21 25 data) :: u32) \<and> c = lc_of es"
    using D(1) decode_loop_entries unfolding decodeEntries_def lc_of_def
    by (fastforce split: sum.splits prod.splits if_splits)
qed

lemma put_get_be4: "put_be 4 (get_be [a, b, c, d] :: u32) = [a, b, c, d]"
proof -
  have a: "ucast (drop_bit 24 (get_be [a, b, c, d] :: u32)) = a"
    by (rule bit_word_eqI) (auto simp: get_be_def bit_simps dest: bit_imp_le_length)
  have b: "ucast (drop_bit 16 (get_be [a, b, c, d] :: u32)) = b"
    by (rule bit_word_eqI) (auto simp: get_be_def bit_simps dest: bit_imp_le_length)
  have c: "ucast (drop_bit 8 (get_be [a, b, c, d] :: u32)) = c"
    by (rule bit_word_eqI) (auto simp: get_be_def bit_simps dest: bit_imp_le_length)
  have d: "ucast (get_be [a, b, c, d] :: u32) = d"
    by (rule bit_word_eqI) (auto simp: get_be_def bit_simps dest: bit_imp_le_length)
  from a b c d show ?thesis by (simp add: eval_nat_numeral)
qed

lemma get_be_inj4: "length xs = 4 \<Longrightarrow> length ys = 4 \<Longrightarrow> (get_be xs :: u32) = get_be ys \<Longrightarrow> xs = ys"
proof -
  assume l: "length xs = 4" "length ys = 4" and e: "(get_be xs :: u32) = get_be ys"
  have four: "put_be 4 (get_be zs :: u32) = zs" if l4: "length zs = 4" for zs
  proof -
    obtain a z1 where z1: "zs = a # z1" using l4 by (cases zs) auto
    obtain b z2 where z2: "z1 = b # z2" using l4 z1 by (cases z1) auto
    obtain c z3 where z3: "z2 = c # z3" using l4 z1 z2 by (cases z2) auto
    obtain d where "z3 = [d]" using l4 z1 z2 z3 by (cases z3) auto
    then show ?thesis by (simp only: z1 z2 z3 put_get_be4)
  qed
  show "xs = ys" using four [OF l(1)] unfolding e four [OF l(2)] by (rule sym)
qed

lemma sub_bytes_update: "a \<le> i \<Longrightarrow> sub_bytes a k (data[i := b]) = (sub_bytes a k data)[i - a := b]"
  by (simp add: sub_bytes_def drop_update_swap take_update_swap)

lemma sub_bytes_update_beyond: "k \<le> i \<Longrightarrow> a \<le> k \<Longrightarrow> sub_bytes a k (data[i := b]) = sub_bytes a k data"
proof -
  assume "k \<le> i" "a \<le> k"
  then have "length (sub_bytes a k data) \<le> i - a" "a \<le> i" by (simp_all add: sub_bytes_def)
  then show ?thesis by (simp add: sub_bytes_update list_update_beyond)
qed

lemma check_header_refuses:
  assumes "check_header data = None" "i < 37" "b \<noteq> data ! i"
  shows "check_header (data[i := b]) \<noteq> None"
proof
  let ?d = "data[i := b]"
  assume h: "check_header ?d = None"
  have len: "37 \<le> length data" using assms(1) by (auto simp: check_header_def lc_headerLen_def split: if_splits)
  have c: "Checksum (take 33 data) = get_be (sub_bytes 33 37 data)" "Checksum (take 33 ?d) = get_be (sub_bytes 33 37 ?d)"
    using assms(1) h by (auto simp: check_header_def lc_headerCRCScope_def split: if_splits)
  show False
  proof (cases "i < 33")
    case True
    then have "take 33 ?d = (take 33 data)[i := b]" "sub_bytes 33 37 ?d = sub_bytes 33 37 data"
      by (simp_all add: take_update_swap sub_bytes_def)
    then show False using c Checksum_update [of i "take 33 data" b] True assms(3) len by simp
  next
    case False
    then have t: "take 33 ?d = take 33 data" "sub_bytes 33 37 ?d = (sub_bytes 33 37 data)[i - 33 := b]"
      using sub_bytes_update [of 33 i 37 data b] by simp_all
    have l: "length (sub_bytes 33 37 data) = 4" using len by (simp add: sub_bytes_def)
    have at: "sub_bytes 33 37 data ! (i - 33) = data ! i" using False assms(2) len by (simp add: sub_bytes_def)
    have g: "(get_be (sub_bytes 33 37 ?d) :: u32) = get_be (sub_bytes 33 37 data)" using c unfolding t(1) by (rule trans [OF sym, rotated])
    have "sub_bytes 33 37 ?d = sub_bytes 33 37 data" by (rule get_be_inj4 [OF _ l g]) (simp add: t(2) l)
    then have "(sub_bytes 33 37 data)[i - 33 := b] = sub_bytes 33 37 data" unfolding t(2) .
    moreover have "(sub_bytes 33 37 data)[i - 33 := b] ! (i - 33) = b"
      using l assms(2) False by (intro nth_list_update_eq) simp
    ultimately show False using at assms(3) by simp
  qed
qed


lemma FromBytes_Bytes:
  assumes "inflate (deflate (encodeEntries c)) = (encodeEntries c, True)"
    "c = foldl lc_Append NewLogChunk es" "lc_uncompressed c \<le> MaxUncompressedBytes" "length (deflate (encodeEntries c)) < 2 ^ 32"
  shows "lc_FromBytes inflate (lc_Bytes deflate c) = Inr c"
    "PeekBounds (take lc_headerLen (lc_Bytes deflate c)) = Inr (lc_minTs c, lc_maxTs c, length es, length (deflate (encodeEntries c)))"
proof -
  let ?block = "encodeEntries c" and ?data = "lc_Bytes deflate c"
  note H = lc_Bytes_fields [of deflate c]
  have c: "c = lc_of es" using assms(2) by (simp add: lc_of_def)
  have es: "lc_entries c = es" by (simp add: c lc_of_props)
  have len: "length ?block = lc_uncompressed c" by (simp add: c encodeEntries_def lc_of_props)
  then have small: "length ?block \<le> 2 ^ 27" using assms(3) by (simp add: MaxUncompressedBytes_def)
  have n: "length es \<le> 2 ^ 26" using encode_loop_size(1) [of es 0 0] small by (simp add: encodeEntries_def es)
  have lines: "\<forall>(ts, line) \<in> set es. length line < 2 ^ 64"
    using encode_loop_size(2) [of _ _ es 0 0] small by (fastforce simp: encodeEntries_def es)
  have u: "unat (of_nat k :: u32) = k" if "k < 2 ^ 32" for k
    using that by (simp add: unat_of_nat take_bit_nat_eq_self)
  have d: "decodeEntries ?block (of_nat (length es)) = Inr c"
    using decode_encode [OF lines, of 0 0 NewLogChunk "[]"] n u [of "length es"]
    by (simp add: decodeEntries_def encodeEntries_def es lc_of_def [symmetric]) (simp add: c)
  show "lc_FromBytes inflate ?data = Inr c"
    using H assms(1,3,4) d u [of "length ?block"] u [of "length (deflate ?block)"] len small
    by (simp add: lc_FromBytes_def Let_def es)
  show "PeekBounds (take lc_headerLen ?data) = Inr (lc_minTs c, lc_maxTs c, length es, length (deflate ?block))"
    using PeekBounds_take [of ?data] H u [of "length es"] u [of "length (deflate ?block)"] n assms(4)
    by (simp add: PeekBounds_def es)
qed

text \<open>A chunk of two lines, the later one first, for the witnesses; the compressor is the identity.\<close>

definition two_lines :: log_chunk where
  "two_lines = foldl lc_Append NewLogChunk [(7, ''warn''), (3, ''x'')]"

lemma two_lines_simps:
  "lc_uncompressed two_lines = 9" "length (encodeEntries two_lines) = 9" "lc_minTs two_lines = 3" "lc_maxTs two_lines = 7"
  unfolding two_lines_def by code_simp+

section \<open>Properties\<close>

text \<open>
  C39: a log chunk reads back. Whatever lines are appended, in any order of their timestamps: if the block stays
  within \<^verbatim>\<open>MaxUncompressedBytes\<close>, its compressed form within 32 bits, and \<^verbatim>\<open>compress/flate\<close> reads back what it
  wrote, the serialized chunk is decoded to the very same chunk, and the header alone gives its bounds, its
  number of entries and the length of its payload.
\<close>

theorem log_chunk_roundtrip:
  assumes "inflate (deflate (encodeEntries c)) = (encodeEntries c, True)"
    "c = foldl lc_Append NewLogChunk es" "lc_uncompressed c \<le> MaxUncompressedBytes" "length (deflate (encodeEntries c)) < 2 ^ 32"
  shows "lc_entries c = es \<and> lc_FromBytes inflate (lc_Bytes deflate c) = Inr c
    \<and> PeekBounds (take lc_headerLen (lc_Bytes deflate c)) =
        Inr (lc_minTs c, lc_maxTs c, length es, length (deflate (encodeEntries c)))"
  using FromBytes_Bytes [of inflate deflate c es, OF assms] assms(2) by (simp add: lc_of_props flip: lc_of_def)

theorem log_chunk_roundtrip_witness:
  "lc_FromBytes (\<lambda>bs. (bs, True)) (lc_Bytes (\<lambda>bs. bs) two_lines) = Inr two_lines
    \<and> PeekBounds (take lc_headerLen (lc_Bytes (\<lambda>bs. bs) two_lines)) = Inr (3, 7, 2, 9)"
  using log_chunk_roundtrip [of "\<lambda>bs. (bs, True)" "\<lambda>bs. bs" two_lines, OF _ two_lines_def]
  by (simp add: two_lines_simps MaxUncompressedBytes_def)

text \<open>
  The header-only read agrees with the full one. Whatever bytes \<^verbatim>\<open>FromBytes\<close> accepts, with any decompressor, are a
  sequence of appended entries; \<^verbatim>\<open>PeekBounds\<close> of their first 41 bytes reports their exact earliest and latest
  timestamps and their number, and the length of the rest of the data.
\<close>

lemma log_chunk_peek_agrees:
  assumes "lc_FromBytes inflate data = Inr c"
  shows "\<exists>es. c = foldl lc_Append NewLogChunk es \<and> lc_entries c = es
    \<and> PeekBounds (take lc_headerLen data) = Inr (lc_minTs c, lc_maxTs c, length es, length data - lc_headerLen)
    \<and> (es \<noteq> [] \<longrightarrow> lc_minTs c \<in> fst ` set es \<and> lc_maxTs c \<in> fst ` set es
         \<and> (\<forall>e \<in> set es. lc_minTs c \<le>s fst e \<and> fst e \<le>s lc_maxTs c))"
proof -
  note A = FromBytes_accepted [OF assms]
  obtain es where es: "length es = unat (get_be (sub_bytes 21 25 data) :: u32)" "c = lc_of es" using A(5) by blast
  have "PeekBounds (take lc_headerLen data) = Inr (lc_minTs c, lc_maxTs c, length es, length data - lc_headerLen)"
    unfolding PeekBounds_take [OF A(2)] using A(1,3,6,7) es(1) by (simp add: PeekBounds_def)
  then show ?thesis using es(2) lc_of_props(1) lc_of_bounds [of es] by (intro exI [of _ es]) (simp add: lc_of_def)
qed

text \<open>
  C40: corruption is never read. Of the bytes of a chunk that \<^verbatim>\<open>FromBytes\<close> accepts, changing any single one, wherever it
  stands, cutting any number off the end or appending any makes \<^verbatim>\<open>FromBytes\<close> refuse them, whatever the
  decompressor would make of them; and changing one of the 37 authenticated header bytes makes \<^verbatim>\<open>PeekBounds\<close> refuse.
\<close>

theorem log_chunk_corruption_refused:
  assumes "lc_FromBytes inflate data = Inr c"
  shows "(\<forall>i < length data. \<forall>b. b \<noteq> data ! i \<longrightarrow> (\<exists>e. lc_FromBytes inflate (data[i := b]) = Inl e)
        \<and> (i < 37 \<longrightarrow> (\<exists>e. PeekBounds (data[i := b]) = Inl e)))
    \<and> (\<forall>k < length data. \<exists>e. lc_FromBytes inflate (take k data) = Inl e)
    \<and> (\<forall>ys. ys \<noteq> [] \<longrightarrow> (\<exists>e. lc_FromBytes inflate (data @ ys) = Inl e))"
proof (intro conjI allI impI)
  note A = FromBytes_accepted [OF assms]
  have refused: "\<exists>e. lc_FromBytes inflate d = Inl e" if "\<And>c'. lc_FromBytes inflate d \<noteq> Inr c'" for d
    using that by (cases "lc_FromBytes inflate d") auto
  have len: "41 \<le> length data" using A(2) by (simp add: lc_headerLen_def)
  fix i b assume i: "i < length data" "b \<noteq> data ! i"
  show "\<exists>e. PeekBounds (data[i := b]) = Inl e" if "i < 37"
    using check_header_refuses [OF A(1) that i(2)] by (auto simp: PeekBounds_def)
  show "\<exists>e. lc_FromBytes inflate (data[i := b]) = Inl e"
  proof (rule refused, rule notI)
    let ?d = "data[i := b]"
    fix c' assume "lc_FromBytes inflate ?d = Inr c'"
    note B = FromBytes_accepted [OF this]
    have big: "37 \<le> i" using check_header_refuses [OF A(1) _ i(2)] B(1) by (metis linorder_not_le)
    show False
    proof (cases "i < 41")
      case True
      then have p: "drop 41 ?d = drop 41 data" "sub_bytes 37 41 ?d = (sub_bytes 37 41 data)[i - 37 := b]"
        using big sub_bytes_update [of 37 i 41 data b] by simp_all
      have l: "length (sub_bytes 37 41 data) = 4" using len by (simp add: sub_bytes_def)
      have "(get_be (sub_bytes 37 41 ?d) :: u32) = get_be (sub_bytes 37 41 data)"
        using A(4) B(4) p(1) by (simp add: lc_headerLen_def)
      then have "sub_bytes 37 41 ?d = sub_bytes 37 41 data" using l p(2) by (intro get_be_inj4) simp_all
      moreover have "(sub_bytes 37 41 data)[i - 37 := b] ! (i - 37) = b" using l True big by (intro nth_list_update_eq) simp
      moreover have "sub_bytes 37 41 data ! (i - 37) = data ! i" using big True len by (simp add: sub_bytes_def)
      ultimately show False using p(2) i(2) by simp
    next
      case False
      then have p: "drop 41 ?d = (drop 41 data)[i - 41 := b]" "sub_bytes 37 41 ?d = sub_bytes 37 41 data"
        using sub_bytes_update_beyond [of 41 i 37 data b] by (simp_all add: drop_update_swap)
      moreover have "Checksum ((drop 41 data)[i - 41 := b]) \<noteq> Checksum (drop 41 data)"
        using False i by (intro Checksum_update) simp_all
      ultimately show False using A(4) B(4) by (simp add: lc_headerLen_def)
    qed
  qed
next
  note A = FromBytes_accepted [OF assms]
  have same: "length d = length data" if B: "lc_FromBytes inflate d = Inr c'" and t: "take 41 d = take 41 data" for d c'
  proof -
    have "sub_bytes 29 33 d = sub_bytes 29 33 data"
      using sub_bytes_take [of 33 41 29 d] sub_bytes_take [of 33 41 29 data] t by simp
    then show ?thesis using A(3) FromBytes_accepted(3) [OF B] by simp
  qed
  fix k assume k: "k < length data"
  show "\<exists>e. lc_FromBytes inflate (take k data) = Inl e"
  proof (cases "lc_FromBytes inflate (take k data)")
    case (Inr c')
    then have "41 \<le> k" using FromBytes_accepted(2) [OF Inr] k by (simp add: lc_headerLen_def)
    then show ?thesis using same [OF Inr] k by (simp add: min_def)
  qed simp
next
  note A = FromBytes_accepted [OF assms]
  fix ys :: bytes assume ys: "ys \<noteq> []"
  show "\<exists>e. lc_FromBytes inflate (data @ ys) = Inl e"
  proof (cases "lc_FromBytes inflate (data @ ys)")
    case (Inr c')
    have "sub_bytes 29 33 (data @ ys) = sub_bytes 29 33 data"
      using sub_bytes_take [of 33 41 29 "data @ ys"] sub_bytes_take [of 33 41 29 data] A(2) by (simp add: lc_headerLen_def)
    then show ?thesis using A(3) FromBytes_accepted(3) [OF Inr] ys by simp
  qed simp
qed

theorem log_chunk_corruption_refused_witness:
  "length (lc_Bytes (\<lambda>bs. bs) two_lines) = 50
    \<and> (\<exists>e. lc_FromBytes (\<lambda>bs. (bs, True)) ((lc_Bytes (\<lambda>bs. bs) two_lines)[44 := lc_Bytes (\<lambda>bs. bs) two_lines ! 44 + 1]) = Inl e)
    \<and> (\<exists>e. PeekBounds ((lc_Bytes (\<lambda>bs. bs) two_lines)[12 := lc_Bytes (\<lambda>bs. bs) two_lines ! 12 + 1]) = Inl e)
    \<and> (\<exists>e. lc_FromBytes (\<lambda>bs. (bs, True)) (take 49 (lc_Bytes (\<lambda>bs. bs) two_lines)) = Inl e)
    \<and> (\<exists>e. lc_FromBytes (\<lambda>bs. (bs, True)) (lc_Bytes (\<lambda>bs. bs) two_lines @ [0]) = Inl e)"
proof -
  let ?d = "lc_Bytes (\<lambda>bs. bs) two_lines"
  have l: "length ?d = 50" by (simp add: lc_Bytes_fields two_lines_simps lc_headerLen_def)
  have "lc_FromBytes (\<lambda>bs. (bs, True)) ?d = Inr two_lines"
    by (rule FromBytes_Bytes [of "\<lambda>bs. (bs, True)" "\<lambda>bs. bs" two_lines, OF _ two_lines_def]) (simp_all add: two_lines_simps MaxUncompressedBytes_def)
  note C = log_chunk_corruption_refused [OF this]
  have ne: "x + 1 \<noteq> x" for x :: u8 by simp
  show ?thesis
  proof (intro conjI)
    show "length ?d = 50" by (rule l)
    show "\<exists>e. lc_FromBytes (\<lambda>bs. (bs, True)) (?d[44 := ?d ! 44 + 1]) = Inl e" using C l ne by auto
    show "\<exists>e. PeekBounds (?d[12 := ?d ! 12 + 1]) = Inl e" using C l ne by auto
    show "\<exists>e. lc_FromBytes (\<lambda>bs. (bs, True)) (take 49 ?d) = Inl e" using C l by auto
    show "\<exists>e. lc_FromBytes (\<lambda>bs. (bs, True)) (?d @ [0]) = Inl e" using C by blast
  qed
qed

end
