(* ===== verification/Ring.thy ===== *)
theory Ring
  imports Segments "HOL-Library.Product_Lexorder"
begin

text \<open>
  The token ring of \<^verbatim>\<open>internal/ring/ring.go\<close>, which assigns series and stream fingerprints to
  ingesters: construction, owner lookup, replica sets and the member-set hash.
\<close>

section \<open>The model\<close>

definition TokensPerMember :: nat where "TokensPerMember = 128"

record ring =
  r_members :: "string list"
  r_tokens :: "u64 list"
  r_owners :: "nat list"

datatype ring_error = NoMembers | EmptyMember | DuplicateMember nat | ReplicaCount

definition Mix64 :: "u64 \<Rightarrow> u64" where
  "Mix64 x =
     (let x1 = (x XOR drop_bit 30 x) * 0xbf58476d1ce4e5b9;
          x2 = (x1 XOR drop_bit 27 x1) * 0x94d049bb133111eb
      in x2 XOR drop_bit 31 x2)"

definition tokenOf :: "string \<Rightarrow> nat \<Rightarrow> u64" where
  "tokenOf member i = Mix64 (fnv1a fnv_offset (str_bytes (member @ ''#'' @ decimal i)))"

fun check_members :: "nat \<Rightarrow> string option \<Rightarrow> string list \<Rightarrow> ring_error option" where
  "check_members i prev [] = None"
| "check_members i prev (m # ms) =
     (if m = [] then Some EmptyMember
      else if prev = Some m then Some (DuplicateMember i)
      else check_members (i + 1) (Some m) ms)"

definition member_tokens :: "string list \<Rightarrow> (u64 \<times> nat) list" where
  "member_tokens ms =
     concat (map (\<lambda>(i, m). map (\<lambda>j. (tokenOf m j, i)) [0..<TokensPerMember]) (zip [0..<length ms] ms))"

definition NewRing :: "string list \<Rightarrow> ring_error + ring" where
  "NewRing members =
     (if members = [] then Inl NoMembers
      else
        let sorted = sort members in
        case check_members 0 None sorted of
          Some e \<Rightarrow> Inl e
        | None \<Rightarrow>
          let toks = sort (member_tokens sorted)
          in Inr \<lparr>r_members = sorted, r_tokens = map fst toks, r_owners = map snd toks\<rparr>)"

definition lookup :: "ring \<Rightarrow> u64 \<Rightarrow> string" where
  "lookup r h =
     (let i = sort_search (length (r_tokens r)) (\<lambda>i. r_tokens r ! i \<ge> h);
          i = (if i = length (r_tokens r) then 0 else i)
      in r_members r ! (r_owners r ! i))"

definition Owner :: "ring \<Rightarrow> u64 \<Rightarrow> string" where "Owner r key = lookup r (Mix64 key)"

function replicas_loop :: "ring \<Rightarrow> nat \<Rightarrow> nat \<Rightarrow> nat \<Rightarrow> bool list \<Rightarrow> string list \<Rightarrow> string list" where
  "replicas_loop r i n step taken out =
     (if length out < n \<and> step < length (r_tokens r) then
        let owner = r_owners r ! ((i + step) mod length (r_tokens r)) in
        if \<not> taken ! owner
        then replicas_loop r i n (step + 1) (taken[owner := True]) (out @ [r_members r ! owner])
        else replicas_loop r i n (step + 1) taken out
      else out)"
  by pat_completeness auto
termination
  by (relation "measure (\<lambda>(r, i, n, step, taken, out). length (r_tokens r) - step)") auto

declare replicas_loop.simps [simp del]

definition Replicas :: "ring \<Rightarrow> u64 \<Rightarrow> int \<Rightarrow> ring_error + string list" where
  "Replicas r key n =
     (if n < 1 \<or> n > int (length (r_members r)) then Inl ReplicaCount
      else
        let h = Mix64 key;
            i = sort_search (length (r_tokens r)) (\<lambda>i. r_tokens r ! i \<ge> h)
        in Inr (replicas_loop r i (nat n) 0 (replicate (length (r_members r)) False) []))"

definition Members :: "ring \<Rightarrow> string list" where "Members r = r_members r"

definition fnv32a :: "bytes \<Rightarrow> u32" where
  "fnv32a bs = foldl (\<lambda>h b. (h XOR ucast b) * 0x01000193) 0x811c9dc5 bs"

definition hex_digit :: "u32 \<Rightarrow> char" where
  "hex_digit d = (if d < 10 then char_of (48 + unat d) else char_of (87 + unat d))"

fun join_nl :: "string list \<Rightarrow> string" where
  "join_nl [] = []"
| "join_nl [s] = s"
| "join_nl (s # ss) = s @ [CHR 0x0A] @ join_nl ss"

definition RingHash :: "ring \<Rightarrow> string" where
  "RingHash r =
     (let h = fnv32a (str_bytes (join_nl (r_members r)))
      in map (\<lambda>k. hex_digit (drop_bit (4 * k) h AND 15)) (rev [0..<8]))"

section \<open>Preference lists\<close>

text \<open>The distinct elements of a list in the order of their first occurrence.\<close>

fun pick_all :: "'a list \<Rightarrow> 'a list \<Rightarrow> 'a list" where
  "pick_all os [] = os"
| "pick_all os (x # xs) = pick_all (if x \<in> set os then os else os @ [x]) xs"

lemma pick_all_set: "set (pick_all os xs) = set os \<union> set xs"
  by (induction os xs rule: pick_all.induct) auto

lemma pick_all_distinct: "distinct os \<Longrightarrow> distinct (pick_all os xs)"
  by (induction os xs rule: pick_all.induct) auto

lemma pick_all_prefix: "\<exists>ys. pick_all os xs = os @ ys"
proof (induction os xs rule: pick_all.induct)
  case (2 os x xs)
  then show ?case by (cases "x \<in> set os") auto
qed simp

lemma pick_all_take: "length os = n \<Longrightarrow> take n (pick_all os xs) = os"
  using pick_all_prefix [of os xs] by auto

lemma pick_all_hd: "xs \<noteq> [] \<Longrightarrow> hd (pick_all [] xs) = hd xs \<and> pick_all [] xs \<noteq> []"
  using pick_all_prefix [of "[hd xs]" "tl xs"] by (cases xs) auto

lemma pick_all_map:
  assumes "inj_on f (set os \<union> set xs)"
  shows "pick_all (map f os) (map f xs) = map f (pick_all os xs)"
  using assms
proof (induction os xs rule: pick_all.induct)
  case (2 os x xs)
  have "f x \<in> f ` set os \<longleftrightarrow> x \<in> set os" using "2.prems" by (auto dest: inj_onD)
  moreover have "inj_on f (set (if x \<in> set os then os else os @ [x]) \<union> set xs)"
    using "2.prems" by (rule inj_on_subset) auto
  ultimately show ?case using "2.IH" by (cases "x \<in> set os") simp_all
qed simp

lemma pick_all_filter: "pick_all (filter P os) (filter P xs) = filter P (pick_all os xs)"
  by (induction os xs rule: pick_all.induct) auto

section \<open>The replica loop\<close>

definition owner_seq :: "ring \<Rightarrow> u64 \<Rightarrow> nat list" where
  "owner_seq r h = rotate (sort_search (length (r_tokens r)) (\<lambda>i. r_tokens r ! i \<ge> h)) (r_owners r)"

definition ring_ok :: "ring \<Rightarrow> bool" where
  "ring_ok r \<longleftrightarrow> r_members r \<noteq> [] \<and> ascending (r_members r)
     \<and> length (r_tokens r) = length (r_owners r) \<and> set (r_owners r) = {..<length (r_members r)}
     \<and> sorted (zip (r_tokens r) (r_owners r))
     \<and> mset (zip (r_tokens r) (r_owners r)) = mset (member_tokens (r_members r))"

lemma ring_okD:
  assumes "ring_ok r"
  shows "r_members r \<noteq> []" "sorted (r_members r)" "distinct (r_members r)"
    "length (r_tokens r) = length (r_owners r)" "set (r_owners r) = {..<length (r_members r)}"
    "sorted (zip (r_tokens r) (r_owners r))"
    "mset (zip (r_tokens r) (r_owners r)) = mset (member_tokens (r_members r))"
  using assms unfolding ring_ok_def strict_sorted_iff by blast+

lemma replicas_loop_pick:
  assumes "length (r_tokens r) = length (r_owners r)" "set (r_owners r) \<subseteq> {..<length (r_members r)}"
    and "out = map (nth (r_members r)) os" "set os \<subseteq> {..<length (r_members r)}"
    and "taken = map (\<lambda>k. k \<in> set os) [0..<length (r_members r)]" "length os \<le> n"
  shows "replicas_loop r i n step taken out =
    map (nth (r_members r)) (take n (pick_all os (drop step (rotate i (r_owners r)))))"
  using assms
proof (induction "length (r_owners r) - step" arbitrary: step taken out os)
  case 0
  then show ?case by (subst replicas_loop.simps) simp
next
  case (Suc k)
  let ?xs = "rotate i (r_owners r)"
  define x where "x = r_owners r ! ((i + step) mod length (r_owners r))"
  have lt: "step < length (r_owners r)" using Suc.hyps(2) by simp
  have x: "?xs ! step = x" using lt by (simp add: x_def nth_rotate)
  have d: "drop step ?xs = x # drop (step + 1) ?xs"
    using Cons_nth_drop_Suc [of step ?xs] lt x by simp
  have "x \<in> set (r_owners r)" using lt unfolding x_def by (intro nth_mem mod_less_divisor) linarith
  then have xm: "x < length (r_members r)" using Suc.prems(2) by auto
  have tk: "taken ! x \<longleftrightarrow> x \<in> set os" using xm Suc.prems(5) by simp
  show ?case
  proof (cases "length os < n")
    case False
    then show ?thesis using Suc.prems by (subst replicas_loop.simps) (simp add: pick_all_take)
  next
    case True
    show ?thesis
    proof (cases "x \<in> set os")
      case in_os: True
      have "replicas_loop r i n (step + 1) taken out =
          map (nth (r_members r)) (take n (pick_all os (drop (step + 1) ?xs)))"
        by (rule Suc.hyps(1)) (use Suc.hyps(2) Suc.prems in auto)
      then show ?thesis using True in_os lt tk Suc.prems(1,3) d
        by (subst replicas_loop.simps) (simp add: Let_def flip: x_def)
    next
      case False
      have "taken[x := True] = map (\<lambda>k. k \<in> set (os @ [x])) [0..<length (r_members r)]"
        using Suc.prems(5) xm by (intro nth_equalityI) (auto simp: nth_list_update)
      then have "replicas_loop r i n (step + 1) (taken[x := True]) (out @ [r_members r ! x]) =
          map (nth (r_members r)) (take n (pick_all (os @ [x]) (drop (step + 1) ?xs)))"
        by (intro Suc.hyps(1)) (use Suc.hyps(2) Suc.prems True xm in auto)
      then show ?thesis using True False lt tk Suc.prems(1,3) d
        by (subst replicas_loop.simps) (simp add: Let_def flip: x_def)
    qed
  qed
qed

definition prefs :: "ring \<Rightarrow> u64 \<Rightarrow> string list" where
  "prefs r key = pick_all [] (map (nth (r_members r)) (owner_seq r (Mix64 key)))"

lemma Replicas_prefs:
  assumes "ring_ok r" "1 \<le> n" "n \<le> int (length (r_members r))"
  shows "Replicas r key n = Inr (take (nat n) (prefs r key))"
proof -
  let ?m = "nth (r_members r)" and ?os = "owner_seq r (Mix64 key)"
  have os: "set ?os = {..<length (r_members r)}" using assms(1) by (simp add: owner_seq_def ring_ok_def)
  have "inj_on ?m (set [] \<union> set ?os)"
    using assms(1) os by (auto simp: ring_ok_def strict_sorted_iff inj_on_nth)
  then have p: "prefs r key = map ?m (pick_all [] ?os)"
    unfolding prefs_def using pick_all_map [of ?m "[]" ?os] by simp
  have "replicas_loop r (sort_search (length (r_tokens r)) (\<lambda>i. r_tokens r ! i \<ge> Mix64 key)) (nat n) 0
      (replicate (length (r_members r)) False) [] = map ?m (take (nat n) (pick_all [] ?os))"
    using replicas_loop_pick [of r "[]" "[]" "replicate (length (r_members r)) False" "nat n" _ 0] assms(1)
    by (simp add: owner_seq_def ring_ok_def map_replicate_const)
  then show ?thesis using assms(2,3) by (simp add: Replicas_def Let_def p take_map)
qed

lemma prefs_all:
  assumes "ring_ok r"
  shows "distinct (prefs r key) \<and> set (prefs r key) = set (r_members r) \<and> length (prefs r key) = length (r_members r)"
proof -
  have s: "set (prefs r key) = set (r_members r)"
  proof -
    have "set (prefs r key) = nth (r_members r) ` {..<length (r_members r)}"
      using assms by (simp add: prefs_def pick_all_set owner_seq_def ring_ok_def)
    also have "\<dots> = set (r_members r)" by (auto simp: in_set_conv_nth image_iff)
    finally show ?thesis .
  qed
  have d: "distinct (prefs r key)" by (simp add: prefs_def pick_all_distinct)
  have "distinct (r_members r)" using assms by (simp add: ring_ok_def strict_sorted_iff)
  then show ?thesis using s d by (metis distinct_card)
qed

lemma sorted_fst: "sorted xs \<Longrightarrow> sorted (map fst xs)" for xs :: "('a::linorder \<times> 'b::linorder) list"
  by (induction xs) (auto simp: less_eq_prod_def)

lemma ring_tokens_sorted: "ring_ok r \<Longrightarrow> sorted (r_tokens r)"
  using sorted_fst [of "zip (r_tokens r) (r_owners r)"] by (simp add: ring_ok_def)

lemma Owner_prefs:
  assumes "ring_ok r"
  shows "Owner r key = hd (prefs r key)"
proof -
  let ?i = "sort_search (length (r_tokens r)) (\<lambda>i. r_tokens r ! i \<ge> Mix64 key)"
  have i: "?i \<le> length (r_tokens r)"
    unfolding sort_search_sorted [OF ring_tokens_sorted [OF assms]] by (rule length_takeWhile_le)
  have "set (r_owners r) \<noteq> {}" using ring_okD(1,5) [OF assms] by (simp add: lessThan_empty_iff)
  then have ne: "r_owners r \<noteq> []" by simp
  have h: "hd (owner_seq r (Mix64 key)) = r_owners r ! (?i mod length (r_owners r))"
    using ne by (simp add: owner_seq_def hd_rotate_conv_nth)
  have idx: "(if ?i = length (r_tokens r) then 0 else ?i) = ?i mod length (r_owners r)"
    using i ring_okD(4) [OF assms] by auto
  have ne': "owner_seq r (Mix64 key) \<noteq> []" using ne by (simp add: owner_seq_def)
  then have p: "hd (prefs r key) = r_members r ! hd (owner_seq r (Mix64 key))"
    using pick_all_hd [of "map (nth (r_members r)) (owner_seq r (Mix64 key))"] by (simp add: prefs_def hd_map)
  show ?thesis unfolding p h Owner_def lookup_def Let_def idx ..
qed

section \<open>Construction\<close>

lemma check_members_ascending:
  "check_members i (Some p) ms = None \<Longrightarrow> sorted (p # ms) \<Longrightarrow> ascending (p # ms)"
proof (induction ms arbitrary: i p)
  case (Cons m ms)
  then have "ascending (m # ms)" "p < m" by (auto split: if_splits)
  then show ?case by (auto dest: less_trans)
qed simp

lemma member_tokens_owners: "snd ` set (member_tokens ms) = {..<length ms}"
proof
  show "{..<length ms} \<subseteq> snd ` set (member_tokens ms)"
  proof
    fix i assume "i \<in> {..<length ms}"
    then have "(i, ms ! i) \<in> set (zip [0..<length ms] ms)" by (auto simp: set_zip intro!: exI [of _ i])
    then have "(tokenOf (ms ! i) 0, i) \<in> set (member_tokens ms)"
      by (force simp: member_tokens_def TokensPerMember_def)
    then show "i \<in> snd ` set (member_tokens ms)" by force
  qed
qed (auto simp: member_tokens_def dest!: set_zip_leftD)

lemma NewRing_ok:
  assumes "NewRing ms = Inr r"
  shows "ring_ok r \<and> r_members r = sort ms"
proof -
  have r: "ms \<noteq> []" "check_members 0 None (sort ms) = None"
      "r = \<lparr>r_members = sort ms, r_tokens = map fst (sort (member_tokens (sort ms))),
            r_owners = map snd (sort (member_tokens (sort ms)))\<rparr>"
    using assms by (auto simp: NewRing_def Let_def split: if_splits option.splits)
  have "ascending (sort ms)"
  proof (cases "sort ms")
    case (Cons m rest)
    then show ?thesis
      using r(2) check_members_ascending [of 1 m rest] sorted_sort [of ms] by (simp split: if_splits)
  qed simp
  moreover have "sort ms \<noteq> []" using r(1) by (metis length_0_conv length_sort)
  moreover have "set (map snd (sort (member_tokens (sort ms)))) = {..<length (sort ms)}"
    using member_tokens_owners [of "sort ms"] by (simp only: set_map set_sort)
  ultimately show ?thesis by (simp add: r(3) ring_ok_def zip_map_fst_snd)
qed

section \<open>Tokens by member name\<close>

definition named_tokens :: "string list \<Rightarrow> (u64 \<times> string) list" where
  "named_tokens ms = concat (map (\<lambda>m. map (\<lambda>j. (tokenOf m j, m)) [0..<TokensPerMember]) ms)"

lemma named_member_tokens:
  "map (\<lambda>(v, i). (v, ms ! i)) (member_tokens ms) = named_tokens ms"
proof -
  have "map (\<lambda>x. map (\<lambda>j. (tokenOf (snd x) j, ms ! fst x)) [0..<TokensPerMember]) (zip [0..<length ms] ms) =
      map (\<lambda>m. map (\<lambda>j. (tokenOf m j, m)) [0..<TokensPerMember]) ms"
    by (intro nth_equalityI) auto
  then show ?thesis by (simp add: member_tokens_def named_tokens_def map_concat comp_def case_prod_beta)
qed

lemma sorted_rename:
  "sorted z \<Longrightarrow> sorted ms \<Longrightarrow> \<forall>x \<in> set z. snd x < length ms \<Longrightarrow> sorted (map (\<lambda>(v, i). (v, ms ! i)) z)"
proof (induction z)
  case (Cons x z)
  have "(fst x, ms ! snd x) \<le> (fst y, ms ! snd y)" if "y \<in> set z" for y
    using Cons.prems that sorted_nth_mono [OF Cons.prems(2), of "snd x" "snd y"]
    by (auto simp: less_eq_prod_def)
  then show ?case using Cons by (auto simp: case_prod_beta)
qed simp

lemma ring_names:
  assumes "ring_ok r"
  shows "map (\<lambda>(v, i). (v, r_members r ! i)) (zip (r_tokens r) (r_owners r)) = sort (named_tokens (r_members r))"
proof (rule properties_for_sort [symmetric])
  let ?z = "zip (r_tokens r) (r_owners r)" and ?g = "\<lambda>(v, i). (v, r_members r ! i)"
  show "mset (map ?g ?z) = mset (named_tokens (r_members r))"
    using assms by (simp add: ring_ok_def flip: named_member_tokens)
  have "\<forall>x \<in> set ?z. snd x < length (r_members r)"
    using ring_okD(5) [OF assms] by (force dest: set_zip_rightD)
  then show "sorted (map ?g ?z)" by (intro sorted_rename ring_okD [OF assms])
qed

lemma rotate_sorted:
  fixes xs :: "('a::linorder \<times> 'b) list"
  assumes "sorted (map fst xs)"
  shows "rotate (length (takeWhile (\<lambda>v. v < h) (map fst xs))) xs = filter (\<lambda>x. fst x \<ge> h) xs @ filter (\<lambda>x. fst x < h) xs"
proof -
  have "takeWhile (\<lambda>x. fst x < h) xs = filter (\<lambda>x. fst x < h) xs
      \<and> dropWhile (\<lambda>x. fst x < h) xs = filter (\<lambda>x. fst x \<ge> h) xs"
    using assms
  proof (induction xs)
    case (Cons x xs)
    show ?case
    proof (cases "fst x < h")
      case False
      then have "\<forall>y \<in> set (x # xs). fst y \<ge> h" using Cons.prems by force
      then have "filter (\<lambda>y. fst y < h) (x # xs) = []" "filter (\<lambda>y. fst y \<ge> h) (x # xs) = x # xs"
        by (auto simp only: filter_empty_conv filter_id_conv not_less)
      then show ?thesis using False by simp
    qed (use Cons in auto)
  qed simp
  then have e: "takeWhile (\<lambda>x. fst x < h) xs = filter (\<lambda>x. fst x < h) xs"
    "dropWhile (\<lambda>x. fst x < h) xs = filter (\<lambda>x. fst x \<ge> h) xs" by blast+
  have "rotate (length (takeWhile (\<lambda>x. fst x < h) xs)) (takeWhile (\<lambda>x. fst x < h) xs @ dropWhile (\<lambda>x. fst x < h) xs) =
      dropWhile (\<lambda>x. fst x < h) xs @ takeWhile (\<lambda>x. fst x < h) xs" by (rule rotate_append)
  then have "rotate (length (takeWhile (\<lambda>x. fst x < h) xs)) xs = dropWhile (\<lambda>x. fst x < h) xs @ takeWhile (\<lambda>x. fst x < h) xs"
    by (simp only: takeWhile_dropWhile_id)
  then have "rotate (length (takeWhile (\<lambda>x. fst x < h) xs)) xs = filter (\<lambda>x. fst x \<ge> h) xs @ filter (\<lambda>x. fst x < h) xs"
    by (simp only: e)
  then show ?thesis by (simp add: takeWhile_map comp_def)
qed

lemma prefs_names:
  assumes "ring_ok r"
  defines "S \<equiv> sort (named_tokens (r_members r))"
  shows "prefs r key = pick_all [] (map snd (filter (\<lambda>x. fst x \<ge> Mix64 key) S @ filter (\<lambda>x. fst x < Mix64 key) S))"
proof -
  let ?z = "zip (r_tokens r) (r_owners r)" and ?g = "\<lambda>(v, i). (v, r_members r ! i)" and ?h = "Mix64 key"
  have len: "length (r_tokens r) = length (r_owners r)" using assms(1) by (simp add: ring_ok_def)
  have i: "sort_search (length (r_tokens r)) (\<lambda>i. r_tokens r ! i \<ge> ?h) = length (takeWhile (\<lambda>v. v < ?h) (map fst ?z))"
    unfolding sort_search_sorted [OF ring_tokens_sorted [OF assms(1)]] using len by simp
  have S: "S = map ?g ?z" unfolding S_def by (rule ring_names [OF assms(1), symmetric])
  have "r_owners r = map snd ?z" using len by simp
  then have "owner_seq r ?h = map snd (rotate (length (takeWhile (\<lambda>v. v < ?h) (map fst ?z))) ?z)"
    unfolding owner_seq_def i by (metis rotate_map)
  also have "\<dots> = map snd (filter (\<lambda>x. fst x \<ge> ?h) ?z @ filter (\<lambda>x. fst x < ?h) ?z)"
    by (subst rotate_sorted) (use ring_tokens_sorted [OF assms(1)] len in simp_all)
  finally have "map (nth (r_members r)) (owner_seq r ?h) =
      map snd (filter (\<lambda>x. fst x \<ge> ?h) S @ filter (\<lambda>x. fst x < ?h) S)"
    by (simp add: S filter_map comp_def case_prod_beta)
  then show ?thesis by (simp only: prefs_def)
qed

lemma named_tokens_remove:
  "filter (\<lambda>x. snd x \<noteq> m) (named_tokens ms) = named_tokens (filter (\<lambda>x. x \<noteq> m) ms)"
  by (induction ms) (simp_all add: named_tokens_def filter_map comp_def)

lemma prefs_remove:
  assumes "ring_ok r" "ring_ok r'" "r_members r = filter (\<lambda>x. x \<noteq> m) (r_members r')"
  shows "prefs r key = filter (\<lambda>x. x \<noteq> m) (prefs r' key)"
proof -
  let ?S = "sort (named_tokens (r_members r))" and ?S' = "sort (named_tokens (r_members r'))" and ?h = "Mix64 key"
  have S: "?S = filter (\<lambda>x. snd x \<noteq> m) ?S'"
  proof (rule properties_for_sort)
    show "mset (filter (\<lambda>x. snd x \<noteq> m) ?S') = mset (named_tokens (r_members r))"
      by (simp add: assms(3) flip: named_tokens_remove)
    show "sorted (filter (\<lambda>x. snd x \<noteq> m) ?S')" by (rule sorted_wrt_filter) simp
  qed
  show ?thesis unfolding prefs_names [OF assms(1)] prefs_names [OF assms(2)] S
    using pick_all_filter [of "\<lambda>x. x \<noteq> m" "[]"
        "map snd (filter (\<lambda>x. fst x \<ge> ?h) ?S' @ filter (\<lambda>x. fst x < ?h) ?S')"]
    by (simp add: filter_map comp_def conj_commute)
qed

section \<open>Properties\<close>

text \<open>
  C14: replica sets. A ring built from a member list does not depend on the list's order, and for
  every key and every \<^verbatim>\<open>n\<close> up to the member count \<^const>\<open>Replicas\<close> returns exactly \<^verbatim>\<open>n\<close> distinct members,
  the owner first; a smaller replica count gives a prefix of the same list.
\<close>

theorem Replicas_correct:
  assumes "NewRing ms = Inr r" "1 \<le> k" "k \<le> n" "n \<le> int (length ms)"
  shows "\<exists>xs. Replicas r key n = Inr xs \<and> length xs = nat n \<and> distinct xs \<and> set xs \<subseteq> set ms
      \<and> hd xs = Owner r key \<and> Replicas r key k = Inr (take (nat k) xs)
      \<and> (\<forall>ms'. mset ms' = mset ms \<longrightarrow> NewRing ms' = Inr r)"
proof -
  note R = NewRing_ok [OF assms(1)]
  have lm: "length (r_members r) = length ms" using R by simp
  note P = prefs_all [of r key, unfolded lm] 
  have "NewRing ms' = NewRing ms" if "mset ms' = mset ms" for ms'
  proof -
    have "sort ms' = sort ms" using that by (intro properties_for_sort) simp_all
    moreover have "ms' = [] \<longleftrightarrow> ms = []" using that by (metis mset_zero_iff)
    ultimately show ?thesis by (simp add: NewRing_def)
  qed
  moreover have "Replicas r key n = Inr (take (nat n) (prefs r key))"
    "Replicas r key k = Inr (take (nat k) (prefs r key))"
    using R assms(2-4) lm by (auto intro!: Replicas_prefs)
  moreover have "hd (take (nat n) (prefs r key)) = Owner r key"
    using Owner_prefs [of r key] R P assms(2-4) by (cases "prefs r key"; cases "nat n") auto
  moreover have "set (take (nat n) (prefs r key)) \<subseteq> set ms"
    using R P by (metis set_sort set_take_subset)
  ultimately show ?thesis using R P assms
    by (intro exI [of _ "take (nat n) (prefs r key)"]) (auto simp: min_def)
qed

text \<open>
  C19: minimal disruption. When a member joins (or, read backwards, leaves), the full preference list
  of every key changes only by the insertion of that member; in particular a key whose owner
  changes moves to the new member.
\<close>

theorem ring_minimal_disruption:
  assumes "NewRing ms = Inr r" "NewRing (m # ms) = Inr r'"
    and "Replicas r key (int (length ms)) = Inr xs" "Replicas r' key (int (length ms) + 1) = Inr ys"
  shows "xs = filter (\<lambda>x. x \<noteq> m) ys \<and> (Owner r' key \<noteq> Owner r key \<longrightarrow> Owner r' key = m)"
proof -
  note R = NewRing_ok [OF assms(1)] and R' = NewRing_ok [OF assms(2)]
  have "distinct (sort (m # ms))" using R' ring_okD(3) [of r'] by simp
  then have m: "m \<notin> set ms" unfolding distinct_sort by simp
  have "filter (\<lambda>x. x \<noteq> m) (sort (m # ms)) = sort (filter (\<lambda>x. x \<noteq> m) (m # ms))"
    by (rule filter_sort)
  then have "r_members r = filter (\<lambda>x. x \<noteq> m) (r_members r')"
  proof -
    have "filter (\<lambda>x. x \<noteq> m) ms = ms" using m by (induction ms) auto
    then show ?thesis
      using R R' \<open>filter (\<lambda>x. x \<noteq> m) (sort (m # ms)) = sort (filter (\<lambda>x. x \<noteq> m) (m # ms))\<close> by simp
  qed
  then have pr: "prefs r key = filter (\<lambda>x. x \<noteq> m) (prefs r' key)"
    using R R' by (intro prefs_remove) simp_all
  have ne: "ms \<noteq> []" using assms(1) by (auto simp: NewRing_def)
  have "xs = prefs r key" "ys = prefs r' key"
    using assms(3,4) Replicas_prefs [of r "int (length ms)" key] Replicas_prefs [of r' "int (length ms) + 1" key]
      R R' ne prefs_all [of r key] prefs_all [of r' key] by (simp_all add: Suc_le_eq nat_add_distrib)
  moreover have "Owner r' key = m \<or> Owner r' key = Owner r key"
    using pr Owner_prefs [of r key] Owner_prefs [of r' key] R R' prefs_all [of r' key]
    by (cases "prefs r' key") auto
  ultimately show ?thesis using pr by auto
qed


lemma NewRing_accepts:
  assumes "distinct ms" "ms \<noteq> []" "[] \<notin> set ms"
  shows "\<exists>r. NewRing ms = Inr r"
proof -
  have "check_members i prev xs = None" if "distinct xs" "[] \<notin> set xs" "prev \<notin> Some ` set xs" for i prev xs
    using that by (induction i prev xs rule: check_members.induct) auto
  then have "check_members 0 None (sort ms) = None" using assms by simp
  then show ?thesis using assms(2) by (simp add: NewRing_def Let_def)
qed

theorem Replicas_correct_witness:
  "\<exists>r xs. NewRing [''b'', ''a''] = Inr r \<and> Replicas r 42 2 = Inr xs \<and> length xs = 2 \<and> distinct xs"
proof -
  obtain r where r: "NewRing [''b'', ''a''] = Inr r" using NewRing_accepts [of "[''b'', ''a'']"] by auto
  then show ?thesis using Replicas_correct [OF r, of 1 2 42] by auto
qed

theorem ring_minimal_disruption_witness:
  "\<exists>r r' xs ys. NewRing [''a''] = Inr r \<and> NewRing [''b'', ''a''] = Inr r'
     \<and> Replicas r 42 1 = Inr xs \<and> Replicas r' 42 2 = Inr ys \<and> xs = filter (\<lambda>x. x \<noteq> ''b'') ys"
proof -
  obtain r r' where r: "NewRing [''a''] = Inr r" "NewRing [''b'', ''a''] = Inr r'"
    using NewRing_accepts [of "[''b'', ''a'']"] NewRing_accepts [of "[''a'']"] by auto
  obtain xs ys where x: "Replicas r 42 1 = Inr xs" "Replicas r' 42 2 = Inr ys"
    using Replicas_prefs [of r 1 42] Replicas_prefs [of r' 2 42] NewRing_ok [OF r(1)] NewRing_ok [OF r(2)] by auto
  show ?thesis using ring_minimal_disruption [of "[''a'']" r "''b''" r' 42 xs ys] r x by auto
qed

end
