(* ===== verification/Router.thy ===== *)
theory Router
  imports Ring MemStore
begin

text \<open>
  \<^verbatim>\<open>internal/rpc/router.go\<close>: the gateway stamps a batch with one write generation, sends every item to
  the ingesters that replicate its key and answers as soon as a majority for every key is certain or
  impossible. The goroutines of a batch are the order in which their results reach the collector, which
  is an argument; the collector is a function on that list. \<^verbatim>\<open>replicate\<close>'s other way out, the caller leaving
  while waiting, changes no state.
\<close>

section \<open>Errors\<close>

text \<open>
  An error as \<^verbatim>\<open>errors.Is\<close> classifies it, in the order the code asks: a limit refusal, an outage, a
  cancellation, and anything else, a protocol error. The texts and the wrapping are not modelled.
\<close>

datatype rpc_error = ErrLimited | ErrUnavailable | ErrCanceled | ErrProtocol

fun worst_loop :: "rpc_error option \<Rightarrow> rpc_error option \<Rightarrow> rpc_error option \<Rightarrow> rpc_error list \<Rightarrow> rpc_error option" where
  "worst_loop lim unavailable canceled [] =
     (if lim \<noteq> None then lim else if unavailable \<noteq> None then unavailable else canceled)"
| "worst_loop lim unavailable canceled (e # es) =
     (case e of
        ErrLimited \<Rightarrow> worst_loop (Some e) unavailable canceled es
      | ErrUnavailable \<Rightarrow> worst_loop lim (Some e) canceled es
      | ErrCanceled \<Rightarrow> worst_loop lim unavailable (Some e) es
      | ErrProtocol \<Rightarrow> Some e)"

definition worst :: "rpc_error list \<Rightarrow> rpc_error option" where
  "worst errs = worst_loop None None None errs"

fun store_cause_loop :: "rpc_error option \<Rightarrow> rpc_error option \<Rightarrow> rpc_error option \<Rightarrow> rpc_error list \<Rightarrow> rpc_error option" where
  "store_cause_loop lim unavailable canceled [] =
     (if lim \<noteq> None then lim else if canceled \<noteq> None then canceled else unavailable)"
| "store_cause_loop lim unavailable canceled (e # es) =
     (case e of
        ErrLimited \<Rightarrow> store_cause_loop (Some e) unavailable canceled es
      | ErrUnavailable \<Rightarrow> store_cause_loop lim (Some e) canceled es
      | ErrCanceled \<Rightarrow> store_cause_loop lim unavailable (Some e) es
      | ErrProtocol \<Rightarrow> Some e)"

definition storeCause :: "rpc_error list \<Rightarrow> rpc_error option" where
  "storeCause errs = store_cause_loop None None None errs"

definition OutcomeOf :: "rpc_error option \<Rightarrow> string" where
  "OutcomeOf err =
     (case err of
        None \<Rightarrow> ''ok''
      | Some ErrLimited \<Rightarrow> ''limited''
      | Some ErrUnavailable \<Rightarrow> ''unavailable''
      | Some _ \<Rightarrow> ''error'')"

text \<open>\<^verbatim>\<open>parse\<close> is \<^verbatim>\<open>url.Parse\<close> followed by the host: \<^const>\<open>None\<close> where it fails.\<close>

definition MemberLabel :: "(string \<Rightarrow> string option) \<Rightarrow> string \<Rightarrow> string" where
  "MemberLabel parse member =
     (case parse member of None \<Rightarrow> member | Some host \<Rightarrow> if host = [] then member else host)"

definition quorum :: "nat \<Rightarrow> nat" where "quorum rf = rf div 2 + 1"

section \<open>Stamping a batch\<close>

record PendingSample =
  ps_Labels :: Labels
  ps_TimestampMs :: i64
  ps_Value :: float64
  ps_Gen :: i64

definition sample_key :: "PendingSample \<Rightarrow> u64 \<times> i64" where
  "sample_key s = (Hash (ps_Labels s), ps_TimestampMs s)"

definition last_index :: "PendingSample list \<Rightarrow> ((u64 \<times> i64) \<times> nat) list" where
  "last_index samples =
     foldl (\<lambda>last (i, s). AList.update (sample_key s) i last) [] (zip [0..<length samples] samples)"

definition lastWritePerSample :: "PendingSample list \<Rightarrow> PendingSample list" where
  "lastWritePerSample samples =
     map snd (filter (\<lambda>(i, s). map_of (last_index samples) (sample_key s) = Some i) (zip [0..<length samples] samples))"

definition stamp :: "i64 \<Rightarrow> i64 \<Rightarrow> PendingSample list \<Rightarrow> i64 \<times> PendingSample list" where
  "stamp now nextGen samples =
     (let gen = smax nextGen now in (gen + 1, map (\<lambda>s. s\<lparr>ps_Gen := gen\<rparr>) samples))"

section \<open>What an ingester takes\<close>

datatype gen_support = GenUnknown | GenTakes | GenLegacy

definition recordGenSupport :: "bool \<Rightarrow> gen_support" where
  "recordGenSupport takes = (if takes then GenTakes else GenLegacy)"

text \<open>A push is a function of whether generations are sent; it answers an error or whether the ingester takes them.\<close>

type_synonym push = "bool \<Rightarrow> rpc_error + bool"

definition learnGenSupport :: "push \<Rightarrow> gen_support \<Rightarrow> rpc_error option \<times> gen_support" where
  "learnGenSupport ask state =
     (case ask False of Inl e \<Rightarrow> (Some e, state) | Inr takes \<Rightarrow> (None, recordGenSupport takes))"

definition pushTo :: "push \<Rightarrow> push \<Rightarrow> gen_support \<Rightarrow> rpc_error option \<times> gen_support" where
  "pushTo ask push state =
     (let (failed, state1) = (if state = GenUnknown then learnGenSupport ask state else (None, state)) in
      if failed \<noteq> None then (failed, state1)
      else case push (state1 = GenTakes) of
        Inl e \<Rightarrow> (Some e, state1)
      | Inr takes \<Rightarrow> (None, recordGenSupport takes))"

section \<open>Routing a batch\<close>

record 'a routing =
  rt_keyIdx :: "(u64 \<times> nat) list"
  rt_replicasOf :: "string list list"
  rt_groups :: "(string \<times> 'a list) list"
  rt_memberKeys :: "(string \<times> nat list) list"

definition map_append :: "'k \<Rightarrow> 'v \<Rightarrow> ('k \<times> 'v list) list \<Rightarrow> ('k \<times> 'v list) list" where
  "map_append k v m = AList.update k ((case map_of m k of None \<Rightarrow> [] | Some vs \<Rightarrow> vs) @ [v]) m"

definition group_item :: "'a \<Rightarrow> nat \<Rightarrow> 'a routing \<Rightarrow> 'a routing" where
  "group_item it ki rt = rt\<lparr>rt_groups := foldl (\<lambda>g m. map_append m it g) (rt_groups rt) (rt_replicasOf rt ! ki)\<rparr>"

fun route_loop :: "ring \<Rightarrow> nat \<Rightarrow> ('a \<Rightarrow> u64) \<Rightarrow> 'a routing \<Rightarrow> 'a list \<Rightarrow> ring_error + 'a routing" where
  "route_loop r rf key rt [] = Inr rt"
| "route_loop r rf key rt (it # items) =
     (case map_of (rt_keyIdx rt) (key it) of
        Some ki \<Rightarrow> route_loop r rf key (group_item it ki rt) items
      | None \<Rightarrow>
        (case Replicas r (key it) (int rf) of
           Inl e \<Rightarrow> Inl e
         | Inr reps \<Rightarrow>
           let ki = length (rt_replicasOf rt);
               rt1 = rt\<lparr>rt_keyIdx := AList.update (key it) ki (rt_keyIdx rt),
                        rt_replicasOf := rt_replicasOf rt @ [reps],
                        rt_memberKeys := foldl (\<lambda>mk m. map_append m ki mk) (rt_memberKeys rt) reps\<rparr>
           in route_loop r rf key (group_item it ki rt1) items))"

definition route :: "ring \<Rightarrow> nat \<Rightarrow> ('a \<Rightarrow> u64) \<Rightarrow> 'a list \<Rightarrow> ring_error + 'a routing" where
  "route r rf key items =
     route_loop r rf key \<lparr>rt_keyIdx = [], rt_replicasOf = [], rt_groups = [], rt_memberKeys = []\<rparr> items"

section \<open>Deciding a batch\<close>

record quorum_error =
  qe_Kind :: string
  qe_Failed :: nat
  qe_Total :: nat
  qe_Quorum :: nat
  qe_RF :: nat
  qe_Ingesters :: "string list"
  qe_Cause :: "rpc_error option"

record collector =
  c_acks :: "nat list"
  c_fails :: "rpc_error list list"
  c_failedBy :: "string list list"
  c_pending :: nat
  c_anyFailure :: bool
  c_decided :: "quorum_error option option"

definition collector_init :: "nat \<Rightarrow> collector" where
  "collector_init n = \<lparr>c_acks = replicate n 0, c_fails = replicate n [], c_failedBy = replicate n [],
     c_pending = n, c_anyFailure = False, c_decided = None\<rparr>"

text \<open>\<^verbatim>\<open>slices.Sort\<close> and then \<^verbatim>\<open>slices.Compact\<close>.\<close>

definition sort_compact :: "string list \<Rightarrow> string list" where
  "sort_compact xs = remdups_adj (sort xs)"

definition quorumErr :: "string \<Rightarrow> nat \<Rightarrow> collector \<Rightarrow> quorum_error option" where
  "quorumErr kind rf c =
     (let maxFail = rf - quorum rf;
          failed = filter (\<lambda>ki. length (c_fails c ! ki) > maxFail) [0..<length (c_fails c)]
      in if failed = [] then None
         else Some \<lparr>qe_Kind = kind, qe_Failed = length failed, qe_Total = length (c_fails c),
           qe_Quorum = quorum rf, qe_RF = rf,
           qe_Ingesters = sort_compact (concat (map (\<lambda>ki. c_failedBy c ! ki) failed)),
           qe_Cause = worst (List.map_filter (\<lambda>ki. worst (c_fails c ! ki)) failed)\<rparr>)"

definition collect_key :: "nat \<Rightarrow> string \<Rightarrow> rpc_error option \<Rightarrow> collector \<times> bool \<Rightarrow> nat \<Rightarrow> collector \<times> bool" where
  "collect_key rf label err ck ki =
     (case ck of (c, keyFailed) \<Rightarrow>
      case err of
        Some e \<Rightarrow>
          let fs = c_fails c ! ki @ [e] in
          (c\<lparr>c_fails := (c_fails c)[ki := fs], c_failedBy := (c_failedBy c)[ki := c_failedBy c ! ki @ [label]]\<rparr>,
           keyFailed \<or> length fs = rf - quorum rf + 1)
      | None \<Rightarrow>
          let a = c_acks c ! ki + 1 in
          (c\<lparr>c_acks := (c_acks c)[ki := a], c_pending := (if a = quorum rf then c_pending c - 1 else c_pending c)\<rparr>,
           keyFailed))"

definition collect_result :: "(string \<Rightarrow> string) \<Rightarrow> string \<Rightarrow> nat \<Rightarrow> (string \<times> nat list) list \<Rightarrow> collector
    \<Rightarrow> string \<times> rpc_error option \<Rightarrow> collector" where
  "collect_result label kind rf memberKeys c r =
     (case r of (member, err) \<Rightarrow>
      let c0 = (if err \<noteq> None then c\<lparr>c_anyFailure := True\<rparr> else c);
          keys = (case map_of memberKeys member of None \<Rightarrow> [] | Some ks \<Rightarrow> ks);
          (c1, keyFailed) = foldl (collect_key rf (label member) err) (c0, False) keys
      in if c_decided c1 \<noteq> None then c1
         else if keyFailed then c1\<lparr>c_decided := Some (quorumErr kind rf c1)\<rparr>
         else if c_pending c1 = 0 then c1\<lparr>c_decided := Some None\<rparr>
         else c1)"

definition collect_batch :: "(string \<Rightarrow> string) \<Rightarrow> string \<Rightarrow> nat \<Rightarrow> 'a routing \<Rightarrow> (string \<times> rpc_error option) list \<Rightarrow> collector" where
  "collect_batch label kind rf rt results =
     foldl (collect_result label kind rf (rt_memberKeys rt)) (collector_init (length (rt_replicasOf rt))) results"

record batch_report =
  b_Outcome :: string
  b_Ingesters :: "string list"
  b_Err :: "quorum_error option"

definition batch_report :: "string \<Rightarrow> nat \<Rightarrow> collector \<Rightarrow> batch_report" where
  "batch_report kind rf c =
     (let qe = quorumErr kind rf c in
      \<lparr>b_Outcome = (if qe \<noteq> None then ''failed'' else if c_anyFailure c then ''degraded'' else ''full''),
       b_Ingesters = sort_compact (concat (c_failedBy c)), b_Err = qe\<rparr>)"

datatype write_error = CallerGone | RouteFailed ring_error | RouterClosed | QuorumMissed quorum_error

text \<open>
  The whole of \<^verbatim>\<open>replicate\<close>: \<^verbatim>\<open>gone\<close> says that the caller's context had ended before, \<^verbatim>\<open>results\<close> are
  the answers of the members so far, in the order they arrive. \<^const>\<open>None\<close> is a caller still waiting,
  \<^term>\<open>Some None\<close> success.
\<close>

definition replicate_batch :: "(string \<Rightarrow> string) \<Rightarrow> string \<Rightarrow> ring \<Rightarrow> nat \<Rightarrow> bool \<Rightarrow> bool \<Rightarrow> ('a \<Rightarrow> u64) \<Rightarrow> 'a list
    \<Rightarrow> (string \<times> rpc_error option) list \<Rightarrow> write_error option option" where
  "replicate_batch label kind r rf gone closed key items results =
     (if gone then Some (Some CallerGone)
      else case route r rf key items of
        Inl e \<Rightarrow> Some (Some (RouteFailed e))
      | Inr rt \<Rightarrow>
        if rt_groups rt = [] then Some None
        else if closed then Some (Some RouterClosed)
        else map_option (map_option QuorumMissed) (c_decided (collect_batch label kind rf rt results)))"

definition PushSamples :: "(string \<Rightarrow> string) \<Rightarrow> ring \<Rightarrow> nat \<Rightarrow> bool \<Rightarrow> bool \<Rightarrow> i64 \<Rightarrow> i64 \<Rightarrow> PendingSample list
    \<Rightarrow> (string \<times> rpc_error option) list \<Rightarrow> write_error option option \<times> i64" where
  "PushSamples label r rf gone closed now nextGen samples results =
     (let (nextGen1, stamped) = stamp now nextGen (lastWritePerSample samples)
      in (replicate_batch label ''series'' r rf gone closed (\<lambda>s. Hash (ps_Labels s)) stamped results, nextGen1))"

definition NewRouter :: "ring \<Rightarrow> int \<Rightarrow> nat option" where
  "NewRouter r ReplicationFactor =
     (let rf = max ReplicationFactor 1 in
      if rf > int (length (Members r)) then None else Some (nat rf))"


section \<open>Replica sets\<close>

text \<open>What a quorum argument needs of replica sets; the router, the store sink and the readers rely on nothing else.\<close>

locale replica_sets =
  fixes ok :: "'r \<Rightarrow> nat \<Rightarrow> bool" and reps :: "'r \<Rightarrow> nat \<Rightarrow> 'k \<Rightarrow> 'm list"
  assumes reps_distinct: "ok r rf \<Longrightarrow> distinct (reps r rf k)"
    and reps_length: "ok r rf \<Longrightarrow> length (reps r rf k) = rf"
begin

lemma split_count: "ok r rf \<Longrightarrow> card {m \<in> set (reps r rf k). P m} + card {m \<in> set (reps r rf k). \<not> P m} = rf"
proof -
  assume a: "ok r rf"
  have "card {m \<in> set (reps r rf k). P m} + card {m \<in> set (reps r rf k). \<not> P m}
    = card ({m \<in> set (reps r rf k). P m} \<union> {m \<in> set (reps r rf k). \<not> P m})"
    by (subst card_Un_disjoint) auto
  also have "{m \<in> set (reps r rf k). P m} \<union> {m \<in> set (reps r rf k). \<not> P m} = set (reps r rf k)" by blast
  finally show ?thesis using distinct_card [OF reps_distinct [OF a]] reps_length [OF a] by simp
qed

text \<open>A majority of acknowledgements leaves a replica to read while fewer than a majority are out.\<close>

lemma survivor:
  assumes "ok r rf" "quorum rf \<le> card {m \<in> set (reps r rf k). P m}" "finite Out" "card Out \<le> quorum rf - 1"
  shows "\<exists>m \<in> set (reps r rf k). P m \<and> m \<notin> Out"
proof (rule ccontr)
  assume "\<not> ?thesis"
  then have "{m \<in> set (reps r rf k). P m} \<subseteq> Out" by blast
  then have "card {m \<in> set (reps r rf k). P m} \<le> card Out" using assms(3) by (rule card_mono [rotated])
  then show False using assms(2,4) by (simp add: quorum_def)
qed

end

definition ring_reps :: "ring \<Rightarrow> nat \<Rightarrow> u64 \<Rightarrow> string list" where
  "ring_reps r rf k = projr (Replicas r k (int rf))"

definition rf_ok :: "ring \<Rightarrow> nat \<Rightarrow> bool" where
  "rf_ok r rf \<longleftrightarrow> ring_ok r \<and> 1 \<le> rf \<and> rf \<le> length (r_members r)"

lemma ring_reps: "rf_ok r rf \<Longrightarrow> Replicas r k (int rf) = Inr (ring_reps r rf k)"
  using Replicas_prefs [of r "int rf" k] by (auto simp: rf_ok_def ring_reps_def)

lemma ring_reps_prefs: "rf_ok r rf \<Longrightarrow> ring_reps r rf k = take rf (prefs r k)"
  using Replicas_prefs [of r "int rf" k] by (auto simp: rf_ok_def ring_reps_def)

lemma ring_reps_members: "rf_ok r rf \<Longrightarrow> set (ring_reps r rf k) \<subseteq> set (r_members r)"
  using prefs_all [of r k] by (auto simp: ring_reps_prefs rf_ok_def dest: in_set_takeD)

interpretation ring_replicas: replica_sets rf_ok ring_reps
proof unfold_locales
  fix r rf k assume ok: "rf_ok r rf"
  note ring_reps_prefs [OF ok, of k]
  then show "distinct (ring_reps r rf k)" "length (ring_reps r rf k) = rf"
    using ok prefs_all [of r k] by (auto simp: rf_ok_def)
qed

section \<open>Routing is correct\<close>

lemma map_append_of: "map_of (map_append k v m) k' = (if k' = k then Some ((case map_of m k of None \<Rightarrow> [] | Some vs \<Rightarrow> vs) @ [v]) else map_of m k')"
  by (simp add: map_append_def update_conv')

lemma map_append_keys: "distinct (map fst m) \<Longrightarrow> distinct (map fst (map_append k v m))"
  by (simp add: map_append_def distinct_update)

lemma fold_append:
  "distinct ms \<Longrightarrow> map_of (foldl (\<lambda>g m. map_append m v g) g ms) m' =
     (if m' \<in> set ms then Some ((case map_of g m' of None \<Rightarrow> [] | Some vs \<Rightarrow> vs) @ [v]) else map_of g m')"
  by (induction ms arbitrary: g) (auto simp: map_append_of)

lemma fold_append_keys: "distinct (map fst g) \<Longrightarrow> distinct (map fst (foldl (\<lambda>g m. map_append m v g) g ms))"
  by (induction ms arbitrary: g) (auto simp: map_append_keys)

definition some_list :: "'a list \<Rightarrow> 'a list option" where "some_list xs = (if xs = [] then None else Some xs)"

lemma some_list_snoc: "Some ((case some_list xs of None \<Rightarrow> [] | Some vs \<Rightarrow> vs) @ [v]) = some_list (xs @ [v])"
  by (simp add: some_list_def)

definition route_ok :: "ring \<Rightarrow> nat \<Rightarrow> ('a \<Rightarrow> u64) \<Rightarrow> 'a list \<Rightarrow> 'a routing \<Rightarrow> bool" where
  "route_ok r rf key items rt \<longleftrightarrow>
     (\<exists>ks. distinct ks \<and> set ks = key ` set items \<and> rt_replicasOf rt = map (ring_reps r rf) ks
       \<and> (\<forall>k. map_of (rt_keyIdx rt) k = map_of (zip ks [0..<length ks]) k)
       \<and> distinct (map fst (rt_groups rt))
       \<and> (\<forall>m. map_of (rt_groups rt) m = some_list (filter (\<lambda>it. m \<in> set (ring_reps r rf (key it))) items))
       \<and> (\<forall>m. map_of (rt_memberKeys rt) m = some_list (filter (\<lambda>i. m \<in> set (ring_reps r rf (ks ! i))) [0..<length ks])))"

lemma map_of_zip_upt: "distinct ks \<Longrightarrow> map_of (zip ks [0..<length ks]) k = Some i \<longleftrightarrow> i < length ks \<and> ks ! i = k"
  by (auto simp: in_set_zip simp flip: map_of_eq_Some_iff [of "zip ks [0..<length ks]"] distinct_map)

lemma route_loop_ok:
  assumes rf: "rf_ok r rf"
  shows "route_ok r rf key seen rt \<Longrightarrow> \<exists>rt'. route_loop r rf key rt items = Inr rt' \<and> route_ok r rf key (seen @ items) rt'"
proof (induction items arbitrary: seen rt)
  case (Cons it items)
  note dist = ring_replicas.reps_distinct [OF rf]
  obtain ks where K: "distinct ks" "set ks = key ` set seen" "rt_replicasOf rt = map (ring_reps r rf) ks"
    "\<And>k. map_of (rt_keyIdx rt) k = map_of (zip ks [0..<length ks]) k" "distinct (map fst (rt_groups rt))"
    "\<And>m. map_of (rt_groups rt) m = some_list (filter (\<lambda>it. m \<in> set (ring_reps r rf (key it))) seen)"
    "\<And>m. map_of (rt_memberKeys rt) m = some_list (filter (\<lambda>i. m \<in> set (ring_reps r rf (ks ! i))) [0..<length ks])"
    using Cons.prems unfolding route_ok_def by blast
  have grp: "map_of (foldl (\<lambda>g m. map_append m it g) (rt_groups rt) (ring_reps r rf (key it))) m
      = some_list (filter (\<lambda>it. m \<in> set (ring_reps r rf (key it))) (seen @ [it]))" for m
    using K(6) by (simp add: fold_append [OF dist] some_list_snoc)
  have grpd: "distinct (map fst (foldl (\<lambda>g m. map_append m it g) (rt_groups rt) (ring_reps r rf (key it))))"
    by (rule fold_append_keys [OF K(5)])
  have "\<exists>rt1. route_loop r rf key rt (it # items) = route_loop r rf key rt1 items \<and> route_ok r rf key (seen @ [it]) rt1"
  proof (cases "map_of (rt_keyIdx rt) (key it)")
    case (Some ki)
    then have ki: "ki < length ks" "ks ! ki = key it" using map_of_zip_upt [OF K(1)] K(4) by auto
    then have "key it \<in> key ` set seen" using nth_mem K(2) by metis
    then have "route_ok r rf key (seen @ [it]) (group_item it ki rt)"
      unfolding route_ok_def using K grp grpd ki
      by (intro exI [of _ ks]) (auto simp: group_item_def)
    then show ?thesis using Some by simp blast
  next
    case None
    then have new: "key it \<notin> set ks" using K(1,4) by (metis in_set_conv_nth map_of_zip_upt option.distinct(1))
    define rt1 where "rt1 = rt\<lparr>rt_keyIdx := AList.update (key it) (length ks) (rt_keyIdx rt),
        rt_replicasOf := rt_replicasOf rt @ [ring_reps r rf (key it)],
        rt_memberKeys := foldl (\<lambda>mk m. map_append m (length ks) mk) (rt_memberKeys rt) (ring_reps r rf (key it))\<rparr>"
    have n: "length (rt_replicasOf rt) = length ks" using K(3) by simp
    have "route_loop r rf key rt (it # items) = route_loop r rf key (group_item it (length ks) rt1) items"
      using None ring_reps [OF rf, of "key it"] by (simp add: Let_def n rt1_def)
    moreover have "route_ok r rf key (seen @ [it]) (group_item it (length ks) rt1)"
      unfolding route_ok_def
    proof (intro exI [of _ "ks @ [key it]"] conjI allI)
      show "distinct (ks @ [key it])" "set (ks @ [key it]) = key ` set (seen @ [it])" using K(1,2) new by auto
      show "rt_replicasOf (group_item it (length ks) rt1) = map (ring_reps r rf) (ks @ [key it])"
        using K(3) by (simp add: group_item_def rt1_def)
      show "map_of (rt_keyIdx (group_item it (length ks) rt1)) k = map_of (zip (ks @ [key it]) [0..<length (ks @ [key it])]) k" for k
      proof -
        define Z where "Z = zip ks [0..<length ks]"
        have "zip (ks @ [key it]) [0..<length (ks @ [key it])] = Z @ [(key it, length ks)]" by (simp add: Z_def)
        then show ?thesis using K(4) [of k, folded Z_def] None
          by (cases "map_of Z k") (auto simp: group_item_def rt1_def update_conv' map_add_def)
      qed
      show "distinct (map fst (rt_groups (group_item it (length ks) rt1)))"
        using grpd by (simp add: group_item_def rt1_def nth_append K(3))
      show "map_of (rt_groups (group_item it (length ks) rt1)) m = some_list (filter (\<lambda>it. m \<in> set (ring_reps r rf (key it))) (seen @ [it]))" for m
        using grp by (simp add: group_item_def rt1_def nth_append K(3))
      show "map_of (rt_memberKeys (group_item it (length ks) rt1)) m
          = some_list (filter (\<lambda>i. m \<in> set (ring_reps r rf ((ks @ [key it]) ! i))) [0..<length (ks @ [key it])])" for m
      proof -
        have "filter (\<lambda>i. m \<in> set (ring_reps r rf ((ks @ [key it]) ! i))) [0..<length ks] = filter (\<lambda>i. m \<in> set (ring_reps r rf (ks ! i))) [0..<length ks]"
          by (rule filter_cong) (auto simp: nth_append)
        then show ?thesis using K(7) by (simp add: group_item_def rt1_def fold_append [OF dist] some_list_snoc)
      qed
    qed
    ultimately show ?thesis by blast
  qed
  then obtain rt1 where "route_loop r rf key rt (it # items) = route_loop r rf key rt1 items" "route_ok r rf key (seen @ [it]) rt1" by blast
  then show ?case using Cons.IH [of "seen @ [it]" rt1] by simp
qed auto

lemma route_ok:
  assumes "rf_ok r rf"
  obtains rt where "route r rf key items = Inr rt" "route_ok r rf key items rt"
proof -
  have "route_ok r rf key [] \<lparr>rt_keyIdx = [], rt_replicasOf = [], rt_groups = [], rt_memberKeys = []\<rparr>"
    unfolding route_ok_def by (intro exI [of _ "[]"]) (simp add: some_list_def)
  from route_loop_ok [OF assms this, of items] show thesis using that by (auto simp: route_def)
qed


section \<open>The collector is correct\<close>

definition acks_of :: "string list \<Rightarrow> (string \<times> rpc_error option) list \<Rightarrow> nat" where
  "acks_of reps rs = length (filter (\<lambda>(m, e). m \<in> set reps \<and> e = None) rs)"

definition fails_of :: "string list \<Rightarrow> (string \<times> rpc_error option) list \<Rightarrow> rpc_error list" where
  "fails_of reps rs = List.map_filter (\<lambda>(m, e). if m \<in> set reps then e else None) rs"

definition short_keys :: "nat \<Rightarrow> (nat \<Rightarrow> nat) \<Rightarrow> nat \<Rightarrow> nat" where
  "short_keys need A n = card {i. i < n \<and> A i < need}"

definition counts :: "nat \<Rightarrow> nat \<Rightarrow> (nat \<Rightarrow> nat) \<Rightarrow> (nat \<Rightarrow> rpc_error list) \<Rightarrow> collector \<Rightarrow> bool" where
  "counts need n A F c \<longleftrightarrow> c_acks c = map A [0..<n] \<and> c_fails c = map F [0..<n] \<and> length (c_failedBy c) = n
     \<and> c_pending c = short_keys need A n"

lemma map_upt_update: "i < n \<Longrightarrow> (map f [0..<n])[i := x] = map (f(i := x)) [0..<n]"
  by (rule nth_equalityI) (auto simp: nth_list_update)

lemma short_keys_ack:
  assumes "i < n"
  shows "short_keys need (A(i := A i + 1)) n = (if A i + 1 = need then short_keys need A n - 1 else short_keys need A n)"
proof (cases "A i + 1 = need")
  case True
  then have "{j. j < n \<and> A j < need} = insert i {j. j < n \<and> (A(i := A i + 1)) j < need}" using assms by auto
  then show ?thesis using True by (simp add: short_keys_def)
next
  case False
  then have "{j. j < n \<and> A j < need} = {j. j < n \<and> (A(i := A i + 1)) j < need}" by auto
  then show ?thesis using False by (simp add: short_keys_def)
qed

lemma collect_keys:
  assumes "counts (quorum rf) n A F c" "distinct ks" "set ks \<subseteq> {..<n}" "foldl (collect_key rf l err) (c, kf) ks = (c', kf')"
  shows "case err of
      None \<Rightarrow> counts (quorum rf) n (\<lambda>i. if i \<in> set ks then A i + 1 else A i) F c' \<and> kf' = kf
    | Some e \<Rightarrow> counts (quorum rf) n A (\<lambda>i. if i \<in> set ks then F i @ [e] else F i) c'
        \<and> (kf' \<longleftrightarrow> kf \<or> (\<exists>i \<in> set ks. length (F i) + 1 = rf - quorum rf + 1))"
    "c_decided c' = c_decided c" "c_anyFailure c' = c_anyFailure c"
proof -
  have "(case err of
      None \<Rightarrow> counts (quorum rf) n (\<lambda>i. if i \<in> set ks then A i + 1 else A i) F c' \<and> kf' = kf
    | Some e \<Rightarrow> counts (quorum rf) n A (\<lambda>i. if i \<in> set ks then F i @ [e] else F i) c'
        \<and> (kf' \<longleftrightarrow> kf \<or> (\<exists>i \<in> set ks. length (F i) + 1 = rf - quorum rf + 1)))
    \<and> c_decided c' = c_decided c \<and> c_anyFailure c' = c_anyFailure c"
    using assms
  proof (induction ks arbitrary: c kf A F)
    case Nil
    then show ?case by (auto split: option.splits)
  next
    case (Cons k ks)
    have k: "k < n" "k \<notin> set ks" "distinct ks" "set ks \<subseteq> {..<n}" using Cons.prems by auto
    obtain c1 kf1 where c1: "collect_key rf l err (c, kf) k = (c1, kf1)" by (metis surj_pair)
    have rest: "foldl (collect_key rf l err) (c1, kf1) ks = (c', kf')" using Cons.prems(4) c1 by simp
    have C: "c_acks c ! k = A k" "c_fails c ! k = F k" using Cons.prems(1) k(1) by (simp_all add: counts_def)
    show ?case
    proof (cases err)
      case None
      have h: "counts (quorum rf) n (A(k := A k + 1)) F c1" "kf1 = kf" "c_decided c1 = c_decided c" "c_anyFailure c1 = c_anyFailure c"
        using Cons.prems(1) c1 None C short_keys_ack [OF k(1), of "quorum rf" A] k(1)
        by (auto simp: counts_def collect_key_def Let_def map_upt_update)
      have e: "(\<lambda>i. if i \<in> set ks then (A(k := A k + 1)) i + 1 else (A(k := A k + 1)) i)
          = (\<lambda>i. if i \<in> set (k # ks) then A i + 1 else A i)" using k(2) by auto
      show ?thesis using Cons.IH [OF h(1) k(3,4) rest] unfolding None option.case h(2-4) e .
    next
      case (Some e)
      have h: "counts (quorum rf) n A (F(k := F k @ [e])) c1" "kf1 \<longleftrightarrow> kf \<or> length (F k) + 1 = rf - quorum rf + 1"
        "c_decided c1 = c_decided c" "c_anyFailure c1 = c_anyFailure c"
        using Cons.prems(1) c1 Some C k(1)
        by (auto simp: counts_def collect_key_def Let_def map_upt_update)
      have e: "(\<lambda>i. if i \<in> set ks then (F(k := F k @ [e])) i @ [e] else (F(k := F k @ [e])) i)
          = (\<lambda>i. if i \<in> set (k # ks) then F i @ [e] else F i)" using k(2) by auto
      have x: "(\<exists>i \<in> set ks. length ((F(k := F k @ [e])) i) + 1 = rf - quorum rf + 1)
          \<longleftrightarrow> (\<exists>i \<in> set ks. length (F i) + 1 = rf - quorum rf + 1)" using k(2) by auto
      show ?thesis using Cons.IH [OF h(1) k(3,4) rest] unfolding Some option.case h(2-4) e x by auto
    qed
  qed
  then show "case err of
      None \<Rightarrow> counts (quorum rf) n (\<lambda>i. if i \<in> set ks then A i + 1 else A i) F c' \<and> kf' = kf
    | Some e \<Rightarrow> counts (quorum rf) n A (\<lambda>i. if i \<in> set ks then F i @ [e] else F i) c'
        \<and> (kf' \<longleftrightarrow> kf \<or> (\<exists>i \<in> set ks. length (F i) + 1 = rf - quorum rf + 1))"
    "c_decided c' = c_decided c" "c_anyFailure c' = c_anyFailure c" by blast+
qed


lemma acks_snoc:
  "acks_of reps (rs @ [(m, e)]) = (if m \<in> set reps \<and> e = None then acks_of reps rs + 1 else acks_of reps rs)"
  "fails_of reps (rs @ [(m, e)]) = (if m \<in> set reps then fails_of reps rs @ (case e of None \<Rightarrow> [] | Some x \<Rightarrow> [x]) else fails_of reps rs)"
  by (simp_all add: acks_of_def fails_of_def List.map_filter_def split: option.split)

lemma acks_mono: "short_keys need (\<lambda>i. acks_of (R i) rs) n = 0 \<Longrightarrow> short_keys need (\<lambda>i. acks_of (R i) (rs @ [r])) n = 0"
proof -
  assume "short_keys need (\<lambda>i. acks_of (R i) rs) n = 0"
  then have "\<forall>i < n. need \<le> acks_of (R i) rs" by (auto simp: short_keys_def not_less) (meson not_le)
  then have "\<forall>i < n. need \<le> acks_of (R i) (rs @ [r])" by (cases r) (auto simp: acks_snoc intro: le_SucI)
  then show ?thesis by (auto simp: short_keys_def)
qed

text \<open>The state of the collector after any prefix of the results.\<close>

definition collected :: "nat \<Rightarrow> string list list \<Rightarrow> (string \<times> rpc_error option) list \<Rightarrow> collector \<Rightarrow> bool" where
  "collected rf R rs c \<longleftrightarrow>
     counts (quorum rf) (length R) (\<lambda>i. acks_of (R ! i) rs) (\<lambda>i. fails_of (R ! i) rs) c
     \<and> (c_anyFailure c \<longleftrightarrow> (\<exists>(m, e) \<in> set rs. e \<noteq> None))
     \<and> (case c_decided c of
          None \<Rightarrow> short_keys (quorum rf) (\<lambda>i. acks_of (R ! i) rs) (length R) > 0
            \<and> (\<forall>i < length R. length (fails_of (R ! i) rs) \<le> rf - quorum rf)
        | Some None \<Rightarrow> short_keys (quorum rf) (\<lambda>i. acks_of (R ! i) rs) (length R) = 0
        | Some (Some qe) \<Rightarrow> (\<exists>i < length R. length (fails_of (R ! i) rs) > rf - quorum rf)
            \<and> qe_Total qe = length R \<and> 0 < qe_Failed qe
            \<and> qe_Failed qe \<le> card {i. i < length R \<and> length (fails_of (R ! i) rs) > rf - quorum rf})"

lemma quorumErr_counts:
  assumes "counts need n A F c"
  shows "quorumErr kind rf c = None \<longleftrightarrow> (\<forall>i < n. length (F i) \<le> rf - quorum rf)"
    "quorumErr kind rf c = Some qe \<Longrightarrow> qe_Total qe = n \<and> 0 < qe_Failed qe
      \<and> qe_Failed qe = card {i. i < n \<and> length (F i) > rf - quorum rf}"
proof -
  have f: "filter (\<lambda>ki. length (c_fails c ! ki) > rf - quorum rf) [0..<length (c_fails c)]
      = filter (\<lambda>i. length (F i) > rf - quorum rf) [0..<n]"
    using assms by (auto simp: counts_def intro: filter_cong)
  have "quorumErr kind rf c = None \<longleftrightarrow> filter (\<lambda>i. length (F i) > rf - quorum rf) [0..<n] = []"
    unfolding quorumErr_def Let_def f by simp
  then show "quorumErr kind rf c = None \<longleftrightarrow> (\<forall>i < n. length (F i) \<le> rf - quorum rf)"
    unfolding filter_empty_conv not_less set_upt by (metis atLeast0LessThan lessThan_iff)
  have "length (filter (\<lambda>i. length (F i) > rf - quorum rf) [0..<n]) = card {i. i < n \<and> length (F i) > rf - quorum rf}"
    by (subst distinct_card [symmetric]) (auto intro: arg_cong [where f = card])
  moreover have "quorumErr kind rf c = Some qe \<Longrightarrow> filter (\<lambda>i. length (F i) > rf - quorum rf) [0..<n] \<noteq> [] \<and> qe_Total qe = length (c_fails c)
      \<and> qe_Failed qe = length (filter (\<lambda>i. length (F i) > rf - quorum rf) [0..<n])"
    unfolding quorumErr_def Let_def f by (auto split: if_splits)
  moreover have "length (c_fails c) = n" using assms by (simp add: counts_def)
  ultimately show "quorumErr kind rf c = Some qe \<Longrightarrow> qe_Total qe = n \<and> 0 < qe_Failed qe
      \<and> qe_Failed qe = card {i. i < n \<and> length (F i) > rf - quorum rf}"
    by (metis length_greater_0_conv)
qed

lemma collect_step:
  assumes mk: "\<And>m. map_of mk m = some_list (filter (\<lambda>i. m \<in> set (R ! i)) [0..<length R])"
    and C: "collected rf R rs c"
  shows "collected rf R (rs @ [r]) (collect_result label kind rf mk c r)"
proof -
  obtain m err where r: "r = (m, err)" by (cases r)
  let ?n = "length R" and ?ks = "filter (\<lambda>i. m \<in> set (R ! i)) [0..<length R]"
  let ?A = "\<lambda>rs i. acks_of (R ! i) rs" and ?F = "\<lambda>rs i. fails_of (R ! i) rs"
  define c0 where "c0 = (if err \<noteq> None then c\<lparr>c_anyFailure := True\<rparr> else c)"
  have keys: "(case map_of mk m of None \<Rightarrow> [] | Some ks \<Rightarrow> ks) = ?ks" by (simp add: mk some_list_def)
  obtain c1 kf where c1: "foldl (collect_key rf (label m) err) (c0, False) ?ks = (c1, kf)" by (metis surj_pair)
  have cnt: "counts (quorum rf) ?n (?A rs) (?F rs) c" using C by (simp add: collected_def)
  then have cnt0: "counts (quorum rf) ?n (?A rs) (?F rs) c0" by (simp add: counts_def c0_def)
  have ks: "distinct ?ks" "set ?ks \<subseteq> {..<?n}" by auto
  note K = collect_keys [OF cnt0 ks c1]
  have ain: "counts (quorum rf) ?n A' F' x \<longleftrightarrow> counts (quorum rf) ?n A'' F'' x"
    if "\<forall>i < ?n. A' i = A'' i" "\<forall>i < ?n. F' i = F'' i" for A' A'' F' F'' x
  proof -
    have "{i. i < ?n \<and> A' i < quorum rf} = {i. i < ?n \<and> A'' i < quorum rf}" using that(1) by auto
    moreover have "map A' [0..<?n] = map A'' [0..<?n]" "map F' [0..<?n] = map F'' [0..<?n]" using that by simp_all
    ultimately show ?thesis unfolding counts_def short_keys_def by presburger
  qed
  have cnt1: "counts (quorum rf) ?n (?A (rs @ [r])) (?F (rs @ [r])) c1"
  proof (cases err)
    case None
    have "counts (quorum rf) ?n (\<lambda>i. if i \<in> set ?ks then ?A rs i + 1 else ?A rs i) (?F rs) c1" using K(1) unfolding None option.case by blast
    then show ?thesis by (rule iffD1 [OF ain, rotated 2]) (auto simp: r None acks_snoc)
  next
    case (Some e)
    have "counts (quorum rf) ?n (?A rs) (\<lambda>i. if i \<in> set ?ks then ?F rs i @ [e] else ?F rs i) c1" using K(1) unfolding Some option.case by blast
    then show ?thesis by (rule iffD1 [OF ain, rotated 2]) (auto simp: r Some acks_snoc)
  qed
  have grow: "length (?F rs i) \<le> length (?F (rs @ [r]) i)" for i by (cases err) (simp_all add: r acks_snoc)
  have kf: "kf \<longleftrightarrow> err \<noteq> None \<and> (\<exists>i < ?n. m \<in> set (R ! i) \<and> length (?F rs i) = rf - quorum rf)"
    using K(1) by (cases err) auto
  have any: "c_anyFailure c1 \<longleftrightarrow> (\<exists>(m, e) \<in> set (rs @ [r]). e \<noteq> None)"
    using C K(3) by (auto simp: collected_def c0_def r)
  define c2 where "c2 = collect_result label kind rf mk c r"
  have c2: "c2 = (if c_decided c1 \<noteq> None then c1 else if kf then c1\<lparr>c_decided := Some (quorumErr kind rf c1)\<rparr>
      else if c_pending c1 = 0 then c1\<lparr>c_decided := Some None\<rparr> else c1)"
    unfolding c2_def collect_result_def r prod.case keys c0_def [symmetric] Let_def c1 ..
  have dec: "c_decided c1 = c_decided c" using K(2) by (simp add: c0_def)
  have cnt2: "counts (quorum rf) ?n (?A (rs @ [r])) (?F (rs @ [r])) c2" using cnt1 by (auto simp: c2 counts_def)
  have any2: "c_anyFailure c2 \<longleftrightarrow> (\<exists>(m, e) \<in> set (rs @ [r]). e \<noteq> None)" using any by (auto simp: c2)
  have Cd: "case c_decided c of None \<Rightarrow> short_keys (quorum rf) (?A rs) ?n > 0 \<and> (\<forall>i < ?n. length (?F rs i) \<le> rf - quorum rf)
      | Some None \<Rightarrow> short_keys (quorum rf) (?A rs) ?n = 0
      | Some (Some qe) \<Rightarrow> (\<exists>i < ?n. length (?F rs i) > rf - quorum rf) \<and> qe_Total qe = ?n \<and> 0 < qe_Failed qe
          \<and> qe_Failed qe \<le> card {i. i < ?n \<and> length (?F rs i) > rf - quorum rf}"
    using C by (simp add: collected_def)
  have "case c_decided c2 of None \<Rightarrow> short_keys (quorum rf) (?A (rs @ [r])) ?n > 0 \<and> (\<forall>i < ?n. length (?F (rs @ [r]) i) \<le> rf - quorum rf)
      | Some None \<Rightarrow> short_keys (quorum rf) (?A (rs @ [r])) ?n = 0
      | Some (Some qe) \<Rightarrow> (\<exists>i < ?n. length (?F (rs @ [r]) i) > rf - quorum rf) \<and> qe_Total qe = ?n \<and> 0 < qe_Failed qe
          \<and> qe_Failed qe \<le> card {i. i < ?n \<and> length (?F (rs @ [r]) i) > rf - quorum rf}"
  proof (cases "c_decided c")
    case None
    show ?thesis
    proof (cases kf)
      case True
      then obtain i where i: "i < ?n" "length (?F (rs @ [r]) i) > rf - quorum rf"
        using kf by (auto simp: r acks_snoc)
      obtain qe where qe: "quorumErr kind rf c1 = Some qe" using quorumErr_counts(1) [OF cnt1] i by (metis not_None_eq not_le)
      then have "c_decided c2 = Some (Some qe)" using None True dec by (simp add: c2)
      then show ?thesis using quorumErr_counts(2) [OF cnt1 qe] i by auto
    next
      case False
      have "length (?F (rs @ [r]) i) \<le> rf - quorum rf" if "i < ?n" for i
      proof -
        have "length (?F rs i) \<le> rf - quorum rf" using Cd None that by simp
        then have "err \<noteq> None \<and> m \<in> set (R ! i) \<longrightarrow> length (?F rs i) < rf - quorum rf" using False kf that by (metis le_neq_implies_less)
        then show ?thesis using \<open>length (?F rs i) \<le> rf - quorum rf\<close> by (cases err) (auto simp: r acks_snoc)
      qed
      moreover have "c_pending c1 = short_keys (quorum rf) (?A (rs @ [r])) ?n" using cnt1 by (simp add: counts_def)
      ultimately show ?thesis using None False dec by (auto simp: c2)
    qed
  next
    case (Some d)
    then have d2: "c_decided c2 = Some d" using dec by (simp add: c2)
    show ?thesis
    proof (cases d)
      case None
      then show ?thesis using Cd Some d2 acks_mono [of "quorum rf" "\<lambda>i. R ! i" rs ?n r] by simp
    next
      case (Some qe)
      have "{i. i < ?n \<and> length (?F rs i) > rf - quorum rf} \<subseteq> {i. i < ?n \<and> length (?F (rs @ [r]) i) > rf - quorum rf}"
        using grow less_le_trans by blast
      then have "card {i. i < ?n \<and> length (?F rs i) > rf - quorum rf} \<le> card {i. i < ?n \<and> length (?F (rs @ [r]) i) > rf - quorum rf}"
        by (intro card_mono) auto
      then show ?thesis using Cd \<open>c_decided c = Some d\<close> Some d2 grow by (auto dest: less_le_trans)
    qed
  qed
  then show ?thesis using cnt2 any2 unfolding collected_def c2_def by blast
qed


lemma collected_all:
  assumes mk: "\<And>m. map_of (rt_memberKeys rt) m = some_list (filter (\<lambda>i. m \<in> set (rt_replicasOf rt ! i)) [0..<length (rt_replicasOf rt)])"
    and "rt_replicasOf rt \<noteq> []" "0 < rf"
  shows "collected rf (rt_replicasOf rt) rs (collect_batch label kind rf rt rs)"
proof (induction rs rule: rev_induct)
  case Nil
  show ?case using assms(2)
    by (simp add: collected_def collect_batch_def collector_init_def counts_def short_keys_def acks_of_def fails_of_def
      List.map_filter_def map_replicate_const quorum_def)
next
  case (snoc r rs)
  then show ?case using collect_step [OF mk snoc] by (simp add: collect_batch_def)
qed

text \<open>Counting results is counting replicas, once every replica has answered.\<close>

lemma acks_card:
  assumes "distinct (map fst rs)"
  shows "acks_of reps rs = card {m \<in> set reps. map_of rs m = Some None}"
    "length (fails_of reps rs) = card {m \<in> set reps. \<exists>e. map_of rs m = Some (Some e)}"
proof -
  have inj: "inj_on fst (set xs)" if "set xs \<subseteq> set rs" for xs using assms that by (auto simp: distinct_map inj_on_def)
  have d: "distinct rs" using assms by (simp add: distinct_map)
  have c: "length (filter P rs) = card (fst ` set (filter P rs))" for P
  proof -
    have "card (fst ` set (filter P rs)) = card (set (filter P rs))" by (rule card_image) (rule inj, auto)
    moreover have "card (set (filter P rs)) = length (filter P rs)" using d by (intro distinct_card) simp
    ultimately show ?thesis by simp
  qed
  have "fst ` set (filter (\<lambda>(m, e). m \<in> set reps \<and> e = None) rs) = {m \<in> set reps. map_of rs m = Some None}"
    using assms by (force simp: image_iff)
  then show "acks_of reps rs = card {m \<in> set reps. map_of rs m = Some None}"
    unfolding acks_of_def c by simp
  have "fst ` set (filter (\<lambda>(m, e). m \<in> set reps \<and> e \<noteq> None) rs) = {m \<in> set reps. \<exists>e. map_of rs m = Some (Some e)}"
    using assms by (force simp: image_iff)
  moreover have "length (fails_of reps rs) = length (filter (\<lambda>(m, e). m \<in> set reps \<and> e \<noteq> None) rs)"
    by (auto simp: fails_of_def List.map_filter_def case_prod_beta intro!: arg_cong [where f = length] filter_cong)
  ultimately show "length (fails_of reps rs) = card {m \<in> set reps. \<exists>e. map_of rs m = Some (Some e)}" using c by simp
qed

lemma decided_stays: "c_decided c \<noteq> None \<Longrightarrow> c_decided (foldl (collect_result label kind rf mk) c rs) = c_decided c"
proof (induction rs arbitrary: c)
  case (Cons r rs)
  have k: "c_decided (fst (foldl (collect_key rf l err) ck ks)) = c_decided (fst ck)" for l err ck ks
    by (induction ks arbitrary: ck) (auto simp: collect_key_def Let_def split: prod.splits option.splits)
  have "c_decided (collect_result label kind rf mk c r) = c_decided c"
  proof -
    obtain m err where r: "r = (m, err)" by (cases r)
    define c0 where "c0 = (if err \<noteq> None then c\<lparr>c_anyFailure := True\<rparr> else c)"
    obtain c1 kf where c1: "foldl (collect_key rf (label m) err) (c0, False) (case map_of mk m of None \<Rightarrow> [] | Some ks \<Rightarrow> ks) = (c1, kf)"
      by (metis surj_pair)
    have "c_decided c0 = c_decided c" by (simp add: c0_def)
    then have "c_decided c1 = c_decided c"
      using k [of "label m" err "(c0, False)" "case map_of mk m of None \<Rightarrow> [] | Some ks \<Rightarrow> ks"] unfolding c1 fst_conv by simp
    moreover have "collect_result label kind rf mk c r = (if c_decided c1 \<noteq> None then c1
        else if kf then c1\<lparr>c_decided := Some (quorumErr kind rf c1)\<rparr>
        else if c_pending c1 = 0 then c1\<lparr>c_decided := Some None\<rparr> else c1)"
      unfolding collect_result_def r prod.case c0_def [symmetric] Let_def c1 ..
    ultimately show ?thesis using Cons.prems by simp
  qed
  then show ?case using Cons by simp
qed simp

lemma NewRouter_ok: "NewRing ms = Inr r \<Longrightarrow> NewRouter r f = Some rf \<Longrightarrow> rf_ok r rf"
  using NewRing_ok [of ms r] by (auto simp: NewRouter_def rf_ok_def Members_def Let_def max_def split: if_splits)

lemma routed_batch:
  assumes "NewRing ms = Inr r" "NewRouter r f = Some rf" "items \<noteq> []"
  shows "\<exists>rt. route r rf key items = Inr rt \<and> distinct (map fst (rt_groups rt))
    \<and> (\<forall>m. map_of (rt_groups rt) m = some_list (filter (\<lambda>it. m \<in> set (ring_reps r rf (key it))) items))
    \<and> (\<forall>rs n. distinct (map fst rs) \<longrightarrow> fst ` set rs = fst ` set (rt_groups rt) \<longrightarrow>
        (let answer = replicate_batch label kind r rf False False key items;
             missed = {k \<in> key ` set items. card {m \<in> set (ring_reps r rf k). map_of rs m = Some None} < rf div 2 + 1}
         in (if missed = {} then answer rs = Some None
             else \<exists>qe. answer rs = Some (Some (QuorumMissed qe)) \<and> 0 < qe_Failed qe \<and> qe_Failed qe \<le> card missed
               \<and> qe_Total qe = card (key ` set items))
           \<and> (answer (take n rs) = None \<or> answer (take n rs) = answer rs)))"
proof -
  note rf = NewRouter_ok [OF assms(1,2)]
  note dist = ring_replicas.reps_distinct [OF rf] and len = ring_replicas.reps_length [OF rf]
  let ?R = "ring_reps r rf"
  obtain rt where rt: "route r rf key items = Inr rt" "route_ok r rf key items rt" using route_ok [OF rf] by blast
  obtain ks where K: "distinct ks" "set ks = key ` set items" "rt_replicasOf rt = map ?R ks"
    "distinct (map fst (rt_groups rt))"
    "\<And>m. map_of (rt_groups rt) m = some_list (filter (\<lambda>it. m \<in> set (?R (key it))) items)"
    "\<And>m. map_of (rt_memberKeys rt) m = some_list (filter (\<lambda>i. m \<in> set (?R (ks ! i))) [0..<length ks])"
    using rt(2) unfolding route_ok_def by blast
  have rfp: "0 < rf" using rf by (simp add: rf_ok_def)
  have mem: "m \<in> fst ` set (rt_groups rt)" if h: "k \<in> set ks" "m \<in> set (?R k)" for k m
  proof -
    obtain it where "it \<in> set items" "key it = k" using K(2) h(1) by auto
    then have "map_of (rt_groups rt) m \<noteq> None" using K(5) [of m] h(2) by (auto simp: some_list_def filter_empty_conv)
    then show ?thesis by (simp add: map_of_eq_None_iff)
  qed
  have ne: "rt_groups rt \<noteq> []" "ks \<noteq> []"
  proof -
    show "ks \<noteq> []" using K(2) assms(3) by auto
    then obtain k where k: "k \<in> set ks" by (cases ks) auto
    then have "?R k \<noteq> []" using len [of k] rfp by auto
    then show "rt_groups rt \<noteq> []" using mem [OF k, of "hd (?R k)"] by auto
  qed
  have main: "(if missed = {} then answer rs = Some None
             else \<exists>qe. answer rs = Some (Some (QuorumMissed qe)) \<and> 0 < qe_Failed qe \<and> qe_Failed qe \<le> card missed
               \<and> qe_Total qe = card (key ` set items))
           \<and> (answer (take n rs) = None \<or> answer (take n rs) = answer rs)"
    if rs: "distinct (map fst rs)" "fst ` set rs = fst ` set (rt_groups rt)"
      and answer: "answer = replicate_batch label kind r rf False False key items"
      and missed: "missed = {k \<in> key ` set items. card {m \<in> set (?R k). map_of rs m = Some None} < rf div 2 + 1}"
    for rs n answer missed
  proof -
    have ans: "answer xs = map_option (map_option QuorumMissed) (c_decided (collect_batch label kind rf rt xs))" for xs
      using ne by (simp add: answer replicate_batch_def rt(1))
    have mk: "map_of (rt_memberKeys rt) m = some_list (filter (\<lambda>i. m \<in> set (rt_replicasOf rt ! i)) [0..<length (rt_replicasOf rt)])" for m
      using K(6) [of m] by (auto simp: K(3) intro!: arg_cong [where f = some_list] filter_cong)
    have C: "collected rf (rt_replicasOf rt) rs (collect_batch label kind rf rt rs)"
      using ne(2) by (intro collected_all [OF mk _ rfp]) (simp add: K(3))
    let ?ok = "\<lambda>k. card {m \<in> set (?R k). map_of rs m = Some None}"
    have A: "acks_of (rt_replicasOf rt ! i) rs = ?ok (ks ! i)" "?ok (ks ! i) + length (fails_of (rt_replicasOf rt ! i) rs) = rf"
      if i: "i < length ks" for i
    proof -
      have k: "ks ! i \<in> set ks" using i by simp
      have "{m \<in> set (?R (ks ! i)). \<exists>e. map_of rs m = Some (Some e)} = {m \<in> set (?R (ks ! i)). \<not> map_of rs m = Some None}"
      proof -
        have "map_of rs m \<noteq> None" if "m \<in> set (?R (ks ! i))" for m
          using mem [OF k that] unfolding rs(2) [symmetric] by (simp add: map_of_eq_None_iff)
        then show ?thesis by (auto simp: not_Some_eq) (metis not_Some_eq)
      qed
      then show "acks_of (rt_replicasOf rt ! i) rs = ?ok (ks ! i)" "?ok (ks ! i) + length (fails_of (rt_replicasOf rt ! i) rs) = rf"
        using acks_card [OF rs(1)] ring_replicas.split_count [OF rf, of "ks ! i" "\<lambda>m. map_of rs m = Some None"] i
        by (simp_all add: K(3))
    qed
    have q: "quorum rf \<le> rf" "quorum rf = rf div 2 + 1" using rfp by (auto simp: quorum_def)
    have short: "short_keys (quorum rf) (\<lambda>i. acks_of (rt_replicasOf rt ! i) rs) (length (rt_replicasOf rt)) = card {i. i < length ks \<and> ?ok (ks ! i) < quorum rf}"
      unfolding short_keys_def using A(1) by (intro arg_cong [where f = card]) (auto simp: K(3))
    have failing: "{i. i < length ks \<and> length (fails_of (rt_replicasOf rt ! i) rs) > rf - quorum rf} = {i. i < length ks \<and> ?ok (ks ! i) < quorum rf}"
    proof -
      have "length (fails_of (rt_replicasOf rt ! i) rs) > rf - quorum rf \<longleftrightarrow> ?ok (ks ! i) < quorum rf" if "i < length ks" for i
        using A(2) [OF that] q(1) by linarith
      then show ?thesis by blast
    qed
    have missed_card: "card {i. i < length ks \<and> ?ok (ks ! i) < quorum rf} = card missed"
    proof -
      have "missed = (\<lambda>i. ks ! i) ` {i. i < length ks \<and> ?ok (ks ! i) < quorum rf}"
        unfolding missed K(2) [symmetric] q(2) by (auto simp: in_set_conv_nth)
      moreover have "inj_on (\<lambda>i. ks ! i) {i. i < length ks \<and> ?ok (ks ! i) < quorum rf}"
        using K(1) by (auto simp: inj_on_def nth_eq_iff_index_eq)
      ultimately show ?thesis by (simp add: card_image)
    qed
    have fin: "finite missed" unfolding missed by simp
    have total: "length (rt_replicasOf rt) = card (key ` set items)" using distinct_card [OF K(1)] K(2,3) by simp
    have lenR: "length (rt_replicasOf rt) = length ks" by (simp add: K(3))
    have dec: "case c_decided (collect_batch label kind rf rt rs) of
        None \<Rightarrow> False | Some None \<Rightarrow> missed = {}
      | Some (Some qe) \<Rightarrow> missed \<noteq> {} \<and> 0 < qe_Failed qe \<and> qe_Failed qe \<le> card missed \<and> qe_Total qe = card (key ` set items)"
    proof (cases "c_decided (collect_batch label kind rf rt rs)")
      case None
      then have "0 < card missed" "\<forall>i < length ks. \<not> length (fails_of (rt_replicasOf rt ! i) rs) > rf - quorum rf"
        using C short missed_card by (auto simp: collected_def lenR)
      moreover from this(2) have "card missed = 0"
        unfolding missed_card [symmetric] failing [symmetric] by (simp add: card_eq_0_iff)
      ultimately show ?thesis by simp
    next
      case (Some d)
      show ?thesis
      proof (cases d)
        case None
        then have "card missed = 0" using C Some short missed_card by (simp add: collected_def)
        then show ?thesis using Some None fin by simp
      next
        case (Some qe)
        have q: "0 < qe_Failed qe" "qe_Failed qe \<le> card {i. i < length ks \<and> length (fails_of (rt_replicasOf rt ! i) rs) > rf - quorum rf}"
          "qe_Total qe = length (rt_replicasOf rt)"
          using C Some \<open>c_decided _ = Some d\<close> by (simp_all add: collected_def lenR)
        then have "qe_Failed qe \<le> card missed" unfolding failing missed_card by simp
        then show ?thesis using q(1,3) Some \<open>c_decided _ = Some d\<close> total by (auto simp only: option.case card.empty)
      qed
    qed
    have pre: "answer (take n rs) = None \<or> answer (take n rs) = answer rs"
    proof -
      have "collect_batch label kind rf rt rs = foldl (collect_result label kind rf (rt_memberKeys rt)) (collect_batch label kind rf rt (take n rs)) (drop n rs)"
        unfolding collect_batch_def foldl_append [symmetric] by simp
      then show ?thesis unfolding ans using decided_stays by (metis option.map_disc_iff)
    qed
    show ?thesis using dec pre unfolding ans by (auto split: option.splits)
  qed
  show ?thesis
    unfolding Let_def using rt(1) K(4,5) main [OF _ _ refl refl] by (intro exI [of _ rt] conjI allI impI) blast+
qed


text \<open>
  C3: a write batch is answered exactly and as early as possible. For any ring, replication factor, batch
  and outcome of the pushes, and in whatever order the answers arrive: every member is sent exactly the
  items whose keys it replicates; once all have answered the caller is answered, with success if and only
  if every key was acknowledged by a majority of its replicas, and otherwise with a quorum error that
  counts at least one and at most the keys that missed it; and an answer given after only some have
  answered is the one all the answers would give.
\<close>

theorem quorum_write_exact:
  assumes "NewRing ms = Inr r" "NewRouter r f = Some rf" "items \<noteq> []"
  shows "\<exists>rt. route r rf key items = Inr rt \<and> distinct (map fst (rt_groups rt))
    \<and> (\<forall>m. map_of (rt_groups rt) m = some_list (filter (\<lambda>it. m \<in> set (ring_reps r rf (key it))) items))
    \<and> (\<forall>rs n. distinct (map fst rs) \<longrightarrow> fst ` set rs = fst ` set (rt_groups rt) \<longrightarrow>
        (let answer = replicate_batch label kind r rf False False key items;
             missed = {k \<in> key ` set items. card {m \<in> set (ring_reps r rf k). map_of rs m = Some None} < rf div 2 + 1}
         in (if missed = {} then answer rs = Some None
             else \<exists>qe. answer rs = Some (Some (QuorumMissed qe)) \<and> 0 < qe_Failed qe \<and> qe_Failed qe \<le> card missed
               \<and> qe_Total qe = card (key ` set items))
           \<and> (answer (take n rs) = None \<or> answer (take n rs) = answer rs)))"
  by (rule routed_batch [OF assms])

definition demo_results :: "(string \<times> rpc_error option) list" where
  "demo_results = [(''b'', None), (''a'', Some ErrUnavailable)]"

theorem quorum_write_exact_witness:
  "\<exists>r qe. NewRing [''b'', ''a''] = Inr r \<and> NewRouter r 2 = Some 2
     \<and> replicate_batch (\<lambda>m. m) ''series'' r 2 False False (\<lambda>_. 42) [()] demo_results = Some (Some (QuorumMissed qe))
     \<and> qe_Failed qe = 1 \<and> qe_Total qe = 1"
proof -
  obtain r where r: "NewRing [''b'', ''a''] = Inr r" using NewRing_accepts [of "[''b'', ''a'']"] by auto
  have m: "r_members r = sort [''b'', ''a'']" using NewRing_ok [OF r] by simp
  have rf: "NewRouter r 2 = Some 2" by (simp add: NewRouter_def Members_def m)
  note ok = NewRouter_ok [OF r rf]
  have "length (ring_reps r 2 42) = 2" "distinct (ring_reps r 2 42)" "set (ring_reps r 2 42) \<subseteq> {''a'', ''b''}"
    using ring_replicas.reps_length [OF ok] ring_replicas.reps_distinct [OF ok] ring_reps_members [OF ok, of 42] m by auto
  then have "card (set (ring_reps r 2 42)) = card {''a'', ''b''}" "set (ring_reps r 2 42) \<subseteq> {''a'', ''b''}"
    by (simp_all add: distinct_card)
  then have reps: "set (ring_reps r 2 42) = {''a'', ''b''}" by (intro card_subset_eq) simp_all
  from quorum_write_exact [OF r rf list.distinct(2) [of "()" "[]"], of "\<lambda>_. 42" "\<lambda>m. m" "''series''"]
  show ?thesis
  proof (elim exE conjE, goal_cases)
    case (1 rt)
    have "fst ` set (rt_groups rt) = dom (map_of (rt_groups rt))" by (rule dom_map_of_conv_image_fst [symmetric])
    also have "\<dots> = {''a'', ''b''}" using 1(3) reps by (auto simp: some_list_def dom_def)
    finally have k: "fst ` set demo_results = fst ` set (rt_groups rt)" by (auto simp: demo_results_def)
    have d: "distinct (map fst demo_results)" by (simp add: demo_results_def)
    have "{m \<in> {''a'', ''b''}. map_of demo_results m = Some None} = {''b''}" by (auto simp: demo_results_def)
    have M: "{k \<in> (\<lambda>_. 42) ` set [()]. card {m \<in> set (ring_reps r 2 k). map_of demo_results m = Some None} < 2 div 2 + 1} = {42}"
    proof -
      have e: "{k \<in> {x}. P k} = {x}" if "P x" for P and x :: u64 using that by auto
      have "card {m \<in> set (ring_reps r 2 42). map_of demo_results m = Some None} < 2 div 2 + 1"
        unfolding reps \<open>{m \<in> {''a'', ''b''}. map_of demo_results m = Some None} = {''b''}\<close> by simp
      then show ?thesis unfolding list.set image_insert image_empty by (rule e)
    qed
    from 1(4) [rule_format, of demo_results 0, OF d k, unfolded Let_def M]
    obtain qe where "replicate_batch (\<lambda>m. m) ''series'' r 2 False False (\<lambda>_. 42) [()] demo_results = Some (Some (QuorumMissed qe))"
      "0 < qe_Failed qe" "qe_Failed qe \<le> 1" "qe_Total qe = 1" by auto
    then show ?thesis using r rf by (intro exI [of _ r] exI [of _ qe]) auto
  qed
qed

end
