(* ===== verification/Cluster.thy ===== *)
theory Cluster
  imports Router
begin

text \<open>
  What the write path of \<^verbatim>\<open>internal/rpc/router.go\<close> and the read path of \<^verbatim>\<open>internal/metrics/merge.go\<close>, as
  \<^verbatim>\<open>internal/app/querier.go\<close> configures it, give together.
\<close>

section \<open>The querier's reads\<close>

definition read_tolerance :: "nat \<Rightarrow> nat" where "read_tolerance rf = quorum rf - 1"

definition QuerierSelect :: "ring \<Rightarrow> nat \<Rightarrow> nat \<Rightarrow> SelectParams \<Rightarrow> (nat \<times> (SeriesData list, 'e) outcome) list
    \<Rightarrow> ('e option + SeriesData list) option" where
  "QuerierSelect r rf queued p arrivals =
     (if \<not> ValidateSelect p then None
      else Some (collectSelect (length (Members r)) (read_tolerance rf) queued arrivals))"

section \<open>One batch\<close>

lemma last_index_of:
  "map_of (last_index xs) k = Some i \<longleftrightarrow> i < length xs \<and> sample_key (xs ! i) = k \<and> (\<forall>j < length xs. i < j \<longrightarrow> sample_key (xs ! j) \<noteq> k)"
proof (induction xs rule: rev_induct)
  case (snoc x xs)
  have "last_index (xs @ [x]) = AList.update (sample_key x) (length xs) (last_index xs)"
    by (simp add: last_index_def)
  then show ?case using snoc by (auto simp: update_conv' nth_append less_Suc_eq)
qed (simp add: last_index_def)

definition last_write :: "PendingSample list \<Rightarrow> u64 \<times> i64 \<Rightarrow> PendingSample" where
  "last_write samples k = last (filter (\<lambda>s. sample_key s = k) samples)"

lemma lastWritePerSample_spec:
  assumes "s \<in> set samples"
  shows "last_write samples (sample_key s) \<in> set (lastWritePerSample samples)" "sample_key (last_write samples (sample_key s)) = sample_key s"
    "set (lastWritePerSample samples) \<subseteq> set samples"
proof -
  let ?k = "sample_key s"
  have "filter (\<lambda>s. sample_key s = ?k) samples \<noteq> []" using assms by (auto simp: filter_empty_conv)
  then obtain ys y where y: "filter (\<lambda>s. sample_key s = ?k) samples = ys @ [y]" by (metis rev_exhaust)
  have "\<exists>i < length samples. samples ! i = y \<and> (\<forall>j < length samples. i < j \<longrightarrow> sample_key (samples ! j) \<noteq> ?k)"
    using y
  proof (induction samples rule: rev_induct)
    case (snoc x xs)
    show ?case
    proof (cases "sample_key x = ?k")
      case True
      then show ?thesis using snoc.prems by (intro exI [of _ "length xs"]) auto
    next
      case False
      then obtain i where "i < length xs" "xs ! i = y" "\<forall>j < length xs. i < j \<longrightarrow> sample_key (xs ! j) \<noteq> ?k"
        using snoc by auto
      then show ?thesis using False by (intro exI [of _ i]) (auto simp: nth_append less_Suc_eq)
    qed
  qed simp
  moreover have yk: "sample_key y = ?k" using arg_cong [OF y, of set] by auto
  ultimately obtain i where i: "i < length samples" "samples ! i = y" "map_of (last_index samples) ?k = Some i"
    unfolding last_index_of by auto
  have l: "last_write samples ?k = y" by (simp add: last_write_def y)
  have "(i, y) \<in> set (zip [0..<length samples] samples)" using i by (auto simp: in_set_zip intro!: exI [of _ i])
  then show "last_write samples ?k \<in> set (lastWritePerSample samples)"
    using i(3) yk unfolding l lastWritePerSample_def by force
  show "sample_key (last_write samples ?k) = ?k" using yk l by simp
  show "set (lastWritePerSample samples) \<subseteq> set samples"
    by (auto simp: lastWritePerSample_def dest: set_zip_rightD)
qed

definition stamped_of :: "PendingSample \<Rightarrow> stamped" where
  "stamped_of s = (ps_Labels s, ps_TimestampMs s, ps_Value s, ps_Gen s)"

section \<open>What heads hold after a push\<close>

definition labels_in :: "Labels set \<Rightarrow> MemoryStore \<Rightarrow> bool" where
  "labels_in U h \<longleftrightarrow> (\<forall>x \<in> set (st_series h). ms_labels (snd x) \<in> U)"

lemma apply_writes_grows:
  assumes U: "inj_on Hash U" "\<forall>l \<in> U. labels_ok l" and ws: "\<forall>(l, ts, v, g) \<in> set ws. l \<in> U \<and> gen_ok g \<and> g \<noteq> 0"
    and h: "mem_inv h" "labels_in U h"
  shows "mem_inv (apply_writes h ws) \<and> labels_in U (apply_writes h ws)
    \<and> (\<forall>sid. set (held (holds_of h) sid) \<subseteq> set (held (holds_of (apply_writes h ws)) sid))
    \<and> (\<forall>w \<in> set ws. write_sample w \<in> set (held (holds_of (apply_writes h ws)) (Hash (fst w))))"
  using ws
proof (induction ws rule: rev_induct)
  case Nil
  then show ?case using h by (simp add: apply_writes_def)
next
  case (snoc w ws)
  obtain l ts v g where w: "w = (l, ts, v, g)" by (cases w)
  let ?h = "apply_writes h ws"
  have ok: "l \<in> U" "labels_ok l" "gen_ok g" "g \<noteq> 0" using snoc.prems U(2) by (auto simp: w)
  have I: "mem_inv ?h" "labels_in U ?h" using snoc by auto
  have nc: "no_collision l ?h"
    unfolding no_collision_def
  proof (intro allI impI)
    fix ms assume m: "map_of (st_series ?h) (Hash l) = Some ms"
    have "Hash (ms_labels ms) = Hash l" by (rule series_chunks_ok(1) [OF I(1) m])
    moreover have "ms_labels ms \<in> U" using I(2) map_of_SomeD [OF m] by (force simp: labels_in_def)
    ultimately show "ms_labels ms = l" using U(1) ok(1) by (auto dest: inj_onD)
  qed
  obtain s1 where st: "settle_generation 0 g ?h = Inr (g, s1)"
    using ok(3,4) by (auto simp: settle_generation_def gen_ok_def)
  have g0: "\<not> g <s 0" using ok(3) by (simp add: gen_ok_def)
  have e: "apply_writes h (ws @ [w]) = snd (AppendGen 0 l ts v g ?h)" by (simp add: apply_writes_def w)
  note A = holds_of_append(2) [OF I(1) ok(2) nc g0 st, of ts v 0, folded AppendGen_def e]
  have inv: "mem_inv (apply_writes h (ws @ [w]))" using mem_inv_append [OF I(1) ok(2) nc g0] by (simp add: e AppendGen_def)
  moreover have "labels_in U (apply_writes h (ws @ [w]))"
    unfolding labels_in_def
  proof
    fix x assume "x \<in> set (st_series (apply_writes h (ws @ [w])))"
    then have "map_of (st_series (apply_writes h (ws @ [w]))) (fst x) = Some (snd x)" using mem_invD(1) [OF inv] by simp
    then have "holds_of (apply_writes h (ws @ [w])) (fst x) = Some (ms_labels (snd x), ms_samples (snd x))" by (simp add: holds_of_def)
    then have "ms_labels (snd x) = l \<or> holds_of ?h (fst x) = Some (ms_labels (snd x), ms_samples (snd x))"
      unfolding A by (auto split: if_splits)
    moreover have "ms_labels (snd x) \<in> U" if "holds_of ?h (fst x) = Some (ms_labels (snd x), ms_samples (snd x))"
      using that I(2) by (auto simp: holds_of_def labels_in_def dest!: map_of_SomeD)
    ultimately show "ms_labels (snd x) \<in> U" using ok(1) by blast
  qed
  moreover have "set (held (holds_of h) sid) \<subseteq> set (held (holds_of (apply_writes h (ws @ [w]))) sid)" for sid
    using snoc unfolding A by (auto simp: held_append)
  moreover have "\<forall>w' \<in> set (ws @ [w]). write_sample w' \<in> set (held (holds_of (apply_writes h (ws @ [w]))) (Hash (fst w')))"
    using snoc unfolding A by (auto simp: held_append write_sample_def w)
  ultimately show ?case by blast
qed

section \<open>What a merged read answers\<close>

fun merge_all :: "holdings list \<Rightarrow> holdings" where
  "merge_all [] = Map.empty"
| "merge_all [S] = S"
| "merge_all (S # Ss) = merge_holdings S (merge_all Ss)"

lemma merge_all_mem:
  "merge_all Ss h = Some (l, ss) \<Longrightarrow> \<exists>S \<in> set Ss. \<exists>tt. S h = Some (l, tt)"
  "\<forall>S \<in> set Ss. \<forall>h l ss. S h = Some (l, ss) \<longrightarrow> l = L h \<Longrightarrow> S \<in> set Ss \<Longrightarrow> x \<in> set (held S h) \<Longrightarrow> x \<in> set (held (merge_all Ss) h)"
  by (induction Ss arbitrary: ss rule: merge_all.induct)
    (auto simp: merge_holdings_def held_def split: option.splits)

lemma fold_merge_answers:
  assumes "list_all2 (\<lambda>S a. answers S p a \<and> holdings_ok S) Ss as" "as \<noteq> []"
    "\<forall>S \<in> set Ss. \<forall>h l ss. S h = Some (l, ss) \<longrightarrow> l = L h"
  shows "answers (merge_all Ss) p (fold_merge as) \<and> holdings_ok (merge_all Ss)"
  using assms
proof (induction as arbitrary: Ss rule: fold_merge.induct)
  case (2 a)
  then obtain S where "Ss = [S]" "answers S p a" "holdings_ok S" by (auto simp: list_all2_Cons2)
  then show ?case by simp
next
  case (3 a b as)
  then obtain S T Ts where S: "Ss = S # T # Ts" "answers S p a" "holdings_ok S"
    "list_all2 (\<lambda>S a. answers S p a \<and> holdings_ok S) (T # Ts) (b # as)" by (auto simp: list_all2_Cons2)
  have I: "answers (merge_all (T # Ts)) p (fold_merge (b # as)) \<and> holdings_ok (merge_all (T # Ts))"
    using 3 S by simp
  moreover have "same_labels S (merge_all (T # Ts))"
    unfolding same_labels_def
  proof (intro allI impI)
    fix h l ss l' tt assume a: "S h = Some (l, ss)" "merge_all (T # Ts) h = Some (l', tt)"
    from merge_all_mem(1) [OF a(2)] obtain S' tt' where "S' \<in> set (T # Ts)" "S' h = Some (l', tt')" by blast
    then show "l = l'" using 3(4) a(1) S(1) by fastforce
  qed
  ultimately show ?case using merge_answers S(2,3) merge_holdings_ok by (simp add: S(1))
qed simp

lemma answered_sample:
  assumes S: "answers S p out" "holdings_ok S" "S h = Some (l, ss)" "x \<in> set ss"
    and p: "matches (sp_Selector p) l" "sp_MinT p \<le>s sm_ts x" "sm_ts x \<le>s sp_MaxT p" "\<not> sp_SeriesOnly p"
  shows "\<exists>sd \<in> set out. sd_Labels sd = l \<and> (\<exists>y \<in> set (sd_Samples sd). sm_ts y = sm_ts x \<and> (y = x \<or> beats y x))"
proof -
  have F: "x \<in> set (filter (in_range_ts p) ss)" using S(4) p by (simp add: in_range_ts_def)
  have "\<not> sp_MaxT p <s sp_MinT p" using p(2,3) by (simp add: word_sless_alt word_sle_eq)
  then obtain a where sd: "select_spec l ss p = Some \<lparr>sd_Labels = l, sd_Anchor = a, sd_Samples = sortAndDedup (filter (in_range_ts p) ss)\<rparr>"
  proof -
    have "filter (in_range_ts p) ss \<noteq> []" using F by (metis empty_iff list.set(1))
    then show ?thesis using p(1,4) \<open>\<not> sp_MaxT p <s sp_MinT p\<close> that by (simp add: select_spec_def Let_def)
  qed
  have "lookup_sd out h = select_spec l ss p" using S(1,3) by (simp add: answers_def)
  then have "\<lparr>sd_Labels = l, sd_Anchor = a, sd_Samples = sortAndDedup (filter (in_range_ts p) ss)\<rparr> \<in> set out"
    unfolding sd by (auto simp: lookup_sd_def dest: map_of_SomeD)
  moreover have "\<exists>y \<in> set (sortAndDedup (filter (in_range_ts p) ss)). sm_ts y = sm_ts x \<and> (y = x \<or> beats y x)"
  proof -
    have "\<forall>y \<in> set (filter (in_range_ts p) ss). sm_id y = h" using S(2,3) by (auto simp: holdings_ok_def)
    then have tot: "samples.total_on (set (filter (in_range_ts p) ss))" by (intro samples_total) auto
    obtain y where y: "y \<in> set (sortAndDedup (filter (in_range_ts p) ss))" "ts_key y = ts_key x" "\<not> beats x y" "y \<in> set (filter (in_range_ts p) ss)"
      using sortAndDedup_winners [of "filter (in_range_ts p) ss"] F unfolding samples.winners_def by blast
    then have "x = y \<or> beats y x" using tot F by (auto simp: samples.total_on_def)
    then show ?thesis using y by (auto simp: ts_eq_iff)
  qed
  ultimately show ?thesis by force
qed


lemma unanswered_outages:
  assumes "distinct (map fst rs)" "set (map fst rs) = {..<n}" "fatals rs = 0"
  shows "card {i. i < n \<and> answers_of rs i = None} \<le> outages rs"
proof -
  let ?out = "filter (\<lambda>(i, r). case r of Outage _ \<Rightarrow> True | _ \<Rightarrow> False) rs"
  have "{i. i < n \<and> answers_of rs i = None} \<subseteq> fst ` set ?out"
  proof
    fix i assume i: "i \<in> {i. i < n \<and> answers_of rs i = None}"
    then have "i \<in> fst ` set rs" using assms(2) by simp
    then obtain x where x: "(i, x) \<in> set rs" by auto
    then have "map_of rs i = Some x" using assms(1) by simp
    then have "\<not> (\<exists>a. x = Answer a)" using i by (auto simp: answers_of_def)
    moreover have "\<not> (\<exists>e. x = Fatal e)" using assms(3) x by (auto simp: fatals_def filter_empty_conv)
    ultimately obtain e where "x = Outage e" by (cases x) auto
    then show "i \<in> fst ` set ?out" using x by force
  qed
  then have "card {i. i < n \<and> answers_of rs i = None} \<le> card (fst ` set ?out)" by (intro card_mono) auto
  also have "\<dots> \<le> length ?out" by (metis card_length list.set_map length_map)
  finally show ?thesis by (simp add: outages_def)
qed

text \<open>What one member is sent, if it is sent anything.\<close>

definition sent_to :: "'a routing \<Rightarrow> string \<Rightarrow> 'a list" where
  "sent_to rt m = (case map_of (rt_groups rt) m of None \<Rightarrow> [] | Some items \<Rightarrow> items)"

lemma acked_replicas:
  assumes ring: "NewRing ms = Inr r" "NewRouter r f = Some rf" and it: "it \<in> set items"
    and results: "route r rf key items = Inr rt" "distinct (map fst results)" "fst ` set results = fst ` set (rt_groups rt)"
    and acked: "replicate_batch label kind r rf False False key items results = Some None"
  shows "quorum rf \<le> card {m \<in> set (ring_reps r rf (key it)). map_of results m = Some None}"
    and "m \<in> set (ring_reps r rf (key it)) \<Longrightarrow> it \<in> set (sent_to rt m)"
    and "set (sent_to rt m) \<subseteq> set items"
proof -
  let ?missed = "{k \<in> key ` set items. card {m \<in> set (ring_reps r rf k). map_of results m = Some None} < rf div 2 + 1}"
  have ne: "items \<noteq> []" using it by auto
  obtain rt' where R: "route r rf key items = Inr rt'"
    "\<forall>m. map_of (rt_groups rt') m = some_list (filter (\<lambda>it. m \<in> set (ring_reps r rf (key it))) items)"
    "\<forall>rs n. distinct (map fst rs) \<longrightarrow> fst ` set rs = fst ` set (rt_groups rt') \<longrightarrow>
        (let answer = replicate_batch label kind r rf False False key items;
             missed = {k \<in> key ` set items. card {m \<in> set (ring_reps r rf k). map_of rs m = Some None} < rf div 2 + 1}
         in (if missed = {} then answer rs = Some None
             else \<exists>qe. answer rs = Some (Some (QuorumMissed qe)) \<and> 0 < qe_Failed qe \<and> qe_Failed qe \<le> card missed
               \<and> qe_Total qe = card (key ` set items))
           \<and> (answer (take n rs) = None \<or> answer (take n rs) = answer rs))"
    using routed_batch [OF ring ne, of key label kind] by blast
  have rt: "rt' = rt" using R(1) results(1) by simp
  have "?missed = {}"
    using R(3) [rule_format, of results 0, OF results(2)] results(3) acked by (auto simp: rt Let_def split: if_splits)
  then show "quorum rf \<le> card {m \<in> set (ring_reps r rf (key it)). map_of results m = Some None}"
    using it by (auto simp: quorum_def not_less)
  show "m \<in> set (ring_reps r rf (key it)) \<Longrightarrow> it \<in> set (sent_to rt m)"
    using it R(2) by (auto simp: rt some_list_def filter_empty_conv sent_to_def)
  show "set (sent_to rt m) \<subseteq> set items"
    using R(2) by (auto simp: rt some_list_def sent_to_def)
qed

lemma acks_succeed:
  assumes "NewRing ms = Inr r" "NewRouter r f = Some rf" "items \<noteq> []"
  shows "\<exists>rt. route r rf key items = Inr rt
    \<and> (\<forall>m. map_of (rt_groups rt) m = some_list (filter (\<lambda>it. m \<in> set (ring_reps r rf (key it))) items))
    \<and> (\<forall>rs. distinct (map fst rs) \<longrightarrow> fst ` set rs = fst ` set (rt_groups rt) \<longrightarrow>
        (\<forall>k. card {m \<in> set (ring_reps r rf k). map_of rs m = Some None} \<ge> rf div 2 + 1) \<longrightarrow>
        replicate_batch label kind r rf False False key items rs = Some None)"
  using routed_batch [OF assms, of key label kind]
proof (elim exE conjE, goal_cases)
  case (1 rt)
  have "replicate_batch label kind r rf False False key items rs = Some None"
    if "distinct (map fst rs)" "fst ` set rs = fst ` set (rt_groups rt)" "\<forall>k. card {m \<in> set (ring_reps r rf k). map_of rs m = Some None} \<ge> rf div 2 + 1" for rs
    using 1(4) [rule_format, OF that(1,2), of 0] that(3) by (auto simp: Let_def not_less [symmetric])
  then show ?case using 1 by blast
qed

lemma merged_heads_answer:
  assumes U: "inj_on Hash U" and heads: "\<forall>m. mem_inv (H m) \<and> labels_in U (H m)"
    and valid: "ValidateSelect p" and ne: "\<exists>i < n. ans i \<noteq> None"
    and ans: "\<forall>i a. ans i = Some a \<longrightarrow> StoreSelect p (H (mem i)) = Some a"
  defines "Ss \<equiv> map (\<lambda>i. holds_of (H (mem i))) (filter (\<lambda>i. ans i \<noteq> None) [0..<n])"
  shows "answers (merge_all Ss) p (fold_merge (map the (filter (\<lambda>a. a \<noteq> None) (map ans [0..<n]))))"
    "holdings_ok (merge_all Ss)"
    "i < n \<Longrightarrow> ans i \<noteq> None \<Longrightarrow> set (held (holds_of (H (mem i))) h) \<subseteq> set (held (merge_all Ss) h)"
    "merge_all Ss (Hash l) = Some (l', ss) \<Longrightarrow> l \<in> U \<Longrightarrow> l' = l"
proof -
  let ?I = "filter (\<lambda>i. ans i \<noteq> None) [0..<n]"
  define L where "L h = inv_into U Hash h" for h
  have lab1: "l' = L h \<and> l' \<in> U \<and> Hash l' = h" if "holds_of (H m) h = Some (l', ss)" for m h l' ss
  proof -
    have "Hash l' = h" using holds_of_ok [of "H m"] heads that by (auto simp: holdings_ok_def)
    moreover have "l' \<in> U" using heads that by (fastforce simp: holds_of_def labels_in_def dest!: map_of_SomeD)
    ultimately show ?thesis using inv_into_f_f [OF U, of l'] by (simp add: L_def)
  qed
  then have lab: "\<forall>S \<in> set Ss. \<forall>h l ss. S h = Some (l, ss) \<longrightarrow> l = L h" by (auto simp: Ss_def)
  have as: "map the (filter (\<lambda>a. a \<noteq> None) (map ans [0..<n])) = map (\<lambda>i. the (ans i)) ?I"
    by (simp add: filter_map comp_def)
  have ne': "map (\<lambda>i. the (ans i)) ?I \<noteq> []" using ne by (auto simp: filter_empty_conv)
  have each: "answers (holds_of (H (mem i))) p (the (ans i)) \<and> holdings_ok (holds_of (H (mem i)))" if "i \<in> set ?I" for i
    using that ans head.sel_answers [OF _ valid, of "H (mem i)"] heads holds_of_ok by auto
  have fm: "answers (merge_all Ss) p (fold_merge (map (\<lambda>i. the (ans i)) ?I)) \<and> holdings_ok (merge_all Ss)"
    using each by (intro fold_merge_answers [OF _ ne' lab]) (auto simp: Ss_def list_all2_map1 list_all2_map2 list_all2_same)
  then show "answers (merge_all Ss) p (fold_merge (map the (filter (\<lambda>a. a \<noteq> None) (map ans [0..<n]))))"
    "holdings_ok (merge_all Ss)" unfolding as by auto
  show "i < n \<Longrightarrow> ans i \<noteq> None \<Longrightarrow> set (held (holds_of (H (mem i))) h) \<subseteq> set (held (merge_all Ss) h)"
    using merge_all_mem(2) [OF lab, of "holds_of (H (mem i))" _ h] by (auto simp: Ss_def)
  show "merge_all Ss (Hash l) = Some (l', ss) \<Longrightarrow> l \<in> U \<Longrightarrow> l' = l"
    using merge_all_mem(1) [of Ss "Hash l" l' ss] lab1 U by (fastforce simp: Ss_def dest: inj_onD)
qed

section \<open>Properties\<close>

text \<open>
  C1: what a quorum write stored, every successful read returns. Let a batch be stamped and routed to the
  replicas of its series, every member that acknowledges apply what it was sent, and the caller be answered
  with success. Let then the heads change in any way that keeps what those members hold, and a querier read
  them all, concurrently, in any order of arrival, tolerating one outage less than a quorum. If the
  read succeeds, it returns for every sample of the batch that the selector and the range cover, under its
  series and timestamp, the batch's last write for them or a sample that outranks it.
\<close>

theorem read_your_quorum_writes:
  fixes H H' :: "string \<Rightarrow> MemoryStore" and arrivals :: "(nat \<times> (SeriesData list, 'e) outcome) list"
  assumes ring: "NewRing ms = Inr r" "NewRouter r f = Some rf"
    and U: "inj_on Hash U" "\<forall>l \<in> U. labels_ok l" "\<forall>s \<in> set samples. ps_Labels s \<in> U"
    and stamped: "stamp now nextGen (lastWritePerSample samples) = (nextGen', batch)" "gen_ok (smax nextGen now)" "smax nextGen now \<noteq> 0"
    and results: "route r rf (\<lambda>s. Hash (ps_Labels s)) batch = Inr rt" "distinct (map fst results)" "fst ` set results = fst ` set (rt_groups rt)"
    and acked: "fst (PushSamples label r rf False False now nextGen samples results) = Some None"
    and before: "\<forall>m. mem_inv (H m) \<and> labels_in U (H m)"
    and after: "\<forall>m. mem_inv (H' m) \<and> labels_in U (H' m)"
      "\<forall>m sid. map_of results m = Some None \<longrightarrow>
         set (held (holds_of (apply_writes (H m) (map stamped_of (sent_to rt m)))) sid) \<subseteq> set (held (holds_of (H' m)) sid)"
    and read: "QuerierSelect r rf queued p arrivals = Some (Inr out)"
      "distinct (map fst arrivals)" "set (map fst arrivals) = {..<length (Members r)}"
      "\<forall>i a. answers_of arrivals i = Some a \<longrightarrow> StoreSelect p (H' (Members r ! i)) = Some a"
    and s: "s \<in> set samples" "matches (sp_Selector p) (ps_Labels s)" "sp_MinT p \<le>s ps_TimestampMs s" "ps_TimestampMs s \<le>s sp_MaxT p"
      "\<not> sp_SeriesOnly p"
  shows "\<exists>sd \<in> set out. sd_Labels sd = ps_Labels s \<and> (\<exists>x \<in> set (sd_Samples sd). sm_ts x = ps_TimestampMs s
    \<and> (let y = \<lparr>sm_id = Hash (ps_Labels s), sm_ts = ps_TimestampMs s, sm_val = ps_Value (last_write samples (sample_key s)), sm_gen = smax nextGen now\<rparr>
       in x = y \<or> beats x y))"
proof -
  let ?key = "\<lambda>s :: PendingSample. Hash (ps_Labels s)" and ?g = "smax nextGen now"
    and ?n = "length (Members r)" and ?ans = "answers_of arrivals"
  note rf = NewRouter_ok [OF ring]
  define lw where "lw = (last_write samples (sample_key s))\<lparr>ps_Gen := ?g\<rparr>"
  have batch: "batch = map (\<lambda>s. s\<lparr>ps_Gen := ?g\<rparr>) (lastWritePerSample samples)" using stamped(1) by (simp add: stamp_def Let_def)
  note L = lastWritePerSample_spec [OF s(1)]
  have lw: "lw \<in> set batch" using L(1) by (auto simp: batch lw_def)
  have "last_write samples (sample_key s) \<in> set samples" using L by blast
  then have lwl: "ps_Labels lw = ps_Labels s" "ps_TimestampMs lw = ps_TimestampMs s"
    using L(2) U(1,3) s(1) by (auto simp: lw_def sample_key_def dest: inj_onD)
  have valid: "ValidateSelect p" and col: "collectSelect ?n (read_tolerance rf) queued arrivals = Inr out"
    using read(1) by (auto simp: QuerierSelect_def split: if_splits)
  have C: "fatals arrivals = 0" "outages arrivals \<le> quorum rf - 1" "\<exists>i < ?n. ?ans i \<noteq> None"
      "out = fold_merge (map the (filter (\<lambda>a. a \<noteq> None) (map ?ans [0..<?n])))"
    using col unfolding collectSelect_iff [OF read(2,3)] by (simp_all add: read_tolerance_def)
  have "replicate_batch label ''series'' r rf False False ?key batch results = Some None"
    using acked stamped(1) by (simp add: PushSamples_def)
  note A = acked_replicas [OF ring lw results this]
  have "card ((\<lambda>i. Members r ! i) ` {i. i < ?n \<and> ?ans i = None}) \<le> quorum rf - 1"
    using unanswered_outages [OF read(2,3) C(1)] C(2) card_image_le [of "{i. i < ?n \<and> ?ans i = None}" "\<lambda>i. Members r ! i"] by simp
  then obtain m where m: "m \<in> set (ring_reps r rf (?key lw))" "map_of results m = Some None" "m \<notin> (\<lambda>i. Members r ! i) ` {i. i < ?n \<and> ?ans i = None}"
    using ring_replicas.survivor [OF rf A(1), of "(\<lambda>i. Members r ! i) ` {i. i < ?n \<and> ?ans i = None}"] by auto
  then have "m \<in> set (Members r)" using ring_reps_members [OF rf] by (auto simp: Members_def)
  then obtain i where i: "i < ?n" "Members r ! i = m" "?ans i \<noteq> None" using m(3) unfolding in_set_conv_nth by blast
  let ?y = "\<lparr>sm_id = Hash (ps_Labels s), sm_ts = ps_TimestampMs s, sm_val = ps_Value (last_write samples (sample_key s)), sm_gen = ?g\<rparr>"
  have y: "write_sample (stamped_of lw) = ?y" "fst (stamped_of lw) = ps_Labels s"
    using lwl by (simp_all add: write_sample_def stamped_of_def lw_def)
  have "set (sent_to rt m) \<subseteq> set batch" by (rule A(3))
  moreover have "ps_Labels b \<in> U \<and> ps_Gen b = ?g" if "b \<in> set batch" for b using that L(3) U(3) by (auto simp: batch)
  ultimately have ws: "\<forall>(l, ts, v, g) \<in> set (map stamped_of (sent_to rt m)). l \<in> U \<and> gen_ok g \<and> g \<noteq> 0"
    using stamped(2,3) by (auto simp: stamped_of_def)
  have "lw \<in> set (sent_to rt m)" by (rule A(2) [OF m(1)])
  then have "?y \<in> set (held (holds_of (apply_writes (H m) (map stamped_of (sent_to rt m)))) (Hash (ps_Labels s)))"
    using apply_writes_grows [OF U(1,2) ws] before y by (metis (no_types, lifting) image_eqI list.set_map)
  then have held_m: "?y \<in> set (held (holds_of (H' (Members r ! i))) (Hash (ps_Labels s)))" using after(2) m(2) i(2) by auto
  note M = merged_heads_answer [OF U(1) after(1) valid C(3) read(4)]
  obtain l ss where S: "merge_all (map (\<lambda>i. holds_of (H' (Members r ! i))) (filter (\<lambda>i. ?ans i \<noteq> None) [0..<?n])) (Hash (ps_Labels s)) = Some (l, ss)" "?y \<in> set ss"
    using subsetD [OF M(3) [OF i(1,3)] held_m] by (auto simp only: held_def split: option.splits) simp_all
  have l: "l = ps_Labels s" using M(4) [OF S(1)] U(3) s(1) by blast
  from answered_sample [OF M(1,2) S] show ?thesis using s(2-5) l C(4) by (auto simp: Let_def)
qed

definition demo_sample :: PendingSample where
  "demo_sample = \<lparr>ps_Labels = demo_labels, ps_TimestampMs = 10, ps_Value = 7, ps_Gen = 0\<rparr>"

theorem read_your_quorum_writes_witness:
  "\<exists>r out. NewRing [''a''] = Inr r
     \<and> QuerierSelect r 1 0 demo_params [(0, Answer out :: (SeriesData list, unit) outcome)] = Some (Inr out)
     \<and> (\<exists>sd \<in> set out. sd_Labels sd = demo_labels \<and> (\<exists>x \<in> set (sd_Samples sd). sm_ts x = 10))"
proof -
  obtain r where r: "NewRing [''a''] = Inr r" using NewRing_accepts [of "[''a'']"] by auto
  have m: "Members r = [''a'']" using NewRing_ok [OF r] by (simp add: Members_def)
  have rf: "NewRouter r 1 = Some 1" by (simp add: NewRouter_def m)
  note ok = NewRouter_ok [OF r rf]
  let ?b = "[demo_sample\<lparr>ps_Gen := 5\<rparr>]" and ?rs = "[(''a'', None :: rpc_error option)]"
  have stamp: "stamp 5 0 (lastWritePerSample [demo_sample]) = (6, ?b)"
    by (simp add: stamp_def lastWritePerSample_def last_index_def smax_def word_sless_alt)
  have "length (ring_reps r 1 k) = 1" "set (ring_reps r 1 k) \<subseteq> {''a''}" for k
    using ring_replicas.reps_length [OF ok] ring_reps_members [OF ok] m by (auto simp: Members_def)
  then have reps: "set (ring_reps r 1 k) = {''a''}" for k
    by (metis card_0_eq card.empty insert_not_empty list.set(1) length_0_conv subset_singletonD zero_neq_one List.finite_set set_empty)
  from acks_succeed [OF r rf list.distinct(2), of "\<lambda>s :: PendingSample. Hash (ps_Labels s)" "demo_sample\<lparr>ps_Gen := 5\<rparr>" "[]" "\<lambda>m. m" "''series''"]
  obtain rt where rt: "route r 1 (\<lambda>s. Hash (ps_Labels s)) ?b = Inr rt"
    "\<forall>m. map_of (rt_groups rt) m = some_list (filter (\<lambda>it. m \<in> set (ring_reps r 1 (Hash (ps_Labels it)))) ?b)"
    "\<forall>rs. distinct (map fst rs) \<longrightarrow> fst ` set rs = fst ` set (rt_groups rt) \<longrightarrow>
        (\<forall>k. card {m \<in> set (ring_reps r 1 k). map_of rs m = Some None} \<ge> 1 div 2 + 1) \<longrightarrow>
        replicate_batch (\<lambda>m. m) ''series'' r 1 False False (\<lambda>s. Hash (ps_Labels s)) ?b rs = Some None"
    by (elim exE conjE)
  have g: "map_of (rt_groups rt) m = (if m = ''a'' then Some ?b else None)" for m
    unfolding rt(2) [rule_format] filter.simps reps some_list_def by simp
  have "fst ` set (rt_groups rt) = dom (map_of (rt_groups rt))" by (rule dom_map_of_conv_image_fst [symmetric])
  then have groups: "fst ` set ?rs = fst ` set (rt_groups rt)" by (auto simp: g dom_def)
  have sent: "sent_to rt ''a'' = ?b" by (simp add: sent_to_def g)
  have "replicate_batch (\<lambda>m. m) ''series'' r 1 False False (\<lambda>s. Hash (ps_Labels s)) ?b ?rs = Some None"
    using rt(3) [unfolded reps, rule_format, OF _ groups] by simp
  then have acked: "fst (PushSamples (\<lambda>m. m) r 1 False False 5 0 [demo_sample] ?rs) = Some None"
    by (simp add: PushSamples_def stamp)
  define H' where "H' m = apply_writes NewMemoryStore (map stamped_of (sent_to rt m))" for m
  have new: "mem_inv NewMemoryStore" "labels_in {demo_labels} NewMemoryStore"
    using mem_inv_new by (simp_all only: labels_in_def NewMemoryStore_def MemoryStore.simps) simp_all
  have "set (sent_to rt m) \<subseteq> set ?b" for m by (auto simp: sent_to_def g)
  then have "\<forall>(l, ts, v, g) \<in> set (map stamped_of (sent_to rt m)). l \<in> {demo_labels} \<and> gen_ok g \<and> g \<noteq> 0" for m
    by (fastforce simp: stamped_of_def demo_sample_def gen_ok_def MaxGeneration_def word_sless_alt)
  from apply_writes_grows [OF _ _ this new, folded H'_def] demo_labels_ok
  have after: "mem_inv (H' m) \<and> labels_in {demo_labels} (H' m)" for m by simp
  let ?out = "the (StoreSelect demo_params (H' ''a''))"
  have valid: "ValidateSelect demo_params" by (simp add: ValidateSelect_def demo_params_def)
  have out: "StoreSelect demo_params (H' ''a'') = Some ?out" using StoreSelect_at [OF conjunct1 [OF after] valid] by simp
  have ans: "answers_of [(0, Answer ?out :: (SeriesData list, unit) outcome)] i = Some a \<longleftrightarrow> i = 0 \<and> a = ?out" for i a
    by (auto simp: answers_of_def)
  have read: "QuerierSelect r 1 0 demo_params [(0, Answer ?out :: (SeriesData list, unit) outcome)] = Some (Inr ?out)"
    unfolding QuerierSelect_def using valid collectSelect_iff [of "[(0, Answer ?out :: (SeriesData list, unit) outcome)]" 1 0 0 ?out] m
    by (auto simp: fatals_def outages_def answers_of_def read_tolerance_def quorum_def lessThan_Suc)
  have demo: "ps_Labels demo_sample = demo_labels" "ps_TimestampMs demo_sample = 10" by (simp_all add: demo_sample_def)
  have params: "sp_MinT demo_params = 0" "sp_MaxT demo_params = 20" "\<not> sp_SeriesOnly demo_params" by (simp_all add: demo_params_def)
  have match: "matches (sp_Selector demo_params) demo_labels" by code_simp
  have "\<exists>sd \<in> set ?out. sd_Labels sd = ps_Labels demo_sample \<and> (\<exists>x \<in> set (sd_Samples sd). sm_ts x = ps_TimestampMs demo_sample
    \<and> (let y = \<lparr>sm_id = Hash (ps_Labels demo_sample), sm_ts = ps_TimestampMs demo_sample,
          sm_val = ps_Value (last_write [demo_sample] (sample_key demo_sample)), sm_gen = smax 0 5\<rparr> in x = y \<or> beats x y))"
    by (rule read_your_quorum_writes [OF r rf _ _ _ stamp _ _ rt(1) _ groups acked _ _ _ read, where U = "{demo_labels}" and H = "\<lambda>_. NewMemoryStore" and H' = H'])
      (use demo_labels_ok new after out match in \<open>auto simp: demo ans m H'_def [symmetric] gen_ok_def MaxGeneration_def smax_def word_sle_eq word_sless_alt params lessThan_Suc\<close>)
  then show ?thesis using r read demo by auto
qed

end
