(* ===== verification/Query.thy ===== *)
theory Query
  imports MemStore
begin

text \<open>
  The read path over any source: \<^verbatim>\<open>internal/metrics/query.go\<close> (instant, range and metadata queries),
  \<^verbatim>\<open>internal/metrics/eval.go\<close> (rates, sums, scalars), \<^verbatim>\<open>internal/metrics/expr.go\<close> and the source
  combinators of \<^verbatim>\<open>internal/metrics/merge.go\<close> and \<^verbatim>\<open>internal/metrics/tenant_source.go\<close>. The loops that
  move forward over ticks and samples are the code's; \<^verbatim>\<open>tick_loop\<close> may not end and then is \<^const>\<open>None\<close>.
\<close>

section \<open>Sources\<close>

text \<open>A source: its reads, each an error or an answer. The caller's context is the \<^verbatim>\<open>tid\<close> of \<^verbatim>\<open>tenantSource\<close> only.\<close>

record 'e Source =
  src_Select :: "SelectParams \<Rightarrow> 'e + SeriesData list"
  src_LabelNames :: "'e + string list"
  src_LabelValues :: "string \<Rightarrow> 'e + string list"

definition sortedStringSet :: "string list \<Rightarrow> string list" where
  "sortedStringSet xs = sort (remdups xs)"

definition Merge :: "'e \<Rightarrow> 'e Source \<Rightarrow> 'e Source \<Rightarrow> 'e Source" where
  "Merge invalid a b =
     \<lparr>src_Select = (\<lambda>p. if \<not> ValidateSelect p then Inl invalid
        else case src_Select a p of Inl e \<Rightarrow> Inl e
        | Inr x \<Rightarrow> (case src_Select b p of Inl e \<Rightarrow> Inl e | Inr y \<Rightarrow> Inr (mergeSelect x y))),
      src_LabelNames = (case src_LabelNames a of Inl e \<Rightarrow> Inl e
        | Inr x \<Rightarrow> (case src_LabelNames b of Inl e \<Rightarrow> Inl e | Inr y \<Rightarrow> Inr (unionSorted x y))),
      src_LabelValues = (\<lambda>name. case src_LabelValues a name of Inl e \<Rightarrow> Inl e
        | Inr x \<Rightarrow> (case src_LabelValues b name of Inl e \<Rightarrow> Inl e | Inr y \<Rightarrow> Inr (unionSorted x y)))\<rparr>"

definition tenant_Select :: "'e \<Rightarrow> string \<Rightarrow> 'e Source \<Rightarrow> SelectParams \<Rightarrow> 'e + SeriesData list" where
  "tenant_Select invalid tid src p =
     (if \<exists>m \<in> set (sel_Matchers (sp_Selector p)). fst m = tenant_label
      then (if \<not> ValidateSelect p then Inl invalid else Inr [])
      else
        let p1 = (if tid \<noteq> tenant_default
                  then p\<lparr>sp_Selector := (sp_Selector p)\<lparr>sel_Matchers := sel_Matchers (sp_Selector p) @ [(tenant_label, tid)]\<rparr>\<rparr>
                  else p)
        in case src_Select src p1 of Inl e \<Rightarrow> Inl e
           | Inr got \<Rightarrow> Inr (map (\<lambda>sd. sd\<lparr>sd_Labels := Without (sd_Labels sd) tenant_label\<rparr>)
                               (filter (\<lambda>sd. TenantOf (sd_Labels sd) = tid) got)))"

definition every_series :: SelectParams where
  "every_series = \<lparr>sp_Selector = \<lparr>sel_MetricName = [], sel_Matchers = []\<rparr>, sp_MinT = 0, sp_MaxT = 0, sp_Anchor = False,
     sp_SeriesOnly = True, sp_AnyTime = True\<rparr>"

definition tenantSeries :: "'e \<Rightarrow> string \<Rightarrow> 'e Source \<Rightarrow> 'e + SeriesData list" where
  "tenantSeries invalid tid src = tenant_Select invalid tid src every_series"

definition names_of :: "SeriesData list \<Rightarrow> string list" where
  "names_of series = concat (map (\<lambda>sd. map fst (Map (sd_Labels sd))) series)"

definition values_of :: "string \<Rightarrow> SeriesData list \<Rightarrow> string list" where
  "values_of name series = List.map_filter (\<lambda>sd. Get (sd_Labels sd) name) series"

definition TenantSource :: "'e \<Rightarrow> string \<Rightarrow> 'e Source \<Rightarrow> 'e Source" where
  "TenantSource invalid tid src =
     \<lparr>src_Select = tenant_Select invalid tid src,
      src_LabelNames = map_sum id (\<lambda>series. sortedStringSet (names_of series)) (tenantSeries invalid tid src),
      src_LabelValues = (\<lambda>name. map_sum id (\<lambda>series. sortedStringSet (values_of name series)) (tenantSeries invalid tid src))\<rparr>"

definition head_source :: "'e \<Rightarrow> MemoryStore \<Rightarrow> 'e Source" where
  "head_source invalid s =
     \<lparr>src_Select = (\<lambda>p. case StoreSelect p s of None \<Rightarrow> Inl invalid | Some a \<Rightarrow> Inr a),
      src_LabelNames = Inr (StoreLabelNames s), src_LabelValues = (\<lambda>name. Inr (StoreLabelValues name s))\<rparr>"

section \<open>Expressions\<close>

datatype Expr =
    SelectorExpr Selector
  | RateExpr Selector i64
  | SumExpr Expr "string list"
  | ScalarExpr float64

text \<open>The float operations the engine uses; every theorem holds whatever they compute.\<close>

record float_ops =
  f_add :: "float64 \<Rightarrow> float64 \<Rightarrow> float64"
  f_sub :: "float64 \<Rightarrow> float64 \<Rightarrow> float64"
  f_mul :: "float64 \<Rightarrow> float64 \<Rightarrow> float64"
  f_div :: "float64 \<Rightarrow> float64 \<Rightarrow> float64"
  f_of_int :: "i64 \<Rightarrow> float64"

record InstantSample =
  is_Labels :: Labels
  is_TimestampMs :: i64
  is_Value :: float64

record RangeSeries =
  rs_Labels :: Labels
  rs_Points :: "(i64 \<times> float64) list"

datatype 'e query_error = StepNotPositive | EndBeforeStart | ReadFailed 'e

section \<open>Selectors\<close>

definition instant_params :: "Selector \<Rightarrow> i64 \<Rightarrow> SelectParams" where
  "instant_params sel t = \<lparr>sp_Selector = sel, sp_MinT = t, sp_MaxT = t, sp_Anchor = True, sp_SeriesOnly = False, sp_AnyTime = False\<rparr>"

definition range_params :: "Selector \<Rightarrow> i64 \<Rightarrow> i64 \<Rightarrow> bool \<Rightarrow> SelectParams" where
  "range_params sel a b anchor = \<lparr>sp_Selector = sel, sp_MinT = a, sp_MaxT = b, sp_Anchor = anchor, sp_SeriesOnly = False, sp_AnyTime = False\<rparr>"

definition latestAtOrBefore :: "SeriesData \<Rightarrow> i64 \<Rightarrow> sample option" where
  "latestAtOrBefore sd t =
     (let i = sort_search (length (sd_Samples sd)) (\<lambda>i. t <s sm_ts (sd_Samples sd ! i)) in
      if i > 0 then Some (sd_Samples sd ! (i - 1))
      else case sd_Anchor sd of
        Some a \<Rightarrow> if sm_ts a \<le>s t then Some a else None
      | None \<Rightarrow> None)"

definition InstantQuery :: "'e Source \<Rightarrow> Selector \<Rightarrow> i64 \<Rightarrow> 'e query_error + InstantSample list" where
  "InstantQuery src sel t =
     (case src_Select src (instant_params sel t) of
        Inl e \<Rightarrow> Inl (ReadFailed e)
      | Inr series \<Rightarrow> Inr (List.map_filter (\<lambda>sd.
          map_option (\<lambda>s. \<lparr>is_Labels = sd_Labels sd, is_TimestampMs = sm_ts s, is_Value = sm_val s\<rparr>) (latestAtOrBefore sd t)) series))"

text \<open>The loop \<^verbatim>\<open>for t := start; t <= end; t += step\<close>: \<^const>\<open>None\<close> when it never ends.\<close>

partial_function (option) tick_loop :: "i64 \<Rightarrow> i64 \<Rightarrow> (i64 \<Rightarrow> 's \<Rightarrow> 's) \<Rightarrow> i64 \<Rightarrow> 's \<Rightarrow> 's option" where
  "tick_loop endMs stepMs body t s =
     (if t \<le>s endMs then tick_loop endMs stepMs body (t + stepMs) (body t s) else Some s)"

function range_advance :: "sample list \<Rightarrow> i64 \<Rightarrow> sample option \<Rightarrow> nat \<Rightarrow> sample option \<times> nat" where
  "range_advance xs t cur nxt =
     (if nxt < length xs \<and> sm_ts (xs ! nxt) \<le>s t then range_advance xs t (Some (xs ! nxt)) (nxt + 1) else (cur, nxt))"
  by pat_completeness auto
termination
  by (relation "measure (\<lambda>(xs, t, cur, nxt). length xs - nxt)") auto

declare range_advance.simps [simp del]

definition range_tick :: "sample list \<Rightarrow> i64 \<Rightarrow> (i64 \<times> float64) list \<times> sample option \<times> nat \<Rightarrow> (i64 \<times> float64) list \<times> sample option \<times> nat" where
  "range_tick xs t st =
     (case st of (points, cur, nxt) \<Rightarrow>
      let (cur1, nxt1) = range_advance xs t cur nxt in
      (case cur1 of None \<Rightarrow> points | Some s \<Rightarrow> points @ [(t, sm_val s)], cur1, nxt1))"

definition range_points :: "i64 \<Rightarrow> i64 \<Rightarrow> i64 \<Rightarrow> SeriesData \<Rightarrow> (i64 \<times> float64) list option" where
  "range_points startMs endMs stepMs sd =
     map_option fst (tick_loop endMs stepMs (range_tick (sd_Samples sd)) startMs ([], sd_Anchor sd, 0))"

fun series_loop :: "(SeriesData \<Rightarrow> (i64 \<times> float64) list option) \<Rightarrow> SeriesData list \<Rightarrow> RangeSeries list option" where
  "series_loop points [] = Some []"
| "series_loop points (sd # sds) =
     (case points sd of
        None \<Rightarrow> None
      | Some ps \<Rightarrow> map_option (\<lambda>rest. if ps = [] then rest else \<lparr>rs_Labels = sd_Labels sd, rs_Points = ps\<rparr> # rest) (series_loop points sds))"

definition RangeQuery :: "'e Source \<Rightarrow> Selector \<Rightarrow> i64 \<Rightarrow> i64 \<Rightarrow> i64 \<Rightarrow> ('e query_error + RangeSeries list) option" where
  "RangeQuery src sel startMs endMs stepMs =
     (if stepMs \<le>s 0 then Some (Inl StepNotPositive)
      else if endMs <s startMs then Some (Inl EndBeforeStart)
      else case src_Select src (range_params sel startMs endMs True) of
        Inl e \<Rightarrow> Some (Inl (ReadFailed e))
      | Inr series \<Rightarrow> map_option Inr (series_loop (range_points startMs endMs stepMs) series))"

section \<open>Rates\<close>

definition saturatingSub :: "i64 \<Rightarrow> i64 \<Rightarrow> i64" where
  "saturatingSub a b = (if 0 <s b \<and> a <s MinInt64 + b then MinInt64 else a - b)"

definition window_seconds :: "float_ops \<Rightarrow> i64 \<Rightarrow> float64" where
  "window_seconds fl windowMs = f_div fl (f_of_int fl windowMs) (f_of_int fl 1000)"

definition rate_of :: "float_ops \<Rightarrow> i64 \<Rightarrow> sample \<Rightarrow> sample \<Rightarrow> float64" where
  "rate_of fl windowMs fst_s last_s = f_div fl (f_sub fl (sm_val last_s) (sm_val fst_s)) (window_seconds fl windowMs)"

definition rateInstant :: "float_ops \<Rightarrow> 'e Source \<Rightarrow> Selector \<Rightarrow> i64 \<Rightarrow> i64 \<Rightarrow> 'e query_error + InstantSample list" where
  "rateInstant fl src sel windowMs t =
     (case src_Select src (range_params sel (saturatingSub t windowMs) t False) of
        Inl e \<Rightarrow> Inl (ReadFailed e)
      | Inr series \<Rightarrow> Inr (List.map_filter (\<lambda>sd.
          let xs = sd_Samples sd in
          if length xs < 2 then None
          else Some \<lparr>is_Labels = sd_Labels sd, is_TimestampMs = t, is_Value = rate_of fl windowMs (xs ! 0) (xs ! (length xs - 1))\<rparr>) series))"

function advance_hi :: "sample list \<Rightarrow> i64 \<Rightarrow> nat \<Rightarrow> nat" where
  "advance_hi xs t hi = (if hi < length xs \<and> sm_ts (xs ! hi) \<le>s t then advance_hi xs t (hi + 1) else hi)"
  by pat_completeness auto
termination
  by (relation "measure (\<lambda>(xs, t, hi). length xs - hi)") auto

function advance_lo :: "sample list \<Rightarrow> i64 \<Rightarrow> nat \<Rightarrow> nat \<Rightarrow> nat" where
  "advance_lo xs from hi lo = (if lo < hi \<and> sm_ts (xs ! lo) <s from then advance_lo xs from hi (lo + 1) else lo)"
  by pat_completeness auto
termination
  by (relation "measure (\<lambda>(xs, from, hi, lo). hi - lo)") auto

declare advance_hi.simps [simp del] advance_lo.simps [simp del]

definition rate_tick :: "float_ops \<Rightarrow> i64 \<Rightarrow> sample list \<Rightarrow> i64 \<Rightarrow> (i64 \<times> float64) list \<times> nat \<times> nat \<Rightarrow> (i64 \<times> float64) list \<times> nat \<times> nat" where
  "rate_tick fl windowMs xs t st =
     (case st of (points, lo, hi) \<Rightarrow>
      let hi1 = advance_hi xs t hi; lo1 = advance_lo xs (saturatingSub t windowMs) hi1 lo in
      (if hi1 - lo1 < 2 then points else points @ [(t, rate_of fl windowMs (xs ! lo1) (xs ! (hi1 - 1)))], lo1, hi1))"

definition rate_points :: "float_ops \<Rightarrow> i64 \<Rightarrow> i64 \<Rightarrow> i64 \<Rightarrow> i64 \<Rightarrow> SeriesData \<Rightarrow> (i64 \<times> float64) list option" where
  "rate_points fl windowMs startMs endMs stepMs sd =
     map_option fst (tick_loop endMs stepMs (rate_tick fl windowMs (sd_Samples sd)) startMs ([], 0, 0))"

definition rateRange :: "float_ops \<Rightarrow> 'e Source \<Rightarrow> Selector \<Rightarrow> i64 \<Rightarrow> i64 \<Rightarrow> i64 \<Rightarrow> i64 \<Rightarrow> ('e query_error + RangeSeries list) option" where
  "rateRange fl src sel windowMs startMs endMs stepMs =
     (case src_Select src (range_params sel (saturatingSub startMs windowMs) endMs False) of
        Inl e \<Rightarrow> Some (Inl (ReadFailed e))
      | Inr series \<Rightarrow> map_option Inr (series_loop (rate_points fl windowMs startMs endMs stepMs) series))"

section \<open>Aggregation\<close>

text \<open>
  A Go map that is only accumulated into and then listed is an association list in the order its keys were
  first met, which stands for the unspecified iteration order.
\<close>

definition groupKey :: "Labels \<Rightarrow> string list \<Rightarrow> bytes" where
  "groupKey l by_names =
     concat (map (\<lambda>name. let val = (case Get l name of None \<Rightarrow> [] | Some v \<Rightarrow> v) in
       put_u32 (of_nat (length val)) @ str_bytes val) by_names)"

definition group_labels :: "Labels \<Rightarrow> string list \<Rightarrow> gomap" where
  "group_labels l by_names =
     foldl (\<lambda>lm name. AList.update name (case Get l name of None \<Rightarrow> [] | Some v \<Rightarrow> v) lm) [] by_names"

definition add_at :: "float_ops \<Rightarrow> 'k \<Rightarrow> float64 \<Rightarrow> ('k \<times> float64) list \<Rightarrow> ('k \<times> float64) list" where
  "add_at fl k v m = AList.update k (f_add fl (case map_of m k of None \<Rightarrow> 0 | Some x \<Rightarrow> x) v) m"

definition note_group :: "bytes \<Rightarrow> Labels \<Rightarrow> string list \<Rightarrow> (bytes \<times> gomap) list \<Rightarrow> (bytes \<times> gomap) list" where
  "note_group k l by_names m = (if map_of m k = None then AList.update k (group_labels l by_names) m else m)"

definition aggregateInstant :: "float_ops \<Rightarrow> InstantSample list \<Rightarrow> string list \<Rightarrow> i64 \<Rightarrow> InstantSample list" where
  "aggregateInstant fl samples by_names t =
     (if samples = [] then []
      else if by_names = [] then
        [\<lparr>is_Labels = NewUnvalidated [], is_TimestampMs = t, is_Value = foldl (\<lambda>total s. f_add fl total (is_Value s)) 0 samples\<rparr>]
      else
        let groupValues = foldl (\<lambda>m s. add_at fl (groupKey (is_Labels s) by_names) (is_Value s) m) [] samples;
            groupLabels = foldl (\<lambda>m s. note_group (groupKey (is_Labels s) by_names) (is_Labels s) by_names m) [] samples
        in map (\<lambda>(k, v). \<lparr>is_Labels = NewUnvalidated (the (map_of groupLabels k)), is_TimestampMs = t, is_Value = v\<rparr>) groupValues)"

definition add_series :: "float_ops \<Rightarrow> string list \<Rightarrow> (bytes \<times> (i64 \<times> float64) list) list \<Rightarrow> RangeSeries \<Rightarrow> (bytes \<times> (i64 \<times> float64) list) list" where
  "add_series fl by_names m rs =
     (let k = groupKey (rs_Labels rs) by_names;
          ticks = (case map_of m k of None \<Rightarrow> [] | Some ts \<Rightarrow> ts)
      in AList.update k (foldl (\<lambda>ts (t, v). add_at fl t v ts) ticks (rs_Points rs)) m)"

definition sortPoints :: "(i64 \<times> float64) list \<Rightarrow> (i64 \<times> float64) list" where
  "sortPoints pts = sort_key (\<lambda>p. sint (fst p)) pts"

definition aggregateRange :: "float_ops \<Rightarrow> RangeSeries list \<Rightarrow> string list \<Rightarrow> RangeSeries list" where
  "aggregateRange fl series by_names =
     (if series = [] then []
      else
        let groupTicks = foldl (add_series fl by_names) [] series;
            groupLabels = foldl (\<lambda>m rs. note_group (groupKey (rs_Labels rs) by_names) (rs_Labels rs) by_names m) [] series
        in map (\<lambda>(k, ticks). \<lparr>rs_Labels = NewUnvalidated (the (map_of groupLabels k)), rs_Points = sortPoints ticks\<rparr>) groupTicks)"

section \<open>Evaluation\<close>

definition scalarPoints :: "float64 \<Rightarrow> i64 \<Rightarrow> i64 \<Rightarrow> i64 \<Rightarrow> (i64 \<times> float64) list option" where
  "scalarPoints v startMs endMs stepMs = tick_loop endMs stepMs (\<lambda>t points. points @ [(t, v)]) startMs []"

fun EvalInstant :: "float_ops \<Rightarrow> 'e Source \<Rightarrow> Expr \<Rightarrow> i64 \<Rightarrow> 'e query_error + InstantSample list" where
  "EvalInstant fl src (SelectorExpr sel) t = InstantQuery src sel t"
| "EvalInstant fl src (RateExpr sel windowMs) t = rateInstant fl src sel windowMs t"
| "EvalInstant fl src (SumExpr inner by_names) t =
     (case EvalInstant fl src inner t of Inl e \<Rightarrow> Inl e | Inr samples \<Rightarrow> Inr (aggregateInstant fl samples by_names t))"
| "EvalInstant fl src (ScalarExpr v) t = Inr [\<lparr>is_Labels = NewUnvalidated [], is_TimestampMs = t, is_Value = v\<rparr>]"

fun EvalRange :: "float_ops \<Rightarrow> 'e Source \<Rightarrow> Expr \<Rightarrow> i64 \<Rightarrow> i64 \<Rightarrow> i64 \<Rightarrow> ('e query_error + RangeSeries list) option" where
  "EvalRange fl src e startMs endMs stepMs =
     (if stepMs \<le>s 0 then Some (Inl StepNotPositive)
      else if endMs <s startMs then Some (Inl EndBeforeStart)
      else case e of
        SelectorExpr sel \<Rightarrow> RangeQuery src sel startMs endMs stepMs
      | RateExpr sel windowMs \<Rightarrow> rateRange fl src sel windowMs startMs endMs stepMs
      | SumExpr inner by_names \<Rightarrow>
          map_option (\<lambda>r. case r of Inl x \<Rightarrow> Inl x | Inr series \<Rightarrow> Inr (aggregateRange fl series by_names))
            (EvalRange fl src inner startMs endMs stepMs)
      | ScalarExpr v \<Rightarrow>
          map_option (\<lambda>points. Inr [\<lparr>rs_Labels = NewUnvalidated [], rs_Points = sortPoints points\<rparr>]) (scalarPoints v startMs endMs stepMs))"

declare EvalRange.simps [simp del]


section \<open>Ticks\<close>

definition ticks :: "i64 \<Rightarrow> i64 \<Rightarrow> i64 \<Rightarrow> i64 list" where
  "ticks startMs endMs stepMs =
     (if endMs <s startMs then []
      else map (\<lambda>i. startMs + of_nat i * stepMs) [0..<Suc (nat ((sint endMs - sint startMs) div sint stepMs))])"

text \<open>The guard of the API handler: \<^verbatim>\<open>end + step\<close> does not overflow.\<close>

definition step_ok :: "i64 \<Rightarrow> i64 \<Rightarrow> bool" where
  "step_ok endMs stepMs \<longleftrightarrow> 0 <s stepMs \<and> sint endMs + sint stepMs < 2 ^ 63"

lemma step_ok_next:
  assumes "step_ok endMs stepMs" "t \<le>s endMs"
  shows "sint (t + stepMs) = sint t + sint stepMs" "0 < sint stepMs"
proof -
  show p: "0 < sint stepMs" using assms by (simp add: step_ok_def word_sless_alt)
  have "- (2 ^ 63) \<le> sint t + sint stepMs" "sint t + sint stepMs < 2 ^ 63"
    using assms p sint_ge [of t] by (auto simp: step_ok_def word_sle_eq)
  then show "sint (t + stepMs) = sint t + sint stepMs" by (intro sint_add_fits) auto
qed

lemma ticks_step:
  assumes "step_ok endMs stepMs" "t \<le>s endMs"
  shows "ticks t endMs stepMs = t # ticks (t + stepMs) endMs stepMs"
proof -
  note n = step_ok_next [OF assms]
  let ?n = "nat ((sint endMs - sint t) div sint stepMs)"
  have le: "\<not> endMs <s t" using assms(2) by (simp add: word_sle_eq word_sless_alt)
  have up: "map (\<lambda>i. t + of_nat i * stepMs) [0..<Suc ?n] = t # map (\<lambda>i. (t + stepMs) + of_nat i * stepMs) [0..<?n]"
    by (simp add: upt_conv_Cons map_Suc_upt [symmetric] comp_def algebra_simps del: upt_Suc)
  show ?thesis
  proof (cases "endMs <s t + stepMs")
    case True
    then have "?n = 0" using n assms(2) by (simp add: word_sless_alt word_sle_eq div_pos_pos_trivial)
    then show ?thesis using True le by (simp add: ticks_def)
  next
    case False
    then have ge: "sint stepMs \<le> sint endMs - sint t" using n by (simp add: word_sless_alt)
    have "(sint endMs - sint t) div sint stepMs = (sint endMs - sint (t + stepMs)) div sint stepMs + 1"
      using n(2) div_add_self2 [of "sint stepMs" "sint endMs - sint (t + stepMs)"] n(1) by (simp add: algebra_simps)
    moreover have "0 \<le> (sint endMs - sint (t + stepMs)) div sint stepMs" using ge n by (simp add: pos_imp_zdiv_nonneg_iff)
    ultimately have "?n = Suc (nat ((sint endMs - sint (t + stepMs)) div sint stepMs))" by simp
    then show ?thesis using False le up by (simp add: ticks_def)
  qed
qed

lemma ticks_done: "endMs <s t \<Longrightarrow> ticks t endMs stepMs = []" by (simp add: ticks_def)

lemma tick_loop_ticks:
  assumes "step_ok endMs stepMs"
  shows "tick_loop endMs stepMs body t s = Some (foldl (\<lambda>s t. body t s) s (ticks t endMs stepMs))"
proof (induction "nat (sint endMs - sint t + sint stepMs)" arbitrary: t s rule: less_induct)
  case less
  show ?case
  proof (cases "t \<le>s endMs")
    case False
    then have "endMs <s t" by (simp add: word_sle_eq word_sless_alt)
    then show ?thesis using False by (simp add: tick_loop.simps ticks_done)
  next
    case True
    note n = step_ok_next [OF assms True]
    have "tick_loop endMs stepMs body (t + stepMs) (body t s)
      = Some (foldl (\<lambda>s t. body t s) (body t s) (ticks (t + stepMs) endMs stepMs))"
      using True n by (intro less) (simp add: word_sle_eq)
    then show ?thesis using True by (simp add: tick_loop.simps [of _ _ _ t] ticks_step [OF assms True])
  qed
qed

lemma ticks_ascending:
  assumes "step_ok endMs stepMs"
  shows "ascending (map sint (ticks t endMs stepMs)) \<and> (\<forall>x \<in> set (ticks t endMs stepMs). sint t \<le> sint x \<and> sint x \<le> sint endMs)"
proof (induction "nat (sint endMs - sint t + sint stepMs)" arbitrary: t rule: less_induct)
  case less
  show ?case
  proof (cases "t \<le>s endMs")
    case False
    then show ?thesis by (simp add: ticks_done word_sle_eq word_sless_alt)
  next
    case True
    note n = step_ok_next [OF assms True]
    have "ascending (map sint (ticks (t + stepMs) endMs stepMs))
        \<and> (\<forall>x \<in> set (ticks (t + stepMs) endMs stepMs). sint (t + stepMs) \<le> sint x \<and> sint x \<le> sint endMs)"
      using True n by (intro less) (simp add: word_sle_eq)
    then show ?thesis using True n by (force simp: ticks_step [OF assms True] word_sle_eq)
  qed
qed

text \<open>Without the guard the loop need not end: no tick exceeds the largest timestamp.\<close>

lemma tick_loop_max: "tick_loop 0x7fffffffffffffff stepMs body t s = None"
proof -
  have "e = 0x7fffffffffffffff \<longrightarrow> False" if "tick_loop e st b t s = Some y" for e st and b :: "i64 \<Rightarrow> 's \<Rightarrow> 's" and t s y
  proof (rule tick_loop.raw_induct [OF _ that], intro impI)
    fix tl :: "i64 \<Rightarrow> i64 \<Rightarrow> (i64 \<Rightarrow> 's \<Rightarrow> 's) \<Rightarrow> i64 \<Rightarrow> 's \<Rightarrow> 's option" and e st b t s y
    assume IH: "\<And>e st b t s y. tl e st b t s = Some y \<Longrightarrow> e = 0x7fffffffffffffff \<longrightarrow> False"
      and body: "(if t \<le>s e then tl e st b (t + st) (b t s) else Some s) = Some y" and e: "e = 0x7fffffffffffffff"
    have "t \<le>s e" using sint_lt [of t] by (simp add: word_sle_eq e)
    then show False using IH [of e st b "t + st" "b t s" y] body e by simp
  qed
  then show ?thesis by (metis not_Some_eq)
qed


section \<open>One series\<close>

definition latest_at :: "sample list \<Rightarrow> i64 \<Rightarrow> sample option" where
  "latest_at ss t = latest (filter (\<lambda>x. sm_ts x \<le>s t) ss)"

definition asc_samples :: "sample list \<Rightarrow> bool" where "asc_samples xs \<longleftrightarrow> ascending (map ts_key xs)"

definition count_to :: "sample list \<Rightarrow> i64 \<Rightarrow> nat" where "count_to xs t = length (filter (\<lambda>x. sm_ts x \<le>s t) xs)"

lemma asc_samples_dedup: "asc_samples (sortAndDedup xs)"
  using sortAndDedup_winners [of xs] by (simp add: asc_samples_def samples.winners_def)

lemma asc_split:
  assumes "asc_samples xs"
  shows "i < length xs \<Longrightarrow> sm_ts (xs ! i) \<le>s t \<longleftrightarrow> i < count_to xs t" "count_to xs t \<le> length xs"
    "filter (\<lambda>x. sm_ts x \<le>s t) xs = take (count_to xs t) xs"
proof -
  have F: "filter (\<lambda>x. sm_ts x \<le>s t) xs = take (count_to xs t) xs"
    using assms unfolding asc_samples_def
  proof (induction xs)
    case (Cons x xs)
    show ?case
    proof (cases "sm_ts x \<le>s t")
      case False
      then have "\<forall>y \<in> set xs. \<not> sm_ts y \<le>s t" using Cons.prems by (auto simp: ts_key_def word_sle_eq)
      then show ?thesis using False by (simp add: count_to_def filter_empty_conv)
    qed (use Cons in \<open>simp add: count_to_def\<close>)
  qed (simp add: count_to_def)
  then show "filter (\<lambda>x. sm_ts x \<le>s t) xs = take (count_to xs t) xs" .
  show le: "count_to xs t \<le> length xs" by (simp add: count_to_def)
  show "sm_ts (xs ! i) \<le>s t \<longleftrightarrow> i < count_to xs t" if i: "i < length xs"
  proof
    assume "sm_ts (xs ! i) \<le>s t"
    then have "xs ! i \<in> set (take (count_to xs t) xs)" using i unfolding F [symmetric] by simp
    then obtain j where "j < count_to xs t" "xs ! j = xs ! i" using le by (auto simp: in_set_conv_nth)
    moreover have "distinct xs" using assms by (auto simp: asc_samples_def strict_sorted_iff distinct_map)
    ultimately show "i < count_to xs t" using i le by (metis nth_eq_iff_index_eq order.strict_trans2)
  next
    assume "i < count_to xs t"
    then have "xs ! i \<in> set (take (count_to xs t) xs)" using le by (metis in_set_conv_nth length_take min.absorb2 nth_take)
    then show "sm_ts (xs ! i) \<le>s t" unfolding F [symmetric] by simp
  qed
qed

lemma count_to_mono: "t \<le>s t' \<Longrightarrow> count_to xs t \<le> count_to xs t'"
  unfolding count_to_def by (induction xs) (auto simp: word_sle_eq)

text \<open>The latest sample at or before a tick, as every loop of the engine finds it.\<close>

definition latest_of :: "sample option \<Rightarrow> sample list \<Rightarrow> i64 \<Rightarrow> sample option" where
  "latest_of anchor xs t = (let n = count_to xs t in if n > 0 then Some (xs ! (n - 1)) else anchor)"

lemma sort_search_upto:
  assumes "asc_samples xs"
  shows "sort_search (length xs) (\<lambda>i. t <s sm_ts (xs ! i)) = count_to xs t"
proof -
  have c: "t <s x \<longleftrightarrow> \<not> x \<le>s t" for x by (simp add: word_sle_eq word_sless_alt not_le)
  have s: "sort_search (length xs) (\<lambda>i. t <s sm_ts (xs ! i)) \<le> length xs
      \<and> (\<forall>k < length xs. t <s sm_ts (xs ! k) \<longleftrightarrow> sort_search (length xs) (\<lambda>i. t <s sm_ts (xs ! i)) \<le> k)"
    using search_loop_spec [of 0 "length xs" "\<lambda>i. t <s sm_ts (xs ! i)"] asc_split(1) [OF assms, of _ t]
    by (auto simp: sort_search_def c)
  let ?i = "sort_search (length xs) (\<lambda>i. t <s sm_ts (xs ! i))"
  have "\<forall>k < length xs. ?i \<le> k \<longleftrightarrow> count_to xs t \<le> k" using s asc_split(1) [OF assms, of _ t] by (auto simp: c not_less)
  then show ?thesis using s asc_split(2) [OF assms, of t] by (metis le_antisym le_refl linorder_le_less_linear)
qed

lemma latestAtOrBefore_alt:
  assumes "asc_samples (sd_Samples sd)" "\<forall>a \<in> set_option (sd_Anchor sd). sm_ts a \<le>s t"
  shows "latestAtOrBefore sd t = latest_of (sd_Anchor sd) (sd_Samples sd) t"
  using assms(2) by (auto simp: latestAtOrBefore_def latest_of_def sort_search_upto [OF assms(1)] Let_def split: option.splits)

lemma select_latest:
  assumes ids: "\<forall>x \<in> set ss. sm_id x = sid" and p: "p = range_params sel a b True" and t: "a \<le>s t" "t \<le>s b" and m: "matches sel l"
  shows "case select_spec l ss p of None \<Rightarrow> latest_at ss t = None
    | Some sd \<Rightarrow> sd_Labels sd = l \<and> asc_samples (sd_Samples sd) \<and> (\<forall>x \<in> set_option (sd_Anchor sd). sm_ts x <s a)
        \<and> latest_of (sd_Anchor sd) (sd_Samples sd) t = latest_at ss t"
proof -
  let ?R = "filter (in_range_ts p) ss" and ?B = "filter (before_range p) ss"
  let ?xs = "sortAndDedup ?R"
  have R: "in_range_ts p x \<longleftrightarrow> a \<le>s sm_ts x \<and> sm_ts x \<le>s b" for x by (simp add: in_range_ts_def p range_params_def)
  have B: "before_range p x \<longleftrightarrow> sm_ts x <s a" for x
    using sint_ge [of "sm_ts x"] by (auto simp: before_range_def p range_params_def word_sless_alt MinInt64_def)
  have ba: "\<not> b <s a" using t by (simp add: word_sle_eq word_sless_alt)
  have asc: "asc_samples ?xs" by (rule asc_samples_dedup)
  have L: "latest_of (latest ?B) ?xs t = latest_at ss t"
  proof (cases "count_to ?xs t")
    case 0
    have none: "\<not> (in_range_ts p x \<and> sm_ts x \<le>s t)" if x: "x \<in> set ss" for x
    proof
      assume "in_range_ts p x \<and> sm_ts x \<le>s t"
      then obtain y where "y \<in> set ?xs" "sm_ts y = sm_ts x"
        using sortAndDedup_winners [of ?R] x by (auto simp: samples.winners_def ts_eq_iff)
      then show False using 0 \<open>in_range_ts p x \<and> sm_ts x \<le>s t\<close> by (auto simp: count_to_def filter_empty_conv)
    qed
    have "filter (\<lambda>x. sm_ts x \<le>s t) ss = ?B"
      using none t by (intro filter_cong refl) (fastforce simp: R B word_sle_eq word_sless_alt)
    then show ?thesis using 0 by (simp add: latest_of_def latest_at_def)
  next
    case (Suc n)
    let ?m = "?xs ! n"
    have n: "n < length ?xs" using asc_split(2) [OF asc, of t] Suc by simp
    have mt: "sm_ts ?m \<le>s t" using asc_split(1) [OF asc n, of t] Suc by simp
    have mR: "?m \<in> set ?R" using n sortAndDedup_set by (metis nth_mem subsetD)
    have "\<not> later x ?m" if x: "x \<in> set ss" "sm_ts x \<le>s t" for x
    proof (cases "in_range_ts p x")
      case False
      then have "sm_ts x <s sm_ts ?m" using x t mR by (auto simp: R word_sle_eq word_sless_alt)
      then show ?thesis by (auto simp: later_def word_sless_alt)
    next
      case True
      then obtain y where y: "y \<in> set ?xs" "sm_ts y = sm_ts x" "\<not> beats x y"
        using sortAndDedup_winners [of ?R] x by (auto simp: samples.winners_def ts_eq_iff)
      then obtain j where j: "j < length ?xs" "?xs ! j = y" by (auto simp: in_set_conv_nth)
      then have jn: "j \<le> n" using asc_split(1) [OF asc j(1), of t] Suc y(2) x(2) by simp
      show ?thesis
      proof (cases "j = n")
        case True
        then show ?thesis using y j by (simp add: later_def word_sless_alt)
      next
        case False
        then have "ts_key y < ts_key ?m" using asc jn n j(2) by (auto simp: asc_samples_def sorted_wrt_iff_nth_less)
        then show ?thesis using y(2) by (auto simp: later_def word_sless_alt ts_key_def)
      qed
    qed
    then have "latest_at ss t = Some ?m"
      unfolding latest_at_def using ids mR mt by (intro latest_eqI [where sid = sid]) auto
    then show ?thesis by (simp add: latest_of_def Suc)
  qed
  have S: "select_spec l ss p = (if ?R = [] \<and> latest ?B = None then None else Some \<lparr>sd_Labels = l, sd_Anchor = latest ?B, sd_Samples = ?xs\<rparr>)"
    using m ba by (simp add: select_spec_def Let_def p range_params_def)
  have anch: "\<forall>x \<in> set_option (latest ?B). sm_ts x <s a"
  proof
    fix x assume "x \<in> set_option (latest ?B)"
    then have "latest ?B = Some x" by simp
    then have "x \<in> set ?B" using latest_spec [of ?B] by simp
    then show "sm_ts x <s a" by (simp add: B)
  qed
  show ?thesis
  proof (cases "?R = [] \<and> latest ?B = None")
    case True
    then have "?xs = []" by (simp only: sortAndDedup_Nil) 
    then have "latest_at ss t = None" using L True by (simp add: latest_of_def count_to_def sortAndDedup_nil)
    then show ?thesis using S True by simp
  next
    case False
    then have "select_spec l ss p = Some \<lparr>sd_Labels = l, sd_Anchor = latest ?B, sd_Samples = ?xs\<rparr>" using S by (simp only: if_False)
    then show ?thesis using asc anch L by simp
  qed
qed


lemma range_advance_upto:
  "asc_samples xs \<Longrightarrow> nxt \<le> count_to xs t \<Longrightarrow>
   range_advance xs t cur nxt = (if nxt < count_to xs t then Some (xs ! (count_to xs t - 1)) else cur, count_to xs t)"
proof (induction xs t cur nxt rule: range_advance.induct)
  case (1 xs t cur nxt)
  note s = asc_split [OF "1.prems"(1), where t = t]
  show ?case
  proof (cases "nxt < count_to xs t")
    case True
    then have c: "nxt < length xs \<and> sm_ts (xs ! nxt) \<le>s t" using s(1) [of nxt] s(2) by auto
    have "range_advance xs t (Some (xs ! nxt)) (nxt + 1)
      = (if nxt + 1 < count_to xs t then Some (xs ! (count_to xs t - 1)) else Some (xs ! nxt), count_to xs t)"
      using "1.IH" [OF c "1.prems"(1)] True by simp
    moreover have "nxt = count_to xs t - 1" if "\<not> nxt + 1 < count_to xs t" using True that by simp
    ultimately show ?thesis using c True by (simp add: range_advance.simps [of xs t cur nxt])
  next
    case False
    then have "\<not> (nxt < length xs \<and> sm_ts (xs ! nxt) \<le>s t)" using s(1) [of nxt] by auto
    then show ?thesis using False "1.prems"(2) by (subst range_advance.simps) auto
  qed
qed

definition value_points :: "(i64 \<Rightarrow> float64 option) \<Rightarrow> i64 list \<Rightarrow> (i64 \<times> float64) list" where
  "value_points f ts = List.map_filter (\<lambda>t. map_option (\<lambda>v. (t, v)) (f t)) ts"

lemma value_points_simps [simp]:
  "value_points f [] = []"
  "value_points f (t # ts) = (case f t of None \<Rightarrow> value_points f ts | Some v \<Rightarrow> (t, v) # value_points f ts)"
  by (simp_all add: value_points_def List.map_filter_simps split: option.splits)

lemma range_ticks:
  assumes "asc_samples xs" "ascending (map sint ts)" "\<forall>t \<in> set ts. nxt \<le> count_to xs t" "cur = (if nxt = 0 then anchor else Some (xs ! (nxt - 1)))"
  shows "fst (foldl (\<lambda>s t. range_tick xs t s) (points, cur, nxt) ts)
    = points @ value_points (\<lambda>t. map_option sm_val (latest_of anchor xs t)) ts"
  using assms(2-4)
proof (induction ts arbitrary: points cur nxt)
  case (Cons t ts)
  let ?c = "latest_of anchor xs t"
  have adv: "range_advance xs t cur nxt = (?c, count_to xs t)"
    using range_advance_upto [OF assms(1), of nxt t cur] Cons.prems(2,3) by (auto simp: latest_of_def Let_def)
  have "\<forall>t' \<in> set ts. count_to xs t \<le> count_to xs t'" using Cons.prems(1) by (auto intro!: count_to_mono simp: word_sle_eq)
  then have "fst (foldl (\<lambda>s t. range_tick xs t s) (case ?c of None \<Rightarrow> points | Some s \<Rightarrow> points @ [(t, sm_val s)], ?c, count_to xs t) ts)
    = (case ?c of None \<Rightarrow> points | Some s \<Rightarrow> points @ [(t, sm_val s)]) @ value_points (\<lambda>t. map_option sm_val (latest_of anchor xs t)) ts"
    using Cons.prems(1) by (intro Cons.IH) (auto simp: latest_of_def Let_def)
  then show ?case by (simp add: range_tick_def adv split: option.splits)
qed simp

lemma range_points_ticks:
  assumes "step_ok endMs stepMs" "asc_samples (sd_Samples sd)"
  shows "range_points startMs endMs stepMs sd
    = Some (value_points (\<lambda>t. map_option sm_val (latest_of (sd_Anchor sd) (sd_Samples sd) t)) (ticks startMs endMs stepMs))"
  using range_ticks [OF assms(2) conjunct1 [OF ticks_ascending [OF assms(1)]], where nxt = 0 and cur = "sd_Anchor sd" and anchor = "sd_Anchor sd" and points = "[]"]
  by (simp add: range_points_def tick_loop_ticks [OF assms(1)])

section \<open>Windows\<close>

definition window_of :: "i64 \<Rightarrow> sample list \<Rightarrow> i64 \<Rightarrow> sample list" where
  "window_of windowMs xs t = filter (\<lambda>x. saturatingSub t windowMs \<le>s sm_ts x \<and> sm_ts x \<le>s t) xs"

definition rate_at :: "float_ops \<Rightarrow> i64 \<Rightarrow> sample list \<Rightarrow> float64 option" where
  "rate_at fl windowMs xs = (if length xs < 2 then None else Some (rate_of fl windowMs (xs ! 0) (xs ! (length xs - 1))))"

definition below :: "sample list \<Rightarrow> i64 \<Rightarrow> nat" where "below xs a = length (filter (\<lambda>x. sm_ts x <s a) xs)"

lemma saturatingSub_sint:
  assumes "0 \<le>s w"
  shows "sint (saturatingSub t w) = max (- (2 ^ 63)) (sint t - sint w)"
proof -
  have m: "sint MinInt64 = - (2 ^ 63)" by (simp add: MinInt64_def)
  have w: "0 \<le> sint w" "sint w < 2 ^ 63" using assms sint_lt [of w] by (auto simp: word_sle_eq)
  have a: "sint (MinInt64 + w) = - (2 ^ 63) + sint w" using w m by (subst sint_add_fits) auto
  show ?thesis
  proof (cases "0 <s w \<and> t <s MinInt64 + w")
    case True
    then show ?thesis using a m by (simp add: saturatingSub_def word_sless_alt)
  next
    case False
    then have "- (2 ^ 63) \<le> sint t - sint w" using a w sint_ge [of t] by (auto simp: word_sless_alt)
    moreover from this have "sint (t - w) = sint t - sint w" using w sint_lt [of t] by (intro sint_sub_fits) auto
    ultimately show ?thesis unfolding saturatingSub_def using False by (simp only: if_False)
  qed
qed

lemma saturatingSub_mono: "0 \<le>s w \<Longrightarrow> t \<le>s t' \<Longrightarrow> saturatingSub t w \<le>s saturatingSub t' w"
  unfolding word_sle_eq by (subst (1 2) saturatingSub_sint) (auto simp: word_sle_eq)

lemma saturatingSub_le: "0 \<le>s w \<Longrightarrow> saturatingSub t w \<le>s t"
  unfolding word_sle_eq by (subst saturatingSub_sint) (use sint_ge [of t] in \<open>auto simp: word_sle_eq\<close>)

lemma asc_below:
  assumes "asc_samples xs"
  shows "i < length xs \<Longrightarrow> sm_ts (xs ! i) <s a \<longleftrightarrow> i < below xs a" "below xs a \<le> length xs"
    "filter (\<lambda>x. \<not> sm_ts x <s a) xs = drop (below xs a) xs"
proof -
  have F: "filter (\<lambda>x. sm_ts x <s a) xs = take (below xs a) xs \<and> filter (\<lambda>x. \<not> sm_ts x <s a) xs = drop (below xs a) xs"
    using assms unfolding asc_samples_def
  proof (induction xs)
    case (Cons x xs)
    show ?case
    proof (cases "sm_ts x <s a")
      case False
      then have "\<forall>y \<in> set xs. \<not> sm_ts y <s a" using Cons.prems by (auto simp: ts_key_def word_sless_alt)
      then show ?thesis using False by (simp add: below_def filter_empty_conv)
    qed (use Cons in \<open>simp add: below_def\<close>)
  qed (simp add: below_def)
  show le: "below xs a \<le> length xs" by (simp add: below_def)
  show "filter (\<lambda>x. \<not> sm_ts x <s a) xs = drop (below xs a) xs" using F by simp
  show "sm_ts (xs ! i) <s a \<longleftrightarrow> i < below xs a" if i: "i < length xs"
  proof
    assume "i < below xs a"
    then have "xs ! i \<in> set (take (below xs a) xs)" using le by (metis in_set_conv_nth length_take min.absorb2 nth_take)
    then show "sm_ts (xs ! i) <s a" unfolding conjunct1 [OF F, symmetric] by simp
  next
    assume s: "sm_ts (xs ! i) <s a"
    show "i < below xs a"
    proof (rule ccontr)
      assume "\<not> i < below xs a"
      then have "xs ! i \<in> set (drop (below xs a) xs)" using i by (auto simp: in_set_conv_nth intro!: exI [of _ "i - below xs a"])
      then show False using s unfolding conjunct2 [OF F, symmetric] by simp
    qed
  qed
qed

lemma below_mono: "a \<le>s a' \<Longrightarrow> below xs a \<le> below xs a'"
  unfolding below_def by (induction xs) (auto simp: word_sle_eq word_sless_alt)

lemma below_upto: "a \<le>s t \<Longrightarrow> below xs a \<le> count_to xs t"
  unfolding below_def count_to_def by (induction xs) (auto simp: word_sle_eq word_sless_alt)

lemma window_slice:
  assumes "asc_samples xs" "0 \<le>s w"
  shows "window_of w xs t = drop (below xs (saturatingSub t w)) (take (count_to xs t) xs)"
proof -
  have n: "\<not> x <s a \<longleftrightarrow> a \<le>s x" for x a :: i64 by (simp add: word_sle_eq word_sless_alt not_less)
  let ?a = "saturatingSub t w" and ?ys = "take (count_to xs t) xs"
  have ys: "asc_samples ?ys" using assms(1) by (simp add: asc_samples_def take_map [symmetric] sorted_wrt_take)
  have "window_of w xs t = filter (\<lambda>x. \<not> sm_ts x <s ?a) (filter (\<lambda>x. sm_ts x \<le>s t) xs)"
    by (simp add: window_of_def n conj_commute)
  also have "\<dots> = drop (below ?ys ?a) ?ys" unfolding asc_split(3) [OF assms(1)] by (rule asc_below(3) [OF ys])
  also have "below ?ys ?a = below xs ?a"
  proof -
    have "filter (\<lambda>x. sm_ts x <s ?a) (filter (\<lambda>x. sm_ts x \<le>s t) xs) = filter (\<lambda>x. sm_ts x <s ?a) xs"
      using saturatingSub_le [OF assms(2), of t] by (auto simp: word_sle_eq word_sless_alt intro!: filter_cong)
    then show ?thesis unfolding below_def asc_split(3) [OF assms(1)] by simp
  qed
  finally show ?thesis .
qed

lemma advance_hi_upto: "asc_samples xs \<Longrightarrow> hi \<le> count_to xs t \<Longrightarrow> advance_hi xs t hi = count_to xs t"
proof (induction xs t hi rule: advance_hi.induct)
  case (1 xs t hi)
  note s = asc_split [OF "1.prems"(1), where t = t]
  show ?case
  proof (cases "hi < count_to xs t")
    case True
    then have "hi < length xs \<and> sm_ts (xs ! hi) \<le>s t" using s(1) [of hi] s(2) by auto
    then show ?thesis using "1.IH" "1.prems"(1) True by (simp add: advance_hi.simps [of xs t hi])
  next
    case False
    then have "\<not> (hi < length xs \<and> sm_ts (xs ! hi) \<le>s t)" using s(1) [of hi] by auto
    then show ?thesis using False "1.prems"(2) by (subst advance_hi.simps) auto
  qed
qed

lemma advance_lo_below:
  "asc_samples xs \<Longrightarrow> lo \<le> below xs a \<Longrightarrow> below xs a \<le> hi \<Longrightarrow> hi \<le> length xs \<Longrightarrow> advance_lo xs a hi lo = below xs a"
proof (induction xs a hi lo rule: advance_lo.induct)
  case (1 xs a hi lo)
  note s = asc_below [OF "1.prems"(1), where a = a]
  show ?case
  proof (cases "lo < below xs a")
    case True
    then have "lo < hi \<and> sm_ts (xs ! lo) <s a" using s(1) [of lo] s(2) "1.prems" by auto
    then show ?thesis using "1.IH" "1.prems" True by (simp add: advance_lo.simps [of xs a hi lo])
  next
    case False
    then have "\<not> (lo < hi \<and> sm_ts (xs ! lo) <s a)" using s(1) [of lo] "1.prems" by auto
    then show ?thesis using False "1.prems"(2) by (subst advance_lo.simps) auto
  qed
qed

lemma rate_ticks:
  assumes "asc_samples xs" "0 \<le>s w" "ascending (map sint ts)"
    "\<forall>t \<in> set ts. lo \<le> below xs (saturatingSub t w) \<and> hi \<le> count_to xs t"
  shows "fst (foldl (\<lambda>s t. rate_tick fl w xs t s) (points, lo, hi) ts)
    = points @ value_points (\<lambda>t. rate_at fl w (window_of w xs t)) ts"
  using assms(3,4)
proof (induction ts arbitrary: points lo hi)
  case (Cons t ts)
  let ?a = "saturatingSub t w" and ?n = "count_to xs t" and ?b = "below xs (saturatingSub t w)"
  have le: "?b \<le> ?n" "?n \<le> length xs" using below_upto [OF saturatingSub_le [OF assms(2)]] asc_split(2) [OF assms(1)] by auto
  have adv: "advance_hi xs t hi = ?n" "advance_lo xs ?a ?n lo = ?b"
    using advance_hi_upto [OF assms(1)] advance_lo_below [OF assms(1) _ le] Cons.prems(2) by simp_all
  have r: "rate_at fl w (window_of w xs t) = (if ?n - ?b < 2 then None else Some (rate_of fl w (xs ! ?b) (xs ! (?n - 1))))"
    using le by (simp add: window_slice [OF assms(1,2)] rate_at_def)
  have later: "\<forall>t' \<in> set ts. ?b \<le> below xs (saturatingSub t' w) \<and> ?n \<le> count_to xs t'"
    using Cons.prems(1) by (auto intro!: count_to_mono below_mono saturatingSub_mono [OF assms(2)] simp: word_sle_eq)
  show ?case
    using Cons.IH [OF _ later] Cons.prems(1) by (simp add: rate_tick_def adv r Let_def)
qed simp

lemma rate_points_ticks:
  assumes "step_ok endMs stepMs" "asc_samples (sd_Samples sd)" "0 \<le>s w"
  shows "rate_points fl w startMs endMs stepMs sd
    = Some (value_points (\<lambda>t. rate_at fl w (window_of w (sd_Samples sd) t)) (ticks startMs endMs stepMs))"
  using rate_ticks [OF assms(2,3) conjunct1 [OF ticks_ascending [OF assms(1)]], where lo = 0 and hi = 0 and fl = fl and points = "[]"]
  by (simp add: rate_points_def tick_loop_ticks [OF assms(1)])


section \<open>Rows\<close>

text \<open>What an expression answers: rows of labels and a value for each instant; a table is read at one instant or over ticks.\<close>

type_synonym row = "Labels \<times> (i64 \<Rightarrow> float64 option)"

definition at_instant :: "row list \<Rightarrow> i64 \<Rightarrow> (Labels \<times> float64) list" where
  "at_instant rows t = List.map_filter (\<lambda>(l, f). map_option (\<lambda>v. (l, v)) (f t)) rows"

definition over_ticks :: "row list \<Rightarrow> i64 list \<Rightarrow> RangeSeries list" where
  "over_ticks rows ts =
     List.map_filter (\<lambda>(l, f). if value_points f ts = [] then None else Some \<lparr>rs_Labels = l, rs_Points = value_points f ts\<rparr>) rows"

definition instant_values :: "InstantSample list \<Rightarrow> (Labels \<times> float64) list" where
  "instant_values xs = map (\<lambda>i. (is_Labels i, is_Value i)) xs"

definition values_at :: "i64 \<Rightarrow> RangeSeries list \<Rightarrow> (Labels \<times> float64) list" where
  "values_at t out = List.map_filter (\<lambda>rs. map_option (\<lambda>v. (rs_Labels rs, v)) (map_of (rs_Points rs) t)) out"

lemma map_of_value_points: "map_of (value_points f ts) t = (if t \<in> set ts then f t else None)"
  by (induction ts) (auto split: option.splits)

lemma fst_value_points: "map fst (value_points f ts) = filter (\<lambda>t. f t \<noteq> None) ts"
  by (induction ts) (auto split: option.splits)

lemma values_at_over: "t \<in> set ts \<Longrightarrow> values_at t (over_ticks rows ts) = at_instant rows t"
proof -
  assume t: "t \<in> set ts"
  have "value_points f ts = [] \<Longrightarrow> f t = None" for f :: "i64 \<Rightarrow> float64 option"
    using map_of_value_points [of f ts t] t by simp
  then show ?thesis
    unfolding values_at_def over_ticks_def at_instant_def map_filter_comp
    by (intro map_filter_cong) (auto simp: map_of_value_points t split: prod.splits)
qed

definition window_rate :: "float_ops \<Rightarrow> i64 \<Rightarrow> sample list \<Rightarrow> i64 \<Rightarrow> float64 option" where
  "window_rate fl w ss t = rate_at fl w (sortAndDedup (window_of w ss t))"

lemma select_window:
  assumes ids: "\<forall>x \<in> set ss. sm_id x = sid" and w: "0 \<le>s w" and t: "a \<le>s t" "t \<le>s b" and m: "matches sel l"
  shows "case select_spec l ss (range_params sel (saturatingSub a w) b False) of
      None \<Rightarrow> window_of w ss t = []
    | Some sd \<Rightarrow> sd_Labels sd = l \<and> asc_samples (sd_Samples sd) \<and> window_of w (sd_Samples sd) t = sortAndDedup (window_of w ss t)"
proof -
  let ?p = "range_params sel (saturatingSub a w) b False"
  let ?R = "filter (in_range_ts ?p) ss" and ?in = "\<lambda>x. saturatingSub t w \<le>s sm_ts x \<and> sm_ts x \<le>s t"
  have R: "in_range_ts ?p x \<longleftrightarrow> saturatingSub a w \<le>s sm_ts x \<and> sm_ts x \<le>s b" for x by (simp add: in_range_ts_def range_params_def)
  have sub: "in_range_ts ?p x" if "?in x" for x
    using that t saturatingSub_mono [OF w t(1)] by (auto simp: R word_sle_eq)
  have W: "sortAndDedup (window_of w ss t) = window_of w (sortAndDedup ?R) t"
  proof (rule sortAndDedup_eqI [where sid = sid])
    show "\<forall>x \<in> set (window_of w ss t). sm_id x = sid" using ids by (simp add: window_of_def)
    note win = sortAndDedup_winners [of ?R]
    have "ascending (map ts_key (filter ?in (sortAndDedup ?R)))"
      using win by (auto simp: samples.winners_def sorted_wrt_map intro: sorted_wrt_filter)
    moreover have "\<exists>y \<in> set (filter ?in (sortAndDedup ?R)). ts_key y = ts_key x \<and> \<not> beats x y" if "x \<in> set (window_of w ss t)" for x
    proof -
      have x: "x \<in> set ?R" "?in x" using that sub by (auto simp: window_of_def)
      then obtain y where "y \<in> set (sortAndDedup ?R)" "ts_key y = ts_key x" "\<not> beats x y"
        using win unfolding samples.winners_def by blast
      then show ?thesis using x(2) by (auto simp: ts_eq_iff)
    qed
    ultimately show "samples.winners (set (window_of w ss t)) (window_of w (sortAndDedup ?R) t)"
      using sortAndDedup_set [of ?R] by (auto simp: samples.winners_def window_of_def)
  qed
  have B: "filter (before_range ?p) ss = []" by (simp add: before_range_def range_params_def)
  have ab: "\<not> b <s saturatingSub a w" using saturatingSub_le [OF w, of a] t by (auto simp: word_sle_eq word_sless_alt)
  have S: "select_spec l ss ?p = (if ?R = [] then None else Some \<lparr>sd_Labels = l, sd_Anchor = None, sd_Samples = sortAndDedup ?R\<rparr>)"
    using m ab by (simp add: select_spec_def Let_def B) (simp add: range_params_def)
  show ?thesis
  proof (cases "?R = []")
    case True
    then have "window_of w ss t = []" using sub by (auto simp: window_of_def filter_empty_conv)
    then show ?thesis using S True by simp
  next
    case False
    then have "select_spec l ss ?p = Some \<lparr>sd_Labels = l, sd_Anchor = None, sd_Samples = sortAndDedup ?R\<rparr>" using S by (simp only: if_False)
    then show ?thesis using W asc_samples_dedup by simp
  qed
qed

lemma map_map_filter: "map h (List.map_filter g xs) = List.map_filter (\<lambda>x. map_option h (g x)) xs"
  by (induction xs) (auto split: option.splits)

lemma map_filter_map: "List.map_filter f (map g xs) = List.map_filter (\<lambda>x. f (g x)) xs"
  by (induction xs) (auto split: option.splits)

lemma series_loop_map:
  "\<forall>sd \<in> set sds. points sd = Some (ps sd) \<Longrightarrow>
   series_loop points sds = Some (List.map_filter (\<lambda>sd. if ps sd = [] then None else Some \<lparr>rs_Labels = sd_Labels sd, rs_Points = ps sd\<rparr>) sds)"
  by (induction sds) auto

lemma value_points_cong: "(\<And>t. t \<in> set ts \<Longrightarrow> f t = g t) \<Longrightarrow> value_points f ts = value_points g ts"
  by (induction ts) (auto split: option.splits)

lemma value_points_none: "(\<And>t. t \<in> set ts \<Longrightarrow> f t = None) \<Longrightarrow> value_points f ts = []"
  by (induction ts) auto

section \<open>Sources that list their series in a fixed order\<close>

locale series_source =
  fixes inv :: "'s \<Rightarrow> bool" and holds :: "'s \<Rightarrow> holdings" and ids :: "'s \<Rightarrow> Selector \<Rightarrow> u64 list"
    and sel :: "'s \<Rightarrow> SelectParams \<Rightarrow> SeriesData list option"
  assumes ok: "inv s \<Longrightarrow> holdings_ok (holds s)"
    and listed: "inv s \<Longrightarrow> i \<in> set (ids s q) \<Longrightarrow> \<exists>l ss. holds s i = Some (l, ss) \<and> matches q l"
    and answer: "inv s \<Longrightarrow> ValidateSelect p \<Longrightarrow>
      sel s p = Some (List.map_filter (\<lambda>i. case holds s i of None \<Rightarrow> None | Some (l, ss) \<Rightarrow> select_spec l ss p) (ids s (sp_Selector p)))"
begin

definition rows :: "'s \<Rightarrow> Selector \<Rightarrow> (sample list \<Rightarrow> i64 \<Rightarrow> float64 option) \<Rightarrow> row list" where
  "rows s q f = map (\<lambda>i. case holds s i of Some (l, ss) \<Rightarrow> (l, f ss)) (ids s q)"

lemma instant_rows:
  assumes s: "inv s" and p: "ValidateSelect p" "sp_Selector p = q"
    and each: "\<And>i l ss. holds s i = Some (l, ss) \<Longrightarrow> matches q l \<Longrightarrow> \<forall>x \<in> set ss. sm_id x = i \<Longrightarrow>
      (case select_spec l ss p of None \<Rightarrow> f ss t = None | Some sd \<Rightarrow> map_option (\<lambda>x. (is_Labels x, is_Value x)) (g sd) = map_option (\<lambda>v. (l, v)) (f ss t))"
  shows "\<exists>out. sel s p = Some out \<and> instant_values (List.map_filter g out) = at_instant (rows s q f) t"
proof -
  have "map_option (\<lambda>x. (is_Labels x, is_Value x)) (Option.bind (case holds s i of None \<Rightarrow> None | Some (l, ss) \<Rightarrow> select_spec l ss p) g)
      = (case (case holds s i of Some (l, ss) \<Rightarrow> (l, f ss)) of (l, f) \<Rightarrow> map_option (\<lambda>v. (l, v)) (f t))" if i: "i \<in> set (ids s q)" for i
  proof -
    obtain l ss where h: "holds s i = Some (l, ss)" "matches q l" using listed [OF s i] by blast
    moreover have "\<forall>x \<in> set ss. sm_id x = i" using ok [OF s] h(1) by (auto simp: holdings_ok_def)
    ultimately show ?thesis using each [of i l ss] by (cases "select_spec l ss p") auto
  qed
  then have "map (\<lambda>i. (is_Labels i, is_Value i)) (List.map_filter g (List.map_filter (\<lambda>i. case holds s i of None \<Rightarrow> None | Some (l, ss) \<Rightarrow> select_spec l ss p) (ids s q)))
      = at_instant (rows s q f) t"
    unfolding at_instant_def rows_def map_filter_comp map_map_filter map_filter_map by (rule map_filter_cong)
  then show ?thesis unfolding answer [OF s p(1)] p(2) instant_values_def by blast
qed

lemma range_rows:
  assumes s: "inv s" and p: "ValidateSelect p" "sp_Selector p = q"
    and each: "\<And>i l ss. holds s i = Some (l, ss) \<Longrightarrow> matches q l \<Longrightarrow> \<forall>x \<in> set ss. sm_id x = i \<Longrightarrow>
      (case select_spec l ss p of None \<Rightarrow> \<forall>t \<in> set ts. f ss t = None
       | Some sd \<Rightarrow> sd_Labels sd = l \<and> points sd = Some (value_points (f ss) ts))"
  shows "\<exists>out. sel s p = Some out \<and> series_loop points out = Some (over_ticks (rows s q f) ts)"
proof -
  let ?at = "\<lambda>i. case holds s i of None \<Rightarrow> None | Some (l, ss) \<Rightarrow> select_spec l ss p"
  let ?out = "List.map_filter ?at (ids s q)" and ?ps = "\<lambda>sd. the (points sd)"
  have E: "(case ?at i of None \<Rightarrow> value_points (f ss) ts = [] | Some sd \<Rightarrow> sd_Labels sd = l \<and> points sd = Some (value_points (f ss) ts))"
    if "i \<in> set (ids s q)" "holds s i = Some (l, ss)" for i l ss
  proof -
    have "matches q l" using listed [OF s that(1)] that(2) by auto
    moreover have "\<forall>x \<in> set ss. sm_id x = i" using ok [OF s] that(2) by (auto simp: holdings_ok_def)
    ultimately show ?thesis using each [OF that(2)] that(2) value_points_none [of ts "f ss"]
      by (cases "select_spec l ss p") auto
  qed
  have "\<forall>sd \<in> set ?out. points sd = Some (?ps sd)"
  proof
    fix sd assume "sd \<in> set ?out"
    then obtain i where i: "i \<in> set (ids s q)" "?at i = Some sd" by (auto simp: List.map_filter_def)
    moreover obtain l ss where "holds s i = Some (l, ss)" using i(2) by (auto split: option.splits)
    ultimately show "points sd = Some (?ps sd)" using E [of i l ss] by auto
  qed
  note L = series_loop_map [OF this]
  have "Option.bind (?at i) (\<lambda>sd. if ?ps sd = [] then None else Some \<lparr>rs_Labels = sd_Labels sd, rs_Points = ?ps sd\<rparr>)
     = (case (case holds s i of Some (l, ss) \<Rightarrow> (l, f ss)) of (l, f) \<Rightarrow>
         if value_points f ts = [] then None else Some \<lparr>rs_Labels = l, rs_Points = value_points f ts\<rparr>)"
    if i: "i \<in> set (ids s q)" for i
  proof -
    obtain l ss where h: "holds s i = Some (l, ss)" using listed [OF s i] by blast
    then show ?thesis using E [OF i h] by (cases "select_spec l ss p") auto
  qed
  then have "List.map_filter (\<lambda>sd. if ?ps sd = [] then None else Some \<lparr>rs_Labels = sd_Labels sd, rs_Points = ?ps sd\<rparr>) ?out
    = over_ticks (rows s q f) ts"
    unfolding over_ticks_def rows_def map_filter_comp map_filter_map by (rule map_filter_cong)
  then show ?thesis using L unfolding answer [OF s p(1)] p(2) by simp
qed

text \<open>The engine over such a source.\<close>

definition engine :: "'e \<Rightarrow> 's \<Rightarrow> 'e Source \<Rightarrow> bool" where
  "engine invalid s src \<longleftrightarrow> src_Select src = (\<lambda>p. case sel s p of None \<Rightarrow> Inl invalid | Some a \<Rightarrow> Inr a)"

lemma selector_rows:
  fixes q :: Selector
  assumes s: "inv s" and src: "engine invalid s src" and step: "step_ok endMs stepMs"
  defines "R \<equiv> rows s q (\<lambda>ss t. map_option sm_val (latest_at ss t))"
  shows "\<exists>out. InstantQuery src q t = Inr out \<and> instant_values out = at_instant R t"
    and "startMs \<le>s endMs \<Longrightarrow> RangeQuery src q startMs endMs stepMs = Some (Inr (over_ticks R (ticks startMs endMs stepMs)))"
proof -
  have v: "ValidateSelect (range_params q a b True)" "ValidateSelect (instant_params q t)" for a b
    by (simp_all add: ValidateSelect_def range_params_def instant_params_def)
  have inst: "instant_params q t = range_params q t t True" by (simp add: instant_params_def range_params_def)
  obtain out where "sel s (instant_params q t) = Some out"
    "instant_values (List.map_filter (\<lambda>sd. map_option (\<lambda>s. \<lparr>is_Labels = sd_Labels sd, is_TimestampMs = sm_ts s, is_Value = sm_val s\<rparr>) (latestAtOrBefore sd t)) out)
      = at_instant R t"
  proof (atomize_elim, unfold R_def, rule instant_rows [OF s v(2)])
    fix i :: u64 and l and ss :: "sample list" assume h: "matches q l" "\<forall>x \<in> set ss. sm_id x = i"
    have "case select_spec l ss (instant_params q t) of None \<Rightarrow> latest_at ss t = None
      | Some sd \<Rightarrow> sd_Labels sd = l \<and> latestAtOrBefore sd t = latest_at ss t"
    proof (cases "select_spec l ss (instant_params q t)")
      case None
      then show ?thesis using select_latest [OF h(2) inst _ _ h(1), of t] by (simp add: word_sle_eq)
    next
      case (Some sd)
      then have sd: "sd_Labels sd = l" "asc_samples (sd_Samples sd)" "\<forall>x \<in> set_option (sd_Anchor sd). sm_ts x <s t"
        "latest_of (sd_Anchor sd) (sd_Samples sd) t = latest_at ss t"
        using select_latest [OF h(2) inst _ _ h(1), of t] by (simp_all add: word_sle_eq)
      moreover have "\<forall>x \<in> set_option (sd_Anchor sd). sm_ts x \<le>s t" using sd(3) by (auto simp: word_sle_eq word_sless_alt)
      ultimately show ?thesis using Some latestAtOrBefore_alt [of sd t] by simp
    qed
    then show "case select_spec l ss (instant_params q t) of None \<Rightarrow> map_option sm_val (latest_at ss t) = None
      | Some sd \<Rightarrow> map_option (\<lambda>x. (is_Labels x, is_Value x))
          (map_option (\<lambda>s. \<lparr>is_Labels = sd_Labels sd, is_TimestampMs = sm_ts s, is_Value = sm_val s\<rparr>) (latestAtOrBefore sd t))
          = map_option (\<lambda>v. (l, v)) (map_option sm_val (latest_at ss t))"
      by (auto split: option.splits simp: option.map_comp comp_def)
  qed (simp add: instant_params_def)
  then show "\<exists>out. InstantQuery src q t = Inr out \<and> instant_values out = at_instant R t"
    using src by (simp add: InstantQuery_def engine_def)
  assume se: "startMs \<le>s endMs"
  obtain out where "sel s (range_params q startMs endMs True) = Some out"
    "series_loop (range_points startMs endMs stepMs) out = Some (over_ticks R (ticks startMs endMs stepMs))"
  proof (atomize_elim, unfold R_def, rule range_rows [OF s v(1)])
    fix i :: u64 and l and ss :: "sample list" assume h: "matches q l" "\<forall>x \<in> set ss. sm_id x = i"
    have T: "startMs \<le>s t \<and> t \<le>s endMs" if "t \<in> set (ticks startMs endMs stepMs)" for t
      using ticks_ascending [OF step, of startMs] that by (auto simp: word_sle_eq)
    note L = select_latest [OF h(2) refl _ _ h(1), of startMs _ endMs]
    show "case select_spec l ss (range_params q startMs endMs True) of
        None \<Rightarrow> \<forall>t \<in> set (ticks startMs endMs stepMs). map_option sm_val (latest_at ss t) = None
      | Some sd \<Rightarrow> sd_Labels sd = l \<and> range_points startMs endMs stepMs sd
          = Some (value_points (\<lambda>t. map_option sm_val (latest_at ss t)) (ticks startMs endMs stepMs))"
    proof (cases "select_spec l ss (range_params q startMs endMs True)")
      case None
      then show ?thesis using L T by simp
    next
      case (Some sd)
      have sd: "sd_Labels sd = l" "asc_samples (sd_Samples sd)" using L [of endMs] se Some by (simp_all add: word_sle_eq)
      have "value_points (\<lambda>t. map_option sm_val (latest_of (sd_Anchor sd) (sd_Samples sd) t)) (ticks startMs endMs stepMs)
        = value_points (\<lambda>t. map_option sm_val (latest_at ss t)) (ticks startMs endMs stepMs)"
        using L T Some by (intro value_points_cong) simp
      then show ?thesis using Some sd range_points_ticks [OF step sd(2), of startMs] by simp
    qed
  qed (simp add: range_params_def)
  then show "RangeQuery src q startMs endMs stepMs = Some (Inr (over_ticks R (ticks startMs endMs stepMs)))"
    using src step se by (simp add: RangeQuery_def engine_def step_ok_def word_sle_eq word_sless_alt)
qed

lemma rate_rows:
  fixes q :: Selector and fl :: float_ops
  assumes s: "inv s" and src: "engine invalid s src" and step: "step_ok endMs stepMs" and w: "0 \<le>s w"
  defines "R \<equiv> rows s q (window_rate fl w)"
  shows "\<exists>out. rateInstant fl src q w t = Inr out \<and> instant_values out = at_instant R t"
    and "startMs \<le>s endMs \<Longrightarrow> rateRange fl src q w startMs endMs stepMs = Some (Inr (over_ticks R (ticks startMs endMs stepMs)))"
proof -
  have v: "ValidateSelect (range_params q a b False)" for a b by (simp add: ValidateSelect_def range_params_def)
  obtain out where "sel s (range_params q (saturatingSub t w) t False) = Some out"
    "instant_values (List.map_filter (\<lambda>sd. let xs = sd_Samples sd in if length xs < 2 then None
        else Some \<lparr>is_Labels = sd_Labels sd, is_TimestampMs = t, is_Value = rate_of fl w (xs ! 0) (xs ! (length xs - 1))\<rparr>) out) = at_instant R t"
  proof (atomize_elim, unfold R_def, rule instant_rows [OF s v])
    fix i :: u64 and l and ss :: "sample list" assume h: "matches q l" "\<forall>x \<in> set ss. sm_id x = i"
    have "sd_Samples sd = sortAndDedup (window_of w ss t)" if "select_spec l ss (range_params q (saturatingSub t w) t False) = Some sd" for sd
    proof -
      have "sd_Samples sd = sortAndDedup (filter (in_range_ts (range_params q (saturatingSub t w) t False)) ss)"
        using that by (auto simp: select_spec_def Let_def range_params_def split: if_splits)
      moreover have "filter (in_range_ts (range_params q (saturatingSub t w) t False)) ss = window_of w ss t"
        unfolding window_of_def by (intro filter_cong refl) (simp add: in_range_ts_def range_params_def)
      ultimately show ?thesis by simp
    qed
    then show "case select_spec l ss (range_params q (saturatingSub t w) t False) of None \<Rightarrow> window_rate fl w ss t = None
      | Some sd \<Rightarrow> map_option (\<lambda>x. (is_Labels x, is_Value x)) (let xs = sd_Samples sd in if length xs < 2 then None
          else Some \<lparr>is_Labels = sd_Labels sd, is_TimestampMs = t, is_Value = rate_of fl w (xs ! 0) (xs ! (length xs - 1))\<rparr>)
          = map_option (\<lambda>v. (l, v)) (window_rate fl w ss t)"
      using select_window [OF h(2) w _ _ h(1), of t t t]
      by (auto split: option.splits simp: window_rate_def rate_at_def sortAndDedup_nil word_sle_eq Let_def)
  qed (simp add: range_params_def)
  then show "\<exists>out. rateInstant fl src q w t = Inr out \<and> instant_values out = at_instant R t"
    using src by (simp add: rateInstant_def engine_def)
  assume se: "startMs \<le>s endMs"
  obtain out where "sel s (range_params q (saturatingSub startMs w) endMs False) = Some out"
    "series_loop (rate_points fl w startMs endMs stepMs) out = Some (over_ticks R (ticks startMs endMs stepMs))"
  proof (atomize_elim, unfold R_def, rule range_rows [OF s v])
    fix i :: u64 and l and ss :: "sample list" assume h: "matches q l" "\<forall>x \<in> set ss. sm_id x = i"
    have T: "startMs \<le>s t \<and> t \<le>s endMs" if "t \<in> set (ticks startMs endMs stepMs)" for t
      using ticks_ascending [OF step, of startMs] that by (auto simp: word_sle_eq)
    note L = select_window [OF h(2) w _ _ h(1), of startMs _ endMs]
    show "case select_spec l ss (range_params q (saturatingSub startMs w) endMs False) of
        None \<Rightarrow> \<forall>t \<in> set (ticks startMs endMs stepMs). window_rate fl w ss t = None
      | Some sd \<Rightarrow> sd_Labels sd = l \<and> rate_points fl w startMs endMs stepMs sd = Some (value_points (window_rate fl w ss) (ticks startMs endMs stepMs))"
    proof (cases "select_spec l ss (range_params q (saturatingSub startMs w) endMs False)")
      case None
      then show ?thesis using L T by (simp add: window_rate_def rate_at_def sortAndDedup_nil)
    next
      case (Some sd)
      have sd: "sd_Labels sd = l" "asc_samples (sd_Samples sd)" using L [of endMs] se Some by (simp_all add: word_sle_eq)
      have "value_points (\<lambda>t. rate_at fl w (window_of w (sd_Samples sd) t)) (ticks startMs endMs stepMs)
        = value_points (window_rate fl w ss) (ticks startMs endMs stepMs)"
        using L T Some by (intro value_points_cong) (simp add: window_rate_def)
      then show ?thesis using Some sd rate_points_ticks [OF step sd(2) w, of fl startMs] by simp
    qed
  qed (simp add: range_params_def)
  then show "rateRange fl src q w startMs endMs stepMs = Some (Inr (over_ticks R (ticks startMs endMs stepMs)))"
    using src by (simp add: rateRange_def engine_def)
qed

end


section \<open>Sums\<close>

definition group_value :: "string \<Rightarrow> Labels \<Rightarrow> string" where
  "group_value name l = (case Get l name of None \<Rightarrow> [] | Some v \<Rightarrow> v)"

definition short_labels :: "Labels \<Rightarrow> bool" where "short_labels l \<longleftrightarrow> (\<forall>name v. Get l name = Some v \<longrightarrow> length v < 2 ^ 32)"

lemma framed_inject32:
  assumes "length x < 2 ^ 32" "length y < 2 ^ 32"
    and "put_u32 (of_nat (length x)) @ str_bytes x @ xs = put_u32 (of_nat (length y)) @ str_bytes y @ ys"
  shows "x = y \<and> xs = ys"
proof -
  have e: "put_u32 (of_nat (length x)) = put_u32 (of_nat (length y))"
    and r: "str_bytes x @ xs = str_bytes y @ ys" using assms(3) by (simp_all add: append_eq_append_conv)
  have "(of_nat (length x) :: u32) = of_nat (length y)" using arg_cong [OF e, of "get_be :: bytes \<Rightarrow> u32"] by simp
  then have "unat (of_nat (length x) :: u32) = unat (of_nat (length y) :: u32)" by simp
  then have "length x = length y" using assms(1,2) by (simp add: unat_of_nat take_bit_nat_eq_self)
  then show ?thesis using r by (auto dest: str_bytes_inj)
qed

lemma groupKey_inject:
  assumes "short_labels l" "short_labels l'"
  shows "groupKey l by_names = groupKey l' by_names \<Longrightarrow> \<forall>name \<in> set by_names. group_value name l = group_value name l'"
proof (induction by_names)
  case (Cons n ns)
  have "length (group_value n l) < 2 ^ 32" "length (group_value n l') < 2 ^ 32"
    using assms by (auto simp: group_value_def short_labels_def split: option.splits)
  then have "group_value n l = group_value n l' \<and> groupKey l ns = groupKey l' ns"
    using Cons.prems by (intro framed_inject32) (simp_all add: groupKey_def group_value_def Let_def)
  then show ?case using Cons.IH by simp
qed simp

lemma group_labels_cong:
  assumes "\<forall>name \<in> set by_names. group_value name l = group_value name l'"
  shows "group_labels l by_names = group_labels l' by_names"
  using assms unfolding group_labels_def group_value_def by (intro foldl_cong refl) simp

definition in_group :: "string list \<Rightarrow> bytes \<Rightarrow> (Labels \<times> float64) list \<Rightarrow> float64 list" where
  "in_group by_names k xs = map snd (filter (\<lambda>(l, v). groupKey l by_names = k) xs)"

definition group_sum :: "float_ops \<Rightarrow> float64 list \<Rightarrow> float64 option" where
  "group_sum fl vs = (if vs = [] then None else Some (foldl (f_add fl) 0 vs))"

lemma in_group_simps [simp]:
  "in_group by_names k [] = []"
  "in_group by_names k ((l, v) # xs) = (if groupKey l by_names = k then v # in_group by_names k xs else in_group by_names k xs)"
  "in_group by_names k (xs @ ys) = in_group by_names k xs @ in_group by_names k ys"
  by (simp_all add: in_group_def)

lemma in_group_none: "in_group by_names k xs = [] \<longleftrightarrow> k \<notin> (\<lambda>(l, v). groupKey l by_names) ` set xs"
  by (auto simp: in_group_def filter_empty_conv)

lemma group_sum_snoc: "group_sum fl (vs @ [v]) = Some (f_add fl (case group_sum fl vs of None \<Rightarrow> 0 | Some x \<Rightarrow> x) v)"
  by (simp add: group_sum_def)

lemma add_at_of: "map_of (add_at fl k v m) k' = (if k' = k then Some (f_add fl (case map_of m k of None \<Rightarrow> 0 | Some x \<Rightarrow> x) v) else map_of m k')"
  by (simp add: add_at_def update_conv')

lemma fold_update_keys:
  assumes "\<And>m x. map fst (step m x) = (if key x \<in> set (map fst m) then map fst m else map fst m @ [key x])"
  shows "distinct (map fst m) \<Longrightarrow> distinct (map fst (foldl step m xs))
    \<and> set (map fst (foldl step m xs)) = set (map fst m) \<union> key ` set xs"
proof (induction xs arbitrary: m)
  case (Cons x xs)
  have "distinct (map fst (step m x))" "set (map fst (step m x)) = insert (key x) (set (map fst m))"
    using Cons.prems by (auto simp only: assms split: if_splits) simp_all
  then show ?case using Cons.IH [of "step m x"] by simp
qed simp

lemma update_keys_eq: "map fst (AList.update k v m) = (if k \<in> set (map fst m) then map fst m else map fst m @ [k])"
  by (induction m) auto

lemma group_values_instant:
  "map_of (foldl (\<lambda>m s. add_at fl (groupKey (is_Labels s) by_names) (is_Value s) m) [] samples) k = group_sum fl (in_group by_names k (instant_values samples))"
proof (induction samples rule: rev_induct)
  case (snoc s samples)
  then show ?case by (auto simp: instant_values_def add_at_of group_sum_snoc)
qed (simp add: instant_values_def group_sum_def)

text \<open>\<^verbatim>\<open>names k\<close> are the labels of the group with key \<^verbatim>\<open>k\<close>.\<close>

definition group_names :: "string list \<Rightarrow> (bytes \<Rightarrow> gomap) \<Rightarrow> Labels set \<Rightarrow> bool" where
  "group_names by_names names L \<longleftrightarrow> (\<forall>l \<in> L. names (groupKey l by_names) = group_labels l by_names)"

lemma group_names_exists:
  assumes "\<forall>l \<in> L. short_labels l"
  shows "\<exists>names. group_names by_names names L"
proof -
  have "group_labels l by_names = group_labels l' by_names" if "l \<in> L" "l' \<in> L" "groupKey l by_names = groupKey l' by_names" for l l'
    using that assms groupKey_inject group_labels_cong by blast
  then have "group_names by_names (\<lambda>k. group_labels (SOME l. l \<in> L \<and> groupKey l by_names = k) by_names) L"
    unfolding group_names_def by (metis (mono_tags, lifting) someI_ex)
  then show ?thesis by blast
qed

lemma note_group_of:
  assumes "\<And>k. map_of m k = (if k \<in> S then Some (names k) else None)" "names k0 = group_labels l by_names"
  shows "map_of (note_group k0 l by_names m) k = (if k \<in> insert k0 S then Some (names k) else None)"
  by (auto simp: note_group_def update_conv' assms)

lemma noted_names:
  assumes "group_names by_names names L" "lab ` set xs \<subseteq> L"
  shows "map_of (foldl (\<lambda>m s. note_group (groupKey (lab s) by_names) (lab s) by_names m) [] xs) k
    = (if k \<in> (\<lambda>s. groupKey (lab s) by_names) ` set xs then Some (names k) else None)"
  using assms(2)
proof (induction xs arbitrary: k rule: rev_induct)
  case (snoc s xs)
  let ?m = "foldl (\<lambda>m s. note_group (groupKey (lab s) by_names) (lab s) by_names m) [] xs" and ?k = "groupKey (lab s) by_names"
  let ?S = "(\<lambda>s. groupKey (lab s) by_names) ` set xs"
  have IH: "map_of ?m k = (if k \<in> ?S then Some (names k) else None)" for k using snoc by simp
  have "names ?k = group_labels (lab s) by_names" using assms(1) snoc.prems by (auto simp: group_names_def)
  from note_group_of [OF IH this] have "map_of (note_group ?k (lab s) by_names ?m) k = (if k \<in> insert ?k ?S then Some (names k) else None)" .
  then show ?case by simp
qed simp

definition sums :: "float_ops \<Rightarrow> string list \<Rightarrow> (bytes \<Rightarrow> gomap) \<Rightarrow> (Labels \<times> float64) list \<Rightarrow> bytes \<Rightarrow> Labels \<times> float64" where
  "sums fl by_names names xs k = (NewUnvalidated (names k), foldl (f_add fl) 0 (in_group by_names k xs))"

lemma aggregateInstant_sums:
  assumes "group_names by_names names L" "is_Labels ` set samples \<subseteq> L"
  shows "\<exists>ks. distinct ks \<and> set ks = (\<lambda>(l, v). groupKey l by_names) ` set (instant_values samples)
    \<and> instant_values (aggregateInstant fl samples by_names t) = map (sums fl by_names names (instant_values samples)) ks"
proof -
  have keys: "(\<lambda>(l, v). groupKey l by_names) ` set (instant_values samples) = (\<lambda>s. groupKey (is_Labels s) by_names) ` set samples"
    by (auto simp: instant_values_def image_image)
  consider "samples = []" | "samples \<noteq> []" "by_names = []" | "samples \<noteq> []" "by_names \<noteq> []" by blast
  then show ?thesis
  proof cases
    case 1
    then show ?thesis by (simp add: aggregateInstant_def instant_values_def)
  next
    case 2
    have one: "groupKey l [] = []" for l by (simp add: groupKey_def)
    obtain s where s: "s \<in> set samples" using 2(1) by (cases samples) auto
    have n: "names [] = []" using assms s 2(2) by (auto simp: group_names_def group_labels_def one)
    have all: "in_group [] [] (instant_values samples) = map is_Value samples"
      by (simp add: in_group_def instant_values_def one comp_def)
    have "foldl (f_add fl) 0 (map is_Value samples) = foldl (\<lambda>total s. f_add fl total (is_Value s)) 0 samples" by (simp add: foldl_map)
    moreover have "(\<lambda>(l, v). groupKey l by_names) ` set (instant_values samples) = {[]}" unfolding keys using s 2(2) by (auto simp: one)
    ultimately show ?thesis using 2 n all
      by (intro exI [of _ "[[]]"]) (simp add: aggregateInstant_def instant_values_def sums_def)
  next
    case 3
    let ?gv = "foldl (\<lambda>m s. add_at fl (groupKey (is_Labels s) by_names) (is_Value s) m) [] samples"
    have K: "distinct (map fst ?gv)" "set (map fst ?gv) = (\<lambda>s. groupKey (is_Labels s) by_names) ` set samples"
      using fold_update_keys [where step = "\<lambda>m s. add_at fl (groupKey (is_Labels s) by_names) (is_Value s) m"
          and key = "\<lambda>s. groupKey (is_Labels s) by_names" and m = "[]" and xs = samples]
      by (auto simp: add_at_def update_keys_eq)
    have "instant_values (aggregateInstant fl samples by_names t)
      = map (\<lambda>(k, v). (NewUnvalidated (the (map_of (foldl (\<lambda>m s. note_group (groupKey (is_Labels s) by_names) (is_Labels s) by_names m) [] samples) k)), v)) ?gv"
      using 3 by (simp add: aggregateInstant_def instant_values_def Let_def comp_def split_def)
    also have "\<dots> = map (\<lambda>(k, v). sums fl by_names names (instant_values samples) k) ?gv"
    proof (intro map_cong refl, clarify)
      fix k v assume kv: "(k, v) \<in> set ?gv"
      then have "map_of ?gv k = Some v" using K(1) by simp
      then have "v = foldl (f_add fl) 0 (in_group by_names k (instant_values samples))"
        unfolding group_values_instant by (simp add: group_sum_def split: if_splits)
      moreover have "k \<in> set (map fst ?gv)" using kv by force
      then have "k \<in> (\<lambda>s. groupKey (is_Labels s) by_names) ` set samples" unfolding K(2) .
      ultimately show "(NewUnvalidated (the (map_of (foldl (\<lambda>m s. note_group (groupKey (is_Labels s) by_names) (is_Labels s) by_names m) [] samples) k)), v)
          = sums fl by_names names (instant_values samples) k"
        unfolding noted_names [OF assms] by (simp add: sums_def)
    qed
    finally show ?thesis using K unfolding keys
      by (intro exI [of _ "map fst ?gv"]) (simp add: comp_def split_def)
  qed
qed


definition points_ok :: "(i64 \<times> float64) list \<Rightarrow> bool" where
  "points_ok ps \<longleftrightarrow> ps \<noteq> [] \<and> ascending (map (\<lambda>p. sint (fst p)) ps)"

lemma points_ok_distinct: "points_ok ps \<Longrightarrow> distinct (map fst ps)"
  by (auto simp: points_ok_def strict_sorted_iff distinct_map inj_on_def)

lemma add_at_keys: "map fst (add_at fl t v ts) = (if t \<in> set (map fst ts) then map fst ts else map fst ts @ [t])"
  by (simp add: add_at_def update_keys_eq)

lemma tick_sums:
  assumes "distinct (map fst pts)"
  shows "map_of (foldl (\<lambda>ts (t, v). add_at fl t v ts) tk pts) t =
    (case map_of pts t of None \<Rightarrow> map_of tk t
     | Some v \<Rightarrow> Some (f_add fl (case map_of tk t of None \<Rightarrow> 0 | Some x \<Rightarrow> x) v))"
  using assms
proof (induction pts arbitrary: tk)
  case (Cons p pts)
  obtain t0 v0 where p: "p = (t0, v0)" by (cases p)
  have "map_of pts t0 = None" using Cons.prems by (auto simp: p map_of_eq_None_iff)
  then show ?case using Cons by (auto simp: p add_at_of split: option.splits)
qed simp

lemma tick_keys:
  "distinct (map fst tk) \<Longrightarrow> distinct (map fst (foldl (\<lambda>ts (t, v). add_at fl t v ts) tk pts))
    \<and> set (map fst (foldl (\<lambda>ts (t, v). add_at fl t v ts) tk pts)) = set (map fst tk) \<union> fst ` set pts"
  using fold_update_keys [where step = "\<lambda>ts (t, v). add_at fl t v ts" and key = fst and m = tk and xs = pts]
  by (auto simp: add_at_keys split: prod.splits)

lemma values_at_snoc:
  "values_at t (out @ [rs]) = values_at t out @ (case map_of (rs_Points rs) t of None \<Rightarrow> [] | Some v \<Rightarrow> [(rs_Labels rs, v)])"
  by (induction out) (auto simp: values_at_def split: option.splits)

lemma values_at_Nil [simp]: "values_at t [] = []" by (simp add: values_at_def)

lemma group_ticks:
  assumes "\<forall>rs \<in> set out. points_ok (rs_Points rs)"
  shows "case map_of (foldl (add_series fl by_names) [] out) k of
      None \<Rightarrow> k \<notin> (\<lambda>rs. groupKey (rs_Labels rs) by_names) ` set out
    | Some tk \<Rightarrow> k \<in> (\<lambda>rs. groupKey (rs_Labels rs) by_names) ` set out \<and> tk \<noteq> [] \<and> distinct (map fst tk)
        \<and> (\<forall>t. map_of tk t = group_sum fl (in_group by_names k (values_at t out)))"
  using assms
proof (induction out arbitrary: k rule: rev_induct)
  case (snoc rs out)
  let ?m = "foldl (add_series fl by_names) [] out" and ?k = "groupKey (rs_Labels rs) by_names"
  let ?old = "case map_of ?m ?k of None \<Rightarrow> [] | Some ts \<Rightarrow> ts"
  have pd: "distinct (map fst (rs_Points rs))" "rs_Points rs \<noteq> []" using snoc.prems points_ok_distinct by (auto simp: points_ok_def)
  note IH = snoc.IH [unfolded atomize_all, rule_format]
  have IH: "case map_of ?m k of
      None \<Rightarrow> k \<notin> (\<lambda>rs. groupKey (rs_Labels rs) by_names) ` set out
    | Some tk \<Rightarrow> k \<in> (\<lambda>rs. groupKey (rs_Labels rs) by_names) ` set out \<and> tk \<noteq> [] \<and> distinct (map fst tk)
        \<and> (\<forall>t. map_of tk t = group_sum fl (in_group by_names k (values_at t out)))" for k
    using snoc by simp
  have none: "in_group by_names k (values_at t out) = []" if "k \<notin> (\<lambda>rs. groupKey (rs_Labels rs) by_names) ` set out" for k t
    using that by (auto simp: in_group_none values_at_def List.map_filter_def)
  have old: "distinct (map fst ?old)" "map_of ?old t = group_sum fl (in_group by_names ?k (values_at t out))" for t
    using IH [of ?k] none [of ?k t] by (auto split: option.splits simp: group_sum_def)
  let ?new = "foldl (\<lambda>ts (t, v). add_at fl t v ts) ?old (rs_Points rs)"
  have new: "distinct (map fst ?new)" "?new \<noteq> []" "map_of ?new t = group_sum fl (in_group by_names ?k (values_at t (out @ [rs])))" for t
  proof -
    show "distinct (map fst ?new)" using tick_keys [OF old(1)] by blast
    have "fst ` set ?new \<noteq> {}" using tick_keys [OF old(1), of fl "rs_Points rs"] pd(2) by auto
    then show "?new \<noteq> []" by auto
    show "map_of ?new t = group_sum fl (in_group by_names ?k (values_at t (out @ [rs])))"
      unfolding tick_sums [OF pd(1)] old(2) values_at_snoc by (simp add: group_sum_snoc split: option.splits)
  qed
  have m: "map_of (foldl (add_series fl by_names) [] (out @ [rs])) k = (if k = ?k then Some ?new else map_of ?m k)"
    by (simp add: add_series_def Let_def update_conv')
  show ?case
  proof (cases "k = ?k")
    case True
    then show ?thesis unfolding m using new by simp
  next
    case False
    have "in_group by_names k (values_at t (out @ [rs])) = in_group by_names k (values_at t out)" for t
      using False by (simp add: values_at_snoc split: option.splits)
    then show ?thesis unfolding m using IH [of k] False by (simp split: option.splits)
  qed
qed simp

lemma sortPoints_ok:
  assumes "distinct (map fst ts)" "ts \<noteq> []"
  shows "points_ok (sortPoints ts)" "map_of (sortPoints ts) = map_of ts"
proof -
  have d: "distinct (map (\<lambda>p. sint (fst p)) ts)" using assms(1) unfolding distinct_map inj_on_def by (metis signed_word_eqI)
  have ne: "sortPoints ts \<noteq> []" using assms(2) by (metis length_0_conv length_sort sortPoints_def)
  have "mset (map (\<lambda>p. sint (fst p)) (sortPoints ts)) = mset (map (\<lambda>p. sint (fst p)) ts)" by (simp add: sortPoints_def)
  then have "distinct (map (\<lambda>p. sint (fst p)) (sortPoints ts))" using d by (metis mset_eq_imp_distinct_iff)
  then show "points_ok (sortPoints ts)" using ne
    by (simp add: points_ok_def strict_sorted_iff) (simp add: sortPoints_def)
  then have "distinct (map fst (sortPoints ts))" by (rule points_ok_distinct)
  then show "map_of (sortPoints ts) = map_of ts" using assms(1) by (subst map_of_inject_set) (simp_all add: sortPoints_def)
qed

lemma aggregateRange_sums:
  assumes "group_names by_names names L" "rs_Labels ` set out \<subseteq> L" "\<forall>rs \<in> set out. points_ok (rs_Points rs)"
  shows "\<forall>rs \<in> set (aggregateRange fl out by_names). points_ok (rs_Points rs) \<and> fst ` set (rs_Points rs) \<subseteq> (\<Union>rs \<in> set out. fst ` set (rs_Points rs))"
    and "\<exists>ks. distinct ks \<and> set ks = (\<lambda>(l, v). groupKey l by_names) ` set (values_at t out)
      \<and> values_at t (aggregateRange fl out by_names) = map (sums fl by_names names (values_at t out)) ks"
proof -
  let ?g = "foldl (add_series fl by_names) [] out"
  let ?keys = "(\<lambda>rs. groupKey (rs_Labels rs) by_names) ` set out"
  have K: "distinct (map fst ?g)" "set (map fst ?g) = ?keys"
    using fold_update_keys [where step = "add_series fl by_names" and key = "\<lambda>rs. groupKey (rs_Labels rs) by_names" and m = "[]" and xs = out]
    by (auto simp: add_series_def Let_def update_keys_eq)
  have G: "k \<in> ?keys \<and> tk \<noteq> [] \<and> distinct (map fst tk)
      \<and> (\<forall>t. map_of tk t = group_sum fl (in_group by_names k (values_at t out)))" if "(k, tk) \<in> set ?g" for k tk
    using group_ticks [OF assms(3), where fl = fl and by_names = by_names and k = k] K(1) that by simp
  have A: "aggregateRange fl out by_names = map (\<lambda>(k, tk). \<lparr>rs_Labels = NewUnvalidated (names k), rs_Points = sortPoints tk\<rparr>) ?g"
  proof (cases "out = []")
    case False
    then show ?thesis using G noted_names [OF assms(1,2)]
      by (auto simp: aggregateRange_def Let_def intro!: map_cong)
  qed (simp add: aggregateRange_def)
  have sub: "fst ` set tk \<subseteq> (\<Union>rs \<in> set out. fst ` set (rs_Points rs))" if "(k, tk) \<in> set ?g" for k tk
  proof
    fix x assume "x \<in> fst ` set tk"
    then have "map_of tk x \<noteq> None" by (simp add: map_of_eq_None_iff)
    then have "in_group by_names k (values_at x out) \<noteq> []" using G [OF that] by (auto simp: group_sum_def)
    then have "values_at x out \<noteq> []" by auto
    then obtain rs v where "rs \<in> set out" "map_of (rs_Points rs) x = Some v"
      by (auto simp: values_at_def List.map_filter_def filter_empty_conv)
    then show "x \<in> (\<Union>rs \<in> set out. fst ` set (rs_Points rs))" by (force dest: map_of_SomeD)
  qed
  show "\<forall>rs \<in> set (aggregateRange fl out by_names). points_ok (rs_Points rs) \<and> fst ` set (rs_Points rs) \<subseteq> (\<Union>rs \<in> set out. fst ` set (rs_Points rs))"
  proof
    fix rs assume "rs \<in> set (aggregateRange fl out by_names)"
    then obtain k tk where k: "(k, tk) \<in> set ?g" "rs = \<lparr>rs_Labels = NewUnvalidated (names k), rs_Points = sortPoints tk\<rparr>"
      unfolding A by auto
    have "set (sortPoints tk) = set tk" by (simp add: sortPoints_def)
    then show "points_ok (rs_Points rs) \<and> fst ` set (rs_Points rs) \<subseteq> (\<Union>rs \<in> set out. fst ` set (rs_Points rs))"
      using G [OF k(1)] sub [OF k(1)] sortPoints_ok(1) [of tk] k(2) by simp
  qed
  let ?has = "\<lambda>k. in_group by_names k (values_at t out) \<noteq> []"
  let ?ks = "filter ?has (map fst ?g)"
  have "set ?ks = (\<lambda>(l, v). groupKey l by_names) ` set (values_at t out)"
  proof -
    have "k \<in> ?keys" if "?has k" for k
      using that by (auto simp: in_group_none values_at_def List.map_filter_def)
    then show ?thesis using K(2) by (auto simp: in_group_none)
  qed
  moreover have "values_at t (aggregateRange fl out by_names) = map (sums fl by_names names (values_at t out)) ?ks"
  proof -
    have "values_at t (aggregateRange fl out by_names)
      = List.map_filter (\<lambda>(k, tk). if ?has k then Some (sums fl by_names names (values_at t out) k) else None) ?g"
      unfolding A values_at_def [of t "map _ _"] map_filter_map
    proof (rule map_filter_cong, clarify)
      fix k tk assume kt: "(k, tk) \<in> set ?g"
      then show "map_option (\<lambda>v. (rs_Labels \<lparr>rs_Labels = NewUnvalidated (names k), rs_Points = sortPoints tk\<rparr>, v))
           (map_of (rs_Points \<lparr>rs_Labels = NewUnvalidated (names k), rs_Points = sortPoints tk\<rparr>) t)
         = (if ?has k then Some (sums fl by_names names (values_at t out) k) else None)"
        using G [OF kt] sortPoints_ok(2) [of tk] by (simp add: group_sum_def sums_def)
    qed
    also have "\<dots> = map (sums fl by_names names (values_at t out)) ?ks"
      by (simp add: List.map_filter_def filter_map comp_def split_def)
    finally show ?thesis .
  qed
  ultimately show "\<exists>ks. distinct ks \<and> set ks = (\<lambda>(l, v). groupKey l by_names) ` set (values_at t out)
      \<and> values_at t (aggregateRange fl out by_names) = map (sums fl by_names names (values_at t out)) ks"
    using K(1) distinct_filter by blast
qed


section \<open>A range query is its instant queries\<close>

text \<open>
  The expressions the comparison covers: windows that do not run backwards, which the parser ensures, and no
  sum inside a sum, since the inner sum lists its groups in an unspecified order and float addition is
  not associative.
\<close>

fun base_expr :: "Expr \<Rightarrow> bool" where
  "base_expr (SelectorExpr q) = True"
| "base_expr (RateExpr q w) = (0 \<le>s w)"
| "base_expr (SumExpr e by_names) = False"
| "base_expr (ScalarExpr v) = True"

definition comparable :: "Expr \<Rightarrow> bool" where
  "comparable e = (case e of SumExpr inner by_names \<Rightarrow> base_expr inner | _ \<Rightarrow> base_expr e)"

lemma value_points_ok:
  assumes "step_ok endMs stepMs" "value_points f (ticks startMs endMs stepMs) \<noteq> []"
  shows "points_ok (value_points f (ticks startMs endMs stepMs))"
proof -
  have "ascending (map sint (filter (\<lambda>t. f t \<noteq> None) (ticks startMs endMs stepMs)))"
    using ticks_ascending [OF assms(1), of startMs] by (auto simp: sorted_wrt_map intro: sorted_wrt_filter)
  then have "ascending (map sint (map fst (value_points f (ticks startMs endMs stepMs))))" unfolding fst_value_points .
  then show ?thesis using assms(2) by (simp add: points_ok_def comp_def)
qed

lemma over_ticks_ok:
  assumes "step_ok endMs stepMs" "rs \<in> set (over_ticks R (ticks startMs endMs stepMs))"
  shows "points_ok (rs_Points rs)" "fst ` set (rs_Points rs) \<subseteq> set (ticks startMs endMs stepMs)" "rs_Labels rs \<in> fst ` set R"
proof -
  obtain l f where r: "(l, f) \<in> set R" "rs = \<lparr>rs_Labels = l, rs_Points = value_points f (ticks startMs endMs stepMs)\<rparr>"
    "value_points f (ticks startMs endMs stepMs) \<noteq> []"
    using assms(2) by (auto simp: over_ticks_def List.map_filter_def split: if_splits)
  show "points_ok (rs_Points rs)" using value_points_ok [OF assms(1) r(3)] r(2) by simp
  have "fst ` set (value_points f (ticks startMs endMs stepMs)) = set (map fst (value_points f (ticks startMs endMs stepMs)))" by simp
  then show "fst ` set (rs_Points rs) \<subseteq> set (ticks startMs endMs stepMs)" unfolding fst_value_points using r(2) by simp
  show "rs_Labels rs \<in> fst ` set R" using r by force
qed

lemma scalar_points_ticks:
  "step_ok endMs stepMs \<Longrightarrow> scalarPoints v startMs endMs stepMs = Some (value_points (\<lambda>_. Some v) (ticks startMs endMs stepMs))"
proof -
  have "foldl (\<lambda>points t. points @ [(t, v)]) ps ts = ps @ value_points (\<lambda>_. Some v) ts" for ps ts
    by (induction ts arbitrary: ps) auto
  then show "step_ok endMs stepMs \<Longrightarrow> ?thesis" by (simp add: scalarPoints_def tick_loop_ticks)
qed

lemma sorted_points: "points_ok ps \<Longrightarrow> sortPoints ps = ps"
  unfolding sortPoints_def points_ok_def strict_sorted_iff by (intro sort_key_id_if_sorted) simp

context series_source
begin

lemma base_rows:
  assumes s: "inv s" "engine invalid s src" and step: "step_ok endMs stepMs" "startMs \<le>s endMs" and e: "base_expr e"
  shows "\<exists>R. (\<forall>t. \<exists>out. EvalInstant fl src e t = Inr out \<and> instant_values out = at_instant R t)
    \<and> EvalRange fl src e startMs endMs stepMs = Some (Inr (over_ticks R (ticks startMs endMs stepMs)))
    \<and> fst ` set R \<subseteq> insert (NewUnvalidated []) {l. \<exists>i ss. holds s i = Some (l, ss)}"
proof -
  have guards: "\<not> stepMs \<le>s 0" "\<not> endMs <s startMs" using step by (auto simp: step_ok_def word_sle_eq word_sless_alt)
  have labels: "fst ` set (rows s q f) \<subseteq> insert (NewUnvalidated []) {l. \<exists>i ss. holds s i = Some (l, ss)}" for q f
  proof -
    have "fst (case holds s i of Some (l, ss) \<Rightarrow> (l, f ss)) \<in> {l. \<exists>i ss. holds s i = Some (l, ss)}" if i: "i \<in> set (ids s q)" for i
      using listed [OF s(1) i] by fastforce
    then show ?thesis by (auto simp: rows_def)
  qed
  show ?thesis
  proof (cases e)
    case (SelectorExpr q)
    show ?thesis
      using selector_rows [OF s step(1), where q = q] step(2) labels guards
      by (intro exI [of _ "rows s q (\<lambda>ss t. map_option sm_val (latest_at ss t))"]) (simp add: SelectorExpr EvalRange.simps)
  next
    case (RateExpr q w)
    then have "0 \<le>s w" using e by simp
    note r = rate_rows [OF s step(1) this, where fl = fl and q = q]
    show ?thesis using r step(2) labels guards
      by (intro exI [of _ "rows s q (window_rate fl w)"]) (simp add: RateExpr EvalRange.simps)
  next
    case (SumExpr inner by_names)
    then show ?thesis using e by simp
  next
    case (ScalarExpr v)
    let ?R = "[(NewUnvalidated [], \<lambda>_ :: i64. Some v)]"
    have ne: "value_points (\<lambda>_. Some v) (ticks startMs endMs stepMs) \<noteq> []" using ticks_step [OF step] by simp
    then have "EvalRange fl src e startMs endMs stepMs = Some (Inr (over_ticks ?R (ticks startMs endMs stepMs)))"
      using guards sorted_points [OF value_points_ok [OF step(1) ne]]
      by (simp add: ScalarExpr EvalRange.simps scalar_points_ticks [OF step(1)] over_ticks_def)
    then show ?thesis by (intro exI [of _ ?R]) (simp add: ScalarExpr at_instant_def instant_values_def)
  qed
qed

lemma range_instants:
  assumes s: "inv s" "engine invalid s src" and short: "\<forall>i l ss. holds s i = Some (l, ss) \<longrightarrow> short_labels l"
    and step: "step_ok endMs stepMs" "startMs \<le>s endMs" and e: "comparable e"
  shows "\<exists>out. EvalRange fl src e startMs endMs stepMs = Some (Inr out)
    \<and> (\<forall>rs \<in> set out. points_ok (rs_Points rs) \<and> fst ` set (rs_Points rs) \<subseteq> set (ticks startMs endMs stepMs))
    \<and> (\<forall>t \<in> set (ticks startMs endMs stepMs). \<exists>now. EvalInstant fl src e t = Inr now \<and> mset (values_at t out) = mset (instant_values now))"
proof (cases "base_expr e")
  case True
  from base_rows [OF s step this, of fl] obtain R where R: "\<forall>t. \<exists>out. EvalInstant fl src e t = Inr out \<and> instant_values out = at_instant R t"
    "EvalRange fl src e startMs endMs stepMs = Some (Inr (over_ticks R (ticks startMs endMs stepMs)))" by blast
  have "\<exists>now. EvalInstant fl src e t = Inr now \<and> mset (values_at t (over_ticks R (ticks startMs endMs stepMs))) = mset (instant_values now)"
    if t: "t \<in> set (ticks startMs endMs stepMs)" for t
  proof -
    obtain out where o: "EvalInstant fl src e t = Inr out" "instant_values out = at_instant R t" using R(1) by blast
    then show ?thesis using values_at_over [OF t, of R] by simp
  qed
  then show ?thesis using R(2) over_ticks_ok(1,2) [OF step(1)] by blast
next
  case False
  then obtain inner by_names where E: "e = SumExpr inner by_names" "base_expr inner" using e by (cases e) (auto simp: comparable_def)
  have guards: "\<not> stepMs \<le>s 0" "\<not> endMs <s startMs" using step by (auto simp: step_ok_def word_sle_eq word_sless_alt)
  from base_rows [OF s step E(2), of fl] obtain R where R: "\<forall>t. \<exists>out. EvalInstant fl src inner t = Inr out \<and> instant_values out = at_instant R t"
    "EvalRange fl src inner startMs endMs stepMs = Some (Inr (over_ticks R (ticks startMs endMs stepMs)))"
    "fst ` set R \<subseteq> insert (NewUnvalidated []) {l. \<exists>i ss. holds s i = Some (l, ss)}" by blast
  let ?in = "over_ticks R (ticks startMs endMs stepMs)"
  have "Get (NewUnvalidated []) name = None" for name by (simp add: NewUnvalidated_def build_def Get_def get_loop.simps Let_def)
  then have "short_labels (NewUnvalidated [])" by (simp add: short_labels_def)
  then have each: "short_labels l" if "l \<in> insert (NewUnvalidated []) {l. \<exists>i ss. holds s i = Some (l, ss)}" for l
    using that short by auto
  have "\<forall>l \<in> fst ` set R. short_labels l"
  proof
    fix l assume "l \<in> fst ` set R"
    then show "short_labels l" by (rule each [OF subsetD [OF R(3)]])
  qed
  then obtain names where names: "group_names by_names names (fst ` set R)" using group_names_exists by blast
  have inl: "rs_Labels ` set ?in \<subseteq> fst ` set R" "\<forall>rs \<in> set ?in. points_ok (rs_Points rs)" using over_ticks_ok [OF step(1)] by blast+
  note A = aggregateRange_sums [OF names inl, where fl = fl]
  have "\<exists>now. EvalInstant fl src e t = Inr now \<and> mset (values_at t (aggregateRange fl ?in by_names)) = mset (instant_values now)"
    if t: "t \<in> set (ticks startMs endMs stepMs)" for t
  proof -
    obtain o1 where o1: "EvalInstant fl src inner t = Inr o1" "instant_values o1 = at_instant R t" using R(1) by blast
    have v: "values_at t ?in = instant_values o1" using values_at_over [OF t] o1(2) by simp
    have "is_Labels ` set o1 = fst ` set (at_instant R t)" unfolding o1(2) [symmetric] by (simp add: instant_values_def image_image)
    also have "\<dots> \<subseteq> fst ` set R" by (force simp: at_instant_def List.map_filter_def)
    finally obtain k1 where k1: "distinct k1" "set k1 = (\<lambda>(l, v). groupKey l by_names) ` set (instant_values o1)"
      "instant_values (aggregateInstant fl o1 by_names t) = map (sums fl by_names names (instant_values o1)) k1"
      using aggregateInstant_sums [OF names, where samples = o1 and fl = fl and t = t] by blast
    from A(2) [where t = t, unfolded v] obtain k2 where k2: "distinct k2" "set k2 = (\<lambda>(l, v). groupKey l by_names) ` set (instant_values o1)"
      "values_at t (aggregateRange fl ?in by_names) = map (sums fl by_names names (instant_values o1)) k2"
      by blast
    have "mset k1 = mset k2" using set_eq_iff_mset_eq_distinct [OF k1(1) k2(1)] k1(2) k2(2) by simp
    then have "mset (map (sums fl by_names names (instant_values o1)) k2) = mset (map (sums fl by_names names (instant_values o1)) k1)" by simp
    then show ?thesis using o1(1) k1(3) k2(3) by (simp add: E(1))
  qed
  moreover have "EvalRange fl src e startMs endMs stepMs = Some (Inr (aggregateRange fl ?in by_names))"
    using R(2) guards by (simp add: E(1) EvalRange.simps [of fl src "SumExpr inner by_names"])
  moreover have "points_ok (rs_Points rs) \<and> fst ` set (rs_Points rs) \<subseteq> set (ticks startMs endMs stepMs)" if rs: "rs \<in> set (aggregateRange fl ?in by_names)" for rs
    using A(1) over_ticks_ok(2) [OF step(1)] rs by blast
  ultimately show ?thesis by blast
qed

end

interpretation head_rows: series_source mem_inv holds_of "\<lambda>s q. Postings.Select (st_idx s) (selectorToIndexMatchers q)" "\<lambda>s p. StoreSelect p s"
proof unfold_locales
  fix s :: MemoryStore and q and i assume s: "mem_inv s" and i: "i \<in> set (Postings.Select (st_idx s) (selectorToIndexMatchers q))"
  then show "\<exists>l ss. holds_of s i = Some (l, ss) \<and> matches q l" by (auto simp: index_select(1) [OF s] holds_of_def)
next
  fix s :: MemoryStore and p assume "mem_inv s" "ValidateSelect p"
  moreover have "select_at s p = (\<lambda>i. case holds_of s i of None \<Rightarrow> None | Some (l, ss) \<Rightarrow> select_spec l ss p)"
    by (rule ext) (simp add: select_at_def)
  ultimately show "StoreSelect p s = Some (List.map_filter (\<lambda>i. case holds_of s i of None \<Rightarrow> None | Some (l, ss) \<Rightarrow> select_spec l ss p)
      (Postings.Select (st_idx s) (selectorToIndexMatchers (sp_Selector p))))"
    using StoreSelect_at [of s p] by simp
qed (rule holds_of_ok)

section \<open>Properties\<close>

text \<open>
  C29: one pass over each series answers a range query as one instant query per tick would. On every
  reachable head, for every selector, rate, scalar, and sum of one of these, and whatever the float operations
  compute, a range evaluation whose end and step do not overflow together ends with an answer: every
  series of it has points only at ticks, strictly ascending and at least one; and at every tick the series with a
  point there, with their values, are exactly what evaluating the expression at that instant answers.
\<close>

theorem range_query_is_instant_queries:
  assumes "store_step\<^sup>*\<^sup>* NewMemoryStore s" "comparable e" "\<forall>i l ss. holds_of s i = Some (l, ss) \<longrightarrow> short_labels l"
    and "0 <s stepMs" "sint endMs + sint stepMs < 2 ^ 63" "startMs \<le>s endMs"
  shows "\<exists>out. EvalRange fl (head_source invalid s) e startMs endMs stepMs = Some (Inr out)
    \<and> (\<forall>rs \<in> set out. rs_Points rs \<noteq> [] \<and> ascending (map (\<lambda>p. sint (fst p)) (rs_Points rs))
        \<and> fst ` set (rs_Points rs) \<subseteq> set (ticks startMs endMs stepMs))
    \<and> (\<forall>t \<in> set (ticks startMs endMs stepMs). \<exists>now. EvalInstant fl (head_source invalid s) e t = Inr now
        \<and> mset (values_at t out) = mset (instant_values now))"
proof -
  have "step_ok endMs stepMs" using assms(4,5) by (simp add: step_ok_def)
  moreover have "head_rows.engine invalid s (head_source invalid s)" by (simp add: head_rows.engine_def head_source_def)
  ultimately show ?thesis
    using head_rows.range_instants [OF store_steps_inv [OF assms(1) mem_inv_new] _ assms(3) _ assms(6,2), of invalid "head_source invalid s" stepMs fl]
    unfolding points_ok_def by (simp only: conj_assoc)
qed


definition demo_floats :: float_ops where
  "demo_floats = \<lparr>f_add = (+), f_sub = (-), f_mul = (*), f_div = (div), f_of_int = id\<rparr>"

theorem range_query_is_instant_queries_witness:
  "\<exists>out. EvalRange demo_floats (head_source () demo_head) (SumExpr (SelectorExpr \<lparr>sel_MetricName = ''up'', sel_Matchers = []\<rparr>) [''job'']) 5 20 10 = Some (Inr out)
    \<and> values_at 15 out = [(NewUnvalidated [(''job'', ''node'')], 7)]"
proof -
  let ?e = "SumExpr (SelectorExpr \<lparr>sel_MetricName = ''up'', sel_Matchers = []\<rparr>) [''job'']"
  have "\<forall>x \<in> set (st_series demo_head). ms_labels (snd x) = demo_labels" by code_simp
  then have "holds_of demo_head i = Some (l, ss) \<Longrightarrow> l = demo_labels" for i l ss
    by (auto simp: holds_of_def dest!: map_of_SomeD)
  moreover have "\<forall>p \<in> set (l_pairs demo_labels). length (snd p) < 2 ^ 32" by (simp add: demo_labels_def build_def Let_def)
  then have "short_labels demo_labels"
    using demo_labels_ok(1) by (auto simp: short_labels_def Get_map_of dest!: map_of_SomeD)
  ultimately have short: "\<forall>i l ss. holds_of demo_head i = Some (l, ss) \<longrightarrow> short_labels l" by blast
  have c: "comparable ?e" by (simp add: comparable_def)
  have g: "0 <s (10 :: i64)" "sint (20 :: i64) + sint (10 :: i64) < 2 ^ 63" "5 \<le>s (20 :: i64)"
    by (simp_all add: word_sless_alt word_sle_eq)
  have t: "15 \<in> set (ticks 5 20 10)" by code_simp
  have now: "map_sum id instant_values (EvalInstant demo_floats (head_source () demo_head) ?e 15) = Inr [(NewUnvalidated [(''job'', ''node'')], 7)]"
    by code_simp
  show ?thesis
    using range_query_is_instant_queries [OF demo_head_reachable c short g, of demo_floats "()"] t now by auto
qed

end
