(* ===== verification/Metadata.thy ===== *)
theory Metadata
  imports Query "HOL-Library.Product_Lexorder"
begin

text \<open>
  Metadata queries of \<^verbatim>\<open>internal/metrics/query.go\<close> (label names, label values, series) and what
  \<^verbatim>\<open>internal/metrics/tenant_source.go\<close> lets one tenant read.
\<close>

section \<open>Metadata queries\<close>

record MetadataFilter =
  mf_Selectors :: "Selector list"
  mf_StartMs :: i64
  mf_EndMs :: i64
  mf_HasTime :: bool

definition isUnfiltered :: "MetadataFilter \<Rightarrow> bool" where
  "isUnfiltered f \<longleftrightarrow> mf_Selectors f = [] \<and> \<not> mf_HasTime f"

definition add_unseen :: "u64 list \<times> SeriesData list \<Rightarrow> SeriesData \<Rightarrow> u64 list \<times> SeriesData list" where
  "add_unseen st sd =
     (case st of (seen, out) \<Rightarrow>
      if Hash (sd_Labels sd) \<in> set seen then st else (Hash (sd_Labels sd) # seen, out @ [sd]))"

fun matching_loop :: "'e Source \<Rightarrow> MetadataFilter \<Rightarrow> u64 list \<times> SeriesData list \<Rightarrow> Selector list \<Rightarrow> 'e + SeriesData list" where
  "matching_loop src f st [] = Inr (snd st)"
| "matching_loop src f st (q # qs) =
     (case src_Select src \<lparr>sp_Selector = q, sp_MinT = mf_StartMs f, sp_MaxT = mf_EndMs f, sp_Anchor = False,
        sp_SeriesOnly = True, sp_AnyTime = \<not> mf_HasTime f\<rparr> of
        Inl e \<Rightarrow> Inl e
      | Inr matched \<Rightarrow> matching_loop src f (foldl add_unseen st matched) qs)"

definition matchingSeries :: "'e Source \<Rightarrow> MetadataFilter \<Rightarrow> 'e + SeriesData list" where
  "matchingSeries src f =
     matching_loop src f ([], []) (if mf_Selectors f = [] then [\<lparr>sel_MetricName = [], sel_Matchers = []\<rparr>] else mf_Selectors f)"

definition QueryLabelNames :: "'e Source \<Rightarrow> MetadataFilter \<Rightarrow> 'e + string list" where
  "QueryLabelNames src f =
     (if isUnfiltered f then src_LabelNames src
      else map_sum id (\<lambda>series. sortedStringSet (names_of series)) (matchingSeries src f))"

definition QueryLabelValues :: "'e Source \<Rightarrow> string \<Rightarrow> MetadataFilter \<Rightarrow> 'e + string list" where
  "QueryLabelValues src name f =
     (if isUnfiltered f then src_LabelValues src name
      else map_sum id (\<lambda>series. sortedStringSet (values_of name series)) (matchingSeries src f))"

definition is_metric_name :: "label \<Rightarrow> bool" where "is_metric_name p \<longleftrightarrow> fst p = ''__name__''"

function pairs_less :: "label list \<Rightarrow> label list \<Rightarrow> bool" where
  "pairs_less ps qs =
     (case dropWhile is_metric_name ps of
        [] \<Rightarrow> dropWhile is_metric_name qs \<noteq> []
      | p # ps1 \<Rightarrow>
        (case dropWhile is_metric_name qs of
           [] \<Rightarrow> False
         | q # qs1 \<Rightarrow>
           if fst p \<noteq> fst q then fst p < fst q
           else if snd p \<noteq> snd q then snd p < snd q
           else pairs_less ps1 qs1))"
  by pat_completeness auto
termination
proof (relation "measure (\<lambda>(ps, qs). length ps)")
  fix ps qs :: "label list" and p ps1 assume "dropWhile is_metric_name ps = p # ps1"
  then show "((ps1, qs1), ps, qs) \<in> measure (\<lambda>(ps, qs). length ps)" for qs1
    using length_dropWhile_le [of is_metric_name ps] by simp
qed simp

declare pairs_less.simps [simp del]

definition sortedPairs :: "Labels \<Rightarrow> label list" where "sortedPairs l = sort_key fst (Map l)"

definition metric_name :: "Labels \<Rightarrow> string" where
  "metric_name l = (case Get l ''__name__'' of None \<Rightarrow> [] | Some n \<Rightarrow> n)"

definition series_less :: "Labels \<Rightarrow> Labels \<Rightarrow> bool" where
  "series_less a b =
     (if metric_name a \<noteq> metric_name b then metric_name a < metric_name b else pairs_less (sortedPairs a) (sortedPairs b))"

text \<open>\<^verbatim>\<open>sort.Slice\<close>: some list in the order of \<^verbatim>\<open>lt\<close>; which one does not matter when distinct elements are ordered.\<close>

fun insert_by :: "('a \<Rightarrow> 'a \<Rightarrow> bool) \<Rightarrow> 'a \<Rightarrow> 'a list \<Rightarrow> 'a list" where
  "insert_by lt x [] = [x]"
| "insert_by lt x (y # ys) = (if lt y x then y # insert_by lt x ys else x # y # ys)"

definition sort_slice :: "('a \<Rightarrow> 'a \<Rightarrow> bool) \<Rightarrow> 'a list \<Rightarrow> 'a list" where
  "sort_slice lt xs = foldr (insert_by lt) xs []"

definition QuerySeries :: "'e Source \<Rightarrow> MetadataFilter \<Rightarrow> 'e + Labels list" where
  "QuerySeries src f =
     map_sum id (\<lambda>series. sort_slice series_less (map snd (foldl (\<lambda>seen sd.
       if map_of seen (Hash (sd_Labels sd)) = None then AList.update (Hash (sd_Labels sd)) (sd_Labels sd) seen else seen) [] series)))
     (matchingSeries src f)"

section \<open>The order of series\<close>

lemma sortedPairs_eq: "labels_ok l \<Longrightarrow> sortedPairs l = l_pairs l"
proof -
  assume l: "labels_ok l"
  have "map_of (Map l) = map_of (l_pairs l)" using map_of_Map [OF l] by simp
  moreover have "distinct (map fst (Map l))" "distinct (map fst (l_pairs l))" "sorted (map fst (l_pairs l))"
    using gomap_ok_Map [of l] l by (auto simp: gomap_ok_def labels_ok_def strict_sorted_iff)
  ultimately show ?thesis unfolding sortedPairs_def
    by (intro map_sorted_distinct_set_unique [where f = fst]) (auto simp: distinct_map map_of_inject_set)
qed

lemma pairs_less_lex: "pairs_less ps qs \<longleftrightarrow> filter (\<lambda>p. \<not> is_metric_name p) ps < filter (\<lambda>p. \<not> is_metric_name p) qs"
proof (induction ps qs rule: pairs_less.induct)
  case (1 ps qs)
  have nil: "dropWhile is_metric_name xs = [] \<longleftrightarrow> filter (\<lambda>p. \<not> is_metric_name p) xs = []" for xs
    by (simp add: dropWhile_eq_Nil_conv filter_empty_conv)
  have cons: "filter (\<lambda>p. \<not> is_metric_name p) xs = y # filter (\<lambda>p. \<not> is_metric_name p) ys" if "dropWhile is_metric_name xs = y # ys" for xs y ys
    using that by (induction xs) (auto split: if_splits)
  show ?case
  proof (cases "dropWhile is_metric_name ps")
    case Nil
    then have "filter (\<lambda>p. \<not> is_metric_name p) ps = []" using nil [of ps] by simp
    then show ?thesis unfolding pairs_less.simps [of ps qs] Nil list.case nil
      by (simp only:) (cases "filter (\<lambda>p. \<not> is_metric_name p) qs"; simp)
  next
    case (Cons p ps1)
    note p = this
    show ?thesis
    proof (cases "dropWhile is_metric_name qs")
      case Nil
      then have "filter (\<lambda>p. \<not> is_metric_name p) qs = []" using nil [of qs] by simp
      then show ?thesis unfolding pairs_less.simps [of ps qs] p Nil list.case by (simp only:) simp
    next
      case (Cons q qs1)
      show ?thesis unfolding pairs_less.simps [of ps qs] p Cons list.case cons [OF p] cons [OF Cons]
        using "1.IH" [OF p Cons] by (auto simp: less_prod_def prod_eq_iff)
    qed
  qed
qed

definition series_key :: "Labels \<Rightarrow> string \<times> label list" where
  "series_key l = (metric_name l, filter (\<lambda>p. \<not> is_metric_name p) (sortedPairs l))"

lemma series_less_key: "series_less a b \<longleftrightarrow> series_key a < series_key b"
  by (auto simp: series_less_def series_key_def pairs_less_lex)

lemma sort_slice_key:
  fixes key :: "'a \<Rightarrow> 'b::linorder"
  assumes "\<And>a b. lt a b \<longleftrightarrow> key a < key b"
  shows "mset (sort_slice lt xs) = mset xs" "sorted (map key (sort_slice lt xs))"
proof -
  have i: "mset (insert_by lt x ys) = add_mset x (mset ys)" "sorted (map key ys) \<Longrightarrow> sorted (map key (insert_by lt x ys))" for x ys
  proof -
    show m: "mset (insert_by lt x ys) = add_mset x (mset ys)" for ys by (induction ys) auto
    show "sorted (map key ys) \<Longrightarrow> sorted (map key (insert_by lt x ys))"
    proof (induction ys)
      case (Cons y ys)
      have "set (insert_by lt x ys) = insert x (set ys)" using arg_cong [OF m [of ys], of set_mset] by simp
      then show ?case using Cons assms [of y x] by auto
    qed simp
  qed
  show "mset (sort_slice lt xs) = mset xs" unfolding sort_slice_def by (induction xs) (auto simp: i(1))
  show "sorted (map key (sort_slice lt xs))" unfolding sort_slice_def by (induction xs) (auto simp: i(2))
qed

section \<open>What the head answers\<close>

lemma set_map_filter: "set (List.map_filter f xs) = {y. \<exists>x \<in> set xs. f x = Some y}"
  by (induction xs) (auto split: option.splits)

lemma select_spec_matches: "select_spec l ss p = Some sd \<Longrightarrow> matches (sp_Selector p) l"
  by (auto simp: select_spec_def Let_def split: if_splits)

lemma head_select_set:
  assumes "mem_inv s" "ValidateSelect p"
  shows "\<exists>out. StoreSelect p s = Some out \<and> distinct (map (\<lambda>sd. Hash (sd_Labels sd)) out)
    \<and> set out = {sd. \<exists>h l ss. holds_of s h = Some (l, ss) \<and> select_spec l ss p = Some sd}"
proof -
  let ?ids = "Postings.Select (st_idx s) (selectorToIndexMatchers (sp_Selector p))"
  have h: "Hash (sd_Labels sd) = i" if "select_at s p i = Some sd" for i sd
    using that holds_of_ok [OF assms(1)] select_spec_hash by (fastforce simp: select_at_def holdings_ok_def split: option.splits)
  have "i \<in> set ?ids" if "holds_of s i = Some (l, ss)" "select_spec l ss p = Some sd" for i l ss sd
    using that unfolding index_select(1) [OF assms(1)] using select_spec_matches by (auto simp: holds_of_def)
  then have "set (List.map_filter (select_at s p) ?ids) = {sd. \<exists>h l ss. holds_of s h = Some (l, ss) \<and> select_spec l ss p = Some sd}"
    unfolding set_map_filter by (fastforce simp: select_at_def split: option.splits)
  moreover have "distinct (map (\<lambda>sd. Hash (sd_Labels sd)) (List.map_filter (select_at s p) ?ids))"
  proof -
    have "map (\<lambda>sd. Hash (sd_Labels sd)) (List.map_filter (select_at s p) xs) = filter (\<lambda>i. select_at s p i \<noteq> None) xs" for xs
      using h by (induction xs) (auto split: option.splits)
    then show ?thesis using index_select(2) [OF assms(1)] by simp
  qed
  ultimately show ?thesis using StoreSelect_at [OF assms] by simp
qed

definition held_labels :: "MemoryStore \<Rightarrow> (Labels \<Rightarrow> sample list \<Rightarrow> bool) \<Rightarrow> Labels set" where
  "held_labels s P = {l. \<exists>h ss. holds_of s h = Some (l, ss) \<and> P l ss}"

lemma held_labels_ok:
  assumes "mem_inv s" "l \<in> held_labels s P"
  shows "labels_ok l" and "l' \<in> held_labels s Q \<Longrightarrow> Hash l = Hash l' \<longleftrightarrow> l = l'"
proof -
  have a: "holds_of s (Hash l) = Some (l, ss)" if "holds_of s h = Some (l, ss)" for h l ss
    using that holds_of_ok [OF assms(1)] by (auto simp: holdings_ok_def)
  obtain h ss where "holds_of s h = Some (l, ss)" using assms(2) by (auto simp: held_labels_def)
  then obtain ms where "map_of (st_series s) h = Some ms" "ms_labels ms = l" by (auto simp: holds_of_def)
  then show "labels_ok l" using mem_invD(2) [OF assms(1)] by (auto simp: series_ok_def dest!: map_of_SomeD)
  show "Hash l = Hash l' \<longleftrightarrow> l = l'" if l': "l' \<in> held_labels s Q"
  proof
    assume e: "Hash l = Hash l'"
    obtain h1 s1 h2 s2 where h: "holds_of s h1 = Some (l, s1)" "holds_of s h2 = Some (l', s2)"
      using l' assms(2) by (auto simp: held_labels_def)
    have "Some (l, s1) = Some (l', s2)" using a [OF h(1)] a [OF h(2)] unfolding e by (rule trans [OF sym])
    then show "l = l'" by blast
  qed simp
qed

definition only_labels :: "Labels \<Rightarrow> SeriesData" where "only_labels l = \<lparr>sd_Labels = l, sd_Anchor = None, sd_Samples = []\<rparr>"

definition asked :: "MetadataFilter \<Rightarrow> Labels \<Rightarrow> sample list \<Rightarrow> bool" where
  "asked f l ss \<longleftrightarrow> (mf_Selectors f = [] \<or> (\<exists>q \<in> set (mf_Selectors f). matches q l))
     \<and> (mf_HasTime f \<longrightarrow> (\<exists>x \<in> set ss. mf_StartMs f \<le>s sm_ts x \<and> sm_ts x \<le>s mf_EndMs f))"

lemma head_series_only:
  assumes "mem_inv s"
  defines "p q f \<equiv> \<lparr>sp_Selector = q, sp_MinT = mf_StartMs f, sp_MaxT = mf_EndMs f, sp_Anchor = False, sp_SeriesOnly = True, sp_AnyTime = \<not> mf_HasTime f\<rparr>"
  shows "\<exists>out. StoreSelect (p q f) s = Some out \<and> set out = only_labels ` held_labels s (asked (f\<lparr>mf_Selectors := [q]\<rparr>))"
proof -
  have v: "ValidateSelect (p q f)" by (simp add: ValidateSelect_def p_def)
  have R: "in_range_ts (p q f) x \<longleftrightarrow> mf_StartMs f \<le>s sm_ts x \<and> sm_ts x \<le>s mf_EndMs f" for x by (simp add: in_range_ts_def p_def)
  have "select_spec l ss (p q f) = (if asked (f\<lparr>mf_Selectors := [q]\<rparr>) l ss then Some (only_labels l) else None)" for l ss
  proof -
    have "filter (in_range_ts (p q f)) ss \<noteq> [] \<longleftrightarrow> (\<exists>x \<in> set ss. mf_StartMs f \<le>s sm_ts x \<and> sm_ts x \<le>s mf_EndMs f)"
      by (auto simp: filter_empty_conv R)
    moreover have "\<not> mf_EndMs f <s mf_StartMs f" if "mf_StartMs f \<le>s sm_ts x \<and> sm_ts x \<le>s mf_EndMs f" for x :: sample
      using that by (auto simp: word_sle_eq word_sless_alt)
    ultimately show ?thesis unfolding select_spec_def Let_def asked_def only_labels_def
      by (cases "mf_HasTime f") (auto simp: p_def)
  qed
  then show ?thesis using head_select_set [OF assms(1) v] by (auto simp: held_labels_def image_iff split: if_splits)
qed

lemma add_unseen_all:
  assumes "\<forall>x \<in> L. \<forall>y \<in> L. Hash x = Hash y \<longrightarrow> x = y"
  shows "set (map sd_Labels out) \<subseteq> L \<Longrightarrow> set (map sd_Labels xs) \<subseteq> L \<Longrightarrow> set seen = Hash ` set (map sd_Labels out) \<Longrightarrow> distinct (map sd_Labels out)
    \<Longrightarrow> \<exists>seen' out'. foldl add_unseen (seen, out) xs = (seen', out') \<and> set seen' = Hash ` set (map sd_Labels out')
      \<and> distinct (map sd_Labels out') \<and> set (map sd_Labels out') = set (map sd_Labels out) \<union> set (map sd_Labels xs)"
proof (induction xs arbitrary: seen out)
  case (Cons x xs)
  show ?case
  proof (cases "Hash (sd_Labels x) \<in> set seen")
    case True
    from True [unfolded Cons.prems(3)] obtain y where y: "Hash (sd_Labels x) = Hash y" "y \<in> set (map sd_Labels out)" by (rule imageE)
    have "sd_Labels x \<in> L" using Cons.prems(2) by simp
    moreover have "y \<in> L" using Cons.prems(1) y(2) by (rule subsetD)
    ultimately have "sd_Labels x = y" using assms y(1) by blast
    then have "sd_Labels x \<in> set (map sd_Labels out)" using y(2) by simp
    moreover from Cons.IH [of out seen] obtain seen' out' where
      "foldl add_unseen (seen, out) xs = (seen', out')" "set seen' = Hash ` set (map sd_Labels out')"
      "distinct (map sd_Labels out')" "set (map sd_Labels out') = set (map sd_Labels out) \<union> set (map sd_Labels xs)"
      using Cons.prems by auto
    moreover have "foldl add_unseen (seen, out) (x # xs) = foldl add_unseen (seen, out) xs" using True by (simp add: add_unseen_def)
    ultimately show ?thesis by (intro exI [of _ seen'] exI [of _ out']) auto
  next
    case False
    then have n: "sd_Labels x \<notin> set (map sd_Labels out)" using Cons.prems(3) by auto
    from Cons.IH [of "out @ [x]" "Hash (sd_Labels x) # seen"] obtain seen' out' where
      "foldl add_unseen (Hash (sd_Labels x) # seen, out @ [x]) xs = (seen', out')" "set seen' = Hash ` set (map sd_Labels out')"
      "distinct (map sd_Labels out')" "set (map sd_Labels out') = insert (sd_Labels x) (set (map sd_Labels out)) \<union> set (map sd_Labels xs)"
      using Cons.prems n by auto
    moreover have "foldl add_unseen (seen, out) (x # xs) = foldl add_unseen (Hash (sd_Labels x) # seen, out @ [x]) xs"
      using False by (simp add: add_unseen_def)
    ultimately show ?thesis by (intro exI [of _ seen'] exI [of _ out']) auto
  qed
qed simp


lemma matching_loop_ok:
  assumes "mem_inv s"
  shows "set seen = Hash ` set (map sd_Labels out) \<Longrightarrow> distinct (map sd_Labels out) \<Longrightarrow> set (map sd_Labels out) \<subseteq> held_labels s (\<lambda>_ _. True)
    \<Longrightarrow> \<exists>res. matching_loop (head_source invalid s) f (seen, out) qs = Inr res \<and> distinct (map sd_Labels res)
      \<and> set (map sd_Labels res) = set (map sd_Labels out) \<union> (\<Union>q \<in> set qs. held_labels s (asked (f\<lparr>mf_Selectors := [q]\<rparr>)))"
proof (induction qs arbitrary: seen out)
  case (Cons q qs)
  let ?L = "held_labels s (\<lambda>_ _. True)"
  have inj: "\<forall>x \<in> ?L. \<forall>y \<in> ?L. Hash x = Hash y \<longrightarrow> x = y" using held_labels_ok(2) [OF assms] by blast
  obtain got where got: "StoreSelect \<lparr>sp_Selector = q, sp_MinT = mf_StartMs f, sp_MaxT = mf_EndMs f, sp_Anchor = False, sp_SeriesOnly = True, sp_AnyTime = \<not> mf_HasTime f\<rparr> s = Some got"
    "set got = only_labels ` held_labels s (asked (f\<lparr>mf_Selectors := [q]\<rparr>))"
    using head_series_only [OF assms] by blast
  have gl: "set (map sd_Labels got) = held_labels s (asked (f\<lparr>mf_Selectors := [q]\<rparr>))"
    unfolding set_map got(2) by (simp add: image_image only_labels_def)
  then have "set (map sd_Labels got) \<subseteq> ?L" by (auto simp: held_labels_def)
  from add_unseen_all [OF inj Cons.prems(3) this Cons.prems(1,2)] obtain seen' out' where
    out': "foldl add_unseen (seen, out) got = (seen', out')" "set seen' = Hash ` set (map sd_Labels out')"
      "distinct (map sd_Labels out')" "set (map sd_Labels out') = set (map sd_Labels out) \<union> set (map sd_Labels got)" by blast
  have "set (map sd_Labels out') \<subseteq> ?L" unfolding out'(4) using Cons.prems(3) \<open>set (map sd_Labels got) \<subseteq> ?L\<close> by blast
  from Cons.IH [OF out'(2,3) this] obtain res where res: "matching_loop (head_source invalid s) f (seen', out') qs = Inr res"
    "distinct (map sd_Labels res)"
    "set (map sd_Labels res) = set (map sd_Labels out') \<union> (\<Union>q \<in> set qs. held_labels s (asked (f\<lparr>mf_Selectors := [q]\<rparr>)))" by blast
  have "matching_loop (head_source invalid s) f (seen, out) (q # qs) = Inr res"
    using got(1) out'(1) res(1) by (simp add: head_source_def)
  then show ?case using res(2,3) unfolding out'(4) gl by auto
qed simp

lemma matchingSeries_ok:
  assumes "mem_inv s"
  shows "\<exists>res. matchingSeries (head_source invalid s) f = Inr res \<and> distinct (map sd_Labels res)
    \<and> set (map sd_Labels res) = held_labels s (asked f)"
proof -
  have all: "matches \<lparr>sel_MetricName = [], sel_Matchers = []\<rparr> l" for l by (simp add: matches_def selectorToIndexMatchers_def)
  have "(\<Union>q \<in> set (if mf_Selectors f = [] then [\<lparr>sel_MetricName = [], sel_Matchers = []\<rparr>] else mf_Selectors f).
      held_labels s (asked (f\<lparr>mf_Selectors := [q]\<rparr>))) = held_labels s (asked f)"
    by (auto simp: held_labels_def asked_def all)
  then show ?thesis using matching_loop_ok [OF assms, of "[]" "[]" invalid f "if mf_Selectors f = [] then [\<lparr>sel_MetricName = [], sel_Matchers = []\<rparr>] else mf_Selectors f"]
    unfolding matchingSeries_def by simp
qed

lemma names_values_of:
  assumes "\<forall>l \<in> set (map sd_Labels res). labels_ok l"
  shows "set (names_of res) = {n. \<exists>l \<in> set (map sd_Labels res). \<exists>v. (n, v) \<in> set (l_pairs l)}"
    "set (values_of name res) = {v. \<exists>l \<in> set (map sd_Labels res). (name, v) \<in> set (l_pairs l)}"
proof -
  have M: "fst ` set (Map l) = fst ` set (l_pairs l)" if "labels_ok l" for l
    using map_of_Map [OF that] by (metis dom_map_of_conv_image_fst)
  then show "set (names_of res) = {n. \<exists>l \<in> set (map sd_Labels res). \<exists>v. (n, v) \<in> set (l_pairs l)}"
  proof -
    have "set (names_of res) = (\<Union>sd \<in> set res. fst ` set (Map (sd_Labels sd)))" by (simp add: names_of_def)
    also have "\<dots> = (\<Union>sd \<in> set res. fst ` set (l_pairs (sd_Labels sd)))" using assms M by (intro SUP_cong) simp_all
    finally show ?thesis by force
  qed
  have "Get l name = Some v \<longleftrightarrow> (name, v) \<in> set (l_pairs l)" if "labels_ok l" for l v
    using that by (simp add: Get_map_of labels_ok_def)
  then show "set (values_of name res) = {v. \<exists>l \<in> set (map sd_Labels res). (name, v) \<in> set (l_pairs l)}"
    using assms by (auto simp: values_of_def set_map_filter)
qed

lemma sortedStringSet_ok: "ascending (sortedStringSet xs)" "set (sortedStringSet xs) = set xs"
  by (simp_all add: sortedStringSet_def ascending_sort)

text \<open>The label sets a filter asks for.\<close>

definition asked_labels :: "MemoryStore \<Rightarrow> MetadataFilter \<Rightarrow> Labels set" where
  "asked_labels s f = {l. \<exists>h ss. holds_of s h = Some (l, ss) \<and> (mf_Selectors f = [] \<or> (\<exists>q \<in> set (mf_Selectors f). matches q l))
     \<and> (mf_HasTime f \<longrightarrow> (\<exists>x \<in> set ss. mf_StartMs f \<le>s sm_ts x \<and> sm_ts x \<le>s mf_EndMs f))}"

lemma asked_labels_held: "asked_labels s f = held_labels s (asked f)"
  by (simp add: asked_labels_def held_labels_def asked_def)

lemma names_exact:
  assumes inv: "mem_inv s"
  shows "\<exists>ns. QueryLabelNames (head_source invalid s) f = Inr ns \<and> ascending ns \<and> set ns = {n. \<exists>l \<in> asked_labels s f. \<exists>v. (n, v) \<in> set (l_pairs l)}"
    "\<exists>vs. QueryLabelValues (head_source invalid s) name f = Inr vs \<and> ascending vs \<and> set vs = {v. \<exists>l \<in> asked_labels s f. (name, v) \<in> set (l_pairs l)}"
proof -
  let ?M = "asked_labels s f"
  obtain res where res: "matchingSeries (head_source invalid s) f = Inr res" "set (map sd_Labels res) = ?M"
    using matchingSeries_ok [OF inv, of invalid f] unfolding asked_labels_held by blast
  have ok: "\<forall>l \<in> set (map sd_Labels res). labels_ok l" unfolding res(2) asked_labels_held using held_labels_ok(1) [OF inv] by blast
  note NV = names_values_of [OF ok, unfolded res(2)]
  have idx: "(\<exists>x ls. series_map_of (st_series s) x = Some ls \<and> P ls) \<longleftrightarrow> (\<exists>l \<in> ?M. P (set (l_pairs l)))" if "isUnfiltered f" for P
    using that by (auto simp: asked_labels_def isUnfiltered_def holds_of_def series_map_of_def)
  note I = mem.names_set [OF mem_invD(6) [OF inv]] mem.names_asc [OF mem_invD(6) [OF inv]]
    mem.vals_set [OF mem_invD(6) [OF inv], of name] mem.vals_asc [OF mem_invD(6) [OF inv], of name]
  show "\<exists>ns. QueryLabelNames (head_source invalid s) f = Inr ns \<and> ascending ns \<and> set ns = {n. \<exists>l \<in> ?M. \<exists>v. (n, v) \<in> set (l_pairs l)}"
  proof (cases "isUnfiltered f")
    case True
    then show ?thesis using I(1,2) idx [OF True, of "\<lambda>ls. \<exists>v. (_, v) \<in> ls"]
      by (simp add: QueryLabelNames_def head_source_def StoreLabelNames_def)
  next
    case False
    then show ?thesis using res(1) NV(1) sortedStringSet_ok [of "names_of res"] by (simp add: QueryLabelNames_def)
  qed
  show "\<exists>vs. QueryLabelValues (head_source invalid s) name f = Inr vs \<and> ascending vs \<and> set vs = {v. \<exists>l \<in> ?M. (name, v) \<in> set (l_pairs l)}"
  proof (cases "isUnfiltered f")
    case True
    then show ?thesis using I(3,4) idx [OF True, of "\<lambda>ls. (name, _) \<in> ls"]
      by (simp add: QueryLabelValues_def head_source_def StoreLabelValues_def)
  next
    case False
    then show ?thesis using res(1) NV(2) [of name] sortedStringSet_ok [of "values_of name res"] by (simp add: QueryLabelValues_def)
  qed
qed

lemma listed_once:
  assumes "distinct (map sd_Labels res)" "\<forall>x \<in> L. \<forall>y \<in> L. Hash x = Hash y \<longrightarrow> x = y" "set (map sd_Labels res) \<subseteq> L"
  shows "map snd (foldl (\<lambda>seen sd. if map_of seen (Hash (sd_Labels sd)) = None
      then AList.update (Hash (sd_Labels sd)) (sd_Labels sd) seen else seen) [] res) = map sd_Labels res"
proof -
  have "foldl (\<lambda>seen sd. if map_of seen (Hash (sd_Labels sd)) = None
      then AList.update (Hash (sd_Labels sd)) (sd_Labels sd) seen else seen) [] res = map (\<lambda>sd. (Hash (sd_Labels sd), sd_Labels sd)) res"
    using assms(1,3)
  proof (induction res rule: rev_induct)
    case (snoc sd res)
    have "Hash (sd_Labels sd) \<notin> fst ` set (map (\<lambda>sd. (Hash (sd_Labels sd), sd_Labels sd)) res)"
    proof
      assume "Hash (sd_Labels sd) \<in> fst ` set (map (\<lambda>sd. (Hash (sd_Labels sd), sd_Labels sd)) res)"
      then obtain x where x: "x \<in> set res" "Hash (sd_Labels sd) = Hash (sd_Labels x)" by auto
      moreover have "sd_Labels sd \<in> L" "sd_Labels x \<in> L" using snoc.prems(2) x(1) by auto
      ultimately have "sd_Labels sd = sd_Labels x" using assms(2) by blast
      then show False using snoc.prems(1) x(1) by auto
    qed
    moreover from this have "map_of (map (\<lambda>sd. (Hash (sd_Labels sd), sd_Labels sd)) res) (Hash (sd_Labels sd)) = None"
      by (simp only: map_of_eq_None_iff not_False_eq_True)
    moreover have "AList.update k v m = m @ [(k, v)]" if "k \<notin> fst ` set m" for k :: u64 and v :: Labels and m
      using that by (induction m) auto
    ultimately show ?case using snoc by simp
  qed simp
  then show ?thesis by (simp add: comp_def)
qed

lemma series_exact:
  assumes inv: "mem_inv s"
  shows "\<exists>ls. QuerySeries (head_source invalid s) f = Inr ls \<and> distinct ls \<and> set ls = asked_labels s f
      \<and> sorted (map (\<lambda>l. (metric_name l, filter (\<lambda>p. fst p \<noteq> ''__name__'') (l_pairs l))) ls)"
proof -
  obtain res where res: "matchingSeries (head_source invalid s) f = Inr res" "distinct (map sd_Labels res)" "set (map sd_Labels res) = asked_labels s f"
    using matchingSeries_ok [OF inv, of invalid f] unfolding asked_labels_held by blast
  have inj: "\<forall>x \<in> asked_labels s f. \<forall>y \<in> asked_labels s f. Hash x = Hash y \<longrightarrow> x = y"
    unfolding asked_labels_held using held_labels_ok(2) [OF inv] by blast
  let ?ls = "sort_slice series_less (map sd_Labels res)"
  have q: "QuerySeries (head_source invalid s) f = Inr ?ls"
    using listed_once [OF res(2) inj] res(1,3) by (simp add: QuerySeries_def)
  note S = sort_slice_key [where lt = series_less and key = series_key, OF series_less_key, of "map sd_Labels res"]
  have "distinct ?ls" "set ?ls = asked_labels s f"
    using mset_eq_imp_distinct_iff [OF S(1)] res(2) mset_eq_setD [OF S(1)] res(3) by simp_all
  moreover have "map series_key ?ls = map (\<lambda>l. (metric_name l, filter (\<lambda>p. fst p \<noteq> ''__name__'') (l_pairs l))) ?ls"
  proof (rule map_cong [OF refl])
    fix l assume "l \<in> set ?ls"
    then have "labels_ok l" using held_labels_ok(1) [OF inv, of l "asked f"] \<open>set ?ls = asked_labels s f\<close> by (simp add: asked_labels_held)
    then show "series_key l = (metric_name l, filter (\<lambda>p. fst p \<noteq> ''__name__'') (l_pairs l))"
      by (simp add: series_key_def is_metric_name_def sortedPairs_eq)
  qed
  ultimately show ?thesis using q S(2) by (intro exI [of _ ?ls]) (simp only:)
qed

section \<open>Properties\<close>

text \<open>
  C30: metadata queries are exact, by the index or by the series. On every reachable head, for any filter, let
  the asked label sets be those of the held series that match one of the selectors (any, if there is none)
  and, where a time range is given, have a sample in it. The label names and the values of a name are answered
  strictly ascending and are exactly those of the asked label sets, also where an unfiltered query is answered
  from the index without reading a series; the series query answers exactly the asked label sets, each once,
  in ascending order of metric name and then of the remaining pairs.
\<close>

theorem metadata_exact:
  assumes "store_step\<^sup>*\<^sup>* NewMemoryStore s"
  shows "(\<exists>ns. QueryLabelNames (head_source invalid s) f = Inr ns \<and> ascending ns
      \<and> set ns = {n. \<exists>l \<in> asked_labels s f. \<exists>v. (n, v) \<in> set (l_pairs l)})
    \<and> (\<exists>vs. QueryLabelValues (head_source invalid s) name f = Inr vs \<and> ascending vs
      \<and> set vs = {v. \<exists>l \<in> asked_labels s f. (name, v) \<in> set (l_pairs l)})
    \<and> (\<exists>ls. QuerySeries (head_source invalid s) f = Inr ls \<and> distinct ls \<and> set ls = asked_labels s f
      \<and> sorted (map (\<lambda>l. (metric_name l, filter (\<lambda>p. fst p \<noteq> ''__name__'') (l_pairs l))) ls))"
  by (intro conjI names_exact series_exact store_steps_inv [OF assms mem_inv_new])

definition demo_filter :: MetadataFilter where
  "demo_filter = \<lparr>mf_Selectors = [\<lparr>sel_MetricName = ''up'', sel_Matchers = []\<rparr>], mf_StartMs = 10, mf_EndMs = 20, mf_HasTime = True\<rparr>"

theorem metadata_exact_witness:
  "QueryLabelValues (head_source () demo_head) ''job'' demo_filter = Inr [''node'']
    \<and> asked_labels demo_head demo_filter = {demo_labels}"
proof -
  have q: "QuerySeries (head_source () demo_head) demo_filter = Inr [demo_labels]"
    "QueryLabelValues (head_source () demo_head) ''job'' demo_filter = Inr [''node'']" by code_simp+
  then show ?thesis using metadata_exact [OF demo_head_reachable, of "()" demo_filter "''job''"] by simp
qed


section \<open>One tenant's view\<close>

definition own_answers :: "MemoryStore \<Rightarrow> string \<Rightarrow> SelectParams \<Rightarrow> SeriesData set" where
  "own_answers s tid p =
     {sd\<lparr>sd_Labels := Without l tenant_label\<rparr> | sd h l ss. holds_of s h = Some (l, ss) \<and> TenantOf l = tid \<and> select_spec l ss p = Some sd}"

lemma select_spec_tenant:
  assumes "labels_ok l" "tid \<noteq> tenant_default"
  shows "select_spec l ss (p\<lparr>sp_Selector := (sp_Selector p)\<lparr>sel_Matchers := sel_Matchers (sp_Selector p) @ [(tenant_label, tid)]\<rparr>\<rparr>)
    = (if TenantOf l = tid then select_spec l ss p else None)"
proof -
  let ?p = "p\<lparr>sp_Selector := (sp_Selector p)\<lparr>sel_Matchers := sel_Matchers (sp_Selector p) @ [(tenant_label, tid)]\<rparr>\<rparr>"
  have "(tenant_label, tid) \<in> set (l_pairs l) \<longleftrightarrow> TenantOf l = tid"
  proof -
    have m: "map_of (l_pairs l) tenant_label = Some tid \<longleftrightarrow> (tenant_label, tid) \<in> set (l_pairs l)"
      using assms(1) by (simp add: labels_ok_def)
    have "TenantOf l = tid \<longleftrightarrow> map_of (l_pairs l) tenant_label = Some tid"
      using assms(2) by (auto simp only: TenantOf_def Get_map_of [OF assms(1)] split: option.splits)
    then show ?thesis using m by blast
  qed
  then have "matches (sp_Selector ?p) l \<longleftrightarrow> matches (sp_Selector p) l \<and> TenantOf l = tid"
    by (auto simp: matches_def selectorToIndexMatchers_def)
  moreover have "in_range_ts ?p = in_range_ts p" "before_range ?p = before_range p"
    by (auto simp: in_range_ts_def before_range_def)
  ultimately show ?thesis by (auto simp: select_spec_def Let_def)
qed

lemma tenant_select_exact:
  assumes inv: "mem_inv s" and p: "ValidateSelect p"
  shows "\<exists>out. tenant_Select invalid tid (head_source invalid s) p = Inr out
    \<and> set out = (if \<exists>m \<in> set (sel_Matchers (sp_Selector p)). fst m = tenant_label then {} else own_answers s tid p)"
proof (cases "\<exists>m \<in> set (sel_Matchers (sp_Selector p)). fst m = tenant_label")
  case True
  then show ?thesis using p by (simp add: tenant_Select_def)
next
  case False
  let ?p1 = "if tid \<noteq> tenant_default
    then p\<lparr>sp_Selector := (sp_Selector p)\<lparr>sel_Matchers := sel_Matchers (sp_Selector p) @ [(tenant_label, tid)]\<rparr>\<rparr> else p"
  have v: "ValidateSelect ?p1" using p by (simp add: ValidateSelect_def)
  have lab: "labels_ok l" if "holds_of s h = Some (l, ss)" for h l ss
    using held_labels_ok(1) [OF inv, of l "\<lambda>_ _. True"] that by (auto simp: held_labels_def)
  obtain got where got: "StoreSelect ?p1 s = Some got" "set got = {sd. \<exists>h l ss. holds_of s h = Some (l, ss) \<and> select_spec l ss ?p1 = Some sd}"
    using head_select_set [OF inv v] by blast
  have sp: "TenantOf (sd_Labels sd) = tid \<and> select_spec l ss ?p1 = Some sd \<longleftrightarrow> TenantOf l = tid \<and> select_spec l ss p = Some sd"
    if "holds_of s h = Some (l, ss)" for h l ss sd
  proof (cases "tid = tenant_default")
    case True
    then show ?thesis using select_spec_hash [of l ss p sd] by auto
  next
    case False
    then show ?thesis using select_spec_tenant [OF lab [OF that] False, of ss p] select_spec_hash [of l ss p sd] by auto
  qed
  let ?out = "map (\<lambda>sd. sd\<lparr>sd_Labels := Without (sd_Labels sd) tenant_label\<rparr>) (filter (\<lambda>sd. TenantOf (sd_Labels sd) = tid) got)"
  have "tenant_Select invalid tid (head_source invalid s) p = Inr ?out"
    using False got(1) by (simp add: tenant_Select_def head_source_def)
  moreover have "set ?out = own_answers s tid p"
  proof (intro set_eqI iffI)
    fix x assume "x \<in> set ?out"
    then obtain sd where sd: "sd \<in> set got" "TenantOf (sd_Labels sd) = tid" "x = sd\<lparr>sd_Labels := Without (sd_Labels sd) tenant_label\<rparr>" by auto
    then obtain h l ss where h: "holds_of s h = Some (l, ss)" "select_spec l ss ?p1 = Some sd" unfolding got(2) by blast
    then have "TenantOf l = tid" "select_spec l ss p = Some sd" using sp [OF h(1), of sd] sd(2) by blast+
    then show "x \<in> own_answers s tid p" using h(1) sd(3) select_spec_hash [of l ss p sd] unfolding own_answers_def by blast
  next
    fix x assume "x \<in> own_answers s tid p"
    then obtain sd h l ss where h: "holds_of s h = Some (l, ss)" "TenantOf l = tid" "select_spec l ss p = Some sd"
      "x = sd\<lparr>sd_Labels := Without l tenant_label\<rparr>" unfolding own_answers_def by blast
    then have "TenantOf (sd_Labels sd) = tid" "select_spec l ss ?p1 = Some sd" using sp [OF h(1), of sd] by blast+
    moreover from this have "sd \<in> set got" unfolding got(2) using h(1) by blast
    moreover have "sd_Labels sd = l" by (rule select_spec_hash [OF h(3)])
    ultimately show "x \<in> set ?out" unfolding h(4) by (auto intro!: image_eqI [of _ _ sd])
  qed
  ultimately show ?thesis using False by simp
qed

text \<open>
  C31: a tenant reads its own series and no other. On every reachable head, for any tenant and any valid
  select: a selector that names the tenant label is answered with nothing; any other is answered with exactly what the
  select finds of the series of that tenant, without the tenant label; and no answered series carries the label.
\<close>

theorem tenant_reads_own_series:
  assumes "store_step\<^sup>*\<^sup>* NewMemoryStore s" "ValidateSelect p"
  shows "\<exists>out. src_Select (TenantSource invalid tid (head_source invalid s)) p = Inr out
    \<and> set out = (if \<exists>m \<in> set (sel_Matchers (sp_Selector p)). fst m = tenant_label then {}
        else {sd\<lparr>sd_Labels := Without l tenant_label\<rparr> | sd h l ss. holds_of s h = Some (l, ss) \<and> TenantOf l = tid \<and> select_spec l ss p = Some sd})
    \<and> (\<forall>sd \<in> set out. Get (sd_Labels sd) tenant_label = None)"
proof -
  note inv = store_steps_inv [OF assms(1) mem_inv_new]
  from tenant_select_exact [OF inv assms(2), of invalid tid]
  obtain out where out: "tenant_Select invalid tid (head_source invalid s) p = Inr out"
    "set out = (if \<exists>m \<in> set (sel_Matchers (sp_Selector p)). fst m = tenant_label then {} else own_answers s tid p)"
    by (elim exE conjE)
  have strip: "Get (Without l tenant_label) tenant_label = None" if h: "holds_of s h = Some (l, ss)" for h l ss
  proof -
    have "l \<in> held_labels s (\<lambda>_ _. True)" using h unfolding held_labels_def by blast
    from Get_Without [OF held_labels_ok(1) [OF inv this], of tenant_label tenant_label] show ?thesis by (simp only: if_True simp_thms)
  qed
  have lbl: "\<forall>sd \<in> set out. Get (sd_Labels sd) tenant_label = None"
  proof
    fix x assume "x \<in> set out"
    then have "x \<in> own_answers s tid p" unfolding out(2) by (metis empty_iff)
    then obtain sd h l ss where h: "holds_of s h = Some (l, ss)" "x = sd\<lparr>sd_Labels := Without l tenant_label\<rparr>"
      unfolding own_answers_def by blast
    show "Get (sd_Labels x) tenant_label = None" unfolding h(2) using strip [OF h(1)] by simp
  qed
  have "src_Select (TenantSource invalid tid (head_source invalid s)) p = Inr out" using out(1) by (simp add: TenantSource_def)
  then show ?thesis using out(2) [unfolded own_answers_def] lbl by (intro exI [of _ out] conjI)
qed

theorem tenant_reads_own_series_witness:
  "src_Select (TenantSource () ''team-a'' (head_source () demo_head)) demo_params = Inr []"
proof -
  have v: "ValidateSelect demo_params" by (simp add: ValidateSelect_def demo_params_def)
  have "\<forall>x \<in> set (st_series demo_head). TenantOf (ms_labels (snd x)) = tenant_default" by code_simp
  then have "TenantOf l = tenant_default" if "holds_of demo_head h = Some (l, ss)" for h l ss
    using that by (auto simp: holds_of_def dest!: map_of_SomeD)
  then have other: "TenantOf l \<noteq> ''team-a''" if "holds_of demo_head h = Some (l, ss)" for h l ss using that by simp
  from tenant_reads_own_series [OF demo_head_reachable v, of "()" "''team-a''"]
  obtain out where o: "src_Select (TenantSource () ''team-a'' (head_source () demo_head)) demo_params = Inr out"
    "set out = (if \<exists>m \<in> set (sel_Matchers (sp_Selector demo_params)). fst m = tenant_label then {}
      else {sd\<lparr>sd_Labels := Without l tenant_label\<rparr> | sd h l ss. holds_of demo_head h = Some (l, ss) \<and> TenantOf l = ''team-a'' \<and> select_spec l ss demo_params = Some sd})"
    by (elim exE conjE)
  have "set out = {}" unfolding o(2) using other by auto
  then show ?thesis using o(1) by simp
qed

end
