(* ===== verification/Planner.thy ===== *)
theory Planner
  imports Labels "HOL-Library.Signed_Division"
begin

text \<open>
  The compaction planner (\<^verbatim>\<open>internal/compactor/planner.go\<close>): which blocks are merged next. Times
  are 64-bit words read with \<^const>\<open>sint\<close>; Go's division truncates, as \<open>sdiv\<close> does.
\<close>

record BlockInfo =
  bi_ID :: string
  bi_MinTime :: i64
  bi_MaxTime :: i64
  bi_Tenant :: string

definition Ranges :: "i64 \<Rightarrow> i64 \<Rightarrow> int \<Rightarrow> i64 list" where
  "Ranges base multiplier levels =
     (let m = (if multiplier <s 2 then 2 else multiplier);
          n = (if levels < 1 then 1 else levels)
      in map (\<lambda>i. ((\<lambda>r. r * m) ^^ i) base) [0..<nat n])"

definition floorDiv :: "int \<Rightarrow> int \<Rightarrow> int" where
  "floorDiv a b =
     (let q = a sdiv b
      in if a smod b \<noteq> 0 \<and> (a < 0) \<noteq> (b < 0) then q - 1 else q)"

type_synonym windowKey = "string \<times> int"

definition windowOf :: "i64 \<Rightarrow> BlockInfo \<Rightarrow> windowKey option" where
  "windowOf r b =
     (let span = bi_MaxTime b - bi_MinTime b in
      if span <s 0 \<or> r \<le>s span then None
      else if floorDiv (sint (bi_MinTime b)) (sint r) \<noteq> floorDiv (sint (bi_MaxTime b)) (sint r) then None
      else Some (bi_Tenant b, floorDiv (sint (bi_MinTime b)) (sint r)))"

text \<open>
  The grouping loop. An association list in order of first insertion carries both
  \<^verbatim>\<open>groups\<close> and \<^verbatim>\<open>windowOrder\<close>.
\<close>

fun group_add :: "windowKey \<Rightarrow> string \<Rightarrow> (windowKey \<times> string list) list \<Rightarrow> (windowKey \<times> string list) list" where
  "group_add k x [] = [(k, [x])]"
| "group_add k x ((k', xs) # gs) = (if k' = k then (k', xs @ [x]) # gs else (k', xs) # group_add k x gs)"

fun group_blocks :: "i64 \<Rightarrow> BlockInfo list \<Rightarrow> (windowKey \<times> string list) list \<Rightarrow> (windowKey \<times> string list) list" where
  "group_blocks r [] gs = gs"
| "group_blocks r (b # bs) gs =
     (case windowOf r b of None \<Rightarrow> group_blocks r bs gs
      | Some k \<Rightarrow> group_blocks r bs (group_add k (bi_ID b) gs))"

fun plan_ranges :: "BlockInfo list \<Rightarrow> i64 list \<Rightarrow> string list option" where
  "plan_ranges bs [] = None"
| "plan_ranges bs (r # rs) =
     (if r \<le>s 0 then plan_ranges bs rs
      else case find (\<lambda>(k, xs). length xs \<ge> 2) (group_blocks r bs []) of
             Some (k, xs) \<Rightarrow> Some xs
           | None \<Rightarrow> plan_ranges bs rs)"

text \<open>\<^verbatim>\<open>nil\<close> is \<^const>\<open>None\<close>; a plan is always one group.\<close>

definition Plan :: "BlockInfo list \<Rightarrow> i64 list \<Rightarrow> string list option" where
  "Plan infos ranges = plan_ranges (sort_key (sint \<circ> bi_MinTime) infos) ranges"

section \<open>Windows\<close>

lemma floorDiv_div:
  assumes b: "0 < b"
  shows "floorDiv a b = a div b"
proof (cases "0 \<le> a")
  case True
  then show ?thesis using b by (auto simp: floorDiv_def Let_def signed_divide_int_def signed_modulo_int_def sgn_if)
next
  case False
  have "a div b = (if (- a) mod b = 0 then - ((- a) div b) else - ((- a) div b) - 1)"
    using zdiv_zminus1_eq_if [of b "- a"] b by simp
  then show ?thesis using False b
    by (auto simp: floorDiv_def Let_def signed_divide_int_def signed_modulo_int_def abs_if sgn_if)
qed

definition in_window :: "int \<Rightarrow> windowKey \<Rightarrow> BlockInfo \<Rightarrow> bool" where
  "in_window R k b \<longleftrightarrow> bi_Tenant b = fst k \<and> snd k * R \<le> sint (bi_MinTime b) \<and> sint (bi_MaxTime b) < (snd k + 1) * R"

lemma windowOf_iff:
  assumes "0 <s r" "sint (bi_MinTime b) \<le> sint (bi_MaxTime b)"
  shows "windowOf r b = Some k \<longleftrightarrow> in_window (sint r) k b"
proof -
  let ?R = "sint r" and ?a = "sint (bi_MinTime b)" and ?z = "sint (bi_MaxTime b)"
  have R: "0 < ?R" using assms(1) by (simp add: word_sless_alt)
  have Rb: "?R < 2 ^ 63" using sint_range_size [of r] by (simp add: word_size)
  have span: "(bi_MaxTime b - bi_MinTime b <s 0 \<or> r \<le>s bi_MaxTime b - bi_MinTime b) \<longleftrightarrow> ?R \<le> ?z - ?a"
    using sint_diff_wrap [OF assms(2)] R Rb sint_range_size [of "bi_MaxTime b"] sint_range_size [of "bi_MinTime b"] assms(2)
    by (auto simp: word_sless_alt word_sle_eq word_size)
  have win: "?a div ?R = w \<and> ?z div ?R = w \<longleftrightarrow> w * ?R \<le> ?a \<and> ?z < (w + 1) * ?R" for w
  proof
    assume "?a div ?R = w \<and> ?z div ?R = w"
    then have "w * ?R + ?a mod ?R = ?a" "w * ?R + ?z mod ?R = ?z"
      using div_mult_mod_eq [of ?a ?R] div_mult_mod_eq [of ?z ?R] by auto
    moreover have "0 \<le> ?a mod ?R" "?z mod ?R < ?R" using R by simp_all
    moreover have "(w + 1) * ?R = w * ?R + ?R" by (simp add: algebra_simps)
    ultimately show "w * ?R \<le> ?a \<and> ?z < (w + 1) * ?R" by linarith
  next
    assume w: "w * ?R \<le> ?a \<and> ?z < (w + 1) * ?R"
    have "x div ?R = w" if "w * ?R \<le> x" "x < (w + 1) * ?R" for x
      using that R by (intro int_div_pos_eq [of _ _ _ "x - w * ?R"]) (auto simp: algebra_simps)
    then show "?a div ?R = w \<and> ?z div ?R = w" using w assms(2) by auto
  qed
  show ?thesis
    using span win [of "snd k"] R assms(2) by (cases k) (auto simp: windowOf_def in_window_def Let_def floorDiv_div algebra_simps)
qed

section \<open>Groups\<close>

definition ids_of :: "windowKey \<Rightarrow> (windowKey \<times> string list) list \<Rightarrow> string list" where
  "ids_of k gs = (case map_of gs k of None \<Rightarrow> [] | Some xs \<Rightarrow> xs)"

lemma ids_of_add: "ids_of k (group_add k' x gs) = ids_of k gs @ (if k = k' then [x] else [])"
  by (induction k' x gs rule: group_add.induct) (auto simp: ids_of_def)

lemma keys_add: "distinct (map fst gs) \<Longrightarrow> distinct (map fst (group_add k x gs)) \<and> set (map fst (group_add k x gs)) = insert k (set (map fst gs))"
  by (induction k x gs rule: group_add.induct) auto

lemma group_blocks_spec:
  "distinct (map fst gs) \<Longrightarrow> distinct (map fst (group_blocks r bs gs))
     \<and> ids_of k (group_blocks r bs gs) = ids_of k gs @ map bi_ID (filter (\<lambda>b. windowOf r b = Some k) bs)"
  by (induction r bs gs rule: group_blocks.induct) (auto simp: ids_of_add keys_add split: option.splits)

lemma plan_find:
  "case find (\<lambda>(k, xs). length xs \<ge> 2) (group_blocks r bs []) of
     Some (k, xs) \<Rightarrow> xs = map bi_ID (filter (\<lambda>b. windowOf r b = Some k) bs) \<and> length xs \<ge> 2
   | None \<Rightarrow> \<forall>k. length (filter (\<lambda>b. windowOf r b = Some k) bs) < 2"
proof -
  let ?gs = "group_blocks r bs []"
  have spec: "distinct (map fst ?gs)" "ids_of k ?gs = map bi_ID (filter (\<lambda>b. windowOf r b = Some k) bs)" for k
    using group_blocks_spec [of "[]" r bs k] by (auto simp: ids_of_def)
  have mem: "xs = ids_of k ?gs" if "(k, xs) \<in> set ?gs" for k xs
    using that spec(1) by (simp add: ids_of_def)
  show ?thesis
  proof (cases "find (\<lambda>(k, xs). length xs \<ge> 2) ?gs")
    case None
    have "length (ids_of k ?gs) < 2" for k
      using None by (cases k) (auto simp: ids_of_def find_None_iff not_le dest!: map_of_SomeD split: option.splits)
    then show ?thesis using None spec(2) by simp
  next
    case (Some kx)
    obtain k xs where kx: "kx = (k, xs)" by (cases kx)
    then have "(k, xs) \<in> set ?gs" "length xs \<ge> 2"
      using Some unfolding find_Some_iff by (force simp: in_set_conv_nth)+
    then show ?thesis using Some kx mem spec(2) by auto
  qed
qed

section \<open>Properties\<close>

text \<open>
  C20: what a plan may merge. When every block has \<^verbatim>\<open>MinTime <= MaxTime\<close>, a plan is the list of
  IDs of all blocks of one tenant that lie in one aligned window of one of the positive ranges,
  at least two of them, and no smaller range of the list has such a window; no plan means that
  no window of any positive range holds two blocks of one tenant. Extreme timestamps whose span
  wraps are covered.
\<close>

theorem Plan_correct:
  assumes "\<forall>b \<in> set infos. sint (bi_MinTime b) \<le> sint (bi_MaxTime b)"
  defines "blocks \<equiv> sort_key (sint \<circ> bi_MinTime) infos"
  shows "case Plan infos ranges of
     Some xs \<Rightarrow> \<exists>rs r rs' k. ranges = rs @ r # rs' \<and> 0 <s r
         \<and> xs = map bi_ID (filter (in_window (sint r) k) blocks) \<and> length xs \<ge> 2
         \<and> (\<forall>r' \<in> set rs. 0 <s r' \<longrightarrow> (\<forall>k. length (filter (in_window (sint r') k) blocks) < 2))
   | None \<Rightarrow> \<forall>r \<in> set ranges. 0 <s r \<longrightarrow> (\<forall>k. length (filter (in_window (sint r) k) blocks) < 2)"
proof -
  have f: "filter (\<lambda>b. windowOf r b = Some k) blocks = filter (in_window (sint r) k) blocks" if "0 <s r" for r k
    using assms(1) that by (intro filter_cong) (auto simp: blocks_def windowOf_iff)
  have "case plan_ranges blocks ranges of
     Some xs \<Rightarrow> \<exists>rs r rs' k. ranges = rs @ r # rs' \<and> 0 <s r
         \<and> xs = map bi_ID (filter (in_window (sint r) k) blocks) \<and> length xs \<ge> 2
         \<and> (\<forall>r' \<in> set rs. 0 <s r' \<longrightarrow> (\<forall>k. length (filter (in_window (sint r') k) blocks) < 2))
   | None \<Rightarrow> \<forall>r \<in> set ranges. 0 <s r \<longrightarrow> (\<forall>k. length (filter (in_window (sint r) k) blocks) < 2)"
  proof (induction ranges)
    case (Cons r ranges)
    consider (neg) "r \<le>s 0" | (none) "0 <s r" "find (\<lambda>(k, xs). length xs \<ge> 2) (group_blocks r blocks []) = None"
      | (some) k xs where "0 <s r" "find (\<lambda>(k, xs). length xs \<ge> 2) (group_blocks r blocks []) = Some (k, xs)"
      by (cases "r \<le>s 0"; cases "find (\<lambda>(k, xs). length xs \<ge> 2) (group_blocks r blocks [])")
        (auto simp: word_sless_alt word_sle_eq)
    then show ?case
    proof cases
      case some
      then have x: "xs = map bi_ID (filter (in_window (sint r) k) blocks)" "length (filter (in_window (sint r) k) blocks) \<ge> 2"
        using plan_find [of r blocks] f [OF some(1)] by (auto simp del: filter_eq_Cons_iff)
      have "\<not> r \<le>s 0" using some(1) by (simp add: word_sless_alt word_sle_eq)
      then have "plan_ranges blocks (r # ranges) = Some xs" using some by simp
      then show ?thesis using some x by (auto intro!: exI [of _ "[] :: i64 list"] exI [of _ "fst k"] exI [of _ "snd k"])
    next
      case none
      then have "\<forall>k. length (filter (in_window (sint r) k) blocks) < 2"
        using plan_find [of r blocks] f by simp
      moreover have "\<not> r \<le>s 0" using none by (simp add: word_sless_alt word_sle_eq)
      ultimately show ?thesis using none Cons.IH
        by (auto split: option.splits) (metis append_Cons set_ConsD)
    next
      case neg
      then have "\<not> 0 <s r" by (simp add: word_sless_alt word_sle_eq)
      then show ?thesis using neg Cons.IH by (auto split: option.splits) (metis append_Cons set_ConsD)
    qed
  qed simp
  then show ?thesis by (simp only: Plan_def blocks_def)
qed

theorem Plan_correct_witness:
  "Plan [\<lparr>bi_ID = ''b'', bi_MinTime = 50, bi_MaxTime = 60, bi_Tenant = ''t''\<rparr>,
         \<lparr>bi_ID = ''a'', bi_MinTime = 10, bi_MaxTime = 20, bi_Tenant = ''t''\<rparr>] [100] \<noteq> None"
proof -
  let ?bs = "[\<lparr>bi_ID = ''b'', bi_MinTime = 50, bi_MaxTime = 60, bi_Tenant = ''t''\<rparr>,
         \<lparr>bi_ID = ''a'', bi_MinTime = 10, bi_MaxTime = 20, bi_Tenant = ''t''\<rparr>]"
  have "length (filter (in_window (sint (100 :: i64)) (''t'', 0)) (sort_key (sint \<circ> bi_MinTime) ?bs)) = 2"
    "0 <s (100 :: i64)" "\<forall>b \<in> set ?bs. sint (bi_MinTime b) \<le> sint (bi_MaxTime b)"
    by (simp_all add: in_window_def word_sless_alt)
  then show ?thesis using Plan_correct [of ?bs "[100]"] by (auto split: option.splits) (metis less_irrefl)
qed

end
