(* ===== verification/Sink.thy ===== *)
theory Sink
  imports Router WalStore
begin

text \<open>
  \<^verbatim>\<open>internal/rpc/replicated_sink.go\<close> and \<^verbatim>\<open>internal/rpc/straggler.go\<close>: the sink that sends a flush to every
  store replicating a series and succeeds once a quorum of them holds each, and the queue that re-sends
  what a degraded flush left out. Go visits the maps of stores in any order, so the visiting orders are
  arguments; a store's answer to a POST is an argument too.
\<close>

section \<open>The replicated flush\<close>

record store_quorum_error =
  sq_Kind :: string
  sq_Failed :: nat
  sq_Total :: nat
  sq_Quorum :: nat
  sq_RF :: nat
  sq_Stores :: "string list"
  sq_Cause :: "rpc_error option"

datatype 'e replicate_error = StoreRouting ring_error | EncodeFailed 'e | StoreQuorumMissed store_quorum_error

text \<open>What a flush did: the POSTs it sent, the bodies it queued for re-sending, and the outcome it reported.\<close>

record 'b flush_effects =
  fe_posts :: "(string \<times> 'b) list"
  fe_queued :: "(string \<times> 'b) list"
  fe_observed :: "string option"

fun owners_loop :: "ring \<Rightarrow> nat \<Rightarrow> nat \<Rightarrow> (string \<times> nat list) list \<Rightarrow> string list list \<Rightarrow> u64 list
    \<Rightarrow> ring_error + (string \<times> nat list) list \<times> string list list" where
  "owners_loop r rf i owned replicasOf [] = Inr (owned, replicasOf)"
| "owners_loop r rf i owned replicasOf (k # keys) =
     (case Replicas r k (int rf) of
        Inl e \<Rightarrow> Inl e
      | Inr reps \<Rightarrow> owners_loop r rf (Suc i) (foldl (\<lambda>o' s. map_append s i o') owned reps) (replicasOf @ [reps]) keys)"

text \<open>An encoding failure returns at once, with the earlier stores' requests already sent.\<close>

fun send_loop :: "(nat list \<Rightarrow> 'e + 'b) \<Rightarrow> (string \<Rightarrow> nat list) \<Rightarrow> (string \<times> 'b) list \<Rightarrow> string list
    \<Rightarrow> 'e option \<times> (string \<times> 'b) list" where
  "send_loop body owned posts [] = (None, posts)"
| "send_loop body owned posts (s # stores) =
     (case body (owned s) of
        Inl e \<Rightarrow> (Some e, posts)
      | Inr b \<Rightarrow> send_loop body owned (posts @ [(s, b)]) stores)"

definition failedStore :: "(string \<Rightarrow> 'b \<Rightarrow> rpc_error option) \<Rightarrow> (string \<times> 'b) list \<Rightarrow> (string \<times> 'b \<times> rpc_error) list" where
  "failedStore answer posts = List.map_filter (\<lambda>(s, b). map_option (\<lambda>e. (s, b, e)) (answer s b)) posts"

definition key_acks :: "(string \<times> 'b \<times> rpc_error) list \<Rightarrow> string list \<Rightarrow> nat" where
  "key_acks failed reps = length (filter (\<lambda>s. map_of failed s = None) reps)"

definition key_causes :: "(string \<times> 'b \<times> rpc_error) list \<Rightarrow> string list \<Rightarrow> rpc_error list" where
  "key_causes failed reps = List.map_filter (\<lambda>s. map_option snd (map_of failed s)) reps"

definition needOf :: "nat \<Rightarrow> bool \<Rightarrow> nat" where
  "needOf rf requireAll = (if requireAll then rf else rf div 2 + 1)"

text \<open>
  \<^verbatim>\<open>label\<close> is \<^const>\<open>MemberLabel\<close> over the URL parser; \<^verbatim>\<open>visit\<close> and \<^verbatim>\<open>visitFailed\<close> are the orders in which Go
  visits the two maps; \<^verbatim>\<open>queueing\<close> says whether the sink has a straggler queue.
\<close>

definition replicateFlush :: "(string \<Rightarrow> string) \<Rightarrow> (string list \<Rightarrow> string list) \<Rightarrow> (string list \<Rightarrow> string list) \<Rightarrow> bool
    \<Rightarrow> string \<Rightarrow> u64 list \<Rightarrow> ring \<Rightarrow> nat \<Rightarrow> bool \<Rightarrow> (string \<Rightarrow> 'b \<Rightarrow> rpc_error option) \<Rightarrow> (nat list \<Rightarrow> 'e + 'b)
    \<Rightarrow> 'e replicate_error option \<times> 'b flush_effects" where
  "replicateFlush label visit visitFailed queueing kind keys r rf requireAll answer body =
     (case owners_loop r rf 0 [] [] keys of
        Inl e \<Rightarrow> (Some (StoreRouting e), \<lparr>fe_posts = [], fe_queued = [], fe_observed = None\<rparr>)
      | Inr (owned, replicasOf) \<Rightarrow>
        case send_loop body (\<lambda>s. the (map_of owned s)) [] (visit (map fst owned)) of
          (Some e, posts) \<Rightarrow> (Some (EncodeFailed e), \<lparr>fe_posts = posts, fe_queued = [], fe_observed = None\<rparr>)
        | (None, posts) \<Rightarrow>
          let failed = failedStore answer posts;
              need = needOf rf requireAll;
              failedKeys = length (filter (\<lambda>reps. key_acks failed reps < need) replicasOf);
              causes = concat (map (key_causes failed) replicasOf);
              culprits = concat (map (\<lambda>reps. map label (filter (\<lambda>s. map_of failed s \<noteq> None) reps)) replicasOf)
          in if failedKeys > 0 then
               (Some (StoreQuorumMissed \<lparr>sq_Kind = kind, sq_Failed = failedKeys, sq_Total = length keys, sq_Quorum = need,
                  sq_RF = rf, sq_Stores = sort_compact culprits, sq_Cause = storeCause causes\<rparr>),
                \<lparr>fe_posts = posts, fe_queued = [], fe_observed = Some ''failed''\<rparr>)
             else
               (None, \<lparr>fe_posts = posts,
                  fe_queued = (if queueing then map (\<lambda>s. (s, fst (the (map_of failed s)))) (visitFailed (map fst failed)) else []),
                  fe_observed = Some (if failed \<noteq> [] then ''degraded'' else ''full'')\<rparr>))"

section \<open>The sink of metric chunks\<close>

text \<open>The wire form of a series: its labels as a map and the bytes of each chunk. Encoding it as JSON does not fail.\<close>

record wireChunkSeries =
  wc_Labels :: Labels
  wc_Chunks :: "bytes list"

definition metrics_flush_body :: "SeriesChunks list \<Rightarrow> nat list \<Rightarrow> unit + wireChunkSeries list" where
  "metrics_flush_body series idx =
     Inr (map (\<lambda>i. \<lparr>wc_Labels = sc_Labels (series ! i), wc_Chunks = map (\<lambda>(p, c). Bytes c) (sc_Chunks (series ! i))\<rparr>) idx)"

record block_sink =
  bs_ring :: ring
  bs_rf :: nat
  bs_queueing :: bool
  bs_requireAll :: bool

definition NewReplicatedBlockSink :: "ring \<Rightarrow> int \<Rightarrow> bool \<Rightarrow> bool \<Rightarrow> block_sink" where
  "NewReplicatedBlockSink r rf queueing requireAll =
     \<lparr>bs_ring = r, bs_rf = nat (max rf 1), bs_queueing = queueing, bs_requireAll = requireAll\<rparr>"

definition IngestSeriesChunks :: "(string \<Rightarrow> string) \<Rightarrow> (string list \<Rightarrow> string list) \<Rightarrow> (string list \<Rightarrow> string list)
    \<Rightarrow> (string \<Rightarrow> wireChunkSeries list \<Rightarrow> rpc_error option) \<Rightarrow> block_sink \<Rightarrow> SeriesChunks list
    \<Rightarrow> unit replicate_error option \<times> wireChunkSeries list flush_effects" where
  "IngestSeriesChunks label visit visitFailed answer s series =
     replicateFlush label visit visitFailed (bs_queueing s) ''series'' (map (\<lambda>sc. Hash (sc_Labels sc)) series)
       (bs_ring s) (bs_rf s) (bs_requireAll s) answer (metrics_flush_body series)"

section \<open>What a flush does\<close>

definition part_of :: "ring \<Rightarrow> nat \<Rightarrow> u64 list \<Rightarrow> string \<Rightarrow> nat list" where
  "part_of r rf keys s = filter (\<lambda>i. s \<in> set (ring_reps r rf (keys ! i))) [0..<length keys]"

definition owners_of :: "ring \<Rightarrow> nat \<Rightarrow> u64 list \<Rightarrow> string set" where
  "owners_of r rf keys = (\<Union>k \<in> set keys. set (ring_reps r rf k))"

lemma owners_loop_ok:
  assumes rf: "rf_ok r rf"
  shows "distinct (map fst owned) \<Longrightarrow> (\<And>s. map_of owned s = some_list (part_of r rf pre s)) \<Longrightarrow>
    \<exists>owned'. owners_loop r rf (length pre) owned (map (ring_reps r rf) pre) ks = Inr (owned', map (ring_reps r rf) (pre @ ks))
      \<and> distinct (map fst owned') \<and> (\<forall>s. map_of owned' s = some_list (part_of r rf (pre @ ks) s))"
proof (induction ks arbitrary: pre owned)
  case (Cons k ks)
  let ?o = "foldl (\<lambda>o' s. map_append s (length pre) o') owned (ring_reps r rf k)"
  note d = ring_replicas.reps_distinct [OF rf, of k]
  have P: "part_of r rf (pre @ [k]) s = part_of r rf pre s @ (if s \<in> set (ring_reps r rf k) then [length pre] else [])" for s
    by (auto simp: part_of_def nth_append intro!: filter_cong)
  have m: "map_of ?o s = some_list (part_of r rf (pre @ [k]) s)" for s
    unfolding fold_append [OF d] Cons.prems(2) P by (simp add: some_list_snoc)
  from Cons.IH [of ?o "pre @ [k]", OF fold_append_keys [OF Cons.prems(1)] m]
  show ?case by (simp add: ring_reps [OF rf])
qed simp

lemma owners_ok:
  assumes "rf_ok r rf"
  obtains owned where "owners_loop r rf 0 [] [] keys = Inr (owned, map (ring_reps r rf) keys)" "distinct (map fst owned)"
    "\<And>s. map_of owned s = some_list (part_of r rf keys s)" "set (map fst owned) = owners_of r rf keys"
proof -
  obtain owned where o: "owners_loop r rf 0 [] [] keys = Inr (owned, map (ring_reps r rf) keys)" "distinct (map fst owned)"
    "\<forall>s. map_of owned s = some_list (part_of r rf keys s)"
    using owners_loop_ok [OF assms, of "[]" "[]" keys] by (auto simp: part_of_def some_list_def)
  have "s \<in> set (map fst owned) \<longleftrightarrow> s \<in> owners_of r rf keys" for s
  proof -
    have "s \<in> set (map fst owned) \<longleftrightarrow> \<not> map_of owned s = None"
      unfolding map_of_eq_None_iff set_map by blast
    also have "\<dots> \<longleftrightarrow> part_of r rf keys s \<noteq> []"
      using o(3) [rule_format, of s] by (simp add: some_list_def)
    also have "\<dots> \<longleftrightarrow> (\<exists>i < length keys. s \<in> set (ring_reps r rf (keys ! i)))"
      by (auto simp: part_of_def filter_empty_conv)
    also have "\<dots> \<longleftrightarrow> (\<exists>k \<in> set keys. s \<in> set (ring_reps r rf k))" by (simp add: set_conv_nth) blast
    finally show ?thesis by (simp add: owners_of_def)
  qed
  then show thesis using that [of owned] o by blast
qed

lemma send_loop_ok:
  assumes "\<And>idx. body idx = Inr (enc idx)"
  shows "send_loop body owned posts ss = (None, posts @ map (\<lambda>s. (s, enc (owned s))) ss)"
  by (induction ss arbitrary: posts) (simp_all add: assms)

lemma failedStore_ok:
  "map_of (failedStore answer (map (\<lambda>s. (s, f s)) ss)) s = (if s \<in> set ss then map_option (\<lambda>e. (f s, e)) (answer s (f s)) else None)"
  "map fst (failedStore answer (map (\<lambda>s. (s, f s)) ss)) = filter (\<lambda>s. answer s (f s) \<noteq> None) ss"
  by (induction ss) (auto simp: failedStore_def List.map_filter_simps split: option.splits)

lemma storeCause_iff:
  "storeCause es = Some ErrProtocol \<longleftrightarrow> ErrProtocol \<in> set es"
  "storeCause es = Some ErrUnavailable \<longleftrightarrow> es \<noteq> [] \<and> set es = {ErrUnavailable}"
  "storeCause es = None \<longleftrightarrow> es = []"
proof -
  have p: "store_cause_loop l u c es = Some ErrProtocol \<longleftrightarrow> ErrProtocol \<in> set es"
    if "l \<noteq> Some ErrProtocol" "u \<noteq> Some ErrProtocol" "c \<noteq> Some ErrProtocol" for l u c
    using that by (induction es arbitrary: l u c) (auto split: rpc_error.splits)
  have u: "store_cause_loop l u c es = Some ErrUnavailable \<longleftrightarrow> l = None \<and> c = None \<and> set es \<subseteq> {ErrUnavailable} \<and> (u = Some ErrUnavailable \<or> es \<noteq> [])"
    if "l \<in> {None, Some ErrLimited}" "u \<in> {None, Some ErrUnavailable}" "c \<in> {None, Some ErrCanceled}" for l u c
    using that by (induction es arbitrary: l u c) (auto split: rpc_error.splits)
  have n: "store_cause_loop l u c es = None \<longleftrightarrow> l = None \<and> u = None \<and> c = None \<and> es = []" for l u c
    by (induction es arbitrary: l u c) (auto split: rpc_error.splits)
  show "storeCause es = Some ErrProtocol \<longleftrightarrow> ErrProtocol \<in> set es" by (simp add: storeCause_def p)
  show "storeCause es = Some ErrUnavailable \<longleftrightarrow> es \<noteq> [] \<and> set es = {ErrUnavailable}"
    by (auto simp: storeCause_def u) (metis list.set_sel(1) singletonD subset_iff)
  show "storeCause es = None \<longleftrightarrow> es = []" by (simp add: storeCause_def n)
qed

lemma key_acks_card: "distinct reps \<Longrightarrow> key_acks failed reps = card {s \<in> set reps. map_of failed s = None}"
  using distinct_card [of "filter (\<lambda>s. map_of failed s = None) reps"] by (simp add: key_acks_def)

lemma set_key_causes: "set (key_causes failed reps) = {c. \<exists>s \<in> set reps. \<exists>b. map_of failed s = Some (b, c)}"
  by (force simp: key_causes_def List.map_filter_def)

lemma sort_compact_ok: "sorted (sort_compact xs)" "distinct (sort_compact xs)" "set (sort_compact xs) = set xs"
proof -
  have "distinct (remdups_adj ys)" if "sorted ys" for ys :: "string list"
    using that by (induction ys rule: remdups_adj.induct) (auto simp: order_le_less)
  then show "sorted (sort_compact xs)" "distinct (sort_compact xs)" "set (sort_compact xs) = set xs"
    by (simp_all add: sort_compact_def sorted_remdups_adj)
qed

text \<open>Everything a flush does, in terms of the ring and of what the stores answer.\<close>

definition bad_stores :: "ring \<Rightarrow> nat \<Rightarrow> u64 list \<Rightarrow> (string \<Rightarrow> 'b \<Rightarrow> rpc_error option) \<Rightarrow> (nat list \<Rightarrow> 'b) \<Rightarrow> string set" where
  "bad_stores r rf keys answer enc = {s \<in> owners_of r rf keys. answer s (enc (part_of r rf keys s)) \<noteq> None}"

definition short_of :: "ring \<Rightarrow> nat \<Rightarrow> bool \<Rightarrow> u64 list \<Rightarrow> (string \<Rightarrow> 'b \<Rightarrow> rpc_error option) \<Rightarrow> (nat list \<Rightarrow> 'b) \<Rightarrow> nat set" where
  "short_of r rf requireAll keys answer enc = {i. i < length keys
     \<and> card (set (ring_reps r rf (keys ! i)) - bad_stores r rf keys answer enc) < needOf rf requireAll}"

lemma replicateFlush_ok:
  assumes rf: "rf_ok r rf" and visit: "\<And>xs. mset (visit xs) = mset xs" "\<And>xs. mset (visitFailed xs) = mset xs"
    and body: "\<And>idx. body idx = Inr (enc idx)"
    and f: "replicateFlush label visit visitFailed queueing kind keys r rf requireAll answer body = (err, fe)"
  defines "bad \<equiv> bad_stores r rf keys answer enc" and "short \<equiv> short_of r rf requireAll keys answer enc"
    and "part \<equiv> part_of r rf keys"
  shows "distinct (map fst (fe_posts fe))" "set (fe_posts fe) = (\<lambda>s. (s, enc (part s))) ` owners_of r rf keys"
    "short = {} \<Longrightarrow> err = None \<and> fe_observed fe = Some (if bad = {} then ''full'' else ''degraded'')
       \<and> distinct (map fst (fe_queued fe)) \<and> set (fe_queued fe) = (if queueing then (\<lambda>s. (s, enc (part s))) ` bad else {})
       \<and> (requireAll \<longrightarrow> bad = {})"
    "short \<noteq> {} \<Longrightarrow> \<exists>q. err = Some (StoreQuorumMissed q) \<and> fe_observed fe = Some ''failed'' \<and> fe_queued fe = []
       \<and> sq_Kind q = kind \<and> sq_Failed q = card short \<and> sq_Total q = length keys \<and> sq_Quorum q = needOf rf requireAll \<and> sq_RF q = rf
       \<and> sorted (sq_Stores q) \<and> distinct (sq_Stores q) \<and> set (sq_Stores q) = label ` bad
       \<and> (sq_Cause q = Some ErrUnavailable \<longleftrightarrow> (\<forall>s \<in> bad. answer s (enc (part s)) = Some ErrUnavailable))
       \<and> (sq_Cause q = Some ErrProtocol \<longleftrightarrow> (\<exists>s \<in> bad. answer s (enc (part s)) = Some ErrProtocol))"
proof -
  obtain owned where O: "owners_loop r rf 0 [] [] keys = Inr (owned, map (ring_reps r rf) keys)" "distinct (map fst owned)"
    "\<And>s. map_of owned s = some_list (part s)" "set (map fst owned) = owners_of r rf keys"
    unfolding part_def by (rule owners_ok [OF rf, of keys]) blast
  define ss where "ss = visit (map fst owned)"
  have ss: "set ss = owners_of r rf keys" "distinct ss"
    using visit(1) [of "map fst owned"] O(2,4) unfolding ss_def by (metis set_mset_mset, metis mset_eq_imp_distinct_iff)
  have part: "the (map_of owned s) = part s" if "s \<in> set ss" for s
  proof -
    have "map_of owned s \<noteq> None" using that O(4) unfolding ss(1) map_of_eq_None_iff by auto
    then show ?thesis unfolding O(3) by (simp add: some_list_def split: if_splits)
  qed
  define posts where "posts = map (\<lambda>s. (s, enc (part s))) ss"
  have send: "send_loop body (\<lambda>s. the (map_of owned s)) [] (visit (map fst owned)) = (None, posts)"
    unfolding send_loop_ok [of body enc, OF body] posts_def ss_def [symmetric] using part by simp
  define failed where "failed = failedStore answer posts"
  have fm: "map_of failed s = (if s \<in> bad then Some (enc (part s), the (answer s (enc (part s)))) else None)" for s
    unfolding failed_def posts_def failedStore_ok bad_def bad_stores_def ss(1) part_def by auto
  have fk: "map fst failed = filter (\<lambda>s. s \<in> bad) ss"
    unfolding failed_def posts_def failedStore_ok bad_def bad_stores_def part_def using ss(1) by (intro filter_cong) auto
  have fd: "distinct (map fst failed)" "set (map fst failed) = bad"
    unfolding fk using ss by (auto simp: bad_def bad_stores_def)
  have acks: "key_acks failed (ring_reps r rf k) = card (set (ring_reps r rf k) - bad)" for k
    unfolding key_acks_card [OF ring_replicas.reps_distinct [OF rf]] fm by (intro arg_cong [where f = card]) auto
  define need where "need = needOf rf requireAll"
  have fkeys: "length (filter (\<lambda>reps. key_acks failed reps < need) (map (ring_reps r rf) keys)) = card short"
    unfolding length_filter_conv_card short_def short_of_def bad_def [symmetric] need_def
    by (intro arg_cong [where f = card]) (auto simp: acks)
  have bad_owner: "\<exists>k \<in> set keys. s \<in> set (ring_reps r rf k)" if "s \<in> bad" for s
    using that by (auto simp: bad_def bad_stores_def owners_of_def)
  define causes where "causes = concat (map (key_causes failed) (map (ring_reps r rf) keys))"
  have causes: "set causes = (\<lambda>s. the (answer s (enc (part s)))) ` bad"
    using bad_owner by (auto simp: causes_def set_key_causes fm image_iff split: if_splits) blast?
  define culprits where "culprits = concat (map (\<lambda>reps. map label (filter (\<lambda>s. map_of failed s \<noteq> None) reps)) (map (ring_reps r rf) keys))"
  have culprits: "set culprits = label ` bad"
    using bad_owner by (fastforce simp: culprits_def fm split: if_splits)
  have finite: "finite short" by (simp add: short_def short_of_def)
  have ans: "answer s (enc (part s)) \<noteq> None" if "s \<in> bad" for s using that by (simp add: bad_def bad_stores_def part_def)
  have R: "replicateFlush label visit visitFailed queueing kind keys r rf requireAll answer body =
     (if card short > 0 then
        (Some (StoreQuorumMissed \<lparr>sq_Kind = kind, sq_Failed = card short, sq_Total = length keys, sq_Quorum = need,
           sq_RF = rf, sq_Stores = sort_compact culprits, sq_Cause = storeCause causes\<rparr>),
         \<lparr>fe_posts = posts, fe_queued = [], fe_observed = Some ''failed''\<rparr>)
      else (None, \<lparr>fe_posts = posts,
         fe_queued = (if queueing then map (\<lambda>s. (s, fst (the (map_of failed s)))) (visitFailed (map fst failed)) else []),
         fe_observed = Some (if failed \<noteq> [] then ''degraded'' else ''full'')\<rparr>))"
    unfolding replicateFlush_def O(1) sum.case prod.case send option.case Let_def failed_def [symmetric] need_def [symmetric]
      fkeys causes_def [symmetric] culprits_def [symmetric] by (rule refl)
  have posts: "fe_posts fe = posts" using f unfolding R by (auto split: if_splits)
  show "distinct (map fst (fe_posts fe))" "set (fe_posts fe) = (\<lambda>s. (s, enc (part s))) ` owners_of r rf keys"
    unfolding posts posts_def using ss by (simp_all add: comp_def)
  have vf: "set (visitFailed (map fst failed)) = bad" "distinct (visitFailed (map fst failed))"
    using visit(2) [of "map fst failed"] fd by (metis set_mset_mset, metis mset_eq_imp_distinct_iff)
  show "err = None \<and> fe_observed fe = Some (if bad = {} then ''full'' else ''degraded'')
       \<and> distinct (map fst (fe_queued fe)) \<and> set (fe_queued fe) = (if queueing then (\<lambda>s. (s, enc (part s))) ` bad else {})
       \<and> (requireAll \<longrightarrow> bad = {})" if none: "short = {}"
  proof -
    have "failed \<noteq> [] \<longleftrightarrow> bad \<noteq> {}" using fd(2) by auto
    moreover have "bad = {}" if all: "requireAll"
    proof (rule ccontr)
      assume "bad \<noteq> {}"
      then obtain s k where s: "s \<in> bad" "k \<in> set keys" "s \<in> set (ring_reps r rf k)" using bad_owner by blast
      then obtain i where i: "i < length keys" "keys ! i = k" by (metis in_set_conv_nth)
      have "card (set (ring_reps r rf k) - bad) < card (set (ring_reps r rf k))"
        using s by (intro psubset_card_mono) auto
      also have "\<dots> = rf" using distinct_card [OF ring_replicas.reps_distinct [OF rf]] ring_replicas.reps_length [OF rf] by simp
      finally show False using none i all by (auto simp: short_def short_of_def bad_def needOf_def)
    qed
    moreover have "map (\<lambda>s. (s, fst (the (map_of failed s)))) (visitFailed (map fst failed)) = map (\<lambda>s. (s, enc (part s))) (visitFailed (map fst failed))"
      by (intro map_cong) (simp_all add: vf fm)
    then have q: "err = None" "fe_queued fe = (if queueing then map (\<lambda>s. (s, enc (part s))) (visitFailed (map fst failed)) else [])"
      "fe_observed fe = Some (if failed \<noteq> [] then ''degraded'' else ''full'')"
      using f none unfolding R by auto
    have "distinct (map fst (fe_queued fe))" "set (fe_queued fe) = (if queueing then (\<lambda>s. (s, enc (part s))) ` bad else {})"
      unfolding q(2) using vf by (simp_all add: comp_def)
    ultimately show ?thesis using q by auto
  qed
  show "\<exists>q. err = Some (StoreQuorumMissed q) \<and> fe_observed fe = Some ''failed'' \<and> fe_queued fe = []
       \<and> sq_Kind q = kind \<and> sq_Failed q = card short \<and> sq_Total q = length keys \<and> sq_Quorum q = needOf rf requireAll \<and> sq_RF q = rf
       \<and> sorted (sq_Stores q) \<and> distinct (sq_Stores q) \<and> set (sq_Stores q) = label ` bad
       \<and> (sq_Cause q = Some ErrUnavailable \<longleftrightarrow> (\<forall>s \<in> bad. answer s (enc (part s)) = Some ErrUnavailable))
       \<and> (sq_Cause q = Some ErrProtocol \<longleftrightarrow> (\<exists>s \<in> bad. answer s (enc (part s)) = Some ErrProtocol))" if some: "short \<noteq> {}"
  proof -
    have pos: "card short > 0" using some finite by (simp add: card_gt_0_iff)
    have ne: "bad \<noteq> {}"
    proof
      assume b: "bad = {}"
      obtain i where i: "i \<in> short" using some by blast
      have "card (set (ring_reps r rf (keys ! i))) = rf"
        using distinct_card [OF ring_replicas.reps_distinct [OF rf]] ring_replicas.reps_length [OF rf] by simp
      then show False using i b rf by (auto simp: short_def short_of_def bad_def [symmetric] needOf_def rf_ok_def split: if_splits)
    qed
    have "causes \<noteq> []" using causes ne by auto
    moreover have "set causes = {ErrUnavailable} \<longleftrightarrow> (\<forall>s \<in> bad. answer s (enc (part s)) = Some ErrUnavailable)"
      unfolding causes using ne ans by force
    moreover have "ErrProtocol \<in> set causes \<longleftrightarrow> (\<exists>s \<in> bad. answer s (enc (part s)) = Some ErrProtocol)"
      unfolding causes using ans by force
    ultimately show ?thesis using f pos unfolding R
      by (auto simp: sort_compact_ok culprits storeCause_iff need_def)
  qed
qed

section \<open>A head flushing into the replicated sink\<close>

text \<open>
  The sink as the head sees it; its state lists every body a store acknowledged, and a store may answer
  differently each time, by what was acknowledged before.
\<close>

type_synonym store_log = "(string \<times> wireChunkSeries list) list"

definition acked_posts :: "(string \<Rightarrow> 'b \<Rightarrow> rpc_error option) \<Rightarrow> (string \<times> 'b) list \<Rightarrow> (string \<times> 'b) list" where
  "acked_posts answer posts = filter (\<lambda>(s, b). answer s b = None) posts"

definition replicated_sink :: "(string \<Rightarrow> string) \<Rightarrow> (string list \<Rightarrow> string list) \<Rightarrow> (string list \<Rightarrow> string list)
    \<Rightarrow> (store_log \<Rightarrow> string \<Rightarrow> wireChunkSeries list \<Rightarrow> rpc_error option) \<Rightarrow> block_sink \<Rightarrow> store_log sink" where
  "replicated_sink label visit visitFailed answer s k batch =
     (let (err, fe) = IngestSeriesChunks label visit visitFailed (answer k) s batch
      in (err = None, k @ acked_posts (answer k) (fe_posts fe)))"

definition holds_chunk :: "store_log \<Rightarrow> string \<Rightarrow> Labels \<Rightarrow> chunk \<Rightarrow> bool" where
  "holds_chunk k s l c \<longleftrightarrow> (\<exists>b. (s, b) \<in> set k \<and> (\<exists>w \<in> set b. wc_Labels w = l \<and> Bytes c \<in> set (wc_Chunks w)))"

lemma holds_chunk_append: "holds_chunk k s l c \<Longrightarrow> holds_chunk (k @ k') s l c"
  by (auto simp: holds_chunk_def)

lemma needOf_pos: "1 \<le> rf \<Longrightarrow> 0 < needOf rf a" by (simp add: needOf_def)

text \<open>An acknowledged batch is on enough of the stores that replicate each of its series.\<close>

lemma sink_ack:
  assumes rf: "rf_ok (bs_ring s) (bs_rf s)"
    and visit: "\<And>xs. mset (visit xs) = mset xs" "\<And>xs. mset (visitFailed xs) = mset xs"
    and ack: "replicated_sink label visit visitFailed answer s k batch = (True, k')"
    and c: "sc \<in> set batch" "(p, c) \<in> set (sc_Chunks sc)"
  shows "needOf (bs_rf s) (bs_requireAll s)
    \<le> card {m \<in> set (ring_reps (bs_ring s) (bs_rf s) (Hash (sc_Labels sc))). holds_chunk k' m (sc_Labels sc) c}"
proof -
  let ?keys = "map (\<lambda>sc. Hash (sc_Labels sc)) batch" and ?r = "bs_ring s" and ?rf = "bs_rf s" and ?all = "bs_requireAll s"
  define enc where "enc idx = projr (metrics_flush_body batch idx)" for idx
  have enc: "metrics_flush_body batch idx = Inr (enc idx)" for idx by (simp add: enc_def metrics_flush_body_def)
  obtain err fe where f: "IngestSeriesChunks label visit visitFailed (answer k) s batch = (err, fe)" by (metis surj_pair)
  have k': "err = None" "k' = k @ acked_posts (answer k) (fe_posts fe)"
    using ack f by (auto simp: replicated_sink_def)
  note F = replicateFlush_ok [of ?r ?rf visit visitFailed "metrics_flush_body batch" enc, OF rf visit enc f [unfolded IngestSeriesChunks_def]]
  have short: "short_of ?r ?rf ?all ?keys (answer k) enc = {}"
    using F(4) k'(1) by (metis option.distinct(1))
  obtain i where i: "i < length batch" "batch ! i = sc" using c(1) by (metis in_set_conv_nth)
  let ?R = "ring_reps ?r ?rf (Hash (sc_Labels sc))"
  have good: "needOf ?rf ?all \<le> card (set ?R - bad_stores ?r ?rf ?keys (answer k) enc)"
  proof -
    have "?keys ! i = Hash (sc_Labels sc)" using i by simp
    moreover have "i \<notin> short_of ?r ?rf ?all ?keys (answer k) enc" using short by blast
    ultimately show ?thesis using i(1) unfolding short_of_def by simp
  qed
  have "holds_chunk k' m (sc_Labels sc) c" if m: "m \<in> set ?R - bad_stores ?r ?rf ?keys (answer k) enc" for m
  proof -
    have owner: "m \<in> owners_of ?r ?rf ?keys" using m c(1) by (auto simp: owners_of_def)
    then have a: "answer k m (enc (part_of ?r ?rf ?keys m)) = None" using m by (auto simp: bad_stores_def)
    have "(m, enc (part_of ?r ?rf ?keys m)) \<in> set (fe_posts fe)" unfolding F(2) using owner by blast
    then have post: "(m, enc (part_of ?r ?rf ?keys m)) \<in> set k'" using a by (simp add: k'(2) acked_posts_def)
    have "i \<in> set (part_of ?r ?rf ?keys m)" using i m by (simp add: part_of_def)
    then show ?thesis unfolding holds_chunk_def using post i c(2)
      by (intro exI [of _ "enc (part_of ?r ?rf ?keys m)"]) (force simp: enc_def metrics_flush_body_def)
  qed
  then have "card (set ?R - bad_stores ?r ?rf ?keys (answer k) enc) \<le> card {m \<in> set ?R. holds_chunk k' m (sc_Labels sc) c}"
    by (intro card_mono) auto
  then show ?thesis using good by simp
qed

lemma replicated_sink_extends: "replicated_sink label visit visitFailed answer s k batch = (a, k') \<Longrightarrow> \<exists>k2. k' = k @ k2"
  by (auto simp: replicated_sink_def split: prod.splits)

lemma flush_batches_extends:
  "flush_batches (replicated_sink label visit visitFailed answer s) k mem sent bs = (r, k', mem') \<Longrightarrow> \<exists>k2. k' = k @ k2"
proof (induction bs arbitrary: k mem sent)
  case (Cons b bs)
  obtain a k1 where a: "replicated_sink label visit visitFailed answer s k b = (a, k1)" by (metis surj_pair)
  obtain k2 where "k1 = k @ k2" using replicated_sink_extends [OF a] by blast
  then show ?case using Cons.prems Cons.IH [of k1] a by (cases a) fastforce+
qed simp

definition on_quorum :: "block_sink \<Rightarrow> store_log \<Rightarrow> Labels \<Rightarrow> chunk \<Rightarrow> bool" where
  "on_quorum s k l c \<longleftrightarrow> needOf (bs_rf s) (bs_requireAll s)
     \<le> card {m \<in> set (ring_reps (bs_ring s) (bs_rf s) (Hash l)). holds_chunk k m l c}"

lemma on_quorum_append: "on_quorum s k l c \<Longrightarrow> on_quorum s (k @ k') l c"
  unfolding on_quorum_def by (erule order_trans) (intro card_mono, auto intro: holds_chunk_append)

text \<open>Through all batches of a flush, a chunk leaves the head only onto a quorum.\<close>

lemma flush_batches_quorum:
  assumes rf: "rf_ok (bs_ring s) (bs_rf s)"
    and visit: "\<And>xs. mset (visit xs) = mset xs" "\<And>xs. mset (visitFailed xs) = mset xs"
    and inv: "mem_inv mem"
    and f: "flush_batches (replicated_sink label visit visitFailed answer s) k mem sent bs = ((ok, sent'), k', mem')"
    and c: "(p, sid, c) \<in> set (chunk_list (st_series mem))"
    and src: "\<forall>b \<in> set bs. \<forall>sc \<in> set b. \<forall>c'. (p, c') \<in> set (sc_Chunks sc) \<longrightarrow> sc_Labels sc = l \<and> c' = c"
  shows "(p, sid, c) \<in> set (chunk_list (st_series mem')) \<or> on_quorum s k' l c"
  using f inv c src
proof (induction bs arbitrary: k mem sent)
  case (Cons b bs)
  obtain a k1 where a: "replicated_sink label visit visitFailed answer s k b = (a, k1)" by (metis surj_pair)
  show ?case
  proof (cases a)
    case False
    then show ?thesis using Cons.prems(1,3) a by simp
  next
    case True
    let ?m = "DiscardSealedChunks b mem"
    have rest: "flush_batches (replicated_sink label visit visitFailed answer s) k1 ?m True bs = ((ok, sent'), k', mem')"
      using Cons.prems(1) a True by simp
    show ?thesis
    proof (cases "p \<in> set (batch_ptrs b)")
      case stays: False
      have "(p, sid, c) \<in> set (chunk_list (st_series ?m))"
        using Cons.prems(3) stays by (simp add: chunk_list_discard [OF Cons.prems(2)])
      then show ?thesis using Cons.IH [OF rest mem_inv_discard [OF Cons.prems(2)]] Cons.prems(4) by simp
    next
      case gone: True
      then obtain sc c' where sc: "sc \<in> set b" "(p, c') \<in> set (sc_Chunks sc)" by (auto simp: batch_ptrs_def)
      then have l: "sc_Labels sc = l" "c' = c" using Cons.prems(4) by auto
      have q: "on_quorum s k1 l c"
        using sink_ack [OF rf visit _ sc, of label answer k k1] a True unfolding on_quorum_def l by simp
      obtain k2 where "k' = k1 @ k2" using flush_batches_extends [OF rest] by blast
      then show ?thesis using on_quorum_append [OF q] by blast
    qed
  qed
qed simp

lemma chunk_list_remove_empty:
  assumes "mem_inv m"
  shows "set (chunk_list (st_series (remove_empty m))) = set (chunk_list (st_series m))"
proof -
  have one: "set (chunk_list (st_series (snd (RemoveEmptySeries sid m)))) = set (chunk_list (st_series m))" if "mem_inv m" for sid m
  proof (cases "map_of (st_series m) sid")
    case (Some ms)
    show ?thesis
    proof (cases "ms_chunks ms = []")
      case True
      have "ms' = ms" if "(sid, ms') \<in> set (st_series m)" for ms'
        using that Some mem_invD(1) [OF \<open>mem_inv m\<close>] by (simp add: map_of_is_SomeI)
      then have "set (chunk_list (filter (\<lambda>(k, v). sid \<noteq> k) (st_series m))) = set (chunk_list (st_series m))"
        using True by (force simp: chunk_list_iff)
      then show ?thesis using Some True by (simp add: RemoveEmptySeries_def AList.delete_eq)
    qed (simp add: RemoveEmptySeries_def Some)
  qed (simp add: RemoveEmptySeries_def)
  have "mem_inv m \<Longrightarrow> set (chunk_list (st_series (foldl (\<lambda>m sid. snd (RemoveEmptySeries sid m)) m sids))) = set (chunk_list (st_series m))" for sids
    by (induction sids arbitrary: m) (simp_all add: one mem_inv_remove)
  then show ?thesis using assms by (simp add: remove_empty_def)
qed

lemma batches_from_head:
  assumes "mem_inv m" "b \<in> set (BatchSeriesChunks (SealedChunksSnapshot m) limit)" "sc \<in> set b" "(p, c) \<in> set (sc_Chunks sc)"
  shows "\<exists>ms. (sc_ID sc, ms) \<in> set (st_series m) \<and> (p, c) \<in> set (ms_chunks ms) \<and> sc_Labels sc = ms_labels ms"
proof -
  let ?snap = "SealedChunksSnapshot m"
  have "concat (map flat (BatchSeriesChunks ?snap limit)) = flat ?snap"
    using batchSeriesChunks_ok [of MaxChunksPerSeries ?snap limit] snapshot_ids [OF assms(1)]
    by (simp add: BatchSeriesChunks_def MaxChunksPerSeries_def)
  moreover have "((sc_ID sc, sc_Labels sc), p, c) \<in> set (flat b)" using assms(3,4) by (force simp: flat_def)
  moreover have "((sc_ID sc, sc_Labels sc), p, c) \<in> set (concat (map flat (BatchSeriesChunks ?snap limit)))"
    using assms(2) calculation(2) by auto
  ultimately have "((sc_ID sc, sc_Labels sc), p, c) \<in> set (flat ?snap)" by simp
  then obtain sc' where "sc' \<in> set ?snap" "sc_ID sc' = sc_ID sc" "sc_Labels sc' = sc_Labels sc" "(p, c) \<in> set (sc_Chunks sc')"
    by (auto simp: flat_def)
  then obtain x where "x \<in> set (st_series m)" "sc_ID sc = fst x" "sc_Labels sc = ms_labels (snd x)" "(p, c) \<in> set (ms_chunks (snd x))"
    unfolding snapshot_alt by (auto simp: List.map_filter_def split: if_splits)
  then show ?thesis by (intro exI [of _ "snd x"]) simp
qed

lemma flush_quorum:
  assumes rf: "rf_ok (bs_ring s) (bs_rf s)"
    and visit: "\<And>xs. mset (visit xs) = mset xs" "\<And>xs. mset (visitFailed xs) = mset xs"
    and inv: "mem_inv (hs_mem h)"
    and f: "FlushBlockContext locked floorOk (replicated_sink label visit visitFailed answer s) k h = (res, k', h')"
    and c: "(sid, ms) \<in> set (st_series (hs_mem h))" "(p, c) \<in> set (ms_chunks ms)"
  shows "(p, sid, c) \<in> set (chunk_list (st_series (hs_mem h'))) \<or> on_quorum s k' (ms_labels ms) c"
proof -
  let ?bs = "BatchSeriesChunks (SealedChunksSnapshot (hs_mem h)) (hs_batchBytes h)"
  have m: "(p, sid, c) \<in> set (chunk_list (st_series (hs_mem h)))" using c by (auto simp: chunk_list_iff)
  obtain ok sent k1 mem where b: "flush_batches (replicated_sink label visit visitFailed answer s) k (hs_mem h) False ?bs = ((ok, sent), k1, mem)"
    by (metis prod.exhaust)
  have "\<forall>b \<in> set ?bs. \<forall>sc \<in> set b. \<forall>c'. (p, c') \<in> set (sc_Chunks sc) \<longrightarrow> sc_Labels sc = ms_labels ms \<and> c' = c"
  proof clarify
    fix b sc c' assume x: "b \<in> set ?bs" "sc \<in> set b" "(p, c') \<in> set (sc_Chunks sc)"
    obtain ms' where ms': "(sc_ID sc, ms') \<in> set (st_series (hs_mem h))" "(p, c') \<in> set (ms_chunks ms')" "sc_Labels sc = ms_labels ms'"
      using batches_from_head [OF inv x] by blast
    then have "(p, sc_ID sc, c') \<in> set (chunk_list (st_series (hs_mem h)))" by (auto simp: chunk_list_iff)
    from chunk_list_ptr_unique [OF inv m this] have e: "sc_ID sc = sid" "c' = c" by simp_all
    then have "ms' = ms" using ms'(1) c(1) mem_invD(1) [OF inv] by (metis eq_key_imp_eq_value)
    then show "sc_Labels sc = ms_labels ms \<and> c' = c" using ms'(3) e by simp
  qed
  from flush_batches_quorum [OF rf visit inv b m this]
  have one: "(p, sid, c) \<in> set (chunk_list (st_series mem)) \<or> on_quorum s k1 (ms_labels ms) c" .
  have "mem_inv m \<Longrightarrow> mem_inv (snd (snd (flush_batches sink k m sent bs)))" for sink :: "store_log sink" and k m sent bs
    by (induction sink k m sent bs rule: flush_batches.induct) (auto simp: mem_inv_discard split: prod.splits bool.splits)
  from this [OF inv, of "replicated_sink label visit visitFailed answer s" k False ?bs] have mem: "mem_inv mem" by (simp add: b)
  show ?thesis using f one m chunk_list_remove_empty [OF mem]
    by (auto simp: FlushBlockContext_def Let_def b split: if_splits)
qed

section \<open>The straggler queue\<close>

text \<open>
  Times and durations are nanoseconds. The queue holds pointers, so an item carries its own; one is
  drawn for every body offered. The outcomes \<^verbatim>\<open>Observe\<close> is told are listed with the item they are about.
  \<^verbatim>\<open>bytes\<close> counts bodies in memory, so its int64 does not overflow.
\<close>

record StragglerOptions =
  so_MaxBytes :: int
  so_MaxAge :: int

record stragglerItem =
  si_ptr :: nat
  si_store :: string
  si_path :: string
  si_body :: bytes
  si_added :: int
  si_due :: int
  si_backoff :: int

record StragglerQueue =
  q_items :: "stragglerItem list"
  q_bytes :: int
  q_alloc :: nat

datatype straggler_event = Dropped nat | Delivered nat | SendFailed nat

definition stragglerBackoffStart :: int where "stragglerBackoffStart = 1000000000"
definition stragglerBackoffCap :: int where "stragglerBackoffCap = 60000000000"

definition NewStragglerQueue :: StragglerQueue where
  "NewStragglerQueue = \<lparr>q_items = [], q_bytes = 0, q_alloc = 0\<rparr>"

text \<open>\<^verbatim>\<open>Time.Sub\<close> saturates.\<close>

definition time_sub :: "int \<Rightarrow> int \<Rightarrow> int" where
  "time_sub t u = max (- (2 ^ 63)) (min (2 ^ 63 - 1) (t - u))"

text \<open>\<^const>\<open>None\<close> is the panic of indexing an empty queue.\<close>

fun evict :: "int \<Rightarrow> stragglerItem list \<Rightarrow> int \<Rightarrow> (stragglerItem list \<times> int \<times> straggler_event list) option" where
  "evict limit [] bytes = (if bytes > limit then None else Some ([], bytes, []))"
| "evict limit (old # items) bytes =
     (if bytes > limit then
        map_option (\<lambda>(its, b, es). (its, b, Dropped (si_ptr old) # es)) (evict limit items (bytes - int (length (si_body old))))
      else Some (old # items, bytes, []))"

definition StragglerAdd :: "StragglerOptions \<Rightarrow> int \<Rightarrow> string \<Rightarrow> string \<Rightarrow> bytes \<Rightarrow> StragglerQueue
    \<Rightarrow> (straggler_event list \<times> StragglerQueue) option" where
  "StragglerAdd opts now store path body q =
     (let p = q_alloc q; q1 = q\<lparr>q_alloc := Suc p\<rparr>; n = int (length body) in
      if so_MaxBytes opts \<le> 0 then Some ([Dropped p], q1)
      else if n > so_MaxBytes opts then Some ([Dropped p], q1)
      else
        map_option (\<lambda>(its, b, es). (es, q1\<lparr>q_items := its, q_bytes := b\<rparr>))
          (evict (so_MaxBytes opts)
            (q_items q @ [\<lparr>si_ptr = p, si_store = store, si_path = path, si_body = body, si_added = now, si_due = now,
               si_backoff = stragglerBackoffStart\<rparr>]) (q_bytes q + n)))"

text \<open>The first half of \<^verbatim>\<open>Retry\<close>, under the lock: what is kept, what is due, the bytes, and what was dropped.\<close>

fun expire_loop :: "StragglerOptions \<Rightarrow> int \<Rightarrow> stragglerItem list \<Rightarrow> stragglerItem list \<Rightarrow> int \<Rightarrow> straggler_event list
    \<Rightarrow> stragglerItem list \<Rightarrow> stragglerItem list \<times> stragglerItem list \<times> int \<times> straggler_event list" where
  "expire_loop opts now kept due bytes es [] = (kept, due, bytes, es)"
| "expire_loop opts now kept due bytes es (it # items) =
     (if time_sub now (si_added it) > so_MaxAge opts then
        expire_loop opts now kept due (bytes - int (length (si_body it))) (es @ [Dropped (si_ptr it)]) items
      else expire_loop opts now (kept @ [it]) (if \<not> now < si_due it then due @ [it] else due) bytes es items)"

definition retry_begin :: "StragglerOptions \<Rightarrow> int \<Rightarrow> StragglerQueue \<Rightarrow> stragglerItem list \<times> straggler_event list \<times> StragglerQueue" where
  "retry_begin opts now q =
     (let (kept, due, bytes, es) = expire_loop opts now [] [] (q_bytes q) [] (q_items q)
      in (due, es, q\<lparr>q_items := kept, q_bytes := bytes\<rparr>))"

text \<open>The second half, after each send: the item may have been evicted while it was on the wire.\<close>

fun remove_item :: "nat \<Rightarrow> stragglerItem list \<Rightarrow> int \<Rightarrow> stragglerItem list \<times> int" where
  "remove_item p [] bytes = ([], bytes)"
| "remove_item p (x # xs) bytes =
     (if si_ptr x = p then (xs, bytes - int (length (si_body x)))
      else let (xs1, b) = remove_item p xs bytes in (x # xs1, b))"

definition retry_settle :: "int \<Rightarrow> nat \<Rightarrow> bool \<Rightarrow> StragglerQueue \<Rightarrow> straggler_event \<times> StragglerQueue" where
  "retry_settle clock p ok q =
     (if ok then let (its, b) = remove_item p (q_items q) (q_bytes q) in (Delivered p, q\<lparr>q_items := its, q_bytes := b\<rparr>)
      else (SendFailed p, q\<lparr>q_items := map (\<lambda>it. if si_ptr it = p
             then it\<lparr>si_due := clock + si_backoff it, si_backoff := min (si_backoff it * 2) stragglerBackoffCap\<rparr> else it) (q_items q)\<rparr>))"

text \<open>\<^verbatim>\<open>client\<close> is the client of a store, where there is one, and its answer to a POST.\<close>

definition resend :: "(string \<Rightarrow> (string \<Rightarrow> bytes \<Rightarrow> rpc_error option) option) \<Rightarrow> stragglerItem \<Rightarrow> bool" where
  "resend client it = (case client (si_store it) of None \<Rightarrow> False | Some post \<Rightarrow> post (si_path it) (si_body it) = None)"

fun retry_loop :: "(nat \<Rightarrow> int) \<Rightarrow> (string \<Rightarrow> (string \<Rightarrow> bytes \<Rightarrow> rpc_error option) option) \<Rightarrow> straggler_event list \<Rightarrow> StragglerQueue
    \<Rightarrow> stragglerItem list \<Rightarrow> straggler_event list \<times> StragglerQueue" where
  "retry_loop clock client es q [] = (es, q)"
| "retry_loop clock client es q (it # due) =
     (let (e, q1) = retry_settle (clock (si_ptr it)) (si_ptr it) (resend client it) q
      in retry_loop clock client (es @ [e]) q1 due)"

text \<open>\<^verbatim>\<open>Retry\<close> with nothing else touching the queue; \<^verbatim>\<open>clock\<close> is what the clock reads when each item's send failed.\<close>

definition Retry :: "StragglerOptions \<Rightarrow> int \<Rightarrow> (nat \<Rightarrow> int) \<Rightarrow> (string \<Rightarrow> (string \<Rightarrow> bytes \<Rightarrow> rpc_error option) option) \<Rightarrow> StragglerQueue
    \<Rightarrow> straggler_event list \<times> StragglerQueue" where
  "Retry opts now clock client q = (let (due, es, q1) = retry_begin opts now q in retry_loop clock client es q1 due)"

definition PendingBytes :: "StragglerQueue \<Rightarrow> int" where "PendingBytes q = q_bytes q"

text \<open>
  The queue under any interleaving: adds, beginnings of retries, and the settling of any send, of items
  still queued or not, with the outcomes so far.
\<close>

inductive straggler_step :: "StragglerOptions \<Rightarrow> StragglerQueue \<times> straggler_event list \<Rightarrow> StragglerQueue \<times> straggler_event list \<Rightarrow> bool"
  for opts where
  straggler_add: "StragglerAdd opts now store path body q = Some (es, q') \<Longrightarrow> straggler_step opts (q, log) (q', log @ es)"
| straggler_begin: "retry_begin opts now q = (due, es, q') \<Longrightarrow> straggler_step opts (q, log) (q', log @ es)"
| straggler_settle: "p < q_alloc q \<Longrightarrow> retry_settle clock p ok q = (e, q') \<Longrightarrow> straggler_step opts (q, log) (q', log @ [e])"

inductive_cases straggler_stepE: "straggler_step opts (q, log) (q', log')"

section \<open>The queue is right\<close>

definition body_bytes :: "stragglerItem list \<Rightarrow> int" where
  "body_bytes its = sum_list (map (\<lambda>it. int (length (si_body it))) its)"

lemma body_bytes_simps [simp]:
  "body_bytes [] = 0" "body_bytes (it # its) = int (length (si_body it)) + body_bytes its" "body_bytes (a @ b) = body_bytes a + body_bytes b"
  by (simp_all add: body_bytes_def)

lemma body_bytes_pos: "0 \<le> body_bytes its" by (induction its) auto

definition straggler_inv :: "StragglerOptions \<Rightarrow> StragglerQueue \<times> straggler_event list \<Rightarrow> bool" where
  "straggler_inv opts ql \<longleftrightarrow> (case ql of (q, log) \<Rightarrow>
     q_bytes q = body_bytes (q_items q) \<and> q_bytes q \<le> max 0 (so_MaxBytes opts)
     \<and> sorted_wrt (<) (map si_ptr (q_items q))
     \<and> (\<forall>it \<in> set (q_items q). si_ptr it < q_alloc q \<and> stragglerBackoffStart \<le> si_backoff it \<and> si_backoff it \<le> stragglerBackoffCap)
     \<and> (\<forall>p < q_alloc q. p \<in> si_ptr ` set (q_items q) \<longleftrightarrow> Dropped p \<notin> set log \<and> Delivered p \<notin> set log)
     \<and> (\<forall>p. Dropped p \<in> set log \<or> Delivered p \<in> set log \<longrightarrow> p < q_alloc q))"

text \<open>Eviction keeps the longest suffix that fits, and cannot run into the end of the queue.\<close>

lemma evict_ok:
  assumes "bytes = body_bytes its" "0 \<le> limit"
  shows "\<exists>gone kept. its = gone @ kept \<and> evict limit its bytes = Some (kept, body_bytes kept, map (\<lambda>it. Dropped (si_ptr it)) gone)
    \<and> body_bytes kept \<le> limit \<and> (\<forall>g gs. gone = gs @ [g] \<longrightarrow> body_bytes (g # kept) > limit)"
  using assms
proof (induction limit its bytes rule: evict.induct)
  case (2 limit old items bytes)
  show ?case
  proof (cases "bytes > limit")
    case True
    then obtain gone kept where g: "items = gone @ kept"
      "evict limit items (bytes - int (length (si_body old))) = Some (kept, body_bytes kept, map (\<lambda>it. Dropped (si_ptr it)) gone)"
      "body_bytes kept \<le> limit" "\<forall>g gs. gone = gs @ [g] \<longrightarrow> body_bytes (g # kept) > limit"
      using 2 by auto
    then show ?thesis using True 2(2)
      by (intro exI [of _ "old # gone"] exI [of _ kept]) (auto simp: Cons_eq_append_conv)
  qed (use 2 in \<open>intro exI [of _ "[]"] exI [of _ "old # items"], auto\<close>)
qed simp

lemma expire_loop_ok:
  "expire_loop opts now kept due bytes es its =
     (let out = (\<lambda>it. time_sub now (si_added it) > so_MaxAge opts); stay = filter (\<lambda>it. \<not> out it) its in
      (kept @ stay, due @ filter (\<lambda>it. \<not> now < si_due it) stay, bytes - body_bytes (filter out its),
       es @ map (\<lambda>it. Dropped (si_ptr it)) (filter out its)))"
  by (induction opts now kept due bytes es its rule: expire_loop.induct) (simp_all add: Let_def)

lemma remove_item_ok:
  "distinct (map si_ptr its) \<Longrightarrow> remove_item p its bytes =
     (filter (\<lambda>it. si_ptr it \<noteq> p) its, bytes - body_bytes (filter (\<lambda>it. si_ptr it = p) its))"
proof (induction p its bytes rule: remove_item.induct)
  case (2 p x xs bytes)
  show ?case
  proof (cases "si_ptr x = p")
    case True
    then have "\<forall>it \<in> set xs. si_ptr it \<noteq> p" using 2(2) by (auto simp: image_iff)
    then have "filter (\<lambda>it. si_ptr it \<noteq> p) xs = xs" "filter (\<lambda>it. si_ptr it = p) xs = []"
      by (auto simp: filter_id_conv filter_empty_conv)
    then show ?thesis using True by simp
  qed (use 2 in auto)
qed simp

lemma body_bytes_split: "body_bytes (filter P its) + body_bytes (filter (\<lambda>it. \<not> P it) its) = body_bytes its"
  by (induction its) auto

lemma straggler_inv_add:
  assumes inv: "straggler_inv opts (q, log)"
  shows "\<exists>es q'. StragglerAdd opts now store path body q = Some (es, q') \<and> straggler_inv opts (q', log @ es)"
proof -
  let ?p = "q_alloc q"
  let ?it = "\<lparr>si_ptr = ?p, si_store = store, si_path = path, si_body = body, si_added = now, si_due = now, si_backoff = stragglerBackoffStart\<rparr>"
  have I: "q_bytes q = body_bytes (q_items q)" "q_bytes q \<le> max 0 (so_MaxBytes opts)" "sorted_wrt (<) (map si_ptr (q_items q))"
    "\<forall>it \<in> set (q_items q). si_ptr it < ?p \<and> stragglerBackoffStart \<le> si_backoff it \<and> si_backoff it \<le> stragglerBackoffCap"
    "\<forall>p < ?p. p \<in> si_ptr ` set (q_items q) \<longleftrightarrow> Dropped p \<notin> set log \<and> Delivered p \<notin> set log"
    "\<forall>p. Dropped p \<in> set log \<or> Delivered p \<in> set log \<longrightarrow> p < ?p"
    using inv by (auto simp: straggler_inv_def)
  show ?thesis
  proof (cases "so_MaxBytes opts \<le> 0 \<or> int (length body) > so_MaxBytes opts")
    case True
    then show ?thesis using I by (auto simp: StragglerAdd_def Let_def straggler_inv_def less_Suc_eq)
  next
    case False
    let ?all = "q_items q @ [?it]"
    obtain gone kept where g: "?all = gone @ kept"
      "evict (so_MaxBytes opts) ?all (q_bytes q + int (length body)) = Some (kept, body_bytes kept, map (\<lambda>it. Dropped (si_ptr it)) gone)"
      "body_bytes kept \<le> so_MaxBytes opts"
      using evict_ok [of "q_bytes q + int (length body)" ?all "so_MaxBytes opts"] False I(1) by auto
    let ?q' = "q\<lparr>q_alloc := Suc ?p, q_items := kept, q_bytes := body_bytes kept\<rparr>"
    have "StragglerAdd opts now store path body q = Some (map (\<lambda>it. Dropped (si_ptr it)) gone, ?q')"
      using False g(2) by (simp add: StragglerAdd_def Let_def)
    moreover have "straggler_inv opts (?q', log @ map (\<lambda>it. Dropped (si_ptr it)) gone)"
    proof -
      have s: "sorted_wrt (<) (map si_ptr ?all)" using I(3,4) by (simp add: sorted_wrt_append)
      then have sk: "sorted_wrt (<) (map si_ptr kept)" and lt: "\<forall>x \<in> set gone. \<forall>y \<in> set kept. si_ptr x < si_ptr y"
        unfolding g(1) by (simp_all add: sorted_wrt_append)
      have all: "\<forall>it \<in> set (gone @ kept). si_ptr it < Suc ?p \<and> stragglerBackoffStart \<le> si_backoff it \<and> si_backoff it \<le> stragglerBackoffCap"
        unfolding g(1) [symmetric] using I(4) by (auto simp: stragglerBackoffStart_def stragglerBackoffCap_def less_Suc_eq)
      have members: "p \<in> si_ptr ` set (gone @ kept) \<longleftrightarrow> Dropped p \<notin> set log \<and> Delivered p \<notin> set log" if "p < Suc ?p" for p
        unfolding g(1) [symmetric] using I(4-6) that by (cases "p = ?p") (auto simp: less_Suc_eq)
      have "p \<in> si_ptr ` set kept \<longleftrightarrow> Dropped p \<notin> set log \<and> Delivered p \<notin> set log \<and> p \<notin> si_ptr ` set gone" if "p < Suc ?p" for p
        using members [OF that] lt by (force simp: image_iff)
      then show ?thesis using sk all g(3) False I(6) unfolding straggler_inv_def
        by (auto simp: image_iff less_Suc_eq)
    qed
    ultimately show ?thesis by blast
  qed
qed

lemma straggler_inv_begin:
  assumes inv: "straggler_inv opts (q, log)" and b: "retry_begin opts now q = (due, es, q')"
  shows "straggler_inv opts (q', log @ es)"
proof -
  define out :: "stragglerItem \<Rightarrow> bool" where "out = (\<lambda>it. time_sub now (si_added it) > so_MaxAge opts)"
  let ?stay = "filter (\<lambda>it. \<not> out it) (q_items q)" and ?gone = "filter out (q_items q)"
  have q': "es = map (\<lambda>it. Dropped (si_ptr it)) ?gone" "q' = q\<lparr>q_items := ?stay, q_bytes := q_bytes q - body_bytes ?gone\<rparr>"
    using b by (auto simp: retry_begin_def expire_loop_ok Let_def out_def)
  have I: "q_bytes q = body_bytes (q_items q)" "q_bytes q \<le> max 0 (so_MaxBytes opts)" "sorted_wrt (<) (map si_ptr (q_items q))"
    "\<forall>it \<in> set (q_items q). si_ptr it < q_alloc q \<and> stragglerBackoffStart \<le> si_backoff it \<and> si_backoff it \<le> stragglerBackoffCap"
    "\<forall>p < q_alloc q. p \<in> si_ptr ` set (q_items q) \<longleftrightarrow> Dropped p \<notin> set log \<and> Delivered p \<notin> set log"
    "\<forall>p. Dropped p \<in> set log \<or> Delivered p \<in> set log \<longrightarrow> p < q_alloc q"
    using inv by (auto simp: straggler_inv_def)
  have d: "distinct (map si_ptr (q_items q))" using I(3) strict_sorted_iff by blast
  have bytes: "q_bytes q - body_bytes ?gone = body_bytes ?stay" using body_bytes_split [of out "q_items q"] I(1) by simp
  have s: "sorted_wrt (<) (map si_ptr ?stay)" using I(3) by (simp add: sorted_wrt_map sorted_wrt_filter)
  have "si_ptr x \<noteq> si_ptr y" if "x \<in> set ?stay" "y \<in> set ?gone" for x y
    using that d by (auto simp: distinct_map inj_on_def)
  then have "p \<in> si_ptr ` set ?stay \<longleftrightarrow> p \<in> si_ptr ` set (q_items q) \<and> p \<notin> si_ptr ` set ?gone" for p
    by (auto simp: image_iff)
  moreover have "q_bytes q - body_bytes ?gone \<le> max 0 (so_MaxBytes opts)" using I(2) body_bytes_pos [of ?gone] by linarith
  ultimately show ?thesis using I(4-6) s bytes unfolding straggler_inv_def q' by (auto simp: image_iff)
qed

lemma straggler_inv_settle:
  assumes inv: "straggler_inv opts (q, log)" and p: "p < q_alloc q" and b: "retry_settle clock p ok q = (e, q')"
  shows "straggler_inv opts (q', log @ [e])"
proof -
  have I: "q_bytes q = body_bytes (q_items q)" "q_bytes q \<le> max 0 (so_MaxBytes opts)" "sorted_wrt (<) (map si_ptr (q_items q))"
    "\<forall>it \<in> set (q_items q). si_ptr it < q_alloc q \<and> stragglerBackoffStart \<le> si_backoff it \<and> si_backoff it \<le> stragglerBackoffCap"
    "\<forall>p < q_alloc q. p \<in> si_ptr ` set (q_items q) \<longleftrightarrow> Dropped p \<notin> set log \<and> Delivered p \<notin> set log"
    "\<forall>p. Dropped p \<in> set log \<or> Delivered p \<in> set log \<longrightarrow> p < q_alloc q"
    using inv by (auto simp: straggler_inv_def)
  have d: "distinct (map si_ptr (q_items q))" using I(3) strict_sorted_iff by blast
  show ?thesis
  proof (cases ok)
    case True
    let ?stay = "filter (\<lambda>it. si_ptr it \<noteq> p) (q_items q)" and ?gone = "filter (\<lambda>it. si_ptr it = p) (q_items q)"
    have q': "e = Delivered p" "q' = q\<lparr>q_items := ?stay, q_bytes := body_bytes ?stay\<rparr>"
      using b True body_bytes_split [of "\<lambda>it. si_ptr it = p" "q_items q"] I(1)
      by (auto simp: retry_settle_def remove_item_ok [OF d])
    have "sorted_wrt (<) (map si_ptr ?stay)" using I(3) by (simp add: sorted_wrt_map sorted_wrt_filter)
    moreover have "body_bytes ?stay \<le> max 0 (so_MaxBytes opts)"
      using I(1,2) body_bytes_pos [of ?gone] body_bytes_split [of "\<lambda>it. si_ptr it = p" "q_items q"] by linarith
    moreover have "x \<in> si_ptr ` set ?stay \<longleftrightarrow> x \<in> si_ptr ` set (q_items q) \<and> x \<noteq> p" for x by auto
    ultimately show ?thesis using I(4-6) p unfolding straggler_inv_def q' by (auto simp: image_iff)
  next
    case False
    let ?u = "\<lambda>it. if si_ptr it = p then it\<lparr>si_due := clock + si_backoff it, si_backoff := min (si_backoff it * 2) stragglerBackoffCap\<rparr> else it"
    have q': "e = SendFailed p" "q' = q\<lparr>q_items := map ?u (q_items q)\<rparr>" using b False by (auto simp: retry_settle_def)
    let ?its = "map ?u (q_items q)"
    have m: "map si_ptr (map ?u its) = map si_ptr its" "body_bytes (map ?u its) = body_bytes its" for its
      by (induction its) auto
    have i: "si_ptr ` set ?its = si_ptr ` set (q_items q)" using m(1) [of "q_items q"] by (metis set_map)
    have "\<forall>it \<in> set ?its. si_ptr it < q_alloc q \<and> stragglerBackoffStart \<le> si_backoff it \<and> si_backoff it \<le> stragglerBackoffCap"
      using I(4) by (auto simp: stragglerBackoffStart_def stragglerBackoffCap_def)
    moreover have "\<forall>x < q_alloc q. x \<in> si_ptr ` set ?its \<longleftrightarrow> Dropped x \<notin> set (log @ [e]) \<and> Delivered x \<notin> set (log @ [e])"
      unfolding i using I(5) by (simp add: q'(1))
    moreover have "\<forall>x. Dropped x \<in> set (log @ [e]) \<or> Delivered x \<in> set (log @ [e]) \<longrightarrow> x < q_alloc q"
      using I(6) by (simp add: q'(1))
    moreover have "sorted_wrt (<) (map si_ptr ?its)" "q_bytes q = body_bytes ?its" unfolding m by (rule I)+
    ultimately show ?thesis using I(2) unfolding straggler_inv_def q'(2) by simp
  qed
qed

lemma straggler_reachable: "(straggler_step opts)\<^sup>*\<^sup>* (NewStragglerQueue, []) (q, log) \<Longrightarrow> straggler_inv opts (q, log)"
proof (induction rule: rtranclp_induct2)
  case refl
  then show ?case by (simp add: straggler_inv_def NewStragglerQueue_def)
next
  case (step q log q' log')
  from step(2,3) show ?case
  proof (cases rule: straggler_step.cases)
    case (straggler_add now store path body es)
    then show ?thesis using straggler_inv_add [OF step(3), of now store path body] by auto
  qed (auto intro: straggler_inv_begin straggler_inv_settle)
qed

text \<open>What a retry leaves of one item.\<close>

definition after_send :: "(nat \<Rightarrow> int) \<Rightarrow> (string \<Rightarrow> (string \<Rightarrow> bytes \<Rightarrow> rpc_error option) option) \<Rightarrow> stragglerItem \<Rightarrow> stragglerItem option" where
  "after_send clock client it = (if resend client it then None else Some (it\<lparr>si_due := clock (si_ptr it) + si_backoff it,
     si_backoff := min (si_backoff it * 2) stragglerBackoffCap\<rparr>))"

definition after_retry :: "StragglerOptions \<Rightarrow> int \<Rightarrow> (nat \<Rightarrow> int) \<Rightarrow> (string \<Rightarrow> (string \<Rightarrow> bytes \<Rightarrow> rpc_error option) option)
    \<Rightarrow> stragglerItem \<Rightarrow> stragglerItem option" where
  "after_retry opts now clock client it =
     (if time_sub now (si_added it) > so_MaxAge opts then None else if now < si_due it then Some it else after_send clock client it)"

lemma map_filter_ext: "(\<And>x. x \<in> set xs \<Longrightarrow> f x = g x) \<Longrightarrow> List.map_filter f xs = List.map_filter g xs"
  by (induction xs) (auto simp: List.map_filter_simps split: option.splits)

lemma map_filter_filter: "List.map_filter f (filter P xs) = List.map_filter (\<lambda>y. if P y then f y else None) xs"
  by (induction xs) (auto simp: List.map_filter_simps split: option.splits)

lemma retry_loop_ok:
  assumes "q_bytes q = body_bytes (q_items q)" "distinct (map si_ptr (q_items q))" "set due \<subseteq> set (q_items q)" "distinct (map si_ptr due)"
  shows "\<exists>es'. retry_loop clock client es q due = (es', q\<lparr>q_items := List.map_filter (\<lambda>it. if si_ptr it \<in> si_ptr ` set due
        then after_send clock client it else Some it) (q_items q), q_bytes := body_bytes (List.map_filter (\<lambda>it. if si_ptr it \<in> si_ptr ` set due
        then after_send clock client it else Some it) (q_items q))\<rparr>)"
  using assms
proof (induction due arbitrary: es q)
  case Nil
  have "List.map_filter (\<lambda>it. Some it) xs = xs" for xs :: "stragglerItem list" by (induction xs) (simp_all add: List.map_filter_simps)
  then show ?case using Nil by simp
next
  case (Cons x due)
  let ?p = "si_ptr x"
  let ?f = "\<lambda>d it. if si_ptr it \<in> si_ptr ` set d then after_send clock client it else Some it"
  obtain e q1 where s: "retry_settle (clock ?p) ?p (resend client x) q = (e, q1)" by (metis surj_pair)
  have x: "x \<in> set (q_items q)" and np: "?p \<notin> si_ptr ` set due" using Cons.prems(3,4) by auto
  have same: "it = x" if "it \<in> set (q_items q)" "si_ptr it = ?p" for it
    using that x Cons.prems(2) by (auto simp: distinct_map inj_on_def)
  show ?case
  proof (cases "resend client x")
    case True
    let ?stay = "filter (\<lambda>it. si_ptr it \<noteq> ?p) (q_items q)"
    have q1: "q1 = q\<lparr>q_items := ?stay, q_bytes := body_bytes ?stay\<rparr>"
      using s True Cons.prems(1) body_bytes_split [of "\<lambda>it. si_ptr it = ?p" "q_items q"]
      by (auto simp: retry_settle_def remove_item_ok [OF Cons.prems(2)])
    have e: "List.map_filter (?f due) (q_items q1) = List.map_filter (?f (x # due)) (q_items q)"
      unfolding q1 using same True np by (simp add: map_filter_filter) (intro map_filter_ext, auto simp: after_send_def)
    have "set due \<subseteq> set (q_items q1)" using Cons.prems(3) np by (auto simp: q1 image_iff)
    moreover have "q_bytes q1 = body_bytes (q_items q1)" "distinct (map si_ptr (q_items q1))" "distinct (map si_ptr due)"
      using Cons.prems(2,4) by (simp_all add: q1 distinct_map_filter)
    ultimately obtain es' where "retry_loop clock client (es @ [e]) q1 due = (es', q1\<lparr>q_items := List.map_filter (?f due) (q_items q1),
        q_bytes := body_bytes (List.map_filter (?f due) (q_items q1))\<rparr>)"
      using Cons.IH [of q1 "es @ [e]"] by blast
    then show ?thesis unfolding e by (intro exI [of _ es']) (simp add: s q1)
  next
    case False
    let ?u = "\<lambda>it. if si_ptr it = ?p then it\<lparr>si_due := clock ?p + si_backoff it, si_backoff := min (si_backoff it * 2) stragglerBackoffCap\<rparr> else it"
    let ?its = "map ?u (q_items q)"
    have q1: "q1 = q\<lparr>q_items := ?its\<rparr>" using s False by (auto simp: retry_settle_def)
    have m: "map si_ptr (map ?u its) = map si_ptr its" "body_bytes (map ?u its) = body_bytes its" for its
      by (induction its) auto
    have qi: "q_items q1 = ?its" "q_bytes q1 = q_bytes q" by (simp_all add: q1)
    have sub: "y \<in> set ?its" if "y \<in> set due" for y
    proof -
      have "y \<in> set (q_items q)" "si_ptr y \<noteq> ?p" using that Cons.prems(3) np by (auto simp: image_iff)
      then show ?thesis unfolding set_map by (intro image_eqI [where x = y]) simp_all
    qed
    have "List.map_filter f (map g xs) = List.map_filter (\<lambda>y. f (g y)) xs" for f :: "stragglerItem \<Rightarrow> stragglerItem option" and g and xs :: "stragglerItem list"
      by (simp add: List.map_filter_def comp_def filter_map)
    then have e: "List.map_filter (?f due) (q_items q1) = List.map_filter (?f (x # due)) (q_items q)"
      unfolding q1 using same False np by (simp add: after_send_def) (intro map_filter_ext, auto simp: after_send_def)
    have "set due \<subseteq> set (q_items q1)" using sub by (auto simp: q1)
    moreover have "q_bytes q1 = body_bytes (q_items q1)" "distinct (map si_ptr (q_items q1))" "distinct (map si_ptr due)"
      unfolding qi m using Cons.prems(1,2,4) by simp_all
    ultimately obtain es' where "retry_loop clock client (es @ [e]) q1 due = (es', q1\<lparr>q_items := List.map_filter (?f due) (q_items q1),
        q_bytes := body_bytes (List.map_filter (?f due) (q_items q1))\<rparr>)"
      using Cons.IH [of q1 "es @ [e]"] by blast
    then show ?thesis unfolding e by (intro exI [of _ es']) (simp add: s q1)
  qed
qed

lemma Retry_ok:
  assumes "straggler_inv opts (q, log)"
  shows "\<exists>es. Retry opts now clock client q = (es, q\<lparr>q_items := List.map_filter (after_retry opts now clock client) (q_items q),
    q_bytes := body_bytes (List.map_filter (after_retry opts now clock client) (q_items q))\<rparr>)"
proof -
  define out :: "stragglerItem \<Rightarrow> bool" where "out = (\<lambda>it. time_sub now (si_added it) > so_MaxAge opts)"
  let ?stay = "filter (\<lambda>it. \<not> out it) (q_items q)" and ?gone = "filter out (q_items q)"
  let ?due = "filter (\<lambda>it. \<not> now < si_due it) ?stay"
  let ?q1 = "q\<lparr>q_items := ?stay, q_bytes := q_bytes q - body_bytes ?gone\<rparr>"
  have b: "retry_begin opts now q = (?due, map (\<lambda>it. Dropped (si_ptr it)) ?gone, ?q1)"
    by (simp add: retry_begin_def expire_loop_ok Let_def out_def)
  have I: "q_bytes q = body_bytes (q_items q)" "sorted_wrt (<) (map si_ptr (q_items q))"
    using assms by (auto simp: straggler_inv_def)
  have d: "distinct (map si_ptr (q_items q))" using I(2) strict_sorted_iff by blast
  have b1: "q_bytes ?q1 = body_bytes (q_items ?q1)" using body_bytes_split [of out "q_items q"] I(1) by simp
  have "distinct (map si_ptr ?stay)" "distinct (map si_ptr ?due)" "set ?due \<subseteq> set (q_items ?q1)"
    using d by (auto simp: distinct_map_filter)
  moreover have "(si_ptr it \<in> si_ptr ` set ?due) \<longleftrightarrow> \<not> now < si_due it" if "it \<in> set ?stay" for it
    using that d by (auto simp: distinct_map inj_on_def)
  ultimately have e: "List.map_filter (\<lambda>it. if si_ptr it \<in> si_ptr ` set ?due then after_send clock client it else Some it) ?stay
      = List.map_filter (after_retry opts now clock client) (q_items q)"
    by (subst map_filter_filter) (intro map_filter_ext, auto simp: after_retry_def out_def)
  obtain es' where r: "retry_loop clock client (map (\<lambda>it. Dropped (si_ptr it)) ?gone) ?q1 ?due = (es', ?q1\<lparr>q_items := List.map_filter (\<lambda>it. if si_ptr it \<in> si_ptr ` set ?due
        then after_send clock client it else Some it) (q_items ?q1), q_bytes := body_bytes (List.map_filter (\<lambda>it. if si_ptr it \<in> si_ptr ` set ?due
        then after_send clock client it else Some it) (q_items ?q1))\<rparr>)"
    using retry_loop_ok [OF b1, of ?due clock client "map (\<lambda>it. Dropped (si_ptr it)) ?gone"] d by (auto simp: distinct_map_filter)
  have "q_items ?q1 = ?stay" by simp
  note r = r [unfolded this e]
  show ?thesis unfolding Retry_def b Let_def prod.case r by (intro exI [of _ es']) simp
qed

section \<open>Properties\<close>

text \<open>
  C33: the replicated flush is exact. Every store that replicates some key is sent, once, exactly the part
  of the batch it replicates, and no other store is sent anything. The flush succeeds exactly when no key
  is short of acknowledgements (a majority of its replicas, or all of them when all are required); then
  exactly the bodies that failed are queued, and none failed when all are required. Otherwise the error
  counts the short keys, lists every failing store once, names an outage as the cause only when every
  failure was one, a protocol error whenever there was one, and nothing is queued.
\<close>

theorem store_flush_exact:
  assumes "rf_ok r rf" "\<And>xs. mset (visit xs) = mset xs" "\<And>xs. mset (visitFailed xs) = mset xs"
    "\<And>idx. body idx = Inr (enc idx)"
  shows "\<exists>err fe. replicateFlush label visit visitFailed queueing kind keys r rf requireAll answer body = (err, fe) \<and>
    (let owners = (\<Union>k \<in> set keys. set (ring_reps r rf k));
         body_of = (\<lambda>s. enc (filter (\<lambda>i. s \<in> set (ring_reps r rf (keys ! i))) [0..<length keys]));
         bad = {s \<in> owners. answer s (body_of s) \<noteq> None};
         short = {i. i < length keys \<and> card (set (ring_reps r rf (keys ! i)) - bad) < (if requireAll then rf else rf div 2 + 1)}
     in distinct (map fst (fe_posts fe)) \<and> set (fe_posts fe) = (\<lambda>s. (s, body_of s)) ` owners
        \<and> (if short = {} then
             err = None \<and> distinct (map fst (fe_queued fe)) \<and> set (fe_queued fe) = (if queueing then (\<lambda>s. (s, body_of s)) ` bad else {})
             \<and> fe_observed fe = Some (if bad = {} then ''full'' else ''degraded'') \<and> (requireAll \<longrightarrow> bad = {})
           else
             fe_queued fe = [] \<and> fe_observed fe = Some ''failed'' \<and>
             (\<exists>q. err = Some (StoreQuorumMissed q) \<and> sq_Failed q = card short \<and> sq_Total q = length keys
               \<and> sorted (sq_Stores q) \<and> distinct (sq_Stores q) \<and> set (sq_Stores q) = label ` bad
               \<and> (sq_Cause q = Some ErrUnavailable \<longleftrightarrow> (\<forall>s \<in> bad. answer s (body_of s) = Some ErrUnavailable))
               \<and> (sq_Cause q = Some ErrProtocol \<longleftrightarrow> (\<exists>s \<in> bad. answer s (body_of s) = Some ErrProtocol)))))"
proof -
  obtain err fe where f: "replicateFlush label visit visitFailed queueing kind keys r rf requireAll answer body = (err, fe)"
    by (metis surj_pair)
  note F = replicateFlush_ok [of r rf visit visitFailed body enc, OF assms f]
  define bad where "bad = bad_stores r rf keys answer enc"
  define short where "short = short_of r rf requireAll keys answer enc"
  have e: "(\<Union>k \<in> set keys. set (ring_reps r rf k)) = owners_of r rf keys"
    "\<And>s. enc (filter (\<lambda>i. s \<in> set (ring_reps r rf (keys ! i))) [0..<length keys]) = enc (part_of r rf keys s)"
    "{s \<in> owners_of r rf keys. answer s (enc (part_of r rf keys s)) \<noteq> None} = bad"
    "{i. i < length keys \<and> card (set (ring_reps r rf (keys ! i)) - bad) < (if requireAll then rf else rf div 2 + 1)} = short"
    by (simp_all add: owners_of_def part_of_def bad_def bad_stores_def short_def short_of_def needOf_def)
  show ?thesis
  proof (intro exI conjI)
    show "replicateFlush label visit visitFailed queueing kind keys r rf requireAll answer body = (err, fe)" by (rule f)
    show "let owners = (\<Union>k \<in> set keys. set (ring_reps r rf k));
         body_of = (\<lambda>s. enc (filter (\<lambda>i. s \<in> set (ring_reps r rf (keys ! i))) [0..<length keys]));
         bad = {s \<in> owners. answer s (body_of s) \<noteq> None};
         short = {i. i < length keys \<and> card (set (ring_reps r rf (keys ! i)) - bad) < (if requireAll then rf else rf div 2 + 1)}
     in distinct (map fst (fe_posts fe)) \<and> set (fe_posts fe) = (\<lambda>s. (s, body_of s)) ` owners
        \<and> (if short = {} then
             err = None \<and> distinct (map fst (fe_queued fe)) \<and> set (fe_queued fe) = (if queueing then (\<lambda>s. (s, body_of s)) ` bad else {})
             \<and> fe_observed fe = Some (if bad = {} then ''full'' else ''degraded'') \<and> (requireAll \<longrightarrow> bad = {})
           else
             fe_queued fe = [] \<and> fe_observed fe = Some ''failed'' \<and>
             (\<exists>q. err = Some (StoreQuorumMissed q) \<and> sq_Failed q = card short \<and> sq_Total q = length keys
               \<and> sorted (sq_Stores q) \<and> distinct (sq_Stores q) \<and> set (sq_Stores q) = label ` bad
               \<and> (sq_Cause q = Some ErrUnavailable \<longleftrightarrow> (\<forall>s \<in> bad. answer s (body_of s) = Some ErrUnavailable))
               \<and> (sq_Cause q = Some ErrProtocol \<longleftrightarrow> (\<exists>s \<in> bad. answer s (body_of s) = Some ErrProtocol))))"
      unfolding Let_def e using F(1,2) F(3,4) [folded bad_def short_def]
      by (cases "short = {}") (simp, simp, elim exE conjE, intro conjI exI, simp_all)
  qed
qed

text \<open>
  C32: a chunk leaves the head only onto a quorum. Whatever the stores answer, batch by batch, and however
  the flush ends, each chunk the head held before the flush is still in the head or its bytes, under its
  labels, were acknowledged by enough of the stores that replicate its series: a majority, or all of them
  when all are required.
\<close>

theorem flush_reaches_quorum:
  assumes "rf_ok (bs_ring s) (bs_rf s)" "\<And>xs. mset (visit xs) = mset xs" "\<And>xs. mset (visitFailed xs) = mset xs"
    "store_step\<^sup>*\<^sup>* NewMemoryStore (hs_mem h)"
    "FlushBlockContext locked floorOk (replicated_sink label visit visitFailed answer s) k h = (res, k', h')"
    "(sid, ms) \<in> set (st_series (hs_mem h))" "(p, c) \<in> set (ms_chunks ms)"
  shows "(\<exists>ms'. (sid, ms') \<in> set (st_series (hs_mem h')) \<and> (p, c) \<in> set (ms_chunks ms'))
    \<or> (if bs_requireAll s then bs_rf s else bs_rf s div 2 + 1)
        \<le> card {m \<in> set (ring_reps (bs_ring s) (bs_rf s) (Hash (ms_labels ms))). holds_chunk k' m (ms_labels ms) c}"
  using flush_quorum [OF assms(1-3) store_steps_inv [OF assms(4) mem_inv_new] assms(5-7)]
  by (simp add: on_quorum_def needOf_def chunk_list_iff)

text \<open>
  C34: the straggler queue is bounded and loses no copy silently. Under every interleaving of adds, retries
  and late answers, adding never runs off the queue, the byte count is the sum of the queued bodies and at
  most the bound, items are queued oldest first, and a body that was offered is queued exactly while it
  has been reported neither dropped nor delivered. A retry by itself leaves exactly the items that are
  not expired and were not due or not delivered, the latter with their backoff doubled up to the cap.
\<close>

theorem straggler_queue_correct:
  assumes "(straggler_step opts)\<^sup>*\<^sup>* (NewStragglerQueue, []) (q, log)"
  shows "StragglerAdd opts now store path body q \<noteq> None
    \<and> PendingBytes q = (\<Sum>it \<leftarrow> q_items q. int (length (si_body it))) \<and> PendingBytes q \<le> max 0 (so_MaxBytes opts)
    \<and> sorted_wrt (<) (map si_ptr (q_items q))
    \<and> (\<forall>p < q_alloc q. p \<in> si_ptr ` set (q_items q) \<longleftrightarrow> Dropped p \<notin> set log \<and> Delivered p \<notin> set log)
    \<and> q_items (snd (Retry opts now clock client q)) = List.map_filter (\<lambda>it.
        if time_sub now (si_added it) > so_MaxAge opts then None else if now < si_due it then Some it
        else if resend client it then None
        else Some (it\<lparr>si_due := clock (si_ptr it) + si_backoff it, si_backoff := min (si_backoff it * 2) stragglerBackoffCap\<rparr>)) (q_items q)"
proof -
  note inv = straggler_reachable [OF assms]
  have add: "StragglerAdd opts now store path body q \<noteq> None"
    using straggler_inv_add [OF inv, of now store path body] by auto
  obtain es where "Retry opts now clock client q = (es, q\<lparr>q_items := List.map_filter (after_retry opts now clock client) (q_items q),
    q_bytes := body_bytes (List.map_filter (after_retry opts now clock client) (q_items q))\<rparr>)"
    using Retry_ok [OF inv] by blast
  then have "q_items (snd (Retry opts now clock client q)) = List.map_filter (after_retry opts now clock client) (q_items q)" by simp
  then show ?thesis using add inv unfolding straggler_inv_def PendingBytes_def body_bytes_def after_retry_def [abs_def] after_send_def
    by auto
qed

definition demo_store_ring :: ring where "demo_store_ring = projr (NewRing [''b'', ''a''])"

lemma demo_store_ring: "rf_ok demo_store_ring 2" "NewRing [''b'', ''a''] = Inr demo_store_ring"
  "set (ring_reps demo_store_ring 2 k) = {''a'', ''b''}"
proof -
  obtain r where r: "NewRing [''b'', ''a''] = Inr r" using NewRing_accepts [of "[''b'', ''a'']"] by auto
  have m: "r_members r = sort [''b'', ''a'']" using NewRing_ok [OF r] by simp
  have rf: "NewRouter r 2 = Some 2" by (simp add: NewRouter_def Members_def m)
  show "rf_ok demo_store_ring 2" "NewRing [''b'', ''a''] = Inr demo_store_ring"
    using NewRouter_ok [OF r rf] r by (simp_all add: demo_store_ring_def)
  note ok = NewRouter_ok [OF r rf]
  have "length (ring_reps r 2 k) = 2" "distinct (ring_reps r 2 k)" "set (ring_reps r 2 k) \<subseteq> {''a'', ''b''}"
    using ring_replicas.reps_length [OF ok] ring_replicas.reps_distinct [OF ok] ring_reps_members [OF ok, of k] m by auto
  then have "card (set (ring_reps r 2 k)) = card {''a'', ''b''}" "set (ring_reps r 2 k) \<subseteq> {''a'', ''b''}"
    by (simp_all add: distinct_card)
  then have "set (ring_reps r 2 k) = {''a'', ''b''}" by (intro card_subset_eq) simp_all
  then show "set (ring_reps demo_store_ring 2 k) = {''a'', ''b''}" using r by (simp add: demo_store_ring_def)
qed

text \<open>Two stores, one of them down: a degraded flush, and a failed one when both copies are required.\<close>

definition demo_answer :: "string \<Rightarrow> 'b \<Rightarrow> rpc_error option" where
  "demo_answer s b = (if s = ''b'' then Some ErrUnavailable else None)"

theorem store_flush_exact_witness:
  "\<exists>q fe. replicateFlush (\<lambda>s. s) (\<lambda>xs. xs) rev True ''series'' [42] demo_store_ring 2 True demo_answer (\<lambda>idx. Inr idx :: unit + nat list)
       = (Some (StoreQuorumMissed q), fe)
     \<and> sq_Failed q = 1 \<and> sq_Cause q = Some ErrUnavailable \<and> sq_Stores q = [''b'']
     \<and> set (fe_posts fe) = {(''a'', [0]), (''b'', [0])} \<and> fe_queued fe = []"
proof -
  let ?R = "\<lambda>i. set (ring_reps demo_store_ring 2 ([42] ! i))"
  have p: "filter (\<lambda>i. s \<in> ?R i) [0..<length [42 :: u64]] = (if s \<in> {''a'', ''b''} then [0] else [])" for s
    by (simp add: demo_store_ring(3))
  have o: "(\<Union>k \<in> set [42]. set (ring_reps demo_store_ring 2 k)) = {''a'', ''b''}" by (simp add: demo_store_ring(3))
  have b: "{s \<in> {''a'', ''b''}. demo_answer s (body s) \<noteq> None} = {''b''}" for body :: "string \<Rightarrow> nat list"
    by (auto simp: demo_answer_def)
  have "card ({''a'', ''b''} - {''b''}) = 1" by simp
  then have s: "{i. i < length [42 :: u64] \<and> card (?R i - {''b''}) < (if True then 2 else 2 div 2 + 1)} = {0}"
    unfolding demo_store_ring(3) by auto
  have one: "xs = [''b'']" if "distinct xs" "set xs = {''b''}" for xs :: "string list"
    using that by (cases xs) (auto simp: subset_singleton_iff)
  from store_flush_exact [where r = demo_store_ring and rf = 2 and visit = "\<lambda>xs. xs" and visitFailed = rev and enc = "\<lambda>idx. idx"
      and body = "\<lambda>idx. Inr idx :: unit + nat list" and keys = "[42]" and answer = demo_answer and requireAll = True
      and label = "\<lambda>s. s" and kind = "''series''" and queueing = True, OF demo_store_ring(1)]
  show ?thesis unfolding Let_def o p b s
  proof (simp, elim exE conjE, goal_cases)
    case (1 err fe q)
    then show ?case using one [of "sq_Stores q"] by (intro exI [of _ q] exI [of _ fe]) (auto simp: demo_answer_def)
  qed
qed

definition demo_sink :: block_sink where
  "demo_sink = \<lparr>bs_ring = demo_store_ring, bs_rf = 2, bs_queueing = True, bs_requireAll = True\<rparr>"

definition demo_flush_head :: HeadStore where
  "demo_flush_head = \<lparr>hs_mem = snd (SealHeadChunks demo_head), hs_floor = None, hs_batchBytes = DefaultFlushBatchBytes\<rparr>"

theorem flush_reaches_quorum_witness:
  "SealedChunksSnapshot (hs_mem demo_flush_head) \<noteq> [] \<and> (\<exists>p c. (p, c) \<in> set (ms_chunks (series_of demo_labels (hs_mem demo_flush_head))) \<and>
     (\<forall>res k' h'. FlushBlockContext True True (replicated_sink (\<lambda>s. s) rev rev (\<lambda>k. demo_answer) demo_sink) [] demo_flush_head = (res, k', h') \<longrightarrow>
       (\<exists>ms'. (Hash demo_labels, ms') \<in> set (st_series (hs_mem h')) \<and> (p, c) \<in> set (ms_chunks ms'))
       \<or> 2 \<le> card {m \<in> {''a'', ''b''}. holds_chunk k' m (ms_labels (series_of demo_labels (hs_mem demo_flush_head))) c}))"
proof -
  let ?m = "hs_mem demo_flush_head"
  have sealed: "SealedChunksSnapshot ?m \<noteq> []" by code_simp
  have "map_of (st_series ?m) (Hash demo_labels) \<noteq> None" "ms_chunks (series_of demo_labels ?m) \<noteq> []"
    by code_simp+
  then obtain ms p c where m: "map_of (st_series ?m) (Hash demo_labels) = Some ms" "(p, c) \<in> set (ms_chunks ms)"
    by (auto simp: series_of_def split: option.splits) (metis list.set_intros(1) neq_Nil_conv surj_pair)
  then have s: "series_of demo_labels ?m = ms" by (simp add: series_of_def)
  have rf: "rf_ok (bs_ring demo_sink) (bs_rf demo_sink)" by (simp add: demo_sink_def demo_store_ring(1))
  show ?thesis
  proof (intro exI conjI allI impI)
    show "SealedChunksSnapshot ?m \<noteq> []" by (rule sealed)
    show "(p, c) \<in> set (ms_chunks (series_of demo_labels ?m))" using m s by simp
    fix res k' h'
    assume f: "FlushBlockContext True True (replicated_sink (\<lambda>s. s) rev rev (\<lambda>k. demo_answer) demo_sink) [] demo_flush_head = (res, k', h')"
    have reach: "store_step\<^sup>*\<^sup>* NewMemoryStore ?m"
      using demo_head_reachable step_seal [of demo_head] by (simp add: demo_flush_head_def)
    from flush_reaches_quorum [OF rf _ _ reach f map_of_SomeD [OF m(1)] m(2)]
    show "(\<exists>ms'. (Hash demo_labels, ms') \<in> set (st_series (hs_mem h')) \<and> (p, c) \<in> set (ms_chunks ms'))
       \<or> 2 \<le> card {m \<in> {''a'', ''b''}. holds_chunk k' m (ms_labels (series_of demo_labels ?m)) c}"
      unfolding s by (simp add: demo_sink_def demo_store_ring(3))
  qed
qed

definition demo_straggler_opts :: StragglerOptions where
  "demo_straggler_opts = \<lparr>so_MaxBytes = 3, so_MaxAge = 1000\<rparr>"

theorem straggler_queue_correct_witness:
  "\<exists>q. StragglerAdd demo_straggler_opts 5 ''b'' ''metrics/flush'' [1, 2] NewStragglerQueue = Some ([], q)
     \<and> PendingBytes q = 2 \<and> (\<forall>p < q_alloc q. p \<in> si_ptr ` set (q_items q))
     \<and> q_items (snd (Retry demo_straggler_opts 7 (\<lambda>_. 9) (\<lambda>_. None) q)) = map (\<lambda>it. it\<lparr>si_due := 1000000009, si_backoff := 2000000000\<rparr>) (q_items q)"
proof -
  define q where "q = NewStragglerQueue\<lparr>q_alloc := 1, q_items := [\<lparr>si_ptr = 0, si_store = ''b'', si_path = ''metrics/flush'', si_body = [1, 2],
     si_added = 5, si_due = 5, si_backoff = stragglerBackoffStart\<rparr>], q_bytes := 2\<rparr>"
  have a: "StragglerAdd demo_straggler_opts 5 ''b'' ''metrics/flush'' [1, 2] NewStragglerQueue = Some ([], q)"
    by (simp add: StragglerAdd_def Let_def demo_straggler_opts_def NewStragglerQueue_def q_def)
  from straggler_add [OF a, of "[]"] have "straggler_step demo_straggler_opts (NewStragglerQueue, []) (q, [])" by simp
  then have "(straggler_step demo_straggler_opts)\<^sup>*\<^sup>* (NewStragglerQueue, []) (q, [])" by (rule r_into_rtranclp)
  note T = straggler_queue_correct [OF this, of 7 "[]" "[]" "[]" "\<lambda>_. 9" "\<lambda>_. None"]
  have "q_items (snd (Retry demo_straggler_opts 7 (\<lambda>_. 9) (\<lambda>_. None) q)) = map (\<lambda>it. it\<lparr>si_due := 1000000009, si_backoff := 2000000000\<rparr>) (q_items q)"
    using T by (simp add: q_def demo_straggler_opts_def time_sub_def resend_def stragglerBackoffStart_def stragglerBackoffCap_def List.map_filter_simps)
  then show ?thesis using a T by (intro exI [of _ q]) (simp add: q_def)
qed

end
