(* ===== verification/Parser.thy ===== *)
theory Parser
  imports Query Segments "HOL-Library.Signed_Division"
begin

text \<open>
  \<^verbatim>\<open>internal/metrics/selector.go\<close>, \<^verbatim>\<open>duration.go\<close> and \<^verbatim>\<open>expr_parser.go\<close>: from the text of a query to
  the \<^typ>\<open>Expr\<close> the engine evaluates. A Go string is a list of bytes, one character each; every byte the
  code looks for is ASCII, so its loop over runes in \<^verbatim>\<open>extractFirstParen\<close> sees what a loop over bytes
  sees. \<^verbatim>\<open>strconv.ParseFloat\<close> is a parameter.
\<close>

section \<open>Searching strings\<close>

primrec IndexByte :: "char \<Rightarrow> string \<Rightarrow> nat option" where
  "IndexByte c [] = None"
| "IndexByte c (x # xs) = (if x = c then Some 0 else map_option Suc (IndexByte c xs))"

definition LastIndexByte :: "char \<Rightarrow> string \<Rightarrow> nat option" where
  "LastIndexByte c s = map_option (\<lambda>i. length s - 1 - i) (IndexByte c (rev s))"

section \<open>Selectors\<close>

datatype parse_error =
    EmptySelector | SelectorMetricName string | UnclosedBrace | AfterBrace
  | MissingEquals string | UnsupportedOperator string | EmptyLabelName string | MatcherLabelName string | NotQuoted string
  | EmptyDuration | ExpectedDigits | DurationRange | MissingUnit | UnknownUnit string | UnitOrder string | DurationOverflow | SliceOutOfRange
  | EmptyExpression | UnsupportedFunction string | ExpectedParen | UnclosedParen | AfterParen
  | MissingWindow | UnclosedWindow | AfterWindow | WindowNotPositive | AfterBy | EmptyLabelList | ListLabelName string

fun split_loop :: "bool \<Rightarrow> string \<Rightarrow> string \<Rightarrow> string list" where
  "split_loop inQuote part [] = [part]"
| "split_loop inQuote part (c # cs) =
     (if c = CHR 0x22 then split_loop (\<not> inQuote) (part @ [c]) cs
      else if c = CHR '','' \<and> \<not> inQuote then part # split_loop inQuote [] cs
      else split_loop inQuote (part @ [c]) cs)"

definition splitOnComma :: "string \<Rightarrow> string list" where
  "splitOnComma s = split_loop False [] s"

definition parseMatcher :: "string \<Rightarrow> parse_error + label" where
  "parseMatcher s =
     (case IndexByte (CHR ''='') s of
        None \<Rightarrow> Inl (MissingEquals s)
      | Some eqIdx \<Rightarrow>
        if eqIdx > 0 \<and> (s ! (eqIdx - 1) = CHR 0x21 \<or> s ! (eqIdx - 1) = CHR 0x7E) then Inl (UnsupportedOperator s)
        else if eqIdx + 1 < length s \<and> s ! (eqIdx + 1) = CHR 0x7E then Inl (UnsupportedOperator s)
        else
          let name = TrimSpace (take eqIdx s) in
          if name = [] then Inl (EmptyLabelName s)
          else if \<not> label_name_re name then Inl (MatcherLabelName name)
          else
            let raw = TrimSpace (drop (eqIdx + 1) s) in
            if length raw < 2 \<or> raw ! 0 \<noteq> CHR 0x22 \<or> raw ! (length raw - 1) \<noteq> CHR 0x22 then Inl (NotQuoted s)
            else Inr (name, take (length raw - 2) (drop 1 raw)))"

fun matchers_loop :: "label list \<Rightarrow> string list \<Rightarrow> parse_error + label list" where
  "matchers_loop ms [] = Inr ms"
| "matchers_loop ms (part # parts) =
     (if TrimSpace part = [] then matchers_loop ms parts
      else case parseMatcher (TrimSpace part) of
        Inl e \<Rightarrow> Inl e
      | Inr m \<Rightarrow> matchers_loop (ms @ [m]) parts)"

definition ParseSelector :: "string \<Rightarrow> parse_error + Selector" where
  "ParseSelector s =
     (if TrimSpace s = [] then Inl EmptySelector
      else case IndexByte (CHR 0x7B) s of
        None \<Rightarrow>
          let name = TrimSpace s in
          if \<not> metric_name_re name then Inl (SelectorMetricName name)
          else Inr \<lparr>sel_MetricName = name, sel_Matchers = []\<rparr>
      | Some braceIdx \<Rightarrow>
          let name = TrimSpace (take braceIdx s) in
          if name \<noteq> [] \<and> \<not> metric_name_re name then Inl (SelectorMetricName name)
          else
            let rest = drop (braceIdx + 1) s in
            case LastIndexByte (CHR 0x7D) rest of
              None \<Rightarrow> Inl UnclosedBrace
            | Some closeIdx \<Rightarrow>
              if TrimSpace (drop (closeIdx + 1) rest) \<noteq> [] then Inl AfterBrace
              else
                let inner = TrimSpace (take closeIdx rest) in
                if inner = [] then Inr \<lparr>sel_MetricName = name, sel_Matchers = []\<rparr>
                else map_sum id (\<lambda>ms. \<lparr>sel_MetricName = name, sel_Matchers = ms\<rparr>) (matchers_loop [] (splitOnComma inner)))"

section \<open>Durations\<close>

definition nanosPerMilli :: int where "nanosPerMilli = 1000000"

text \<open>The table of units: the rank and the nanoseconds of each.\<close>

definition promDurationUnit :: "(string \<times> nat \<times> int) list" where
  "promDurationUnit =
     [(''y'', 7, 365 * 24 * 3600 * 1000000000), (''w'', 6, 7 * 24 * 3600 * 1000000000), (''d'', 5, 24 * 3600 * 1000000000),
      (''h'', 4, 3600 * 1000000000), (''m'', 3, 60 * 1000000000), (''s'', 2, 1000000000), (''ms'', 1, nanosPerMilli)]"

text \<open>
  \<^verbatim>\<open>string(b)\<close> of a byte is the UTF-8 encoding of the code point it names, two bytes from 0x80 on.
\<close>

definition string_of_byte :: "char \<Rightarrow> string" where
  "string_of_byte c = (let n = of_char c :: nat in if n < 0x80 then [c] else [char_of (0xC0 + n div 64), char_of (0x80 + n mod 64)])"

text \<open>
  \<^verbatim>\<open>n\<close>, \<^verbatim>\<open>total\<close> and the multipliers are int64. \<^verbatim>\<open>math.MaxInt64-tot\<close> and \<^verbatim>\<open>tot += n * u.mul\<close> wrap in
  the model as they do in Go. \<^const>\<open>SliceOutOfRange\<close> is the run-time panic of \<^verbatim>\<open>remaining[len(unit):]\<close>.
\<close>

function duration_loop :: "i64 \<Rightarrow> nat \<Rightarrow> string \<Rightarrow> parse_error + i64" where
  "duration_loop tot lastRank remaining =
     (if remaining = [] then Inr tot
      else
        let digits = takeWhile is_digit remaining; rest = dropWhile is_digit remaining in
        if digits = [] then Inl ExpectedDigits
        else case Atoi digits of
          None \<Rightarrow> Inl DurationRange
        | Some n \<Rightarrow>
          if rest = [] then Inl MissingUnit
          else
            let unit = (if length rest \<ge> 2 \<and> take 2 rest = ''ms'' then ''ms'' else string_of_byte (hd rest)) in
            if length unit > length rest then Inl SliceOutOfRange
            else case map_of promDurationUnit unit of
              None \<Rightarrow> Inl (UnknownUnit unit)
            | Some (rank, mul) \<Rightarrow>
              if rank \<ge> lastRank then Inl (UnitOrder unit)
              else if n > sint (0x7FFFFFFFFFFFFFFF - tot) sdiv mul then Inl DurationOverflow
              else duration_loop (tot + word_of_int n * word_of_int mul) rank (drop (length unit) rest))"
  by pat_completeness auto
termination
proof (relation "measure (\<lambda>(_, _, s). length s)", goal_cases)
  case (2 tot lastRank remaining x xa n xb p rank mul)
  have "length (dropWhile is_digit remaining) \<le> length remaining" by (rule length_dropWhile_le)
  moreover have "length xb > 0" using 2 by (simp add: string_of_byte_def Let_def split: if_splits)
  moreover have "xa \<noteq> []" "xa = dropWhile is_digit remaining" using 2 by auto
  moreover from this have "0 < length (dropWhile is_digit remaining)" by (simp only: length_greater_0_conv) blast
  ultimately have "length (drop (length xb) (dropWhile is_digit remaining)) < length remaining" unfolding length_drop by linarith
  with \<open>xa = dropWhile is_digit remaining\<close> show ?case by simp
qed simp

definition ParsePromDurationNanos :: "string \<Rightarrow> parse_error + i64" where
  "ParsePromDurationNanos s =
     (if s = [] then Inl EmptyDuration
      else if s = ''0'' then Inr 0
      else duration_loop 0 (length promDurationUnit + 1) s)"

definition ParsePromDuration :: "string \<Rightarrow> parse_error + i64" where
  "ParsePromDuration s = map_sum id (\<lambda>ns. word_of_int (sint ns sdiv nanosPerMilli)) (ParsePromDurationNanos s)"

section \<open>Expressions\<close>

text \<open>The index of the closing parenthesis of the group that starts the string.\<close>

fun paren_loop :: "int \<Rightarrow> nat \<Rightarrow> string \<Rightarrow> nat option" where
  "paren_loop depth i [] = None"
| "paren_loop depth i (ch # cs) =
     (if ch = CHR ''('' then paren_loop (depth + 1) (Suc i) cs
      else if ch = CHR '')'' then if depth - 1 = 0 then Some i else paren_loop (depth - 1) (Suc i) cs
      else paren_loop depth (Suc i) cs)"

definition extractFirstParen :: "string \<Rightarrow> parse_error + string \<times> string" where
  "extractFirstParen s =
     (if s = [] \<or> s ! 0 \<noteq> CHR ''('' then Inl ExpectedParen
      else case paren_loop 0 0 s of
        None \<Rightarrow> Inl UnclosedParen
      | Some i \<Rightarrow> Inr (take (i - 1) (drop 1 s), drop (i + 1) s))"

text \<open>\<^verbatim>\<open>strings.Split(s, ",")\<close>\<close>

fun split_commas :: "string \<Rightarrow> string \<Rightarrow> string list" where
  "split_commas part [] = [part]"
| "split_commas part (c # cs) = (if c = CHR '','' then part # split_commas [] cs else split_commas (part @ [c]) cs)"

fun label_list_loop :: "string list \<Rightarrow> string list \<Rightarrow> parse_error + string list" where
  "label_list_loop result [] = Inr result"
| "label_list_loop result (p # parts) =
     (let name = TrimSpace p in
      if name = [] then Inl (EmptyLabelName [])
      else if \<not> label_name_re name then Inl (ListLabelName name)
      else label_list_loop (result @ [name]) parts)"

definition parseLabelList :: "string \<Rightarrow> parse_error + string list" where
  "parseLabelList s0 =
     (let s = TrimSpace s0 in if s = [] then Inl EmptyLabelList else label_list_loop [] (split_commas [] s))"

definition parseRateExpr :: "string \<Rightarrow> parse_error + Expr" where
  "parseRateExpr s =
     (case extractFirstParen (drop (length ''rate'') s) of
        Inl e \<Rightarrow> Inl e
      | Inr (inner0, trailing) \<Rightarrow>
        if TrimSpace trailing \<noteq> [] then Inl AfterParen
        else
          let inner = TrimSpace inner0 in
          case LastIndexByte (CHR 0x5B) inner of
            None \<Rightarrow> Inl MissingWindow
          | Some bracketOpen \<Rightarrow>
            case LastIndexByte (CHR 0x5D) inner of
              None \<Rightarrow> Inl UnclosedWindow
            | Some bracketClose \<Rightarrow>
              if bracketClose < bracketOpen then Inl UnclosedWindow
              else if bracketClose \<noteq> length inner - 1 then Inl AfterWindow
              else case ParsePromDuration (TrimSpace (take (bracketClose - (bracketOpen + 1)) (drop (bracketOpen + 1) inner))) of
                Inl e \<Rightarrow> Inl e
              | Inr windowMs \<Rightarrow>
                if windowMs \<le>s 0 then Inl WindowNotPositive
                else map_sum id (\<lambda>sel. RateExpr sel windowMs) (ParseSelector (TrimSpace (take bracketOpen inner))))"

definition by_clause :: "string \<Rightarrow> bool" where
  "by_clause byRest \<longleftrightarrow> byRest \<noteq> [] \<and> (byRest ! 0 = CHR ''('' \<or> byRest ! 0 = CHR '' '' \<or> byRest ! 0 = CHR 0x09)"

text \<open>The labels after \<^verbatim>\<open>by\<close>, none without it, and the text of the inner expression, which \<^verbatim>\<open>parseSumExpr\<close> then parses.\<close>

definition sum_parts :: "string \<Rightarrow> parse_error + string list \<times> string" where
  "sum_parts s =
     (let rest = TrimSpace (drop (length ''sum'') s);
          labels = (if take 2 rest = ''by'' then
              if \<not> by_clause (drop 2 rest) then Inl AfterBy
              else case extractFirstParen (TrimSpace (drop 2 rest)) of
                Inl e \<Rightarrow> Inl e
              | Inr (labelList, remaining) \<Rightarrow> map_sum id (\<lambda>by. (by, TrimSpace remaining)) (parseLabelList labelList)
            else Inr ([], rest))
      in case labels of
        Inl e \<Rightarrow> Inl e
      | Inr (by, rest1) \<Rightarrow>
        if rest1 = [] \<or> rest1 ! 0 \<noteq> CHR ''('' then Inl ExpectedParen
        else case extractFirstParen rest1 of
          Inl e \<Rightarrow> Inl e
        | Inr (innerStr, trailing) \<Rightarrow>
          if TrimSpace trailing \<noteq> [] then Inl AfterParen else Inr (by, TrimSpace innerStr))"

definition float_op :: "float_ops \<Rightarrow> char \<Rightarrow> float64 \<Rightarrow> float64 \<Rightarrow> float64" where
  "float_op fo op a b = (if op = CHR ''+'' then f_add fo a b else if op = CHR ''-'' then f_sub fo a b
     else if op = CHR ''*'' then f_mul fo a b else f_div fo a b)"

fun arithmetic_loop :: "(string \<Rightarrow> float64 option) \<Rightarrow> float_ops \<Rightarrow> string \<Rightarrow> char list \<Rightarrow> float64 option" where
  "arithmetic_loop ParseFloat fo s [] = None"
| "arithmetic_loop ParseFloat fo s (op # ops) =
     (case IndexByte op (drop 1 s) of
        None \<Rightarrow> arithmetic_loop ParseFloat fo s ops
      | Some i \<Rightarrow>
        let idx = i + 1; left = TrimSpace (take idx s); right = TrimSpace (drop (idx + 1) s) in
        if left = [] \<or> right = [] then arithmetic_loop ParseFloat fo s ops
        else case (ParseFloat left, ParseFloat right) of
          (Some lv, Some rv) \<Rightarrow> Some (float_op fo op lv rv)
        | _ \<Rightarrow> arithmetic_loop ParseFloat fo s ops)"

definition tryParseArithmetic :: "(string \<Rightarrow> float64 option) \<Rightarrow> float_ops \<Rightarrow> string \<Rightarrow> float64 option" where
  "tryParseArithmetic ParseFloat fo s0 =
     (let s = TrimSpace s0 in
      case ParseFloat s of Some v \<Rightarrow> Some v | None \<Rightarrow> arithmetic_loop ParseFloat fo s [CHR ''+'', CHR ''-'', CHR ''*'', CHR ''/''])"

definition word_char :: "char \<Rightarrow> bool" where
  "word_char c \<longleftrightarrow> c \<noteq> CHR ''('' \<and> c \<noteq> CHR 0x7B \<and> c \<noteq> CHR '' '' \<and> c \<noteq> CHR 0x09"

definition opens_paren :: "string \<Rightarrow> bool" where
  "opens_paren rest \<longleftrightarrow> rest \<noteq> [] \<and> rest ! 0 = CHR ''(''"

text \<open>Whether text that starts with the word \<^verbatim>\<open>sum\<close> is a call; \<^verbatim>\<open>rest\<close> is what follows the word, trimmed.\<close>

definition is_sum_call :: "string \<Rightarrow> bool" where
  "is_sum_call rest \<longleftrightarrow> opens_paren rest \<or> (take 2 rest = ''by'' \<and> (drop 2 rest = [] \<or> by_clause (drop 2 rest)))"

definition selector_expr :: "string \<Rightarrow> parse_error + Expr" where
  "selector_expr s = map_sum id SelectorExpr (ParseSelector s)"

lemma trim_left_length: "length (trim_left encs n s) \<le> length s"
proof (induction encs n s rule: trim_left.induct)
  case (2 encs n s)
  then show ?case by (auto split: option.split intro: order_trans)
qed simp

lemma TrimSpace_length: "length (TrimSpace s) \<le> length s"
  using trim_left_length [of space_encodings "length s" s]
    trim_left_length [of "map rev space_encodings" "length (trim_left space_encodings (length s) s)" "rev (trim_left space_encodings (length s) s)"]
  by (simp add: TrimSpace_def Let_def)

lemma extract_length: "extractFirstParen s = Inr (a, b) \<Longrightarrow> length a < length s \<and> length b < length s"
  by (cases s) (auto simp: extractFirstParen_def split: if_splits option.splits)

lemma map_sum_Inr [simp]: "map_sum id f x = Inr y \<longleftrightarrow> (\<exists>z. x = Inr z \<and> y = f z)"
  by (cases x) auto

lemma map_sum_Inl [simp]: "map_sum id f x = Inl y \<longleftrightarrow> x = Inl y"
  by (cases x) auto

lemma sum_parts_length: "sum_parts s = Inr (by, inner) \<Longrightarrow> length inner < length s"
proof -
  assume a: "sum_parts s = Inr (by, inner)"
  let ?rest = "TrimSpace (drop (length ''sum'') s)"
  obtain rest1 inner0 t where r: "extractFirstParen rest1 = Inr (inner0, t)" "inner = TrimSpace inner0"
    "rest1 = ?rest \<or> (\<exists>l r. extractFirstParen (TrimSpace (drop 2 ?rest)) = Inr (l, r) \<and> rest1 = TrimSpace r)"
    using a unfolding sum_parts_def Let_def
    by (auto split: if_splits sum.splits prod.splits)
  have "length inner < length rest1" using extract_length [OF r(1)] TrimSpace_length [of inner0] r(2) by simp
  moreover have "length ?rest \<le> length s" using TrimSpace_length [of "drop (length ''sum'') s"] by simp
  moreover have "length rest1 \<le> length ?rest"
    using r(3)
  proof (elim disjE exE conjE)
    fix l r' assume e: "extractFirstParen (TrimSpace (drop 2 ?rest)) = Inr (l, r')" "rest1 = TrimSpace r'"
    note TrimSpace_length [of "drop 2 ?rest", unfolded length_drop]
    with extract_length [OF e(1)] TrimSpace_length [of r'] show ?thesis unfolding e(2) by linarith
  qed simp
  ultimately show ?thesis by simp
qed

function ParseExpr :: "(string \<Rightarrow> float64 option) \<Rightarrow> float_ops \<Rightarrow> string \<Rightarrow> parse_error + Expr" where
  "ParseExpr ParseFloat fo s0 =
     (let s = TrimSpace s0; word = takeWhile word_char s; rest = TrimSpace (dropWhile word_char s) in
      if s = [] then Inl EmptyExpression
      else if word = ''rate'' then if opens_paren rest then parseRateExpr s else selector_expr s
      else if word = ''sum'' then
        if is_sum_call rest then
          case sum_parts s of
            Inl e \<Rightarrow> Inl e
          | Inr (by, innerStr) \<Rightarrow> map_sum id (\<lambda>inner. SumExpr inner by) (ParseExpr ParseFloat fo innerStr)
        else selector_expr s
      else if word = [] then selector_expr s
      else if opens_paren rest then Inl (UnsupportedFunction word)
      else case tryParseArithmetic ParseFloat fo s of
        Some v \<Rightarrow> Inr (ScalarExpr v)
      | None \<Rightarrow> selector_expr s)"
  by pat_completeness auto
termination
proof (relation "measure (\<lambda>(_, _, s). length s)", goal_cases)
  case (2 ParseFloat fo s0 s word rest p gl innerStr)
  then have "length innerStr < length s" using sum_parts_length [of s gl innerStr] by simp
  then show ?case using 2(1) TrimSpace_length [of s0] by simp
qed simp

declare ParseExpr.simps [simp del] duration_loop.simps [simp del]

section \<open>What is parsed is well formed\<close>

definition wf_selector :: "Selector \<Rightarrow> bool" where
  "wf_selector sel \<longleftrightarrow> (sel_MetricName sel = [] \<or> metric_name_re (sel_MetricName sel)) \<and> (\<forall>(n, v) \<in> set (sel_Matchers sel). label_name_re n)"

fun wf_expr :: "Expr \<Rightarrow> bool" where
  "wf_expr (SelectorExpr sel) = wf_selector sel"
| "wf_expr (RateExpr sel w) = (wf_selector sel \<and> 0 < sint w \<and> sint w \<le> 9223372036854)"
| "wf_expr (SumExpr e gl) = (wf_expr e \<and> (\<forall>l \<in> set gl. label_name_re l))"
| "wf_expr (ScalarExpr v) = True"

lemma matchers_loop_wf:
  "matchers_loop ms parts = Inr ms' \<Longrightarrow> \<forall>(n, v) \<in> set ms. label_name_re n \<Longrightarrow> \<forall>(n, v) \<in> set ms'. label_name_re n"
proof (induction ms parts arbitrary: ms' rule: matchers_loop.induct)
  case (2 ms part parts)
  show ?case
  proof (cases "TrimSpace part = []")
    case False
    then obtain m where m: "parseMatcher (TrimSpace part) = Inr m" using 2(3) by (auto split: sum.splits)
    then have "label_name_re (fst m)" by (auto simp: parseMatcher_def Let_def split: option.splits if_splits)
    then show ?thesis using 2(2) [OF False m, of ms'] 2(3,4) False m by (cases m) auto
  qed (use 2 in auto)
qed simp

lemma ParseSelector_wf: "ParseSelector s = Inr sel \<Longrightarrow> wf_selector sel"
  by (auto simp: ParseSelector_def Let_def wf_selector_def split: if_splits option.splits dest!: matchers_loop_wf)

lemma label_list_loop_wf:
  "label_list_loop result parts = Inr gl \<Longrightarrow> \<forall>l \<in> set result. label_name_re l \<Longrightarrow> \<forall>l \<in> set gl. label_name_re l"
  by (induction result parts arbitrary: gl rule: label_list_loop.induct) (auto simp: Let_def split: if_splits)

lemma sum_parts_wf: "sum_parts s = Inr (gl, inner) \<Longrightarrow> \<forall>l \<in> set gl. label_name_re l"
  by (auto simp: sum_parts_def parseLabelList_def Let_def split: if_splits sum.splits prod.splits dest!: label_list_loop_wf)

lemma sint_of_fits: "- (2 ^ 63) \<le> x \<Longrightarrow> x < 2 ^ 63 \<Longrightarrow> sint (word_of_int x :: i64) = x"
  by (simp add: sint_sbintrunc' signed_take_bit_int_eq_self)

lemma sdiv_nonneg: "0 \<le> a \<Longrightarrow> 0 < b \<Longrightarrow> a sdiv b = a div b" for a b :: int
  by (simp add: signed_divide_int_def sgn_if)

lemma ParsePromDuration_bound: "ParsePromDuration s = Inr w \<Longrightarrow> sint w \<le> 9223372036854"
proof -
  assume a: "ParsePromDuration s = Inr w"
  then obtain ns :: i64 where w: "w = word_of_int (sint ns sdiv nanosPerMilli)" by (auto simp: ParsePromDuration_def)
  have r: "- (2 ^ 63) \<le> sint ns" "sint ns < 2 ^ 63" using sint_range_size [of ns] by (simp_all add: word_size)
  have q: "- 9223372036855 \<le> sint ns sdiv nanosPerMilli \<and> sint ns sdiv nanosPerMilli \<le> 9223372036854"
    using r by (auto simp: signed_divide_int_def nanosPerMilli_def sgn_if)
  then have "sint w = sint ns sdiv nanosPerMilli" unfolding w by (intro sint_of_fits) auto
  then show ?thesis using q by simp
qed

lemma ParseExpr_wf: "ParseExpr ParseFloat fo s = Inr e \<Longrightarrow> wf_expr e"
proof (induction ParseFloat fo s arbitrary: e rule: ParseExpr.induct)
  case (1 ParseFloat fo s0)
  let ?s = "TrimSpace s0"
  have sel: "wf_expr e" if "selector_expr ?s = Inr e" using that by (auto simp: selector_expr_def intro: ParseSelector_wf)
  have rate: "wf_expr e" if "parseRateExpr ?s = Inr e" using that
    by (auto simp: parseRateExpr_def Let_def word_sle_eq intro: ParseSelector_wf ParsePromDuration_bound
        split: if_splits sum.splits prod.splits option.splits)
  have sum: "wf_expr e" if "takeWhile word_char ?s = ''sum''" "?s \<noteq> []" "is_sum_call (TrimSpace (dropWhile word_char ?s))"
    "sum_parts ?s = Inr (gl, inner)" "ParseExpr ParseFloat fo inner = Inr e1" "e = SumExpr e1 gl" for gl inner e1
    using 1(1) [OF refl refl refl that(2) _ that(1,3,4) refl, of e1] that(1,5,6) sum_parts_wf [OF that(4)] by auto
  show ?case using 1(2) sel rate sum
    unfolding ParseExpr.simps [of ParseFloat fo s0] Let_def
    by (auto split: if_splits sum.splits prod.splits option.splits)
qed

section \<open>Durations are exact\<close>

text \<open>A duration is a list of digits with units; \<^verbatim>\<open>lastRank\<close> bounds the rank of the first.\<close>

fun comps_ok :: "nat \<Rightarrow> (string \<times> string) list \<Rightarrow> bool" where
  "comps_ok lastRank [] = True"
| "comps_ok lastRank ((d, u) # cs) = (d \<noteq> [] \<and> list_all is_digit d \<and>
     (case map_of promDurationUnit u of None \<Rightarrow> False | Some (rank, mul) \<Rightarrow> rank < lastRank \<and> comps_ok rank cs))"

definition comps_text :: "(string \<times> string) list \<Rightarrow> string" where
  "comps_text cs = concat (map (\<lambda>(d, u). d @ u) cs)"

definition comps_nanos :: "(string \<times> string) list \<Rightarrow> int" where
  "comps_nanos cs = (\<Sum>(d, u) \<leftarrow> cs. int (digits_val d) * snd (the (map_of promDurationUnit u)))"

lemma unit_facts:
  assumes "map_of promDurationUnit u = Some (rank, mul)"
  shows "u \<noteq> [] \<and> \<not> is_digit (hd u) \<and> 0 < mul \<and> mul < 2 ^ 62 \<and> rank < 8 \<and> (length u = 1 \<or> u = ''ms'') \<and> (of_char (hd u) :: nat) < 0x80"
  using assms by (auto simp: promDurationUnit_def nanosPerMilli_def is_digit_def less_eq_char_def split: if_splits)

lemma comps_nanos_simps [simp]:
  "comps_nanos [] = 0" "comps_nanos ((d, u) # cs) = int (digits_val d) * snd (the (map_of promDurationUnit u)) + comps_nanos cs"
  by (simp_all add: comps_nanos_def)

lemma comps_nanos_pos: "comps_ok r cs \<Longrightarrow> 0 \<le> comps_nanos cs"
proof (induction r cs rule: comps_ok.induct)
  case (2 r d u cs)
  then obtain rank mul where m: "map_of promDurationUnit u = Some (rank, mul)" "comps_ok rank cs" by (auto split: option.splits)
  then show ?case using 2 unit_facts [OF m(1)] by auto
qed simp

text \<open>One step of the loop, on a component that is there and fits.\<close>

lemma duration_check:
  fixes tot :: i64
  assumes "0 \<le> sint tot" "0 \<le> n" "0 < mul" "mul < 2 ^ 62"
  shows "n > sint (0x7FFFFFFFFFFFFFFF - tot) sdiv mul \<longleftrightarrow> sint tot + n * mul \<ge> 2 ^ 63"
    "sint tot + n * mul < 2 ^ 63 \<Longrightarrow> sint (tot + word_of_int n * word_of_int mul) = sint tot + n * mul"
proof -
  have r: "sint tot < 2 ^ 63" using sint_range_size [of tot] by (simp add: word_size)
  have d: "sint (0x7FFFFFFFFFFFFFFF - tot) = 2 ^ 63 - 1 - sint tot"
  proof -
    have "sint (0x7FFFFFFFFFFFFFFF :: i64) = 2 ^ 63 - 1" by simp
    then show ?thesis using sint_sub_fits [of "0x7FFFFFFFFFFFFFFF" tot] assms(1) r by simp
  qed
  have "n \<le> (2 ^ 63 - 1 - sint tot) div mul \<longleftrightarrow> n * mul \<le> 2 ^ 63 - 1 - sint tot"
  proof
    assume "n \<le> (2 ^ 63 - 1 - sint tot) div mul"
    then have "n * mul \<le> (2 ^ 63 - 1 - sint tot) div mul * mul" using assms(3) by (intro mult_right_mono) simp_all
    also have "\<dots> \<le> 2 ^ 63 - 1 - sint tot"
      using minus_mod_eq_div_mult [of "2 ^ 63 - 1 - sint tot" mul] pos_mod_sign [OF assms(3), of "2 ^ 63 - 1 - sint tot"] by linarith
    finally show "n * mul \<le> 2 ^ 63 - 1 - sint tot" .
  next
    assume "n * mul \<le> 2 ^ 63 - 1 - sint tot"
    from zdiv_mono1 [OF this assms(3)] show "n \<le> (2 ^ 63 - 1 - sint tot) div mul" using assms(3) by simp
  qed
  moreover have "sint (0x7FFFFFFFFFFFFFFF - tot) sdiv mul = (2 ^ 63 - 1 - sint tot) div mul"
    unfolding d using r assms(3) by (intro sdiv_nonneg) auto
  ultimately show "n > sint (0x7FFFFFFFFFFFFFFF - tot) sdiv mul \<longleftrightarrow> sint tot + n * mul \<ge> 2 ^ 63" by auto
  assume fits: "sint tot + n * mul < 2 ^ 63"
  have "0 \<le> n * mul" using assms(2,3) by simp
  then have "sint (word_of_int (n * mul) :: i64) = n * mul"
    using fits assms(1) by (intro sint_of_fits) auto
  then show "sint (tot + word_of_int n * word_of_int mul) = sint tot + n * mul"
    using sint_add_fits [of tot "word_of_int (n * mul)"] fits assms(1) \<open>0 \<le> n * mul\<close> unfolding wi_hom_mult by linarith
qed

lemma text_digit_start: "comps_ok r cs \<Longrightarrow> comps_text cs = [] \<or> is_digit (hd (comps_text cs))"
  by (cases cs) (auto simp: comps_text_def neq_Nil_conv)

lemma comps_text_Cons: "comps_text ((d, u) # cs) = d @ u @ comps_text cs"
  by (simp add: comps_text_def)

lemma Atoi_digits: "d \<noteq> [] \<Longrightarrow> list_all is_digit d \<Longrightarrow> Atoi d = (if int (digits_val d) < 2 ^ 63 then Some (int (digits_val d)) else None)"
  by (cases d) (auto simp: Atoi_def Let_def is_digit_def less_eq_char_def)

text \<open>What the loop sees of a component, and of what follows it.\<close>

lemma duration_step:
  assumes d: "d \<noteq> []" "list_all is_digit d" and u: "map_of promDurationUnit u = Some (rank, mul)"
    and r: "r = [] \<or> is_digit (hd r)" and tot: "0 \<le> sint tot"
  shows "duration_loop tot lastRank (d @ u @ r) =
    (if int (digits_val d) \<ge> 2 ^ 63 then Inl DurationRange else if rank \<ge> lastRank then Inl (UnitOrder u)
     else if sint tot + int (digits_val d) * mul \<ge> 2 ^ 63 then Inl DurationOverflow
     else duration_loop (tot + word_of_int (int (digits_val d)) * word_of_int mul) rank r)"
proof -
  note U = unit_facts [OF u]
  have split: "takeWhile is_digit (d @ u @ r) = d" "dropWhile is_digit (d @ u @ r) = u @ r"
    using d(2) U by (auto simp: list_all_iff takeWhile_append dropWhile_append neq_Nil_conv)
  have unit: "(if length (u @ r) \<ge> 2 \<and> take 2 (u @ r) = ''ms'' then ''ms'' else string_of_byte (hd (u @ r))) = u"
  proof (cases "u = ''ms''")
    case False
    then obtain c where c: "u = [c]" using U by (auto simp: length_Suc_conv)
    have "take 2 (u @ r) \<noteq> ''ms''"
      using r by (cases r) (auto simp: c is_digit_def less_eq_char_def)
    then show ?thesis using c U by (simp add: string_of_byte_def Let_def)
  qed simp
  have ne: "u @ r \<noteq> []" "d @ u @ r \<noteq> []" "drop (length u) (u @ r) = r" "\<not> length u > length (u @ r)" using U d(1) by simp_all
  have c: "int (digits_val d) > sint (0x7FFFFFFFFFFFFFFF - tot) sdiv mul \<longleftrightarrow> sint tot + int (digits_val d) * mul \<ge> 2 ^ 63"
    using duration_check(1) [OF tot, of "int (digits_val d)" mul] U by simp
  note step = duration_loop.simps [of tot lastRank "d @ u @ r", unfolded Let_def split if_not_P [OF ne(2)] if_not_P [OF d(1)]]
  show ?thesis
  proof (cases "int (digits_val d) \<ge> 2 ^ 63")
    case True
    then have "Atoi d = None" using Atoi_digits [OF d] by simp
    with True show ?thesis unfolding step by simp
  next
    case False
    then have A: "Atoi d = Some (int (digits_val d))" using Atoi_digits [OF d] by simp
    show ?thesis
      unfolding step A option.case if_not_P [OF ne(1)] unit if_not_P [OF ne(4)] u prod.case c ne(3) if_not_P [OF False] by (rule refl)
  qed
qed

lemma duration_complete:
  assumes "comps_ok lastRank cs" "0 \<le> sint tot" "sint tot + comps_nanos cs < 2 ^ 63"
  shows "\<exists>v. duration_loop tot lastRank (comps_text cs) = Inr v \<and> sint v = sint tot + comps_nanos cs"
  using assms
proof (induction lastRank cs arbitrary: tot rule: comps_ok.induct)
  case (1 lastRank)
  then show ?case by (simp add: comps_text_def duration_loop.simps)
next
  case (2 lastRank d u cs)
  obtain rank mul where u: "map_of promDurationUnit u = Some (rank, mul)" "rank < lastRank" "comps_ok rank cs"
    and d: "d \<noteq> []" "list_all is_digit d" using 2(2) by (auto split: option.splits)
  note U = unit_facts [OF u(1)]
  let ?n = "int (digits_val d)"
  let ?t = "tot + word_of_int ?n * word_of_int mul"
  have sum: "sint tot + ?n * mul + comps_nanos cs < 2 ^ 63" using 2(4) by (simp add: u(1))
  then have fit: "sint tot + ?n * mul < 2 ^ 63" using comps_nanos_pos [OF u(3)] by linarith
  note t = duration_check(2) [OF 2(3), of ?n mul]
  have pos: "0 \<le> ?n * mul" "?n \<le> ?n * mul" using U by (simp_all add: mult_le_cancel_left1)
  have "?n < 2 ^ 63" using pos(2) fit 2(3) by linarith
  then have e: "duration_loop tot lastRank (comps_text ((d, u) # cs)) = duration_loop ?t rank (comps_text cs)"
    unfolding comps_text_Cons duration_step [OF d u(1) text_digit_start [OF u(3)] 2(3)] using fit u(2) by auto
  have "sint ?t = sint tot + ?n * mul" using t U fit by simp
  moreover obtain v where "duration_loop ?t rank (comps_text cs) = Inr v" "sint v = sint ?t + comps_nanos cs"
    using 2(1) [of "(rank, mul)" rank mul ?t] u pos(1) 2(3) sum calculation by auto
  ultimately show ?case using e by (simp add: u(1))
qed

lemma string_of_byte_cases:
  "(of_char c :: nat) < 0x80 \<Longrightarrow> string_of_byte c = [c]"
  "\<not> (of_char c :: nat) < 0x80 \<Longrightarrow> length (string_of_byte c) = 2 \<and> 0x80 \<le> (of_char (hd (string_of_byte c)) :: nat)"
proof -
  assume "\<not> (of_char c :: nat) < 0x80"
  moreover have "(of_char c :: nat) < 256" by simp
  ultimately have "2 \<le> (of_char c :: nat) div 64" "(of_char c :: nat) div 64 \<le> 3" by linarith+
  then show "length (string_of_byte c) = 2 \<and> 0x80 \<le> (of_char (hd (string_of_byte c)) :: nat)"
    using \<open>\<not> (of_char c :: nat) < 0x80\<close> by (simp add: string_of_byte_def Let_def)
qed (simp add: string_of_byte_def Let_def)

lemma string_of_byte_ms: "string_of_byte c \<noteq> ''ms''"
  using string_of_byte_cases [of c] by (cases "(of_char c :: nat) < 0x80") auto

text \<open>Every round of the loop fails, panics on a last byte outside ASCII, or takes one component off.\<close>

lemma duration_round:
  assumes s: "s \<noteq> []" and tot: "0 \<le> sint tot"
  obtains (fails) e where "duration_loop tot lastRank s = Inl e" "e \<noteq> SliceOutOfRange"
  | (panics) d c where "duration_loop tot lastRank s = Inl SliceOutOfRange" "s = d @ [c]" "d \<noteq> []" "list_all is_digit d"
      "int (digits_val d) < 2 ^ 63" "0x80 \<le> (of_char c :: nat)"
  | (takes) d u r rank mul where "s = d @ u @ r" "d \<noteq> []" "list_all is_digit d" "map_of promDurationUnit u = Some (rank, mul)" "rank < lastRank"
      "sint tot + int (digits_val d) * mul < 2 ^ 63"
      "sint (tot + word_of_int (int (digits_val d)) * word_of_int mul) = sint tot + int (digits_val d) * mul"
      "duration_loop tot lastRank s = duration_loop (tot + word_of_int (int (digits_val d)) * word_of_int mul) rank r" "length r < length s"
proof -
  let ?d = "takeWhile is_digit s" and ?r = "dropWhile is_digit s"
  define u where "u = (if length ?r \<ge> 2 \<and> take 2 ?r = ''ms'' then ''ms'' else string_of_byte (hd ?r))"
  have dig: "list_all is_digit ?d" by (auto simp: list_all_iff dest: set_takeWhileD)
  have sd: "s = ?d @ ?r" by simp
  note E = duration_loop.simps [of tot lastRank s, unfolded Let_def u_def [symmetric]]
  show thesis
  proof (cases "?d = [] \<or> int (digits_val ?d) \<ge> 2 ^ 63 \<or> ?r = []")
    case True
    then have "\<exists>e. duration_loop tot lastRank s = Inl e \<and> e \<noteq> SliceOutOfRange"
      using s Atoi_digits [OF _ dig] unfolding E by (auto split: if_splits)
    then show thesis using fails by blast
  next
    case False
    then have A: "Atoi ?d = Some (int (digits_val ?d))" using Atoi_digits [OF _ dig] by simp
    have E1: "duration_loop tot lastRank s = (if length u > length ?r then Inl SliceOutOfRange
        else case map_of promDurationUnit u of None \<Rightarrow> Inl (UnknownUnit u)
        | Some (rank, mul) \<Rightarrow> if rank \<ge> lastRank then Inl (UnitOrder u)
          else if int (digits_val ?d) > sint (0x7FFFFFFFFFFFFFFF - tot) sdiv mul then Inl DurationOverflow
          else duration_loop (tot + word_of_int (int (digits_val ?d)) * word_of_int mul) rank (drop (length u) ?r))"
    proof -
      have h: "?d \<noteq> []" "?r \<noteq> []" using False by auto
      show ?thesis unfolding E if_not_P [OF s] if_not_P [OF h(1)] A option.case if_not_P [OF h(2)] by (rule refl)
    qed
    have byte: "u = string_of_byte (hd ?r)" if "u \<noteq> ''ms''" using that by (auto simp: u_def)
    show thesis
    proof (cases "length u > length ?r")
      case long: True
      have "u \<noteq> ''ms''" using long False string_of_byte_ms by (auto simp: u_def split: if_splits)
      note u = byte [OF this]
      have "\<not> (of_char (hd ?r) :: nat) < 0x80" using long False string_of_byte_cases(1) [of "hd ?r"] by (cases ?r) (auto simp: u)
      moreover from this have "length ?r = 1" using long False string_of_byte_cases(2) [of "hd ?r"] by (cases ?r) (auto simp: u)
      then have "?r = [hd ?r]" by (cases ?r) auto
      ultimately show thesis using panics [of ?d "hd ?r"] E1 long False dig sd by (metis not_le)
    next
      case short: False
      show thesis
      proof (cases "map_of promDurationUnit u")
        case None
        then show thesis using E1 short fails [of "UnknownUnit u"] by simp
      next
        case (Some rm)
        then obtain rank mul where m: "map_of promDurationUnit u = Some (rank, mul)" by (cases rm) auto
        note U = unit_facts [OF m]
        have "?r = u @ drop (length u) ?r"
        proof (cases "u = ''ms''")
          case True
          then have "take 2 ?r = ''ms''"
            using string_of_byte_ms by (auto simp: u_def split: if_splits)
          then show ?thesis using append_take_drop_id [of 2 ?r] True by (simp add: numeral_2_eq_2)
        next
          case no: False
          have "u = [hd ?r]" using byte [OF no] U string_of_byte_cases [of "hd ?r"] by (cases "(of_char (hd ?r) :: nat) < 0x80") auto
          then show ?thesis using False by (cases ?r) auto
        qed
        then have split: "s = ?d @ u @ drop (length u) ?r" using sd by metis
        have chk: "int (digits_val ?d) > sint (0x7FFFFFFFFFFFFFFF - tot) sdiv mul \<longleftrightarrow> sint tot + int (digits_val ?d) * mul \<ge> 2 ^ 63"
          "sint tot + int (digits_val ?d) * mul < 2 ^ 63 \<Longrightarrow>
            sint (tot + word_of_int (int (digits_val ?d)) * word_of_int mul) = sint tot + int (digits_val ?d) * mul"
          using duration_check [OF tot, of "int (digits_val ?d)" mul] U by simp_all
        show thesis
        proof (cases "rank \<ge> lastRank \<or> sint tot + int (digits_val ?d) * mul \<ge> 2 ^ 63")
          case True
          then have "\<exists>e. duration_loop tot lastRank s = Inl e \<and> e \<noteq> SliceOutOfRange" using E1 short m chk(1) by auto
          then show thesis using fails by blast
        next
          case ok: False
          have "length s = length (?d @ u @ drop (length u) ?r)" using split by (rule arg_cong)
          moreover have "0 < length u" using U by simp
          ultimately have "length (drop (length u) ?r) < length s" unfolding length_append by linarith
          then show thesis using takes [OF split _ dig m] ok False E1 short m chk by auto
        qed
      qed
    qed
  qed
qed

lemma duration_sound:
  "duration_loop tot lastRank s = Inr v \<Longrightarrow> 0 \<le> sint tot \<Longrightarrow>
    \<exists>cs. comps_ok lastRank cs \<and> s = comps_text cs \<and> sint v = sint tot + comps_nanos cs"
proof (induction s arbitrary: tot lastRank rule: length_induct)
  case (1 s)
  show ?case
  proof (cases "s = []")
    case True
    then show ?thesis using 1 by (intro exI [of _ "[]"]) (simp add: duration_loop.simps comps_text_def)
  next
    case False
    from False 1(3) show ?thesis
    proof (cases rule: duration_round [of s tot lastRank])
      case (takes d u r rank mul)
      have "0 \<le> sint (tot + word_of_int (int (digits_val d)) * word_of_int mul)" using takes(7) 1(3) unit_facts [OF takes(4)] by simp
      then obtain cs where cs: "comps_ok rank cs" "r = comps_text cs"
        "sint v = sint (tot + word_of_int (int (digits_val d)) * word_of_int mul) + comps_nanos cs"
        using 1(1) takes(8,9) 1(2) by metis
      then show ?thesis using takes by (intro exI [of _ "(d, u) # cs"]) (simp add: comps_text_Cons)
    qed (use 1 in simp_all)
  qed
qed

text \<open>The loop panics exactly on a text whose last number is followed by one byte outside ASCII.\<close>

definition panic_text :: "nat \<Rightarrow> int \<Rightarrow> string \<Rightarrow> bool" where
  "panic_text lastRank tot s \<longleftrightarrow> (\<exists>cs d c. comps_ok lastRank cs \<and> s = comps_text cs @ d @ [c] \<and> d \<noteq> [] \<and> list_all is_digit d
     \<and> int (digits_val d) < 2 ^ 63 \<and> 0x80 \<le> (of_char c :: nat) \<and> tot + comps_nanos cs < 2 ^ 63)"

lemma duration_panics_sound:
  "duration_loop tot lastRank s = Inl SliceOutOfRange \<Longrightarrow> 0 \<le> sint tot \<Longrightarrow> panic_text lastRank (sint tot) s"
proof (induction s arbitrary: tot lastRank rule: length_induct)
  case (1 s)
  have "s \<noteq> []" using 1(2) by (auto simp: duration_loop.simps)
  from this 1(3) show ?case
  proof (cases rule: duration_round [of s tot lastRank])
    case (panics d c)
    then show ?thesis unfolding panic_text_def
      using sint_range_size [of tot] by (intro exI [of _ "[]"] exI [of _ d] exI [of _ c]) (simp add: comps_text_def word_size)
  next
    case (takes d u r rank mul)
    let ?t = "tot + word_of_int (int (digits_val d)) * word_of_int mul"
    have "0 \<le> sint ?t" using takes(7) 1(3) unit_facts [OF takes(4)] by simp
    then have "panic_text rank (sint ?t) r" using 1(1) takes(8,9) 1(2) by metis
    then obtain cs d' c where "comps_ok rank cs" "r = comps_text cs @ d' @ [c]" "d' \<noteq> []" "list_all is_digit d'"
      "int (digits_val d') < 2 ^ 63" "0x80 \<le> (of_char c :: nat)" "sint ?t + comps_nanos cs < 2 ^ 63" unfolding panic_text_def by blast
    then show ?thesis unfolding panic_text_def using takes
      by (intro exI [of _ "(d, u) # cs"] exI [of _ d'] exI [of _ c]) (simp add: comps_text_Cons)
  qed (use 1 in simp_all)
qed

lemma duration_panics_complete:
  assumes "comps_ok lastRank cs" "d \<noteq> []" "list_all is_digit d" "int (digits_val d) < 2 ^ 63" "0x80 \<le> (of_char c :: nat)"
  shows "0 \<le> sint tot \<Longrightarrow> sint tot + comps_nanos cs < 2 ^ 63 \<Longrightarrow> duration_loop tot lastRank (comps_text cs @ d @ [c]) = Inl SliceOutOfRange"
  using assms(1)
proof (induction lastRank cs arbitrary: tot rule: comps_ok.induct)
  case (1 lastRank)
  have nd: "\<not> is_digit c" using assms(5) by (auto simp: is_digit_def less_eq_char_def)
  have t: "takeWhile is_digit (d @ [c]) = d" "dropWhile is_digit (d @ [c]) = [c]"
    using assms(3) nd by (auto simp: list_all_iff takeWhile_append dropWhile_append)
  have "length (string_of_byte c) = 2" using string_of_byte_cases(2) [of c] assms(5) by simp
  then show ?case unfolding duration_loop.simps [of tot lastRank "comps_text [] @ d @ [c]"] Let_def
    using assms(2,4) Atoi_digits [OF assms(2,3)] by (simp add: comps_text_def t)
next
  case (2 lastRank e u cs)
  obtain rank mul where u: "map_of promDurationUnit u = Some (rank, mul)" "rank < lastRank" "comps_ok rank cs"
    and e: "e \<noteq> []" "list_all is_digit e" using 2(4) by (auto split: option.splits)
  note U = unit_facts [OF u(1)]
  let ?n = "int (digits_val e)"
  let ?t = "tot + word_of_int ?n * word_of_int mul"
  have sum: "sint tot + ?n * mul + comps_nanos cs < 2 ^ 63" using 2(3) by (simp add: u(1))
  then have fit: "sint tot + ?n * mul < 2 ^ 63" using comps_nanos_pos [OF u(3)] by linarith
  have pos: "0 \<le> ?n * mul" "?n \<le> ?n * mul" using U by (simp_all add: mult_le_cancel_left1)
  have "?n < 2 ^ 63" using pos(2) fit 2(2) by linarith
  moreover have "comps_text cs @ d @ [c] = [] \<or> is_digit (hd (comps_text cs @ d @ [c]))"
    using text_digit_start [OF u(3)] assms(2,3) by (cases d) (auto simp: hd_append)
  ultimately have l: "duration_loop tot lastRank (comps_text ((e, u) # cs) @ d @ [c]) = duration_loop ?t rank (comps_text cs @ d @ [c])"
    using duration_step [OF e u(1) _ 2(2), of "comps_text cs @ d @ [c]" lastRank] fit u(2) by (simp add: comps_text_Cons)
  have "sint ?t = sint tot + ?n * mul" using duration_check(2) [OF 2(2), of ?n mul] U fit by simp
  then show ?case unfolding l using 2(1) [of "(rank, mul)" rank mul ?t] u pos(1) 2(2) sum by auto
qed

lemma ParsePromDurationNanos_panics:
  "ParsePromDurationNanos s = Inl SliceOutOfRange \<longleftrightarrow> panic_text 8 0 s"
proof -
  have l: "Suc (length promDurationUnit) = 8" by (simp add: promDurationUnit_def)
  have z: "\<not> panic_text 8 0 ''0''" "\<not> panic_text 8 0 []"
    by (auto simp: panic_text_def append_eq_Cons_conv Cons_eq_append_conv)
  show ?thesis
  proof (cases "s = [] \<or> s = ''0''")
    case True
    then show ?thesis using z by (auto simp: ParsePromDurationNanos_def)
  next
    case False
    have "duration_loop 0 8 s = Inl SliceOutOfRange \<longleftrightarrow> panic_text 8 0 s"
      using duration_panics_sound [of 0 8 s] duration_panics_complete [of 8 _ _ _ 0] unfolding panic_text_def by fastforce
    then show ?thesis using False l by (simp add: ParsePromDurationNanos_def)
  qed
qed

lemma ParsePromDurationNanos_iff:
  "ParsePromDurationNanos s = Inr v \<longleftrightarrow> (s = ''0'' \<and> v = 0) \<or>
    (\<exists>cs. cs \<noteq> [] \<and> comps_ok 8 cs \<and> s = comps_text cs \<and> comps_nanos cs < 2 ^ 63 \<and> sint v = comps_nanos cs)"
proof -
  have nz: "comps_text cs \<noteq> ''0'' \<and> comps_text cs \<noteq> []" if cs: "cs \<noteq> []" "comps_ok 8 cs" for cs
  proof -
    obtain d u cs' where "cs = (d, u) # cs'" using cs(1) by (cases cs) auto
    moreover then have "d \<noteq> []" "u \<noteq> []" using cs(2) unit_facts [of u] by (auto split: option.splits)
    ultimately show ?thesis by (auto simp: comps_text_Cons append_eq_Cons_conv)
  qed
  have l: "Suc (length promDurationUnit) = 8" by (simp add: promDurationUnit_def)
  show ?thesis
  proof (cases "s = [] \<or> s = ''0''")
    case True
    then show ?thesis using nz by (fastforce simp: ParsePromDurationNanos_def)
  next
    case False
    have "duration_loop 0 8 s = Inr v \<longleftrightarrow> (\<exists>cs. cs \<noteq> [] \<and> comps_ok 8 cs \<and> s = comps_text cs \<and> comps_nanos cs < 2 ^ 63 \<and> sint v = comps_nanos cs)"
    proof
      assume "duration_loop 0 8 s = Inr v"
      from duration_sound [OF this] obtain cs where cs: "comps_ok 8 cs" "s = comps_text cs" "sint v = comps_nanos cs" by auto
      moreover have "cs \<noteq> []" using cs(2) False by (auto simp: comps_text_def)
      moreover have "sint v < 2 ^ 63" using sint_range_size [of v] by (simp add: word_size)
      ultimately show "\<exists>cs. cs \<noteq> [] \<and> comps_ok 8 cs \<and> s = comps_text cs \<and> comps_nanos cs < 2 ^ 63 \<and> sint v = comps_nanos cs" by auto
    next
      assume "\<exists>cs. cs \<noteq> [] \<and> comps_ok 8 cs \<and> s = comps_text cs \<and> comps_nanos cs < 2 ^ 63 \<and> sint v = comps_nanos cs"
      then obtain cs where cs: "comps_ok 8 cs" "s = comps_text cs" "comps_nanos cs < 2 ^ 63" "sint v = comps_nanos cs" by blast
      obtain w where "duration_loop 0 8 s = Inr w" "sint w = comps_nanos cs"
        using duration_complete [OF cs(1), of 0] cs(2,3) by auto
      moreover from this(2) cs(4) have "w = v" by (metis signed_word_eqI)
      ultimately show "duration_loop 0 8 s = Inr v" by simp
    qed
    then show ?thesis using False by (simp add: ParsePromDurationNanos_def l)
  qed
qed

section \<open>White space\<close>

definition graphic :: "char \<Rightarrow> bool" where
  "graphic c \<longleftrightarrow> 0x21 \<le> (of_char c :: nat) \<and> (of_char c :: nat) \<le> 0x7E"

lemma spaces_not_graphic: "e \<in> set space_encodings \<Longrightarrow> e \<noteq> [] \<and> (\<forall>c \<in> set e. \<not> graphic c)"
proof -
  have "list_all (\<lambda>e. e \<noteq> [] \<and> list_all (\<lambda>c. \<not> graphic c) e) space_encodings" by code_simp
  then show "e \<in> set space_encodings \<Longrightarrow> e \<noteq> [] \<and> (\<forall>c \<in> set e. \<not> graphic c)" by (auto simp: list_all_iff)
qed

lemma trim_left_graphic:
  assumes "\<forall>e \<in> set encs. e \<noteq> [] \<and> (\<forall>c \<in> set e. \<not> graphic c)" "s = [] \<or> graphic (hd s)"
  shows "trim_left encs n s = s"
proof (cases n)
  case (Suc m)
  have "take (length e) s \<noteq> e" if "e \<in> set encs" for e
  proof
    assume a: "take (length e) s = e"
    have "e \<noteq> []" "\<forall>c \<in> set e. \<not> graphic c" using assms(1) that by blast+
    then have "\<not> graphic (hd e)" "s \<noteq> []" "length e > 0" using a by auto
    moreover have "hd e = hd s" using a calculation(3) by (metis hd_take)
    ultimately show False using assms(2) by simp
  qed
  then have "find (\<lambda>e. take (length e) s = e) encs = None" by (simp add: find_None_iff)
  then show ?thesis by (simp add: Suc)
qed simp

lemma rev_spaces: "\<forall>e \<in> set (map rev space_encodings). e \<noteq> [] \<and> (\<forall>c \<in> set e. \<not> graphic c)"
  using spaces_not_graphic by auto

definition trimmed :: "string \<Rightarrow> bool" where "trimmed s \<longleftrightarrow> s = [] \<or> (graphic (hd s) \<and> graphic (last s))"

lemma TrimSpace_trimmed: "trimmed s \<Longrightarrow> TrimSpace s = s"
  using trim_left_graphic [of space_encodings s] trim_left_graphic [OF rev_spaces, of "rev s"] spaces_not_graphic
  by (auto simp: TrimSpace_def Let_def trimmed_def hd_rev)

lemma TrimSpace_blank: "trimmed s \<Longrightarrow> s \<noteq> [] \<Longrightarrow> TrimSpace (CHR '' '' # s) = s"
proof -
  assume s: "trimmed s" "s \<noteq> []"
  have "space_encodings \<noteq> [] \<and> hd space_encodings = '' ''" by code_simp
  then obtain r where r: "space_encodings = '' '' # r" by (metis list.collapse)
  have "find (\<lambda>e. take (length e) (CHR '' '' # s) = e) space_encodings = Some '' ''"
    unfolding r find.simps by (simp only: list.size take_Suc_Cons take0 if_True simp_thms take_0 One_nat_def add_0)
  then have "trim_left space_encodings (Suc (length s)) (CHR '' '' # s) = s"
    using trim_left_graphic [of space_encodings s "length s"] s spaces_not_graphic by (simp add: trimmed_def)
  moreover have "trim_left (map rev space_encodings) (length s) (rev s) = rev s"
    using trim_left_graphic [OF rev_spaces, of "rev s"] s by (simp add: trimmed_def hd_rev)
  ultimately show ?thesis by (simp add: TrimSpace_def Let_def del: trim_left.simps)
qed

lemma trim_left_keeps:
  assumes "\<forall>e \<in> set encs. e \<noteq> [] \<and> (\<forall>c \<in> set e. \<not> graphic c)" "graphic c" "c \<in> set s"
  shows "c \<in> set (trim_left encs n s)"
  using assms
proof (induction encs n s rule: trim_left.induct)
  case (2 encs n s)
  show ?case
  proof (cases "find (\<lambda>e. take (length e) s = e) encs")
    case (Some e)
    then have e: "e \<in> set encs" "take (length e) s = e" by (auto simp: find_Some_iff)
    have "s = e @ drop (length e) s" using e(2) by (metis append_take_drop_id)
    then have "c \<in> set (drop (length e) s)" using 2(2-4) e(1) by (metis Un_iff set_append)
    then show ?thesis using 2(1) [OF Some 2(2,3)] Some by simp
  qed (use 2 in simp)
qed simp

lemma TrimSpace_keeps: "graphic c \<Longrightarrow> c \<in> set s \<Longrightarrow> c \<in> set (TrimSpace s)"
  using trim_left_keeps [of space_encodings c s] trim_left_keeps [OF rev_spaces, of c "rev (trim_left space_encodings (length s) s)"]
    spaces_not_graphic by (simp add: TrimSpace_def Let_def)

section \<open>Searching what was printed\<close>

lemma IndexByte_append: "IndexByte c (a @ b) = (case IndexByte c a of Some i \<Rightarrow> Some i | None \<Rightarrow> map_option (\<lambda>i. i + length a) (IndexByte c b))"
  by (induction a) (auto simp: option.map_comp comp_def option.map_ident split: option.splits)

lemma IndexByte_None: "IndexByte c s = None \<longleftrightarrow> c \<notin> set s" by (induction s) auto

lemma IndexByte_first: "c \<notin> set a \<Longrightarrow> IndexByte c (a @ c # b) = Some (length a)"
  by (simp add: IndexByte_append IndexByte_None [THEN iffD2])

lemma LastIndexByte_last: "c \<notin> set b \<Longrightarrow> LastIndexByte c (a @ c # b) = Some (length a)"
  using IndexByte_first [of c "rev b" "rev a"] by (simp add: LastIndexByte_def)

lemma name_chars:
  "metric_name_re s \<Longrightarrow> s \<noteq> [] \<and> (\<forall>c \<in> set s. is_alnum c \<or> c = CHR ''_'' \<or> c = CHR '':'')"
  "label_name_re s \<Longrightarrow> s \<noteq> [] \<and> (\<forall>c \<in> set s. is_alnum c \<or> c = CHR ''_'')"
  by (auto simp: metric_name_re_def label_name_re_def is_alnum_def list_all_iff split: list.splits)

lemma alnum_graphic: "is_alnum c \<or> c = CHR ''_'' \<or> c = CHR '':'' \<Longrightarrow> graphic c \<and> word_char c \<and> c \<notin> {CHR 0x22, CHR '','', CHR ''='', CHR 0x21, CHR 0x7E,
    CHR ''('', CHR '')'', CHR ''+'', CHR ''-'', CHR ''*'', CHR ''/'', CHR 0x7B, CHR 0x7D, CHR 0x5B, CHR 0x5D}"
  by (auto simp: is_alnum_def is_lower_def is_upper_def is_digit_def graphic_def word_char_def less_eq_char_def)

section \<open>Printing\<close>

fun join_commas :: "string list \<Rightarrow> string" where
  "join_commas [] = []"
| "join_commas [x] = x"
| "join_commas (x # xs) = x @ CHR '','' # join_commas xs"

definition print_matcher :: "label \<Rightarrow> string" where
  "print_matcher m = fst m @ CHR ''='' # CHR 0x22 # snd m @ [CHR 0x22]"

definition print_selector :: "Selector \<Rightarrow> string" where
  "print_selector sel = sel_MetricName sel @
     (if sel_Matchers sel = [] \<and> sel_MetricName sel \<noteq> [] then []
      else CHR 0x7B # join_commas (map print_matcher (sel_Matchers sel)) @ [CHR 0x7D])"

fun print_expr :: "Expr \<Rightarrow> string" where
  "print_expr (SelectorExpr sel) = print_selector sel"
| "print_expr (RateExpr sel w) = ''rate('' @ (print_selector sel @ CHR 0x5B # (decimal (nat (sint w)) @ ''ms'') @ [CHR 0x5D]) @ '')''"
| "print_expr (SumExpr e gl) = ''sum'' @ (if gl = [] then [] else '' by('' @ join_commas gl @ '')'') @ ''('' @ print_expr e @ '')''"
| "print_expr (ScalarExpr v) = []"

text \<open>
  What can be written down: no value holds a double quote (there is no escape), a bare metric name is not
  one \<^verbatim>\<open>strconv.ParseFloat\<close> takes for a number, and inside a call no value holds a parenthesis.
\<close>

definition printable_selector :: "bool \<Rightarrow> Selector \<Rightarrow> bool" where
  "printable_selector inside sel \<longleftrightarrow> wf_selector sel \<and> (\<forall>(n, v) \<in> set (sel_Matchers sel). CHR 0x22 \<notin> set v
     \<and> (inside \<longrightarrow> CHR ''('' \<notin> set v \<and> CHR '')'' \<notin> set v))"

fun printable :: "(string \<Rightarrow> float64 option) \<Rightarrow> bool \<Rightarrow> Expr \<Rightarrow> bool" where
  "printable ParseFloat inside (SelectorExpr sel) = (printable_selector inside sel
     \<and> (sel_Matchers sel = [] \<longrightarrow> sel_MetricName sel = [] \<or> ParseFloat (sel_MetricName sel) = None))"
| "printable ParseFloat inside (RateExpr sel w) = (printable_selector True sel \<and> 0 < sint w \<and> sint w \<le> 9223372036854)"
| "printable ParseFloat inside (SumExpr e gl) = (printable ParseFloat True e \<and> (\<forall>l \<in> set gl. label_name_re l))"
| "printable ParseFloat inside (ScalarExpr v) = False"

lemma split_plain: "CHR 0x22 \<notin> set x \<Longrightarrow> q \<or> CHR '','' \<notin> set x \<Longrightarrow> split_loop q part (x @ cs) = split_loop q (part @ x) cs"
  by (induction x arbitrary: part) auto

definition plain_name :: "string \<Rightarrow> bool" where
  "plain_name n \<longleftrightarrow> n \<noteq> [] \<and> (\<forall>c \<in> set n. is_alnum c \<or> c = CHR ''_'' \<or> c = CHR '':'')"

lemma names_plain: "metric_name_re n \<Longrightarrow> plain_name n" "label_name_re n \<Longrightarrow> plain_name n"
  using name_chars by (auto simp: plain_name_def)

lemma plain_parts:
  assumes "plain_name n"
  shows "n \<noteq> []" "graphic (hd n)" "graphic (last n)" "trimmed n" "c \<in> set n \<Longrightarrow> graphic c" "c \<in> set n \<Longrightarrow> word_char c"
proof -
  show n: "n \<noteq> []" and g: "c \<in> set n \<Longrightarrow> graphic c" "c \<in> set n \<Longrightarrow> word_char c" for c
    using assms alnum_graphic unfolding plain_name_def by blast+
  show "graphic (hd n)" "graphic (last n)" using g(1) n by simp_all
  then show "trimmed n" by (simp add: trimmed_def)
qed

lemma plain_without:
  assumes "plain_name n"
  shows "CHR 0x22 \<notin> set n" "CHR '','' \<notin> set n" "CHR ''='' \<notin> set n" "CHR 0x21 \<notin> set n" "CHR 0x7E \<notin> set n" "CHR ''('' \<notin> set n"
    "CHR '')'' \<notin> set n" "CHR ''+'' \<notin> set n" "CHR ''-'' \<notin> set n" "CHR ''*'' \<notin> set n" "CHR ''/'' \<notin> set n"
    "CHR 0x7B \<notin> set n" "CHR 0x7D \<notin> set n" "CHR 0x5B \<notin> set n" "CHR 0x5D \<notin> set n"
proof -
  have "c \<notin> set n" if "\<not> (is_alnum c \<or> c = CHR ''_'' \<or> c = CHR '':'')" for c
    using that assms unfolding plain_name_def by blast
  note this [simplified is_alnum_def is_lower_def is_upper_def is_digit_def less_eq_char_def]
  then show "CHR 0x22 \<notin> set n" "CHR '','' \<notin> set n" "CHR ''='' \<notin> set n" "CHR 0x21 \<notin> set n" "CHR 0x7E \<notin> set n" "CHR ''('' \<notin> set n"
    "CHR '')'' \<notin> set n" "CHR ''+'' \<notin> set n" "CHR ''-'' \<notin> set n" "CHR ''*'' \<notin> set n" "CHR ''/'' \<notin> set n"
    "CHR 0x7B \<notin> set n" "CHR 0x7D \<notin> set n" "CHR 0x5B \<notin> set n" "CHR 0x5D \<notin> set n" by simp_all
qed

lemma label_parts:
  assumes "label_name_re n"
  shows "n \<noteq> []" "graphic (hd n)" "graphic (last n)" "trimmed n"
  using plain_parts [OF names_plain(2) [OF assms]] by blast+

lemma metric_parts:
  assumes "metric_name_re n"
  shows "n \<noteq> []" "graphic (hd n)" "graphic (last n)" "trimmed n" "\<And>c. c \<in> set n \<Longrightarrow> word_char c"
  using plain_parts [OF names_plain(1) [OF assms]] by blast+

lemma quote_graphic: "graphic (CHR 0x22)" "graphic (CHR 0x7B)" "graphic (CHR 0x7D)" "graphic (CHR '')'')" "graphic (CHR ''('')" "graphic (CHR 0x5D)"
  by (simp_all add: graphic_def)

lemma parse_printed_matcher:
  assumes "label_name_re n" "CHR 0x22 \<notin> set v"
  shows "parseMatcher (print_matcher (n, v)) = Inr (n, v)"
proof -
  note L = label_parts [OF assms(1)] and W = plain_without [OF names_plain(2) [OF assms(1)]]
  let ?raw = "CHR 0x22 # v @ [CHR 0x22]"
  have i: "IndexByte (CHR ''='') (print_matcher (n, v)) = Some (length n)"
    unfolding print_matcher_def fst_conv snd_conv by (rule IndexByte_first) (rule W)
  have prev: "print_matcher (n, v) ! (length n - 1) = last n"
    using L(1) by (simp add: print_matcher_def nth_append last_conv_nth)
  have "last n \<noteq> CHR 0x21" "last n \<noteq> CHR 0x7E" using W(4,5) last_in_set [OF L(1)] by auto
  moreover have "print_matcher (n, v) ! (length n + 1) = CHR 0x22" by (simp add: print_matcher_def nth_append)
  moreover have "TrimSpace n = n" "TrimSpace ?raw = ?raw"
    using L(4) quote_graphic(1) by (simp_all add: TrimSpace_trimmed trimmed_def)
  moreover have "take (length n) (print_matcher (n, v)) = n" "drop (length n + 1) (print_matcher (n, v)) = ?raw"
    by (simp_all add: print_matcher_def)
  moreover have "?raw ! (length ?raw - 1) = CHR 0x22" "take (length ?raw - 2) (drop 1 ?raw) = v"
    by (simp_all add: nth_append)
  ultimately show ?thesis using L(1) assms(1)
    unfolding parseMatcher_def i option.case prev Let_def by simp
qed

lemma split_printed:
  assumes "\<forall>(n, v) \<in> set ms. label_name_re n \<and> CHR 0x22 \<notin> set v" "ms \<noteq> []"
  shows "split_loop False [] (join_commas (map print_matcher ms)) = map print_matcher ms"
proof -
  have one: "split_loop False part (print_matcher (n, v) @ cs) = split_loop False (part @ print_matcher (n, v)) cs"
    if "label_name_re n" "CHR 0x22 \<notin> set v" for part n v cs
  proof -
    have "CHR 0x22 \<notin> set n" "CHR '','' \<notin> set n" using plain_without [OF names_plain(2) [OF that(1)]] by blast+
    then show ?thesis using that(2) by (simp add: print_matcher_def split_plain)
  qed
  show ?thesis using assms
  proof (induction ms)
    case (Cons m ms)
    obtain n v where m: "m = (n, v)" by (cases m)
    then show ?case using Cons one [of n v "[]"] one [of n v "[]" "[]"] by (cases ms) auto
  qed simp
qed

lemma matchers_printed:
  "\<forall>(n, v) \<in> set ms. label_name_re n \<and> CHR 0x22 \<notin> set v \<Longrightarrow> matchers_loop acc (map print_matcher ms) = Inr (acc @ ms)"
proof (induction ms arbitrary: acc)
  case (Cons m ms)
  obtain n v where m: "m = (n, v)" "label_name_re n" "CHR 0x22 \<notin> set v" using Cons.prems by (cases m) auto
  have "TrimSpace (print_matcher m) = print_matcher m"
    using label_parts [OF m(2)] quote_graphic(1) by (intro TrimSpace_trimmed) (simp add: trimmed_def print_matcher_def m(1))
  moreover have "print_matcher m \<noteq> []" by (simp add: print_matcher_def)
  ultimately show ?case using Cons parse_printed_matcher [OF m(2,3)] by (simp add: m(1))
qed simp

lemma joined_shape:
  assumes "\<forall>(n, v) \<in> set ms. label_name_re n" "ms \<noteq> []"
  shows "join_commas (map print_matcher ms) \<noteq> [] \<and> graphic (hd (join_commas (map print_matcher ms))) \<and> last (join_commas (map print_matcher ms)) = CHR 0x22"
  using assms
proof (induction ms)
  case (Cons m ms)
  obtain n v where m: "m = (n, v)" "label_name_re n" using Cons.prems by (cases m) auto
  then show ?case using Cons label_parts [OF m(2)] by (cases ms) (auto simp: print_matcher_def)
qed simp

lemma print_selector_shape:
  assumes "wf_selector sel"
  shows "print_selector sel \<noteq> []" "graphic (hd (print_selector sel))" "graphic (last (print_selector sel))" "TrimSpace (print_selector sel) = print_selector sel"
proof -
  have m: "sel_MetricName sel \<noteq> [] \<Longrightarrow> metric_name_re (sel_MetricName sel)" using assms by (simp add: wf_selector_def)
  show s: "print_selector sel \<noteq> []" "graphic (hd (print_selector sel))" "graphic (last (print_selector sel))"
    using m metric_parts(2,3) quote_graphic by (cases "sel_MetricName sel = []"; simp add: print_selector_def hd_append last_append)+
  show "TrimSpace (print_selector sel) = print_selector sel" using s by (intro TrimSpace_trimmed) (simp add: trimmed_def)
qed

lemma parse_printed_selector:
  assumes "printable_selector inside sel"
  shows "ParseSelector (print_selector sel) = Inr sel"
proof -
  have wf: "wf_selector sel" and ms: "\<forall>(n, v) \<in> set (sel_Matchers sel). label_name_re n \<and> CHR 0x22 \<notin> set v"
    using assms by (auto simp: printable_selector_def wf_selector_def)
  note shape = print_selector_shape [OF wf]
  let ?n = "sel_MetricName sel"
  have n: "?n = [] \<or> metric_name_re ?n" using wf by (simp add: wf_selector_def)
  have nb: "CHR 0x7B \<notin> set ?n" "TrimSpace ?n = ?n"
    using n metric_parts(4) plain_without(12) [OF names_plain(1)] by (auto simp: TrimSpace_trimmed trimmed_def)
  show ?thesis
  proof (cases "sel_Matchers sel = [] \<and> ?n \<noteq> []")
    case True
    then have p: "print_selector sel = ?n" by (simp add: print_selector_def)
    have "IndexByte (CHR 0x7B) ?n = None" using nb(1) by (simp add: IndexByte_None)
    then show ?thesis using True n nb(2) unfolding ParseSelector_def p by simp
  next
    case False
    let ?body = "join_commas (map print_matcher (sel_Matchers sel))"
    have p: "print_selector sel = ?n @ CHR 0x7B # ?body @ [CHR 0x7D]" using False by (auto simp: print_selector_def)
    have i: "IndexByte (CHR 0x7B) (print_selector sel) = Some (length ?n)" unfolding p by (rule IndexByte_first [OF nb(1)])
    have d: "take (length ?n) (print_selector sel) = ?n" "drop (length ?n + 1) (print_selector sel) = ?body @ [CHR 0x7D]" by (simp_all add: p)
    have l: "LastIndexByte (CHR 0x7D) (?body @ [CHR 0x7D]) = Some (length ?body)" by (rule LastIndexByte_last) simp
    have body: "TrimSpace ?body = ?body" "sel_Matchers sel \<noteq> [] \<Longrightarrow> ?body \<noteq> []"
      using joined_shape [of "sel_Matchers sel"] ms quote_graphic(1)
      by (cases "sel_Matchers sel = []"; auto intro!: TrimSpace_trimmed simp: trimmed_def case_prod_beta)+
    have nil: "TrimSpace [] = []" by (rule TrimSpace_trimmed) (simp add: trimmed_def)
    show ?thesis
      using n shape split_printed [OF ms] matchers_printed [OF ms, of "[]"] body(2)
      unfolding ParseSelector_def i option.case d nb(2) Let_def l
      by (cases "sel_Matchers sel = []") (auto simp: nil body(1) splitOnComma_def)
  qed
qed

section \<open>Parentheses\<close>

text \<open>The depth after a text that never closes the group it is in.\<close>

fun depth_after :: "int \<Rightarrow> string \<Rightarrow> int option" where
  "depth_after d [] = Some d"
| "depth_after d (c # cs) =
     (if c = CHR ''('' then depth_after (d + 1) cs
      else if c = CHR '')'' then if d - 1 \<le> 0 then None else depth_after (d - 1) cs
      else depth_after d cs)"

definition balanced :: "string \<Rightarrow> bool" where "balanced t \<longleftrightarrow> depth_after 1 t = Some 1"

lemma paren_loop_past: "depth_after d t = Some d' \<Longrightarrow> 1 \<le> d \<Longrightarrow> paren_loop d i (t @ u) = paren_loop d' (i + length t) u \<and> 1 \<le> d'"
  by (induction d t arbitrary: i rule: depth_after.induct) (auto split: if_splits)

lemma depth_shift: "depth_after d t = Some d' \<Longrightarrow> 0 \<le> k \<Longrightarrow> depth_after (d + k) t = Some (d' + k)"
  by (induction d t rule: depth_after.induct) (auto split: if_splits simp: algebra_simps)

lemma depth_append: "depth_after d (t @ u) = Option.bind (depth_after d t) (\<lambda>d'. depth_after d' u)"
  by (induction d t rule: depth_after.induct) auto

lemma balanced_plain: "CHR ''('' \<notin> set t \<Longrightarrow> CHR '')'' \<notin> set t \<Longrightarrow> balanced t"
proof -
  have "CHR ''('' \<notin> set t \<Longrightarrow> CHR '')'' \<notin> set t \<Longrightarrow> depth_after d t = Some d" for d by (induction t) auto
  then show "CHR ''('' \<notin> set t \<Longrightarrow> CHR '')'' \<notin> set t \<Longrightarrow> balanced t" by (simp add: balanced_def)
qed

lemma balanced_append: "balanced t \<Longrightarrow> balanced u \<Longrightarrow> balanced (t @ u)"
  by (simp add: balanced_def depth_append)

lemma balanced_group: "balanced t \<Longrightarrow> balanced (CHR ''('' # t @ '')'')"
  using depth_shift [of 1 t 1 1] by (simp add: balanced_def depth_append)

lemma extract_group: "balanced t \<Longrightarrow> extractFirstParen (CHR ''('' # t @ CHR '')'' # r) = Inr (t, r)"
  using paren_loop_past [of 1 t 1 1 "CHR '')'' # r"] by (simp add: balanced_def extractFirstParen_def)

section \<open>Calls\<close>

lemma selector_word:
  assumes "wf_selector sel"
  shows "takeWhile word_char (print_selector sel) = sel_MetricName sel"
    "dropWhile word_char (print_selector sel) = drop (length (sel_MetricName sel)) (print_selector sel)"
    "TrimSpace (dropWhile word_char (print_selector sel)) = [] \<or> hd (TrimSpace (dropWhile word_char (print_selector sel))) = CHR 0x7B"
proof -
  have m: "\<forall>c \<in> set (sel_MetricName sel). word_char c" using assms metric_parts(5) by (fastforce simp: wf_selector_def)
  obtain r where r: "print_selector sel = sel_MetricName sel @ r" "r = [] \<or> (hd r = CHR 0x7B \<and> last r = CHR 0x7D \<and> r \<noteq> [])"
    by (auto simp: print_selector_def)
  have "takeWhile word_char r = []" "dropWhile word_char r = r" using r(2) by (cases r; auto simp: word_char_def)+
  then have dw: "dropWhile word_char (sel_MetricName sel @ r) = r" "takeWhile word_char (sel_MetricName sel @ r) = sel_MetricName sel"
    using m by (simp_all add: takeWhile_append dropWhile_append)
  show "takeWhile word_char (print_selector sel) = sel_MetricName sel"
    "dropWhile word_char (print_selector sel) = drop (length (sel_MetricName sel)) (print_selector sel)"
    unfolding r(1) dw by simp_all
  have "trimmed r" using r(2) quote_graphic by (auto simp: trimmed_def)
  then show "TrimSpace (dropWhile word_char (print_selector sel)) = [] \<or> hd (TrimSpace (dropWhile word_char (print_selector sel))) = CHR 0x7B"
    unfolding r(1) dw using r(2) by (simp add: TrimSpace_trimmed) blast
qed

lemma printed_no_arithmetic:
  assumes "wf_selector sel" "sel_MetricName sel \<noteq> []" "\<And>s. CHR 0x7B \<in> set s \<Longrightarrow> ParseFloat s = None"
    "sel_Matchers sel = [] \<Longrightarrow> ParseFloat (sel_MetricName sel) = None"
  shows "tryParseArithmetic ParseFloat fo (print_selector sel) = None"
proof -
  let ?s = "print_selector sel" and ?n = "sel_MetricName sel"
  note shape = print_selector_shape [OF assms(1)]
  have n: "metric_name_re ?n" using assms(1,2) by (simp add: wf_selector_def)
  note W = plain_without [OF names_plain(1) [OF n]]
  have whole: "ParseFloat ?s = None"
  proof (cases "sel_Matchers sel = []")
    case True
    then show ?thesis using assms(2,4) by (simp add: print_selector_def)
  next
    case False
    then show ?thesis using assms(3) by (simp add: print_selector_def)
  qed
  have "arithmetic_loop ParseFloat fo ?s ops = None" if "set ops \<subseteq> {CHR ''+'', CHR ''-'', CHR ''*'', CHR ''/''}" for ops
    using that
  proof (induction ops)
    case (Cons op ops)
    have op: "op \<notin> set ?n" "op \<noteq> CHR 0x7B" using Cons.prems W by auto
    show ?case
    proof (cases "IndexByte op (drop 1 ?s)")
      case (Some i)
      have left: "ParseFloat (TrimSpace (take (i + 1) ?s)) = None"
      proof -
        obtain r where r: "?s = ?n @ r" "r = [] \<or> hd r = CHR 0x7B" by (auto simp: print_selector_def)
        have "CHR 0x7B \<in> set (take (i + 1) ?s)"
        proof (rule ccontr)
          assume no: "CHR 0x7B \<notin> set (take (i + 1) ?s)"
          have at: "?s ! (i + 1) = op" "i + 1 < length ?s"
          proof -
            have "i < length xs \<and> xs ! i = op" if "IndexByte op xs = Some i" for xs i
              using that by (induction xs arbitrary: i) (auto split: if_splits)
            from this [OF Some] show "?s ! (i + 1) = op" "i + 1 < length ?s" using shape(1) by (auto simp: nth_append)
          qed
          have "i + 1 < length ?n"
          proof (rule ccontr)
            assume ge: "\<not> i + 1 < length ?n"
            have "r \<noteq> []" using ge at(2) r(1) by auto
            then have h: "r ! 0 = CHR 0x7B" using r(2) by (simp add: hd_conv_nth)
            show False
            proof (cases "length ?n < i + 1")
              case True
              then have "?s ! length ?n \<in> set (take (i + 1) ?s)" using at(2) by (metis in_set_conv_nth length_take min_less_iff_conj nth_take order_less_trans)
              then show False using no h r(1) by (simp add: nth_append)
            next
              case False
              then have "?s ! (i + 1) = CHR 0x7B" using ge h r(1) by (simp add: nth_append)
              then show False using at(1) op(2) by simp
            qed
          qed
          then have "?s ! (i + 1) \<in> set ?n" using r(1) by (simp add: nth_append)
          then show False using at(1) op(1) by simp
        qed
        then show ?thesis using TrimSpace_keeps quote_graphic(2) assms(3) by blast
      qed
      then show ?thesis using Cons Some by (simp add: Let_def)
    qed (use Cons in simp)
  qed simp
  then show ?thesis using whole shape(4) by (simp add: tryParseArithmetic_def Let_def del: arithmetic_loop.simps)
qed

lemma parse_printed_selector_expr:
  assumes "printable ParseFloat inside (SelectorExpr sel)" "\<And>s. CHR 0x7B \<in> set s \<Longrightarrow> ParseFloat s = None"
  shows "ParseExpr ParseFloat fo (print_selector sel) = Inr (SelectorExpr sel)"
proof -
  have p: "printable_selector inside sel" and wf: "wf_selector sel"
    using assms(1) by (auto simp: printable_selector_def)
  note shape = print_selector_shape [OF wf] and word = selector_word [OF wf]
  have sel: "selector_expr (print_selector sel) = Inr (SelectorExpr sel)"
    using parse_printed_selector [OF p] by (simp add: selector_expr_def)
  let ?rest = "TrimSpace (dropWhile word_char (print_selector sel))"
  have open': "\<not> opens_paren ?rest" using word(3) by (auto simp: opens_paren_def hd_conv_nth)
  have call: "\<not> is_sum_call ?rest" using word(3) open' by (cases ?rest) (auto simp: is_sum_call_def)
  have arith: "sel_MetricName sel \<noteq> [] \<Longrightarrow> tryParseArithmetic ParseFloat fo (print_selector sel) = None"
    using printed_no_arithmetic [OF wf _ assms(2)] assms(1) by auto
  show ?thesis
    unfolding ParseExpr.simps [of ParseFloat fo "print_selector sel"] Let_def shape(4) word(1)
    using shape(1) open' call arith sel by simp
qed

lemma printed_window:
  assumes "0 < sint w" "sint w \<le> 9223372036854"
  shows "ParsePromDuration (decimal (nat (sint w)) @ ''ms'') = Inr w"
proof -
  let ?d = "decimal (nat (sint w))"
  have d: "list_all is_digit ?d" "digits_val ?d = nat (sint w)" using decimal_digits by blast+
  have "?d \<noteq> []" using d(2) assms(1) by auto
  then have ok: "comps_ok 8 [(?d, ''ms'')]" using d(1) by (simp add: promDurationUnit_def)
  have n: "comps_nanos [(?d, ''ms'')] = sint w * nanosPerMilli" using d(2) assms(1) by (simp add: promDurationUnit_def)
  have fit: "sint w * nanosPerMilli < 2 ^ 63" using assms(2) by (simp add: nanosPerMilli_def)
  have s: "sint (word_of_int (sint w * nanosPerMilli) :: i64) = sint w * nanosPerMilli"
    using fit assms(1) by (intro sint_of_fits) (auto simp: nanosPerMilli_def)
  have "ParsePromDurationNanos (?d @ ''ms'') = Inr (word_of_int (sint w * nanosPerMilli))"
    unfolding ParsePromDurationNanos_iff using ok n fit s by (intro disjI2 exI [of _ "[(?d, ''ms'')]"]) (simp add: comps_text_def)
  moreover have "(sint w * nanosPerMilli) sdiv nanosPerMilli = sint w"
    using assms(1) by (subst sdiv_nonneg) (auto simp: nanosPerMilli_def)
  moreover have "word_of_int (sint w) = w" by simp
  ultimately show ?thesis unfolding ParsePromDuration_def by (simp only: s map_sum.simps)
qed

lemma printed_label_list:
  assumes "\<forall>l \<in> set gl. label_name_re l" "gl \<noteq> []"
  shows "parseLabelList (join_commas gl) = Inr gl" "balanced (join_commas gl)"
    "join_commas gl \<noteq> []" "graphic (hd (join_commas gl))" "graphic (last (join_commas gl))"
proof -
  show shape: "join_commas gl \<noteq> []" "graphic (hd (join_commas gl))" "graphic (last (join_commas gl))"
  proof -
    have "join_commas gl \<noteq> [] \<and> graphic (hd (join_commas gl)) \<and> graphic (last (join_commas gl))"
      using assms
    proof (induction gl rule: join_commas.induct)
      case (2 x)
      then show ?case using label_parts [of x] by simp
    next
      case (3 x y ys)
      then show ?case using label_parts [of x] by simp
    qed simp
    then show "join_commas gl \<noteq> []" "graphic (hd (join_commas gl))" "graphic (last (join_commas gl))" by blast+
  qed
  have plain: "split_commas part (x @ cs) = split_commas (part @ x) cs" if "CHR '','' \<notin> set x" for part x cs
    using that by (induction x arbitrary: part) auto
  have "split_commas [] (join_commas gl) = gl"
    using assms
  proof (induction gl rule: join_commas.induct)
    case (2 x)
    then have "CHR '','' \<notin> set x" using plain_without(2) [OF names_plain(2)] by simp
    then show ?case using plain [of x "[]" "[]"] by simp
  next
    case (3 x y ys)
    then have "CHR '','' \<notin> set x" using plain_without(2) [OF names_plain(2)] by simp
    then show ?case using plain [of x "[]"] 3 by simp
  qed simp
  moreover have "label_list_loop acc ls = Inr (acc @ ls)" if "\<forall>l \<in> set ls. label_name_re l" for acc ls
    using that
  proof (induction ls arbitrary: acc)
    case (Cons l ls)
    then show ?case using label_parts(1,4) [of l] by (simp add: TrimSpace_trimmed)
  qed simp
  moreover have "TrimSpace (join_commas gl) = join_commas gl" using shape by (intro TrimSpace_trimmed) (simp add: trimmed_def)
  ultimately show "parseLabelList (join_commas gl) = Inr gl" using shape(1) assms(1) by (simp add: parseLabelList_def Let_def)
  have "CHR ''('' \<notin> set (join_commas gl) \<and> CHR '')'' \<notin> set (join_commas gl)"
    using assms plain_without(6,7) [OF names_plain(2)] by (induction gl rule: join_commas.induct) auto
  then show "balanced (join_commas gl)" by (intro balanced_plain) auto
qed

lemma selector_no_paren:
  assumes "printable_selector True sel"
  shows "CHR ''('' \<notin> set (print_selector sel)" "CHR '')'' \<notin> set (print_selector sel)"
proof -
  have j: "c \<notin> set (join_commas xs)" if "\<forall>x \<in> set xs. c \<notin> set x" "c \<noteq> CHR '',''" for c xs
    using that by (induction xs rule: join_commas.induct) auto
  have m: "c \<notin> set (print_matcher (n, v))" if "label_name_re n" "c \<notin> set v" "c = CHR ''('' \<or> c = CHR '')''" for c n v
    using that plain_without(6,7) [OF names_plain(2) [OF that(1)]] by (auto simp: print_matcher_def)
  have n: "CHR ''('' \<notin> set (sel_MetricName sel)" "CHR '')'' \<notin> set (sel_MetricName sel)"
    using assms plain_without(6,7) [OF names_plain(1)] by (auto simp: printable_selector_def wf_selector_def)
  have "\<forall>x \<in> set (map print_matcher (sel_Matchers sel)). CHR ''('' \<notin> set x \<and> CHR '')'' \<notin> set x"
    using assms m by (fastforce simp: printable_selector_def wf_selector_def)
  then have "CHR ''('' \<notin> set (join_commas (map print_matcher (sel_Matchers sel)))" "CHR '')'' \<notin> set (join_commas (map print_matcher (sel_Matchers sel)))"
    by (intro j; simp)+
  then show "CHR ''('' \<notin> set (print_selector sel)" "CHR '')'' \<notin> set (print_selector sel)"
    using n by (simp_all add: print_selector_def)
qed

lemma parse_printed_rate:
  assumes "printable ParseFloat inside (RateExpr sel w)"
  shows "ParseExpr ParseFloat fo (print_expr (RateExpr sel w)) = Inr (RateExpr sel w)" "balanced (print_expr (RateExpr sel w))"
proof -
  have p: "printable_selector True sel" and wf: "wf_selector sel" and w: "0 < sint w" "sint w \<le> 9223372036854"
    using assms by (auto simp: printable_selector_def)
  note shape = print_selector_shape [OF wf]
  let ?win = "decimal (nat (sint w)) @ ''ms''" and ?s = "print_expr (RateExpr sel w)"
  let ?t = "print_selector sel @ CHR 0x5B # ?win @ [CHR 0x5D]"
  have s: "?s = ''rate'' @ CHR ''('' # ?t @ [CHR '')'']" by simp
  have dig: "\<forall>c \<in> set (decimal (nat (sint w))). is_digit c" using decimal_digits by (auto simp: list_all_iff)
  have win: "c \<notin> set ?win" if "c \<in> {CHR ''('', CHR '')'', CHR 0x5B, CHR 0x5D}" for c
    using dig that by (auto simp: is_digit_def less_eq_char_def)
  have t: "balanced ?t" using selector_no_paren [OF p] win by (intro balanced_plain) auto
  have "balanced ''rate''" by (rule balanced_plain) simp_all
  then show "balanced ?s" unfolding s using balanced_append [OF _ balanced_group [OF t], of "''rate''"] by simp
  have ts: "TrimSpace ?s = ?s" by (rule TrimSpace_trimmed) (simp add: trimmed_def graphic_def)
  have tt: "TrimSpace ?t = ?t" using shape(1,2) quote_graphic(6) by (intro TrimSpace_trimmed) (simp add: trimmed_def)
  have rest: "takeWhile word_char ?s = ''rate''" "dropWhile word_char ?s = CHR ''('' # ?t @ [CHR '')'']"
    unfolding s by (simp_all add: word_char_def)
  have tr: "TrimSpace (CHR ''('' # ?t @ [CHR '')'']) = CHR ''('' # ?t @ [CHR '')'']"
    using quote_graphic by (intro TrimSpace_trimmed) (simp add: trimmed_def)
  have tw: "TrimSpace ?win = ?win"
  proof (rule TrimSpace_trimmed)
    have "digits_val (decimal (nat (sint w))) = nat (sint w)" using decimal_digits by blast
    then have ne: "decimal (nat (sint w)) \<noteq> []" using w(1) by auto
    then have "is_digit (hd (decimal (nat (sint w))))" using dig by simp
    then have "graphic (hd (decimal (nat (sint w))))" using alnum_graphic by (simp add: is_alnum_def)
    then show "trimmed ?win" using ne by (simp add: trimmed_def graphic_def)
  qed
  have lo: "LastIndexByte (CHR 0x5B) ?t = Some (length (print_selector sel))" by (rule LastIndexByte_last) (use win in auto)
  have lc: "LastIndexByte (CHR 0x5D) ?t = Some (length ?t - 1)"
    using LastIndexByte_last [of "CHR 0x5D" "[]" "print_selector sel @ CHR 0x5B # ?win"] by simp
  have nil: "TrimSpace [] = []" by (rule TrimSpace_trimmed) (simp add: trimmed_def)
  have cut: "take (length ?t - 1 - (length (print_selector sel) + 1)) (drop (length (print_selector sel) + 1) ?t) = ?win"
    "take (length (print_selector sel)) ?t = print_selector sel" by simp_all
  have "parseRateExpr ?s = Inr (RateExpr sel w)"
  proof -
    have d: "drop (length ''rate'') ?s = CHR ''('' # ?t @ CHR '')'' # []" unfolding s by simp
    have pos: "\<not> w \<le>s 0" using w(1) by (simp add: word_sle_eq)
    have "\<not> length ?t - 1 < length (print_selector sel)" by simp
    then show ?thesis
      unfolding parseRateExpr_def d extract_group [OF t] sum.case prod.case nil tt Let_def lo lc option.case cut tw printed_window [OF w] shape(4)
      using pos parse_printed_selector [OF p] by simp
  qed
  then show "ParseExpr ParseFloat fo ?s = Inr (RateExpr sel w)"
    unfolding ParseExpr.simps [of ParseFloat fo ?s] Let_def ts rest tr by (simp add: opens_paren_def)
qed

lemma parse_printed:
  assumes pf: "\<And>s. CHR 0x7B \<in> set s \<Longrightarrow> ParseFloat s = None"
  shows "printable ParseFloat inside e \<Longrightarrow> ParseExpr ParseFloat fo (print_expr e) = Inr e \<and> (inside \<longrightarrow> balanced (print_expr e))
    \<and> print_expr e \<noteq> [] \<and> graphic (hd (print_expr e)) \<and> graphic (last (print_expr e))"
proof (induction e arbitrary: inside)
  case (SelectorExpr sel)
  then have "wf_selector sel" and i: "inside \<longrightarrow> printable_selector True sel" by (auto simp: printable_selector_def)
  note shape = print_selector_shape [OF this(1)]
  have "inside \<longrightarrow> balanced (print_selector sel)" using i selector_no_paren balanced_plain by blast
  then show ?case using parse_printed_selector_expr [OF SelectorExpr pf] shape by simp
next
  case (RateExpr sel w)
  then show ?case using parse_printed_rate [OF RateExpr] by (simp add: graphic_def)
next
  case (ScalarExpr v)
  then show ?case by simp
next
  case (SumExpr e gl)
  have e: "ParseExpr ParseFloat fo (print_expr e) = Inr e" "balanced (print_expr e)" "trimmed (print_expr e)" "print_expr e \<noteq> []"
    using SumExpr.IH [of True] SumExpr.prems by (simp_all add: trimmed_def)
  have gl: "\<forall>l \<in> set gl. label_name_re l" using SumExpr.prems by simp
  let ?g = "CHR ''('' # print_expr e @ CHR '')'' # []"
  let ?by = "if gl = [] then [] else CHR '' '' # ''by'' @ CHR ''('' # join_commas gl @ [CHR '')'']"
  let ?s = "''sum'' @ ?by @ ?g"
  have s: "print_expr (SumExpr e gl) = ?s" by simp
  have bg: "balanced ?g" using balanced_group [OF e(2)] by simp
  have bb: "balanced ?by"
  proof (cases "gl = []")
    case True
    then show ?thesis by (simp add: balanced_plain)
  next
    case False
    have "balanced '' by''" by (rule balanced_plain) simp_all
    from balanced_append [OF this balanced_group [OF printed_label_list(2) [OF gl False]]] False show ?thesis by simp
  qed
  have "balanced ''sum''" by (rule balanced_plain) simp_all
  then have bs: "balanced ?s" using balanced_append bb bg by blast
  have ts: "TrimSpace ?s = ?s" by (rule TrimSpace_trimmed) (simp add: trimmed_def graphic_def)
  have tg: "TrimSpace ?g = ?g" using quote_graphic by (intro TrimSpace_trimmed) (simp add: trimmed_def)
  have nil: "TrimSpace [] = []" by (rule TrimSpace_trimmed) (simp add: trimmed_def)
  have word: "takeWhile word_char ?s = ''sum''" "dropWhile word_char ?s = ?by @ ?g" "drop (length ''sum'') ?s = ?by @ ?g"
    by (simp_all add: word_char_def)
  note te = TrimSpace_trimmed [OF e(3)]
  have "is_sum_call (TrimSpace (?by @ ?g)) \<and> sum_parts ?s = Inr (gl, print_expr e)"
  proof (cases "gl = []")
    case True
    have "is_sum_call ?g" by (simp add: is_sum_call_def opens_paren_def)
    moreover have "sum_parts ?s = Inr ([], print_expr e)"
      using True extract_group [OF e(2), of "[]"] nil te tg unfolding sum_parts_def word(3) Let_def by simp
    ultimately show ?thesis using True tg by simp
  next
    case False
    note L = printed_label_list [OF gl False]
    let ?l = "CHR ''('' # join_commas gl @ CHR '')'' # ?g"
    have by': "?by @ ?g = CHR '' '' # ''by'' @ ?l" using False by simp
    have tb: "TrimSpace (?by @ ?g) = ''by'' @ ?l"
      unfolding by' using quote_graphic by (intro TrimSpace_blank) (simp_all add: trimmed_def graphic_def)
    have tl': "TrimSpace ?l = ?l" using quote_graphic by (intro TrimSpace_trimmed) (simp add: trimmed_def)
    have b2: "take 2 (''by'' @ ?l) = ''by''" "drop 2 (''by'' @ ?l) = ?l" by simp_all
    have bc: "by_clause ?l" by (simp add: by_clause_def)
    have "is_sum_call (TrimSpace (?by @ ?g))" unfolding tb is_sum_call_def b2 using bc by simp
    moreover have "sum_parts ?s = Inr (gl, print_expr e)"
      unfolding sum_parts_def word(3) Let_def tb b2 tl' extract_group [OF L(2)] sum.case prod.case L(1)
      using bc tg nil te extract_group [OF e(2), of "[]"] by simp
    ultimately show ?thesis by blast
  qed
  then have "ParseExpr ParseFloat fo ?s = Inr (SumExpr e gl)"
    unfolding ParseExpr.simps [of ParseFloat fo ?s] Let_def ts word(1,2) using e(1) by simp
  then show ?case unfolding s using bs by (simp add: graphic_def)
qed

section \<open>Properties\<close>

text \<open>
  C36: parsing yields well-formed expressions only. Whatever the text, and whatever \<^verbatim>\<open>strconv.ParseFloat\<close>
  accepts, a parsed expression has valid metric and label names throughout, every rate window is positive
  and small enough that its nanoseconds fit an int64, and every grouping label is a valid name.
\<close>

theorem parsed_expr_well_formed:
  assumes "ParseExpr ParseFloat fo s = Inr e"
  shows "wf_expr e"
  using assms by (rule ParseExpr_wf)

text \<open>
  C35: parsing reads back what was printed. An expression with valid names, positive windows and values
  without a double quote (and, inside a call, without parentheses) is the result of parsing its text,
  provided \<^verbatim>\<open>strconv.ParseFloat\<close> rejects text with an opening brace, as its documentation says.
\<close>

theorem parse_print_roundtrip:
  assumes "\<And>s. CHR 0x7B \<in> set s \<Longrightarrow> ParseFloat s = None" "printable ParseFloat False e"
  shows "ParseExpr ParseFloat fo (print_expr e) = Inr e"
  using parse_printed [OF assms] by blast

text \<open>
  C37: durations are exact and never overflow. A text is a duration exactly when it is \<^verbatim>\<open>0\<close> or a non-empty
  sequence of numbers with units in strictly decreasing order whose total, computed without wrap-around,
  fits an int64 of nanoseconds; the result is that total, and in milliseconds its quotient.
\<close>

theorem duration_exact:
  "(ParsePromDurationNanos s = Inr v \<longleftrightarrow> (s = ''0'' \<and> v = 0) \<or>
     (\<exists>cs. cs \<noteq> [] \<and> comps_ok 8 cs \<and> s = comps_text cs \<and> comps_nanos cs < 2 ^ 63 \<and> sint v = comps_nanos cs))
   \<and> (ParsePromDurationNanos s = Inr v \<longrightarrow> 0 \<le> sint v \<and>
     (\<exists>ms. ParsePromDuration s = Inr ms \<and> sint ms = sint v div 1000000))"
proof -
  have pos: "0 \<le> sint v" if "ParsePromDurationNanos s = Inr v"
    using that comps_nanos_pos unfolding ParsePromDurationNanos_iff by fastforce
  have ms: "sint (word_of_int (sint v sdiv nanosPerMilli) :: i64) = sint v div 1000000" if "0 \<le> sint v"
  proof -
    have q: "sint v sdiv nanosPerMilli = sint v div 1000000" using that by (simp add: sdiv_nonneg nanosPerMilli_def)
    have "sint v div 1000000 \<le> sint v" "0 \<le> sint v div 1000000" using that zdiv_mono2 [of "sint v" 1 1000000] by simp_all
    moreover have "sint v < 2 ^ 63" using sint_range_size [of v] by (simp add: word_size)
    ultimately show ?thesis unfolding q by (intro sint_of_fits) auto
  qed
  show ?thesis
    using ParsePromDurationNanos_iff [of s v] pos ms by (auto simp: ParsePromDuration_def)
qed

text \<open>
  C38: the one input on which a duration panics. \<^verbatim>\<open>ParsePromDurationNanos\<close> slices past the end of its input
  exactly when the text is a valid prefix (nothing, or components whose total fits) followed by a number
  and one last byte outside ASCII, which the code turns into a two-byte unit before it cuts it off.
\<close>

theorem duration_panic_exact:
  "ParsePromDurationNanos s = Inl SliceOutOfRange \<longleftrightarrow>
     (\<exists>cs d c. comps_ok 8 cs \<and> comps_nanos cs < 2 ^ 63 \<and> s = comps_text cs @ d @ [c] \<and> d \<noteq> [] \<and> list_all is_digit d
       \<and> int (digits_val d) < 2 ^ 63 \<and> 0x80 \<le> (of_char c :: nat))"
  unfolding ParsePromDurationNanos_panics panic_text_def by auto

theorem duration_panic_exact_witness:
  "ParsePromDurationNanos (''5'' @ [CHR 0xFF]) = Inl SliceOutOfRange \<and> ParsePromDurationNanos ''5m'' \<noteq> Inl SliceOutOfRange"
proof
  show "ParsePromDurationNanos (''5'' @ [CHR 0xFF]) = Inl SliceOutOfRange"
    unfolding duration_panic_exact
    by (intro exI [of _ "[]"] exI [of _ "''5''"] exI [of _ "CHR 0xFF"])
      (simp add: comps_text_def is_digit_def less_eq_char_def digits_val_def char_digit_def)
  have "c = CHR ''m''" if "''5m'' = xs @ d @ [c]" for xs d c
    using arg_cong [OF that, of last] by simp
  then show "ParsePromDurationNanos ''5m'' \<noteq> Inl SliceOutOfRange"
    unfolding duration_panic_exact by fastforce
qed

text \<open>A sum of rates, read back; the float parser stands for one that takes no text with a brace.\<close>

definition demo_parse_float :: "string \<Rightarrow> float64 option" where
  "demo_parse_float s = (if s = ''1'' then Some 0x3FF0000000000000 else None)"

definition demo_expr :: Expr where
  "demo_expr = SumExpr (RateExpr \<lparr>sel_MetricName = ''up'', sel_Matchers = [(''job'', ''a,b}'')]\<rparr> 300000) [''job'', ''zone'']"

lemma demo_printable: "printable demo_parse_float False demo_expr"
  by (simp add: demo_expr_def printable_selector_def wf_selector_def metric_name_re_def label_name_re_def
      is_alnum_def is_lower_def is_upper_def is_digit_def less_eq_char_def)

lemma demo_no_brace: "CHR 0x7B \<in> set s \<Longrightarrow> demo_parse_float s = None"
  by (auto simp: demo_parse_float_def)

theorem parse_print_roundtrip_witness:
  "\<forall>fo. ParseExpr demo_parse_float fo (print_expr demo_expr) = Inr demo_expr"
  by (rule allI) (rule parse_print_roundtrip [OF demo_no_brace demo_printable])

theorem parsed_expr_well_formed_witness: "wf_expr demo_expr"
proof -
  have "ParseExpr demo_parse_float fo (print_expr demo_expr) = Inr demo_expr" for fo
    using parse_printed [of demo_parse_float, OF demo_no_brace demo_printable] by blast
  then show ?thesis by (rule parsed_expr_well_formed)
qed

theorem duration_exact_witness:
  "\<exists>v. ParsePromDurationNanos ''1h30m'' = Inr v \<and> sint v = 5400000000000"
proof -
  have d: "ParsePromDurationNanos ''1h30m'' = Inr 5400000000000 \<longleftrightarrow> (''1h30m'' = ''0'' \<and> (5400000000000 :: i64) = 0) \<or>
     (\<exists>cs. cs \<noteq> [] \<and> comps_ok 8 cs \<and> ''1h30m'' = comps_text cs \<and> comps_nanos cs < 2 ^ 63 \<and> sint (5400000000000 :: i64) = comps_nanos cs)"
    using duration_exact [of "''1h30m''" 5400000000000] by blast
  let ?cs = "[(''1'', ''h''), (''30'', ''m'')]"
  have "comps_ok 8 ?cs" "''1h30m'' = comps_text ?cs" "comps_nanos ?cs = 5400000000000"
    by (simp_all add: promDurationUnit_def is_digit_def less_eq_char_def comps_text_def digits_val_def char_digit_def)
  then have "ParsePromDurationNanos ''1h30m'' = Inr 5400000000000"
    unfolding d by (intro disjI2 exI [of _ ?cs]) simp
  then show ?thesis by (intro exI [of _ 5400000000000]) simp
qed

text \<open>
  Two things the parser does that a reader of the grammar may not expect: a parenthesis inside a quoted
  value ends a call early, although the same selector alone is accepted, and a metric called as a number
  is spelled for \<^verbatim>\<open>strconv.ParseFloat\<close> (\<^verbatim>\<open>inf\<close>, \<^verbatim>\<open>nan\<close>) is a constant.
\<close>

definition quoted_paren :: Selector where
  "quoted_paren = \<lparr>sel_MetricName = ''up'', sel_Matchers = [(''path'', '')'')]\<rparr>"

lemma quoted_paren_rejected:
  "ParseSelector (print_selector quoted_paren) = Inr quoted_paren \<and>
   parseRateExpr (''rate('' @ print_selector quoted_paren @ ''[5m])'') = Inl AfterParen"
proof
  have "printable_selector False quoted_paren"
    by (simp add: quoted_paren_def printable_selector_def wf_selector_def metric_name_re_def label_name_re_def is_alnum_def is_lower_def less_eq_char_def)
  then show "ParseSelector (print_selector quoted_paren) = Inr quoted_paren" by (rule parse_printed_selector)
  have t: "TrimSpace (CHR 0x22 # ''}[5m])'') = CHR 0x22 # ''}[5m])''" by (rule TrimSpace_trimmed) (simp add: trimmed_def graphic_def)
  have p: "print_selector quoted_paren = ''up{path='' @ CHR 0x22 # '')'' @ CHR 0x22 # ''}''"
    by (simp add: quoted_paren_def print_selector_def print_matcher_def)
  have d: "drop (length ''rate'') (''rate('' @ print_selector quoted_paren @ ''[5m])'') = CHR ''('' # (''up{path='' @ [CHR 0x22]) @ CHR '')'' # CHR 0x22 # ''}[5m])''"
    by (simp add: p)
  have "balanced (''up{path='' @ [CHR 0x22])" by (rule balanced_plain) simp_all
  note e = extract_group [OF this, of "CHR 0x22 # ''}[5m])''"]
  show "parseRateExpr (''rate('' @ print_selector quoted_paren @ ''[5m])'') = Inl AfterParen"
    unfolding parseRateExpr_def d e sum.case prod.case t by simp
qed

lemma number_named_metric:
  assumes "ParseFloat ''inf'' = Some v"
  shows "ParseExpr ParseFloat fo ''inf'' = Inr (ScalarExpr v) \<and> metric_name_re ''inf''"
proof -
  have t: "TrimSpace ''inf'' = ''inf''" by (rule TrimSpace_trimmed) (simp add: trimmed_def graphic_def)
  have n: "TrimSpace [] = []" by (rule TrimSpace_trimmed) (simp add: trimmed_def)
  have "takeWhile word_char ''inf'' = ''inf''" "dropWhile word_char ''inf'' = []" by (simp_all add: word_char_def)
  then have "ParseExpr ParseFloat fo ''inf'' = Inr (ScalarExpr v)"
    unfolding ParseExpr.simps [of ParseFloat fo "''inf''"] Let_def t using assms
    by (simp add: n t opens_paren_def tryParseArithmetic_def)
  moreover have "metric_name_re ''inf''"
    by (simp add: metric_name_re_def is_alnum_def is_lower_def less_eq_char_def)
  ultimately show ?thesis by blast
qed

end
