(* ===== verification/Spec2Isabelle.thy ===== *)
theory Spec2Isabelle
  imports WalStore LogWal LogChunk Cluster Metadata Planner Sink Parser
begin

text \<open>
  A verification development of the observability platform, a metrics and logs backend in Go.

  \<^bold>\<open>The program.\<close> A gateway receives batches of samples and log lines, stamps each batch with a write
  generation and sends every item to the ingesters a token ring assigns to its series
  (\<^verbatim>\<open>internal/rpc/router.go\<close>, \<^verbatim>\<open>internal/ring\<close>); it answers once every key has a majority or cannot
  have one. An ingester checks its drain gate and the tenants' limits (\<^verbatim>\<open>internal/drain\<close>,
  \<^verbatim>\<open>internal/limits\<close>), writes a WAL record (\<^verbatim>\<open>internal/storage/wal\<close>, \<^verbatim>\<open>logwal\<close>) and appends to its
  head (\<^verbatim>\<open>internal/metrics/store.go\<close>), which keeps compressed chunks (\<^verbatim>\<open>internal/storage/chunk\<close>) and an
  inverted index (\<^verbatim>\<open>internal/storage/index\<close>). A flush sends sealed chunks to the block stores
  (\<^verbatim>\<open>internal/metrics/headstore.go\<close>, \<^verbatim>\<open>internal/rpc/replicated_sink.go\<close>), drops them from the head once
  a quorum of stores has them, and only then deletes WAL segments (\<^verbatim>\<open>internal/metrics/walstore.go\<close>);
  what a store missed is queued for another try (\<^verbatim>\<open>internal/rpc/straggler.go\<close>). A querier reads all
  ingesters, tolerating outages that replication covers, then the stores, and evaluates queries over the
  merged source (\<^verbatim>\<open>internal/metrics/merge.go\<close>, \<^verbatim>\<open>query.go\<close>, \<^verbatim>\<open>eval.go\<close>); a compactor decides which blocks
  to merge (\<^verbatim>\<open>internal/compactor/planner.go\<close>).

  \<^bold>\<open>Conventions.\<close> A Go integer of fixed width is a word of that width, signed ones read with
  \<^const>\<open>sint\<close>, so arithmetic wraps as in Go. A \<^verbatim>\<open>string\<close> is a list of bytes as characters. A map is an
  association list; where the code's loop over a map is visible, its order is an argument, and the
  statements hold for all of them. An error is a value of a datatype, each error branch one constructor
  or one use of it; error texts and wrapping are not modelled. I/O failures, answers of other processes,
  clock readings and the order in which goroutines deliver are arguments or free choices of a step.
  An operation under a mutex is one function on the state.
\<close>

text \<open>
  \<^bold>\<open>Codecs.\<close>

  \<^item> \<^theory_text>\<open>Prelude\<close>: types, big-endian and varint encodings (\<^verbatim>\<open>encoding/binary\<close>), \<^verbatim>\<open>sort.Search\<close>, lemmas on
    words, ascending lists and association lists that the components share.
  \<^item> \<^theory_text>\<open>Chunk\<close>, \<^theory_text>\<open>Chunk_Correct\<close>: \<^verbatim>\<open>internal/storage/chunk/chunk.go\<close>. The record \<^verbatim>\<open>chunk\<close> is the Go struct
    with its bit stream; \<^verbatim>\<open>Append\<close>, the iterator, \<^verbatim>\<open>Bytes\<close> and the validating \<^verbatim>\<open>FromBytes\<close> are one definition
    each. The relation \<^verbatim>\<open>chunk_rep\<close> says that a state encodes a list of samples: appending keeps it, iterating
    inverts it, serializing keeps it; the properties are the two round trips and the sealing rule.
  \<^item> \<^theory_text>\<open>LogChunk\<close>: \<^verbatim>\<open>internal/storage/logchunk/logchunk.go\<close> with the CRC-32 written out; \<^verbatim>\<open>compress/flate\<close> is
    a parameter. Round trip, and refusal of every single changed byte, truncation and extension.
  \<^item> \<^theory_text>\<open>Segments\<close>, \<^theory_text>\<open>Wal\<close>, \<^theory_text>\<open>LogWal\<close>: both WALs. \<^theory_text>\<open>Segments\<close> holds what they share, the segment writer
    (\<^verbatim>\<open>SegWriter\<close>) with its sync and rotation rules and the replay loop; the locale \<^verbatim>\<open>framed_log\<close> states what
    they need of the record codec and holds the recovery lemmas; \<^theory_text>\<open>Wal\<close> and \<^theory_text>\<open>LogWal\<close> interpret it on their
    codecs. Properties: what replay returns after a host crash, for every place where the tail can be cut;
    the one cut at which it fails; the checkpoint of the log WAL.

  \<^bold>\<open>Series and placement.\<close>

  \<^item> \<^theory_text>\<open>Labels\<close>: \<^verbatim>\<open>internal/tenant/tenant.go\<close>, \<^verbatim>\<open>internal/labels\<close> and the label rules of metrics and logs.
    Fingerprints do not depend on map order; the tenant label is recovered exactly.
  \<^item> \<^theory_text>\<open>Postings\<close>: \<^verbatim>\<open>internal/storage/index/postings.go\<close>. The locales \<^verbatim>\<open>label_index\<close> and
    \<^verbatim>\<open>mutable_label_index\<close> are the contract of an inverted index, interpreted on it.
  \<^item> \<^theory_text>\<open>Ring\<close>: \<^verbatim>\<open>internal/ring/ring.go\<close>. A key's preference list is the whole walk round the ring; replica sets
    are its prefixes, and a new member is only inserted into it.
  \<^item> \<^theory_text>\<open>Planner\<close>: \<^verbatim>\<open>internal/compactor/planner.go\<close>. The plan is exactly a window that must be compacted.

  \<^bold>\<open>The ingester.\<close>

  \<^item> \<^theory_text>\<open>Gates\<close>: \<^verbatim>\<open>internal/limits/gate.go\<close>, \<^verbatim>\<open>internal/drain/gate.go\<close>. Concurrent admissions are a step
    relation over the map of mutexes, the mutexes, the counter and one program counter per batch; the drain
    gate is another. The locale \<^verbatim>\<open>active_counter\<close> is the counter a limit gate consults.
  \<^item> \<^theory_text>\<open>Samples\<close>: \<^verbatim>\<open>internal/metrics/source.go\<close>, \<^verbatim>\<open>merge.go\<close>. Selections, the last-write-wins rule (locale
    \<^verbatim>\<open>lww\<close>), merging, concurrent reads with tolerated outages; the locale \<^verbatim>\<open>source\<close> is what a select must
    answer.
  \<^item> \<^theory_text>\<open>MemStore\<close>: \<^verbatim>\<open>internal/metrics/store.go\<close>. The record \<^verbatim>\<open>MemoryStore\<close> is the Go struct, chunks held
    through pointers because discarding compares them. \<^verbatim>\<open>mem_inv\<close> is the invariant, \<^verbatim>\<open>store_step\<close> the
    operations, \<^verbatim>\<open>holds_of\<close> the abstraction to the samples held. It interprets \<^verbatim>\<open>source\<close> and
    \<^verbatim>\<open>active_counter\<close>.
  \<^item> \<^theory_text>\<open>HeadStore\<close>: \<^verbatim>\<open>internal/metrics/headstore.go\<close>. Batching with its byte estimates, the flush against any
    sink, the generation floor over runs with restarts (\<^verbatim>\<open>head_step\<close>).
  \<^item> \<^theory_text>\<open>WalStore\<close>: \<^verbatim>\<open>internal/metrics/walstore.go\<close>, \<^verbatim>\<open>internal/app/storage.go\<close>. \<^verbatim>\<open>wal_step\<close> interleaves
    appends, the stages of a flush, checkpoints, segment deletion and restarts; its invariant gives that no
    accepted write is lost. The drain loop may run forever in Go, so it is a \<^verbatim>\<open>partial_function\<close> and that it
    returns is a theorem.
\<close>

text \<open>
  \<^bold>\<open>Between processes.\<close>

  \<^item> \<^theory_text>\<open>Router\<close>: \<^verbatim>\<open>internal/rpc/router.go\<close>. Stamping, routing, the collector as a function of the arrival
    order; the locale \<^verbatim>\<open>replica_sets\<close> is what it needs of a ring, interpreted on \<^theory_text>\<open>Ring\<close>.
  \<^item> \<^theory_text>\<open>Cluster\<close>: the write path of \<^theory_text>\<open>Router\<close> and the tolerant read of \<^theory_text>\<open>Samples\<close> as
    \<^verbatim>\<open>internal/app/querier.go\<close> sets it up, composed: reads see what a quorum acknowledged.
  \<^item> \<^theory_text>\<open>Sink\<close>: \<^verbatim>\<open>internal/rpc/replicated_sink.go\<close>, \<^verbatim>\<open>straggler.go\<close>. The replicated flush for any answers and
    any order of the maps, a head flushing into it, the re-send queue under any interleaving.

  \<^bold>\<open>Queries.\<close>

  \<^item> \<^theory_text>\<open>Query\<close>: \<^verbatim>\<open>internal/metrics/query.go\<close>, \<^verbatim>\<open>eval.go\<close>, \<^verbatim>\<open>expr.go\<close>. Selectors, rates, sums and scalars over
    any source; the loop over ticks is a \<^verbatim>\<open>partial_function\<close>, shown to end while end plus step does not
    overflow. The locale \<^verbatim>\<open>series_source\<close> is a source with a fixed order of series, interpreted on the head.
    Float arithmetic is a record of operations; the theorems hold whatever they compute.
  \<^item> \<^theory_text>\<open>Metadata\<close>: the metadata queries of \<^verbatim>\<open>query.go\<close> and \<^verbatim>\<open>tenant_source.go\<close>, characterised as sets.
  \<^item> \<^theory_text>\<open>Parser\<close>: \<^verbatim>\<open>selector.go\<close>, \<^verbatim>\<open>duration.go\<close>, \<^verbatim>\<open>expr_parser.go\<close> of \<^verbatim>\<open>internal/metrics\<close>. Every error branch;
    round trip with a printer, well-formed results, exact durations, and the one input shape that panics.

  \<^bold>\<open>Bounds and fuel.\<close> No definition uses fuel: recursion that is not structural has a termination proof, and
  the two loops that may not end are partial functions. The recovery theorems of the metrics WAL assume fewer
  than 1000000 segments, where the lexical order of the file names is the numeric one; those of the log WAL
  and of restarts assume segment numbers below \<^verbatim>\<open>2^63\<close>. Fingerprint collisions are excluded where a theorem
  identifies series by label set. The recovery theorems start from writes without I/O failure; no accepted
  write is lost also when syncs and rotations fail, but not after a short write, which leaves part of a
  record in a segment that is still in use (lemma \<^verbatim>\<open>wal_short_write_poisons\<close>).

  \<^bold>\<open>Not modelled.\<close> The files of blocks and the block store (\<^verbatim>\<open>internal/storage/block\<close>,
  \<^verbatim>\<open>internal/metrics/blockstore.go\<close>): a store is its answers. The head, the chunk store and the query language
  of logs (\<^verbatim>\<open>internal/logs\<close>), of which labels, WAL, chunks, admission and routing are modelled. HTTP, JSON, the
  assembly of the processes, configuration and observability, which call what is modelled. Cancellation of
  contexts, where leaving early changes no state. Timeouts are answers.
\<close>

end
